(* ===== verification/Prelude.thy ===== *)
theory Prelude
  imports Main "HOL-Library.List_Lexorder" "HOL-Library.Char_ord" "HOL-Library.Product_Lexorder" "HOL-Library.AList"
begin

text \<open>
  Shared vocabulary of the debproxy development.

  A Go \<open>string\<close> or \<open>[]byte\<close> is a HOL \<open>string\<close> (a list of \<open>char\<close>, i.e. of bytes); bytes are
  ordered by their value and strings lexicographically, as Go orders them.  The functions of
  Go's \<open>strings\<close>, \<open>bufio\<close>, \<open>strconv\<close> and \<open>sort\<close> packages that the program calls are
  modelled here on the ASCII range: white space and letter case follow the ASCII branches of the
  Go library, and bytes from 0x80 upwards are neither white space nor letters.
  A Go \<open>map\<close> is a HOL map; where the program's result can depend on the unspecified iteration
  order of a \<open>map\<close>, the order is an explicit list argument of the definition.

  The last section holds the interface of a three-way comparison, stated as a locale, with the
  lemmas about "keep the newest item per key" loops that the merge and the publisher rely on.
\<close>

named_theorems go_strings \<open>equations of the modelled Go string functions\<close>
named_theorems bool_elims \<open>facts that turn a boolean test of the model into its meaning\<close>
named_theorems string_eval \<open>equations that evaluate the string functions on literals\<close>


section \<open>Bytes and strings\<close>

abbreviation NL :: char where "NL \<equiv> CHR 0x0A"
abbreviation CR :: char where "CR \<equiv> CHR 0x0D"
abbreviation TAB :: char where "TAB \<equiv> CHR 0x09"
abbreviation NUL :: char where "NUL \<equiv> CHR 0x00"

definition is_space :: "char \<Rightarrow> bool" where
  "is_space c \<longleftrightarrow> c = CHR '' '' \<or> c = TAB \<or> c = NL \<or> c = CHR 0x0B \<or> c = CHR 0x0C \<or> c = CR"

definition is_digit :: "char \<Rightarrow> bool" where
  "is_digit c \<longleftrightarrow> CHR ''0'' \<le> c \<and> c \<le> CHR ''9''"

definition byte_val :: "char \<Rightarrow> int" where
  "byte_val c = int (of_char c)"

definition lower_char :: "char \<Rightarrow> char" where
  "lower_char c = (if CHR ''A'' \<le> c \<and> c \<le> CHR ''Z'' then char_of ((of_char c :: nat) + 32) else c)"

definition to_lower :: "string \<Rightarrow> string" where
  "to_lower s = map lower_char s"

definition equal_fold :: "string \<Rightarrow> string \<Rightarrow> bool" where
  "equal_fold s t \<longleftrightarrow> to_lower s = to_lower t"

definition trim_left :: "(char \<Rightarrow> bool) \<Rightarrow> string \<Rightarrow> string" where
  "trim_left P s = dropWhile P s"

definition trim_right :: "(char \<Rightarrow> bool) \<Rightarrow> string \<Rightarrow> string" where
  "trim_right P s = rev (dropWhile P (rev s))"

definition trim :: "(char \<Rightarrow> bool) \<Rightarrow> string \<Rightarrow> string" where
  "trim P s = trim_right P (trim_left P s)"

definition trim_space :: "string \<Rightarrow> string" where
  "trim_space s = trim is_space s"

definition has_prefix :: "string \<Rightarrow> string \<Rightarrow> bool" where
  "has_prefix s p \<longleftrightarrow> take (length p) s = p"

definition has_suffix :: "string \<Rightarrow> string \<Rightarrow> bool" where
  "has_suffix s p \<longleftrightarrow> length p \<le> length s \<and> drop (length s - length p) s = p"

definition trim_prefix :: "string \<Rightarrow> string \<Rightarrow> string" where
  "trim_prefix s p = (if has_prefix s p then drop (length p) s else s)"

definition trim_suffix :: "string \<Rightarrow> string \<Rightarrow> string" where
  "trim_suffix s p = (if has_suffix s p then take (length s - length p) s else s)"

definition cut_prefix :: "string \<Rightarrow> string \<Rightarrow> string option" where
  "cut_prefix s p = (if has_prefix s p then Some (drop (length p) s) else None)"

text \<open>\<open>strings.Cut\<close> at a single byte: the text before and after its first occurrence.  The
  program's uses of \<open>IndexByte\<close> followed by slicing are uses of this function.\<close>

definition cut :: "char \<Rightarrow> string \<Rightarrow> (string \<times> string) option" where
  "cut c s = (if c \<in> set s then Some (takeWhile (\<lambda>x. x \<noteq> c) s, tl (dropWhile (\<lambda>x. x \<noteq> c) s))
              else None)"

text \<open>The same at the last occurrence (\<open>LastIndexByte\<close> followed by slicing).\<close>

definition cut_last :: "char \<Rightarrow> string \<Rightarrow> (string \<times> string) option" where
  "cut_last c s = (case cut c (rev s) of None \<Rightarrow> None | Some (a, b) \<Rightarrow> Some (rev b, rev a))"

text \<open>\<open>strings.Split\<close> with a one-byte separator.\<close>

fun split_on :: "char \<Rightarrow> string \<Rightarrow> string list" where
  "split_on c [] = [[]]"
| "split_on c (x # xs) =
     (if x = c then [] # split_on c xs
      else (case split_on c xs of [] \<Rightarrow> [[x]] | l # ls \<Rightarrow> (x # l) # ls))"

fun join :: "string \<Rightarrow> string list \<Rightarrow> string" where
  "join sep [] = []"
| "join sep [x] = x"
| "join sep (x # y # ys) = x @ sep @ join sep (y # ys)"

text \<open>\<open>strings.Fields\<close>: the maximal runs of non-space bytes.\<close>

function str_fields :: "string \<Rightarrow> string list" where
  "str_fields s =
     (let t = dropWhile is_space s
      in if t = [] then []
         else takeWhile (\<lambda>c. \<not> is_space c) t # str_fields (dropWhile (\<lambda>c. \<not> is_space c) t))"
  by pat_completeness auto
termination
proof (relation "measure length")
  fix s t :: string
  assume t: "t = dropWhile is_space s" and ne: "t \<noteq> []"
  obtain x xs where x: "t = x # xs" using ne by (meson neq_Nil_conv)
  with t have "\<not> is_space x" by (metis hd_dropWhile list.sel(1) ne)
  then have "length (dropWhile (\<lambda>c. \<not> is_space c) t) < length t"
    using x by (simp add: length_dropWhile_le less_Suc_eq_le)
  also have "length t \<le> length s" by (simp add: t length_dropWhile_le)
  finally show "(dropWhile (\<lambda>c. \<not> is_space c) t, s) \<in> measure length" by simp
qed simp

declare str_fields.simps [simp del]

text \<open>\<open>strings.Index\<close>: the position of the first occurrence of a substring.\<close>

fun index_sub :: "string \<Rightarrow> string \<Rightarrow> nat option" where
  "index_sub [] p = (if p = [] then Some 0 else None)"
| "index_sub (x # xs) p =
     (if has_prefix (x # xs) p then Some 0 else map_option Suc (index_sub xs p))"

definition contains_sub :: "string \<Rightarrow> string \<Rightarrow> bool" where
  "contains_sub s p \<longleftrightarrow> index_sub s p \<noteq> None"

text \<open>\<open>bufio.Scanner\<close> with \<open>ScanLines\<close> over a complete input.  A line is what stands before a
  newline, or what is left at the end of the input when that is not empty; one trailing carriage
  return is dropped.  A line that fills the token buffer ends the scan with \<open>ErrTooLong\<close>: the
  boolean is set and the lines before it have been delivered.\<close>

definition raw_lines :: "string \<Rightarrow> string list" where
  "raw_lines s = (let ls = split_on NL s in if last ls = [] then butlast ls else ls)"

definition drop_cr :: "string \<Rightarrow> string" where
  "drop_cr l = (if l \<noteq> [] \<and> last l = CR then butlast l else l)"

definition scan_lines :: "nat \<Rightarrow> string \<Rightarrow> string list \<times> bool" where
  "scan_lines max_token s =
     (let ls = raw_lines s; ok = takeWhile (\<lambda>l. length l < max_token) ls
      in (map drop_cr ok, length ok < length ls))"

text \<open>64-bit two's complement wrap-around of Go's \<open>int\<close> and \<open>int64\<close>.\<close>

definition wrap64 :: "int \<Rightarrow> int" where
  "wrap64 x = (x + 2 ^ 63) mod 2 ^ 64 - 2 ^ 63"

text \<open>\<open>strconv.ParseInt(s, 10, 64)\<close> and \<open>strconv.Atoi\<close>: an optional sign, at least one decimal
  digit and nothing else, within the 64-bit range; anything else is an error.\<close>

definition digits_val :: "string \<Rightarrow> int" where
  "digits_val s = foldl (\<lambda>n c. 10 * n + (byte_val c - 48)) 0 s"

definition parse_int :: "string \<Rightarrow> int option" where
  "parse_int s =
     (let neg = has_prefix s ''-''; ds = (if neg \<or> has_prefix s ''+'' then drop 1 s else s)
      in if ds = [] \<or> \<not> list_all is_digit ds then None
         else let v = (if neg then - digits_val ds else digits_val ds)
              in if - (2 ^ 63) \<le> v \<and> v < 2 ^ 63 then Some v else None)"

text \<open>\<open>strconv.FormatInt(n, 10)\<close>.\<close>

fun nat_digits :: "nat \<Rightarrow> string" where
  "nat_digits n = (if n < 10 then [char_of (48 + n)] else nat_digits (n div 10) @ [char_of (48 + n mod 10)])"

declare nat_digits.simps [simp del]

definition format_int :: "int \<Rightarrow> string" where
  "format_int i = (if i < 0 then ''-'' @ nat_digits (nat (- i)) else nat_digits (nat i))"

text \<open>Three-way comparison by a linear order (\<open>strings.Compare\<close>, \<open>compareIntPrim\<close>).\<close>

definition compare_of :: "'a::linorder \<Rightarrow> 'a \<Rightarrow> int" where
  "compare_of x y = (if x < y then -1 else if y < x then 1 else 0)"


section \<open>Lemmas about strings\<close>

lemma split_on_not_Nil [simp]: "split_on c s \<noteq> []"
  by (induction s) (auto split: list.splits)

lemma split_on_no_sep [go_strings]: "c \<notin> set l \<Longrightarrow> split_on c l = [l]"
  by (induction l) auto

lemma split_on_append [go_strings]:
  "c \<notin> set l \<Longrightarrow> split_on c (l @ c # s) = l # split_on c s"
  by (induction l) auto

lemma split_on_pieces: "l \<in> set (split_on c s) \<Longrightarrow> c \<notin> set l"
  by (induction s arbitrary: l) (auto split: list.splits if_splits)

lemma split_on_piece_sub:
  "l \<in> set (split_on c s) \<Longrightarrow> set l \<subseteq> set s \<and> length l \<le> length s"
proof (induction s arbitrary: l)
  case (Cons x s)
  obtain a as where s: "split_on c s = a # as" by (cases "split_on c s") auto
  have IH: "set l' \<subseteq> set s \<and> length l' \<le> length s" if "l' \<in> set (a # as)" for l'
    using that Cons.IH s by auto
  show ?case using Cons.prems IH[of a] IH[of l] s by (auto split: if_splits)
qed simp

lemma join_Cons: "xs \<noteq> [] \<Longrightarrow> join sep (x # xs) = x @ sep @ join sep xs"
  by (cases xs) auto

lemma join_Cons_head: "join sep ((a # x) # xs) = a # join sep (x # xs)"
  by (cases xs) auto

lemma join_split_on [simp]: "join [c] (split_on c s) = s"
proof (induction s)
  case (Cons x s)
  then show ?case
    by (cases "split_on c s") (auto simp: join_Cons join_Cons_head)
qed simp

lemma split_on_join:
  "xs \<noteq> [] \<Longrightarrow> (\<And>x. x \<in> set xs \<Longrightarrow> c \<notin> set x) \<Longrightarrow> split_on c (join [c] xs) = xs"
proof (induction xs)
  case (Cons x xs)
  then show ?case
    by (cases "xs = []") (simp_all add: split_on_no_sep join_Cons split_on_append)
qed simp

lemma set_join_sub: "set (join sep xs) \<subseteq> set sep \<union> (\<Union>x\<in>set xs. set x)"
proof (induction xs)
  case (Cons x xs)
  then show ?case by (cases "xs = []") (auto simp: join_Cons)
qed simp

lemma cut_SomeD:
  assumes "cut c s = Some (a, b)"
  shows "s = a @ c # b" and "c \<notin> set a"
proof -
  from assms have c: "c \<in> set s" and a: "a = takeWhile (\<lambda>x. x \<noteq> c) s"
    and b: "b = tl (dropWhile (\<lambda>x. x \<noteq> c) s)"
    by (auto simp: cut_def split: if_splits)
  from c have ne: "dropWhile (\<lambda>x. x \<noteq> c) s \<noteq> []" by (auto simp: dropWhile_eq_Nil_conv)
  have "hd (dropWhile (\<lambda>x. x \<noteq> c) s) = c" using hd_dropWhile[OF ne] by simp
  with ne b have "dropWhile (\<lambda>x. x \<noteq> c) s = c # b"
    by (cases "dropWhile (\<lambda>x. x \<noteq> c) s") simp_all
  then show "s = a @ c # b" using a by (metis takeWhile_dropWhile_id)
  show "c \<notin> set a" using a by (metis (mono_tags) set_takeWhileD)
qed

lemma cut_append [go_strings]: "c \<notin> set a \<Longrightarrow> cut c (a @ c # b) = Some (a, b)"
  by (auto simp: cut_def takeWhile_append dropWhile_append)

lemma cut_None_iff [go_strings]: "cut c s = None \<longleftrightarrow> c \<notin> set s"
  by (simp add: cut_def)

lemma cut_last_SomeD:
  assumes "cut_last c s = Some (a, b)"
  shows "s = a @ c # b" and "c \<notin> set b"
proof -
  from assms obtain x y where xy: "cut c (rev s) = Some (x, y)" "a = rev y" "b = rev x"
    by (auto simp: cut_last_def split: option.splits)
  from cut_SomeD[OF xy(1)] have "rev s = x @ c # y" "c \<notin> set x" by auto
  then show "s = a @ c # b" "c \<notin> set b"
    using xy(2,3) by (auto simp: rev_swap)
qed

lemma cut_last_append [go_strings]: "c \<notin> set b \<Longrightarrow> cut_last c (a @ c # b) = Some (a, b)"
  by (simp add: cut_last_def cut_append)

lemma cut_last_None_iff [go_strings]: "cut_last c s = None \<longleftrightarrow> c \<notin> set s"
  using cut_None_iff[of c "rev s"] by (auto simp: cut_last_def split: option.splits)

lemma has_prefix_append [simp]: "has_prefix (p @ s) p"
  by (simp add: has_prefix_def)

lemma has_prefixD [bool_elims]: "has_prefix s p \<Longrightarrow> \<exists>r. s = p @ r"
  by (metis append_take_drop_id has_prefix_def)

lemma has_prefix_iff: "has_prefix s p \<longleftrightarrow> (\<exists>r. s = p @ r)"
  by (auto dest: has_prefixD)

lemma has_suffix_append [simp]: "has_suffix (s @ p) p"
  by (simp add: has_suffix_def)

lemma has_suffix_iff: "has_suffix s p \<longleftrightarrow> (\<exists>r. s = r @ p)"
  by (auto simp: has_suffix_def) (metis append_take_drop_id)

lemma trim_prefix_append [simp]: "trim_prefix (p @ s) p = s"
  by (simp add: trim_prefix_def)

lemma trim_suffix_append [simp]: "trim_suffix (s @ p) p = s"
  by (simp add: trim_suffix_def)

lemma lower_char_idem [simp]: "lower_char (lower_char c) = lower_char c"
proof (cases "CHR ''A'' \<le> c \<and> c \<le> CHR ''Z''")
  case True
  then have "65 \<le> (of_char c :: nat) \<and> (of_char c :: nat) \<le> 90"
    by (simp add: less_eq_char_def)
  then have "(of_char (lower_char c) :: nat) = of_char c + 32" "97 \<le> (of_char (lower_char c) :: nat)"
    using True by (simp_all add: lower_char_def)
  then show ?thesis by (subst lower_char_def) (simp add: less_eq_char_def)
next
  case False
  then have "lower_char c = c" unfolding lower_char_def by (rule if_not_P)
  then show ?thesis by simp
qed

lemma to_lower_idem [simp]: "to_lower (to_lower s) = to_lower s"
  by (simp add: to_lower_def)

lemma to_lower_Nil [simp]: "to_lower [] = []"
  by (simp add: to_lower_def)

lemma to_lower_eq_Nil [simp]: "to_lower s = [] \<longleftrightarrow> s = []"
  by (simp add: to_lower_def)

lemma trim_right_id: "s = [] \<or> \<not> P (last s) \<Longrightarrow> trim_right P s = s"
  by (cases s rule: rev_cases) (auto simp: trim_right_def)

lemma trim_left_id: "s = [] \<or> \<not> P (hd s) \<Longrightarrow> trim_left P s = s"
  by (cases s) (auto simp: trim_left_def)

lemma trim_id: "s = [] \<or> (\<not> P (hd s) \<and> \<not> P (last s)) \<Longrightarrow> trim P s = s"
  by (metis trim_def trim_left_id trim_right_id)

lemma trim_right_ends: "trim_right P s = [] \<or> \<not> P (last (trim_right P s))"
  unfolding trim_right_def using hd_dropWhile[of P "rev s"] by (auto simp: last_rev)

lemma trim_left_ends: "trim_left P s = [] \<or> \<not> P (hd (trim_left P s))"
  unfolding trim_left_def using hd_dropWhile[of P s] by auto

lemma trim_right_split: "\<exists>ws. s = trim_right P s @ ws \<and> list_all P ws"
proof -
  have "rev s = takeWhile P (rev s) @ dropWhile P (rev s)" by simp
  then have "s = rev (dropWhile P (rev s)) @ rev (takeWhile P (rev s))"
    by (metis rev_append rev_rev_ident)
  moreover have "list_all P (rev (takeWhile P (rev s)))"
    by (auto simp: list_all_iff dest: set_takeWhileD)
  ultimately show ?thesis unfolding trim_right_def by blast
qed

lemma trim_ends: "trim P s = [] \<or> (\<not> P (hd (trim P s)) \<and> \<not> P (last (trim P s)))"
proof (cases "trim P s = []")
  case False
  obtain ws where ws: "trim_left P s = trim P s @ ws"
    using trim_right_split[of "trim_left P s" P] by (auto simp: trim_def)
  with False have "hd (trim P s) = hd (trim_left P s)" and "trim_left P s \<noteq> []" by auto
  then show ?thesis
    using trim_left_ends[of P s] trim_right_ends[of P "trim_left P s"] False
    by (auto simp: trim_def)
qed simp

lemma trim_idem [simp]: "trim P (trim P s) = trim P s"
  by (rule trim_id) (rule trim_ends)

lemma trim_space_idem [simp]: "trim_space (trim_space s) = trim_space s"
  by (simp add: trim_space_def)

lemma trim_space_ends:
  "trim_space s = [] \<or> (\<not> is_space (hd (trim_space s)) \<and> \<not> is_space (last (trim_space s)))"
  unfolding trim_space_def by (rule trim_ends)

lemma set_trim_right: "set (trim_right P s) \<subseteq> set s"
  unfolding trim_right_def using set_dropWhileD by fastforce

lemma set_trim: "set (trim P s) \<subseteq> set s"
  unfolding trim_def trim_left_def
  using set_trim_right[of P "dropWhile P s"] set_dropWhileD by fastforce

lemma set_trim_space: "set (trim_space s) \<subseteq> set s"
  unfolding trim_space_def by (rule set_trim)

lemma trim_space_Nil [simp]: "trim_space [] = []"
  by (simp add: trim_space_def trim_def trim_left_def trim_right_def)

lemma trim_space_cons_space: "is_space c \<Longrightarrow> trim_space (c # s) = trim_space s"
  by (simp add: trim_space_def trim_def trim_left_def)

lemma drop_cr_id [simp]: "CR \<notin> set l \<Longrightarrow> drop_cr l = l"
  by (metis drop_cr_def last_in_set)

lemma wrap64_id: "- (2 ^ 63) \<le> x \<Longrightarrow> x < 2 ^ 63 \<Longrightarrow> wrap64 x = x"
  by (simp add: wrap64_def)

lemma wrap64_range: "- (2 ^ 63) \<le> wrap64 x \<and> wrap64 x < 2 ^ 63"
  using pos_mod_bound[of "2 ^ 64" "x + 2 ^ 63"] pos_mod_sign[of "2 ^ 64" "x + 2 ^ 63"]
  by (auto simp: wrap64_def)

text \<open>Letter case on literals.\<close>

lemma lower_upper [string_eval]:
  "lower_char CHR ''A'' = CHR ''a''" "lower_char CHR ''B'' = CHR ''b''" "lower_char CHR ''C'' = CHR ''c''" "lower_char CHR ''D'' = CHR ''d''"
  "lower_char CHR ''E'' = CHR ''e''" "lower_char CHR ''F'' = CHR ''f''" "lower_char CHR ''G'' = CHR ''g''" "lower_char CHR ''H'' = CHR ''h''"
  "lower_char CHR ''I'' = CHR ''i''" "lower_char CHR ''J'' = CHR ''j''" "lower_char CHR ''K'' = CHR ''k''" "lower_char CHR ''L'' = CHR ''l''"
  "lower_char CHR ''M'' = CHR ''m''" "lower_char CHR ''N'' = CHR ''n''" "lower_char CHR ''O'' = CHR ''o''" "lower_char CHR ''P'' = CHR ''p''"
  "lower_char CHR ''Q'' = CHR ''q''" "lower_char CHR ''R'' = CHR ''r''" "lower_char CHR ''S'' = CHR ''s''" "lower_char CHR ''T'' = CHR ''t''"
  "lower_char CHR ''U'' = CHR ''u''" "lower_char CHR ''V'' = CHR ''v''" "lower_char CHR ''W'' = CHR ''w''" "lower_char CHR ''X'' = CHR ''x''"
  "lower_char CHR ''Y'' = CHR ''y''" "lower_char CHR ''Z'' = CHR ''z''"
  by code_simp+

lemma lower_char_other [string_eval]:
  "c < CHR ''A'' \<or> CHR ''Z'' < c \<Longrightarrow> lower_char c = c"
  by (auto simp: lower_char_def)

declare to_lower_def [string_eval] less_char_def [string_eval] less_eq_char_def [string_eval]


subsection \<open>Lines\<close>

definition unlines :: "string list \<Rightarrow> string" where
  "unlines ls = concat (map (\<lambda>l. l @ [NL]) ls)"

lemma unlines_simps [simp]:
  "unlines [] = []" "unlines (l # ls) = l @ NL # unlines ls"
  "unlines (ls @ ls') = unlines ls @ unlines ls'"
  by (simp_all add: unlines_def)

lemma split_on_unlines:
  "(\<And>l. l \<in> set ls \<Longrightarrow> NL \<notin> set l) \<Longrightarrow> split_on NL (unlines ls @ r) = ls @ split_on NL r"
  by (induction ls) (auto simp: split_on_append)

lemma raw_lines_unlines:
  "(\<And>l. l \<in> set ls \<Longrightarrow> NL \<notin> set l) \<Longrightarrow> raw_lines (unlines ls) = ls"
  using split_on_unlines[of ls "[]"] by (simp add: raw_lines_def)

lemma scan_lines_unlines:
  assumes "\<And>l. l \<in> set ls \<Longrightarrow> NL \<notin> set l \<and> CR \<notin> set l \<and> length l < m"
  shows "scan_lines m (unlines ls) = (ls, False)"
proof -
  have raw: "raw_lines (unlines ls) = ls" using assms by (intro raw_lines_unlines) auto
  have all: "takeWhile (\<lambda>l. length l < m) ls = ls" using assms by (subst takeWhile_eq_all_conv) auto
  have "map drop_cr ls = ls" using assms by (simp add: map_idI)
  then show ?thesis unfolding scan_lines_def raw Let_def all by simp
qed

lemma raw_lines_no_NL: "l \<in> set (raw_lines s) \<Longrightarrow> NL \<notin> set l"
  by (auto simp: raw_lines_def Let_def split: if_splits dest: split_on_pieces in_set_butlastD)

lemma raw_lines_sub: "l \<in> set (raw_lines s) \<Longrightarrow> set l \<subseteq> set s"
  by (auto simp: raw_lines_def Let_def split: if_splits dest!: in_set_butlastD dest: split_on_piece_sub)


section \<open>Three-way comparisons as an interface\<close>

lemma compare_of_eq_0 [simp]: "compare_of x y = 0 \<longleftrightarrow> x = y"
  by (auto simp: compare_of_def)

lemma compare_of_flip: "compare_of y x = - compare_of x y"
  by (auto simp: compare_of_def)

lemma compare_of_le_0: "compare_of x y \<le> 0 \<longleftrightarrow> x \<le> y"
  by (auto simp: compare_of_def)

lemma compare_of_less_0: "compare_of x y < 0 \<longleftrightarrow> x < y"
  by (auto simp: compare_of_def)

lemma compare_of_range: "compare_of x y \<in> {-1, 0, 1}"
  by (auto simp: compare_of_def)

text \<open>The loop body that keeps, per key, the item with the greatest version, the earlier item
  winning a tie: the program writes it as "skip when the key is present and the comparison is not
  positive".\<close>

definition keep_newest ::
  "('v \<Rightarrow> 'v \<Rightarrow> int) \<Rightarrow> ('a \<Rightarrow> 'k) \<Rightarrow> ('a \<Rightarrow> 'v) \<Rightarrow> ('k \<rightharpoonup> 'a) \<Rightarrow> 'a \<Rightarrow> ('k \<rightharpoonup> 'a)" where
  "keep_newest cmp key ver best x =
     (case best (key x) of
        None \<Rightarrow> best(key x \<mapsto> x)
      | Some y \<Rightarrow> if cmp (ver x) (ver y) > 0 then best(key x \<mapsto> x) else best)"

definition newest_by :: "('v \<Rightarrow> 'v \<Rightarrow> int) \<Rightarrow> ('a \<Rightarrow> 'k) \<Rightarrow> ('a \<Rightarrow> 'v) \<Rightarrow> 'a list \<Rightarrow> ('k \<rightharpoonup> 'a)" where
  "newest_by cmp key ver xs = foldl (keep_newest cmp key ver) Map.empty xs"

text \<open>What such a loop leaves at a key: a first greatest item.\<close>

definition newest_of :: "('v \<Rightarrow> 'v \<Rightarrow> int) \<Rightarrow> ('a \<Rightarrow> 'v) \<Rightarrow> 'a list \<Rightarrow> 'a \<Rightarrow> bool" where
  "newest_of cmp ver xs x \<longleftrightarrow>
     (\<exists>pre post. xs = pre @ x # post \<and> (\<forall>y\<in>set pre. cmp (ver y) (ver x) < 0)
        \<and> (\<forall>y\<in>set post. cmp (ver y) (ver x) \<le> 0))"

lemma newest_by_Nil [simp]: "newest_by cmp key ver [] = Map.empty"
  by (simp add: newest_by_def)

lemma newest_by_snoc:
  "newest_by cmp key ver (xs @ [x]) k =
     (let m = newest_by cmp key ver xs k
      in if k = key x
         then Some (case m of None \<Rightarrow> x | Some y \<Rightarrow> if cmp (ver x) (ver y) > 0 then x else y)
         else m)"
  by (auto simp: newest_by_def keep_newest_def Let_def split: option.splits)

lemma newest_of_single: "newest_of cmp ver [x] x"
  unfolding newest_of_def by (rule exI[of _ "[]"], rule exI[of _ "[]"]) simp

lemma newest_of_member: "newest_of cmp ver xs x \<Longrightarrow> x \<in> set xs"
  by (auto simp: newest_of_def)

locale three_way =
  fixes cmp :: "'v \<Rightarrow> 'v \<Rightarrow> int"
  assumes cmp_self: "cmp x x = 0"
    and cmp_flip: "cmp y x = - cmp x y"
    and cmp_trans: "cmp x y \<le> 0 \<Longrightarrow> cmp y z \<le> 0 \<Longrightarrow> cmp x z \<le> 0"
begin

lemma cmp_le_less_trans: "cmp x y \<le> 0 \<Longrightarrow> cmp y z < 0 \<Longrightarrow> cmp x z < 0"
  using cmp_trans[of z x y] cmp_flip[of z y] cmp_flip[of z x] by force

lemma cmp_less_le_trans: "cmp x y < 0 \<Longrightarrow> cmp y z \<le> 0 \<Longrightarrow> cmp x z < 0"
  using cmp_trans[of y z x] cmp_flip[of y x] cmp_flip[of z x] by force

lemma cmp_total: "cmp x y \<le> 0 \<or> cmp y x \<le> 0"
  using cmp_flip[of x y] by linarith

lemma newest_of_snoc:
  assumes "newest_of cmp ver xs y"
  shows "newest_of cmp ver (xs @ [x]) (if cmp (ver x) (ver y) > 0 then x else y)"
proof -
  from assms obtain pre post where xs: "xs = pre @ y # post"
    and pre: "\<forall>z\<in>set pre. cmp (ver z) (ver y) < 0" and post: "\<forall>z\<in>set post. cmp (ver z) (ver y) \<le> 0"
    by (auto simp: newest_of_def)
  show ?thesis
  proof (cases "cmp (ver x) (ver y) > 0")
    case True
    then have yx: "cmp (ver y) (ver x) < 0" using cmp_flip[of "ver y" "ver x"] by simp
    have "\<forall>z\<in>set xs. cmp (ver z) (ver x) < 0"
      using xs pre post yx cmp_le_less_trans cmp_less_le_trans less_imp_le by fastforce
    then have "newest_of cmp ver (xs @ [x]) x" unfolding newest_of_def by fastforce
    with True show ?thesis by simp
  next
    case False
    then have "newest_of cmp ver (xs @ [x]) y"
      unfolding newest_of_def using xs pre post
      by (intro exI[of _ pre] exI[of _ "post @ [x]"]) auto
    with False show ?thesis by simp
  qed
qed

lemma newest_of_unique:
  assumes "newest_of cmp ver xs x" "newest_of cmp ver xs y"
  shows "x = y"
proof -
  from assms obtain p q r s where x: "xs = p @ x # q" and y: "xs = r @ y # s"
    and px: "\<forall>z\<in>set p. cmp (ver z) (ver x) < 0" "\<forall>z\<in>set q. cmp (ver z) (ver x) \<le> 0"
    and py: "\<forall>z\<in>set r. cmp (ver z) (ver y) < 0" "\<forall>z\<in>set s. cmp (ver z) (ver y) \<le> 0"
    unfolding newest_of_def by blast
  from x y have "p @ x # q = r @ y # s" by simp
  then consider "p = r \<and> x = y" | "x \<in> set r \<and> y \<in> set q" | "y \<in> set p \<and> x \<in> set s"
    by (auto simp: append_eq_append_conv2 append_eq_Cons_conv Cons_eq_append_conv)
  then show ?thesis
  proof cases
    case 2
    with px py have "cmp (ver x) (ver y) < 0" "cmp (ver y) (ver x) \<le> 0" by auto
    then show ?thesis using cmp_flip[of "ver y" "ver x"] by simp
  next
    case 3
    with px py have "cmp (ver y) (ver x) < 0" "cmp (ver x) (ver y) \<le> 0" by auto
    then show ?thesis using cmp_flip[of "ver y" "ver x"] by simp
  qed simp
qed

lemma newest_by_char:
  "(case newest_by cmp key ver xs k of
      None \<Rightarrow> \<forall>x\<in>set xs. key x \<noteq> k
    | Some x \<Rightarrow> key x = k \<and> newest_of cmp ver (filter (\<lambda>y. key y = k) xs) x)"
proof (induction xs rule: rev_induct)
  case Nil
  then show ?case by simp
next
  case (snoc x xs)
  let ?m = "newest_by cmp key ver xs"
  show ?case
  proof (cases "key x = k")
    case False
    with snoc show ?thesis by (auto simp: newest_by_snoc Let_def split: option.splits)
  next
    case True
    show ?thesis
    proof (cases "?m k")
      case None
      with snoc True have "filter (\<lambda>y. key y = k) xs = []" by (auto simp: filter_empty_conv)
      with None True show ?thesis by (simp add: newest_by_snoc Let_def newest_of_single)
    next
      case (Some y)
      with snoc have "newest_of cmp ver (filter (\<lambda>y. key y = k) xs) y" "key y = k" by auto
      from newest_of_snoc[OF this(1), of x] this(2) Some True show ?thesis
        by (simp add: newest_by_snoc Let_def)
    qed
  qed
qed

lemma newest_by_Some_iff:
  "newest_by cmp key ver xs k = Some x \<longleftrightarrow> newest_of cmp ver (filter (\<lambda>y. key y = k) xs) x"
proof (cases "newest_by cmp key ver xs k")
  case None
  then have "filter (\<lambda>y. key y = k) xs = []"
    using newest_by_char[where key = key and ver = ver and xs = xs and k = k] by (auto simp: filter_empty_conv)
  with None show ?thesis by (auto simp: newest_of_def)
next
  case (Some y)
  then have "newest_of cmp ver (filter (\<lambda>y. key y = k) xs) y"
    using newest_by_char[where key = key and ver = ver and xs = xs and k = k] by auto
  with Some show ?thesis using newest_of_unique by auto
qed

lemma newest_by_None_iff:
  "newest_by cmp key ver xs k = None \<longleftrightarrow> (\<forall>x\<in>set xs. key x \<noteq> k)"
  using newest_by_char[where key = key and ver = ver and xs = xs and k = k]
  by (fastforce split: option.splits dest: newest_of_member)

lemma newest_by_SomeD:
  assumes "newest_by cmp key ver xs k = Some x"
  shows "x \<in> set xs" and "key x = k" and "\<And>y. y \<in> set xs \<Longrightarrow> key y = k \<Longrightarrow> cmp (ver y) (ver x) \<le> 0"
proof -
  have n: "newest_of cmp ver (filter (\<lambda>y. key y = k) xs) x"
    using assms by (simp add: newest_by_Some_iff)
  from newest_of_member[OF n] show "x \<in> set xs" "key x = k" by auto
  fix y assume "y \<in> set xs" "key y = k"
  then have "y \<in> set (filter (\<lambda>y. key y = k) xs)" by simp
  with n show "cmp (ver y) (ver x) \<le> 0"
    unfolding newest_of_def using cmp_self[of "ver x"] by fastforce
qed

lemma newest_by_append:
  "newest_by cmp key ver (xs @ ys) k =
     (case newest_by cmp key ver ys k of
        None \<Rightarrow> newest_by cmp key ver xs k
      | Some y \<Rightarrow> (case newest_by cmp key ver xs k of
          None \<Rightarrow> Some y
        | Some x \<Rightarrow> Some (if cmp (ver y) (ver x) > 0 then y else x)))"
proof (induction ys rule: rev_induct)
  case Nil
  then show ?case by simp
next
  case (snoc z ys)
  have IH: "newest_by cmp key ver (xs @ ys) k =
     (case newest_by cmp key ver ys k of
        None \<Rightarrow> newest_by cmp key ver xs k
      | Some y \<Rightarrow> (case newest_by cmp key ver xs k of
          None \<Rightarrow> Some y
        | Some x \<Rightarrow> Some (if cmp (ver y) (ver x) > 0 then y else x)))" by (rule snoc)
  have z: "newest_by cmp key ver ((xs @ ys) @ [z]) k =
      (if k = key z
       then Some (case newest_by cmp key ver (xs @ ys) k of None \<Rightarrow> z | Some y \<Rightarrow> if cmp (ver z) (ver y) > 0 then z else y)
       else newest_by cmp key ver (xs @ ys) k)"
    using newest_by_snoc[of cmp key ver "xs @ ys" z k] by (simp add: Let_def)
  have zy: "newest_by cmp key ver (ys @ [z]) k =
      (if k = key z
       then Some (case newest_by cmp key ver ys k of None \<Rightarrow> z | Some y \<Rightarrow> if cmp (ver z) (ver y) > 0 then z else y)
       else newest_by cmp key ver ys k)"
    using newest_by_snoc[of cmp key ver ys z k] by (simp add: Let_def)
  have t1: "cmp (ver z) (ver x) > 0" if "cmp (ver z) (ver y) > 0" "cmp (ver y) (ver x) > 0" for x y
    using that cmp_less_le_trans[of "ver x" "ver y" "ver z"] cmp_flip[of "ver x" "ver y"] cmp_flip[of "ver y" "ver z"]
      cmp_flip[of "ver x" "ver z"] by linarith
  have t2: "\<not> cmp (ver z) (ver x) > 0" if "\<not> cmp (ver z) (ver y) > 0" "\<not> cmp (ver y) (ver x) > 0" for x y
    using that cmp_trans[of "ver z" "ver y" "ver x"] by linarith
  show ?case
  proof (cases "k = key z")
    case False
    then show ?thesis using IH z zy by simp
  next
    case True
    show ?thesis
    proof (cases "newest_by cmp key ver ys k")
      case None
      then show ?thesis using IH z zy True by (simp split: option.splits)
    next
      case (Some y)
      then show ?thesis
        using IH z zy True t1[of y] t2[of y]
        by (cases "newest_by cmp key ver xs k"; cases "cmp (ver z) (ver y) > 0") simp_all
    qed
  qed
qed

lemma newest_by_append_cong:
  assumes "newest_by cmp key ver xs = newest_by cmp key ver xs'" "newest_by cmp key ver ys = newest_by cmp key ver ys'"
  shows "newest_by cmp key ver (xs @ ys) = newest_by cmp key ver (xs' @ ys')"
  by (rule ext) (unfold newest_by_append assms, rule refl)

lemma newest_by_concat_cong:
  "list_all2 (\<lambda>xs ys. newest_by cmp key ver xs = newest_by cmp key ver ys) xss yss \<Longrightarrow>
   newest_by cmp key ver (concat xss) = newest_by cmp key ver (concat yss)"
  by (induction rule: list_all2_induct) (auto intro: newest_by_append_cong)

end

text \<open>Lookups in lists that stand for Go maps.\<close>

lemma find_SomeD: "List.find P xs = Some x \<Longrightarrow> x \<in> set xs \<and> P x"
  by (metis find_Some_iff nth_mem)

lemma set_update_sub: "set (AList.update k v xs) \<subseteq> insert (k, v) (set xs)"
  by (induction xs) auto

end
