(* ===== verification/DebVersion.thy ===== *)
theory DebVersion
  imports Prelude
begin

text \<open>
  Debian version comparison (\<open>src/internal/debversion/version.go\<close>): \<open>Compare\<close> and its helpers.
  The loops over byte positions are recursions over the remaining text.  The version parts are
  related to an abstract key, a list of (lexical key, number) tokens compared position by position
  with padding; from it the comparison is a total preorder, which is the interface
  \<open>three_way\<close> that the merge, the publisher and the collector use.
\<close>

section \<open>Definitions\<close>

definition isDigit :: "char \<Rightarrow> bool" where
  "isDigit c \<longleftrightarrow> c \<ge> CHR ''0'' \<and> c \<le> CHR ''9''"

definition isAlpha :: "char \<Rightarrow> bool" where
  "isAlpha c \<longleftrightarrow> (c \<ge> CHR ''a'' \<and> c \<le> CHR ''z'') \<or> (c \<ge> CHR ''A'' \<and> c \<le> CHR ''Z'')"

definition compareIntPrim :: "int \<Rightarrow> int \<Rightarrow> int" where
  "compareIntPrim a b = (if a < b then -1 else if a > b then 1 else 0)"

definition compareInt :: "int \<Rightarrow> int \<Rightarrow> int" where
  "compareInt a b = (if a < b then -1 else if a > b then 1 else 0)"

definition order :: "char \<Rightarrow> int" where
  "order c = (if c = CHR ''~'' then -1 else if isAlpha c then byte_val c else byte_val c + 256)"

fun parseInt_loop :: "int \<Rightarrow> string \<Rightarrow> int" where
  "parseInt_loop n [] = n"
| "parseInt_loop n (r # rs) =
     (if r < CHR ''0'' \<or> r > CHR ''9'' then -1
      else parseInt_loop (wrap64 (n * 10 + (byte_val r - 48))) rs)"

definition parseInt :: "string \<Rightarrow> int" where
  "parseInt s = (if s = [] then 0 else parseInt_loop 0 s)"

definition split :: "string \<Rightarrow> int \<times> string \<times> string" where
  "split v0 =
     (let v = trim_space v0;
          (epoch, v) = (case cut CHR '':'' v of
                          Some (h, t) \<Rightarrow> (if parseInt h \<ge> 0 then parseInt h else 0, t)
                        | None \<Rightarrow> (0, v))
      in case cut_last CHR ''-'' v of
           Some (u, r) \<Rightarrow> (epoch, u, r)
         | None \<Rightarrow> (epoch, v, ''0''))"

fun compareLexical :: "string \<Rightarrow> string \<Rightarrow> int" where
  "compareLexical [] [] = 0"
| "compareLexical (x # xs) [] =
     (if order x \<noteq> 0 then compareIntPrim (order x) 0 else compareLexical xs [])"
| "compareLexical [] (y # ys) =
     (if 0 \<noteq> order y then compareIntPrim 0 (order y) else compareLexical [] ys)"
| "compareLexical (x # xs) (y # ys) =
     (if order x \<noteq> order y then compareIntPrim (order x) (order y) else compareLexical xs ys)"

definition compareNumeric :: "string \<Rightarrow> string \<Rightarrow> int" where
  "compareNumeric a b =
     (let a = trim_left (\<lambda>c. c = CHR ''0'') a; b = trim_left (\<lambda>c. c = CHR ''0'') b
      in if length a \<noteq> length b then compareIntPrim (int (length a)) (int (length b))
         else compare_of a b)"

abbreviation lex_part :: "string \<Rightarrow> string" where
  "lex_part s \<equiv> takeWhile (\<lambda>c. \<not> isDigit c) s"

abbreviation after_lex :: "string \<Rightarrow> string" where
  "after_lex s \<equiv> dropWhile (\<lambda>c. \<not> isDigit c) s"

lemma ver_step_decreases:
  "length (dropWhile isDigit (after_lex s)) \<le> length s"
  "s \<noteq> [] \<Longrightarrow> length (dropWhile isDigit (after_lex s)) < length s"
proof -
  have le: "length (dropWhile isDigit (after_lex t)) \<le> length t" for t
    by (meson length_dropWhile_le order_trans)
  then show "length (dropWhile isDigit (after_lex s)) \<le> length s" .
  assume "s \<noteq> []"
  then obtain x xs where s: "s = x # xs" by (meson neq_Nil_conv)
  show "length (dropWhile isDigit (after_lex s)) < length s"
  proof (cases "isDigit x")
    case True
    then have "dropWhile isDigit (after_lex s) = dropWhile isDigit xs" using s by simp
    then show ?thesis using length_dropWhile_le[of isDigit xs] s by simp
  next
    case False
    then show ?thesis using le[of xs] s by simp
  qed
qed

function compareVer :: "string \<Rightarrow> string \<Rightarrow> int" where
  "compareVer a b =
     (if a = [] \<and> b = [] then 0
      else let c = compareLexical (lex_part a) (lex_part b)
           in if c \<noteq> 0 then c
              else let a = after_lex a; b = after_lex b;
                       d = compareNumeric (takeWhile isDigit a) (takeWhile isDigit b)
                   in if d \<noteq> 0 then d
                      else compareVer (dropWhile isDigit a) (dropWhile isDigit b))"
  by pat_completeness auto
termination
proof (relation "measure (\<lambda>(a, b). length a + length b)", goal_cases)
  case (2 a b)
  then consider "a \<noteq> []" | "b \<noteq> []" by auto
  then show ?case
    using ver_step_decreases[of a] ver_step_decreases[of b] 2
    by cases (auto intro: add_less_le_mono add_le_less_mono)
qed simp

declare compareVer.simps [simp del]

definition Compare :: "string \<Rightarrow> string \<Rightarrow> int" where
  "Compare a b =
     (let (ea, ua, ra) = split a; (eb, ub, rb) = split b; c = compareInt ea eb
      in if c \<noteq> 0 then c
         else let c = compareVer ua ub in if c \<noteq> 0 then c else compareVer ra rb)"


section \<open>The abstract key\<close>

text \<open>Position-by-position comparison of two sequences, the shorter one padded with \<open>z\<close>.\<close>

fun cmp_pad :: "'a::linorder \<Rightarrow> 'a list \<Rightarrow> 'a list \<Rightarrow> int" where
  "cmp_pad z [] [] = 0"
| "cmp_pad z (x # xs) [] = (if x \<noteq> z then compare_of x z else cmp_pad z xs [])"
| "cmp_pad z [] (y # ys) = (if z \<noteq> y then compare_of z y else cmp_pad z [] ys)"
| "cmp_pad z (x # xs) (y # ys) = (if x \<noteq> y then compare_of x y else cmp_pad z xs ys)"

definition hd_pad :: "'a \<Rightarrow> 'a list \<Rightarrow> 'a" where
  "hd_pad z xs = (case xs of [] \<Rightarrow> z | x # _ \<Rightarrow> x)"

definition num_val :: "string \<Rightarrow> nat" where
  "num_val ds = foldl (\<lambda>n c. 10 * n + (of_char c - 48)) 0 ds"

definition lex_key :: "string \<Rightarrow> int list" where
  "lex_key s = map order s @ [0]"

function tokens :: "string \<Rightarrow> (int list \<times> nat) list" where
  "tokens s =
     (if s = [] then []
      else (lex_key (lex_part s), num_val (takeWhile isDigit (after_lex s)))
             # tokens (dropWhile isDigit (after_lex s)))"
  by pat_completeness auto
termination
  by (relation "measure length") (use ver_step_decreases in auto)

declare tokens.simps [simp del]

abbreviation pad_token :: "int list \<times> nat" where
  "pad_token \<equiv> ([0], 0)"

definition version_key :: "string \<Rightarrow> int \<times> (int list \<times> nat) list \<times> (int list \<times> nat) list" where
  "version_key v = (case split v of (e, u, r) \<Rightarrow> (e, tokens u, tokens r))"


section \<open>Padded comparison is a total preorder\<close>

lemma cmp_pad_unfold:
  "cmp_pad z xs ys =
     (if xs = [] \<and> ys = [] then 0
      else if hd_pad z xs \<noteq> hd_pad z ys then compare_of (hd_pad z xs) (hd_pad z ys)
      else cmp_pad z (tl xs) (tl ys))"
  by (cases xs; cases ys) (auto simp: hd_pad_def)

lemma cmp_pad_refl [simp]: "cmp_pad z xs xs = 0"
  by (induction xs) auto

lemma cmp_pad_flip: "cmp_pad z ys xs = - cmp_pad z xs ys"
  by (induction z xs ys rule: cmp_pad.induct) (auto simp: compare_of_def)

lemma cmp_pad_range: "cmp_pad z xs ys \<in> {-1, 0, 1}"
  by (induction z xs ys rule: cmp_pad.induct) (auto simp: compare_of_def)

lemma hd_pad_Nil [simp]: "hd_pad z [] = z"
  by (simp add: hd_pad_def)

lemma cmp_pad_le_iff:
  "cmp_pad z xs ys \<le> 0 \<longleftrightarrow>
     hd_pad z xs < hd_pad z ys \<or> (hd_pad z xs = hd_pad z ys \<and> cmp_pad z (tl xs) (tl ys) \<le> 0)"
  by (subst cmp_pad_unfold) (auto simp: compare_of_def)

lemma cmp_pad_trans:
  "cmp_pad z xs ys \<le> 0 \<Longrightarrow> cmp_pad z ys zs \<le> 0 \<Longrightarrow> cmp_pad z xs zs \<le> 0"
proof (induction "length xs + length ys + length zs" arbitrary: xs ys zs rule: less_induct)
  case less
  show ?case
  proof (cases "xs = [] \<and> ys = [] \<and> zs = []")
    case True
    then show ?thesis by simp
  next
    case False
    then have "length (tl xs) + length (tl ys) + length (tl zs) < length xs + length ys + length zs"
      by (cases xs; cases ys; cases zs) auto
    from less.hyps[OF this]
    have IH: "cmp_pad z (tl xs) (tl ys) \<le> 0 \<Longrightarrow> cmp_pad z (tl ys) (tl zs) \<le> 0 \<Longrightarrow>
      cmp_pad z (tl xs) (tl zs) \<le> 0" .
    have 1: "hd_pad z xs < hd_pad z ys \<or> hd_pad z xs = hd_pad z ys \<and> cmp_pad z (tl xs) (tl ys) \<le> 0"
      using less.prems(1) by (subst (asm) cmp_pad_le_iff)
    have 2: "hd_pad z ys < hd_pad z zs \<or> hd_pad z ys = hd_pad z zs \<and> cmp_pad z (tl ys) (tl zs) \<le> 0"
      using less.prems(2) by (subst (asm) cmp_pad_le_iff)
    from 1 2 IH show ?thesis by (subst cmp_pad_le_iff) (auto intro: less_trans)
  qed
qed


section \<open>The parts of the comparison\<close>

lemma compareIntPrim_eq: "compareIntPrim a b = compare_of a b"
  by (simp add: compareIntPrim_def compare_of_def)

lemma compareInt_eq: "compareInt a b = compare_of a b"
  by (simp add: compareInt_def compare_of_def)

lemma order_nonzero [simp]: "order c \<noteq> 0"
  by (auto simp: order_def isAlpha_def byte_val_def less_eq_char_def)

lemma compareLexical_pad: "compareLexical a b = cmp_pad 0 (map order a) (map order b)"
  by (induction a b rule: compareLexical.induct) (auto simp: compareIntPrim_eq)

lemma cmp_pad_key:
  assumes "0 \<notin> set xs" "0 \<notin> set ys"
  shows "cmp_pad (0::int) xs ys = compare_of (xs @ [0]) (ys @ [0])"
  using assms
  by (induction "0::int" xs ys rule: cmp_pad.induct) (auto simp: compare_of_def)

lemma compareLexical_key: "compareLexical a b = compare_of (lex_key a) (lex_key b)"
  unfolding compareLexical_pad lex_key_def by (rule cmp_pad_key) (metis order_nonzero list.set_map imageE)+


lemma num_val_foldl:
  "foldl (\<lambda>n c. 10 * n + (of_char c - 48)) n ds = n * 10 ^ length ds + num_val ds"
proof (induction ds arbitrary: n)
  case (Cons d ds)
  show ?case
    using Cons[of "10 * n + (of_char d - 48)"] Cons[of "of_char d - 48"]
    by (simp add: num_val_def algebra_simps)
qed (simp add: num_val_def)

lemma num_val_Cons: "num_val (d # ds) = (of_char d - 48) * 10 ^ length ds + num_val ds"
  using num_val_foldl[of "of_char d - 48" ds] by (simp add: num_val_def)

lemma num_val_Nil [simp]: "num_val [] = 0"
  by (simp add: num_val_def)

lemma digit_le_9: "isDigit d \<Longrightarrow> 48 \<le> (of_char d :: nat) \<and> of_char d - 48 \<le> (9 :: nat)"
  by (auto simp: isDigit_def less_eq_char_def)

lemma num_val_less_power: "list_all isDigit ds \<Longrightarrow> num_val ds < 10 ^ length ds"
proof (induction ds)
  case (Cons d ds)
  then have "of_char d - 48 \<le> (9 :: nat)" by (simp add: digit_le_9)
  then have "(of_char d - 48) * 10 ^ length ds \<le> (9 :: nat) * 10 ^ length ds" by (rule mult_le_mono1)
  moreover have "num_val ds < 10 ^ length ds" using Cons by simp
  ultimately have "(of_char d - 48) * 10 ^ length ds + num_val ds < 10 * 10 ^ length ds" by linarith
  then show ?case by (simp add: num_val_Cons)
qed simp

lemma num_val_strip: "num_val (dropWhile (\<lambda>c. c = CHR ''0'') ds) = num_val ds"
  by (induction ds) (auto simp: num_val_Cons)

lemma num_val_less_lex:
  assumes "length xs = length ys" "list_all isDigit xs" "list_all isDigit ys" "xs < ys"
  shows "num_val xs < num_val ys"
  using assms
proof (induction xs ys rule: list_induct2)
  case (Cons x xs y ys)
  show ?case
  proof (cases "x = y")
    case True
    with Cons show ?thesis by (simp add: num_val_Cons)
  next
    case False
    with Cons.prems have "x < y" by simp
    then have "of_char x < (of_char y :: nat)" by (simp add: less_char_def)
    with Cons.prems have "Suc (of_char x - 48) \<le> (of_char y - 48 :: nat)"
      by (auto simp: isDigit_def less_eq_char_def)
    then have "Suc (of_char x - 48) * 10 ^ length xs \<le> (of_char y - 48 :: nat) * 10 ^ length xs"
      by (rule mult_le_mono1)
    moreover have "num_val xs < 10 ^ length xs" using Cons.prems by (simp add: num_val_less_power)
    ultimately show ?thesis using Cons.hyps by (simp add: num_val_Cons)
  qed
qed simp

lemma num_val_less_length:
  assumes "list_all isDigit xs" "list_all isDigit ys" "ys \<noteq> []" "hd ys \<noteq> CHR ''0''"
    "length xs < length ys"
  shows "num_val xs < num_val ys"
proof -
  obtain y zs where y: "ys = y # zs" using assms(3) by (meson neq_Nil_conv)
  have "of_char y \<noteq> (48 :: nat)"
  proof
    assume "of_char y = (48 :: nat)"
    then have "of_char y = (of_char CHR ''0'' :: nat)" by simp
    then have "y = CHR ''0''" by (simp only: of_char_eq_iff)
    then show False using assms(4) y by simp
  qed
  then have "1 \<le> (of_char y - 48 :: nat)" using assms(2) y digit_le_9[of y] by auto
  then have "10 ^ length zs \<le> (of_char y - 48 :: nat) * 10 ^ length zs" by simp
  also have "\<dots> \<le> num_val ys" by (simp add: y num_val_Cons)
  finally have "10 ^ length zs \<le> num_val ys" .
  moreover have "num_val xs < 10 ^ length xs" by (simp add: assms(1) num_val_less_power)
  moreover have "(10 :: nat) ^ length xs \<le> 10 ^ length zs"
    using assms(5) y by (intro power_increasing) auto
  ultimately show ?thesis by linarith
qed

lemma stripped_digits:
  assumes "list_all isDigit a"
  shows "list_all isDigit (dropWhile (\<lambda>c. c = CHR ''0'') a)"
    and "dropWhile (\<lambda>c. c = CHR ''0'') a = [] \<or> hd (dropWhile (\<lambda>c. c = CHR ''0'') a) \<noteq> CHR ''0''"
  using assms hd_dropWhile[of "\<lambda>c. c = CHR ''0''" a]
  by (auto simp: list_all_iff dest: set_dropWhileD)

text \<open>Stripping leading zeros, then comparing lengths, then bytes, compares the numbers.\<close>

lemma compareNumeric_val:
  assumes "list_all isDigit a" "list_all isDigit b"
  shows "compareNumeric a b = compare_of (num_val a) (num_val b)"
proof -
  define x where "x = dropWhile (\<lambda>c. c = CHR ''0'') a"
  define y where "y = dropWhile (\<lambda>c. c = CHR ''0'') b"
  have x: "list_all isDigit x" "x = [] \<or> hd x \<noteq> CHR ''0''" and y: "list_all isDigit y" "y = [] \<or> hd y \<noteq> CHR ''0''"
    unfolding x_def y_def by (rule stripped_digits[OF assms(1)] stripped_digits[OF assms(2)])+
  have v: "num_val a = num_val x" "num_val b = num_val y"
    by (simp_all add: x_def y_def num_val_strip)
  have eq: "compareNumeric a b = (if length x \<noteq> length y then compareIntPrim (int (length x)) (int (length y))
         else compare_of x y)"
    by (simp add: compareNumeric_def trim_left_def x_def y_def)
  consider "length x < length y" | "length y < length x" | "length x = length y" "x < y"
    | "length x = length y" "y < x" | "x = y"
    by (meson linorder_neqE_nat linorder_neqE)
  then show ?thesis
  proof cases
    case 1
    then have "num_val x < num_val y" using x y by (intro num_val_less_length) auto
    with 1 show ?thesis by (simp add: eq v compareIntPrim_def compare_of_def)
  next
    case 2
    then have "num_val y < num_val x" using x y by (intro num_val_less_length) auto
    with 2 show ?thesis by (simp add: eq v compareIntPrim_def compare_of_def)
  next
    case 3
    then have "num_val x < num_val y" using x y by (intro num_val_less_lex) auto
    with 3 show ?thesis by (simp add: eq v compare_of_def)
  next
    case 4
    then have "num_val y < num_val x" using x y by (intro num_val_less_lex) auto
    with 4 show ?thesis by (simp add: eq v compare_of_def)
  qed (simp add: eq v compare_of_def)
qed

lemma takeWhile_digits: "list_all isDigit (takeWhile isDigit s)"
  by (auto simp: list_all_iff dest: set_takeWhileD)

lemma hd_tokens:
  "hd_pad pad_token (tokens s) = (lex_key (lex_part s), num_val (takeWhile isDigit (after_lex s)))"
  by (subst tokens.simps) (auto simp: hd_pad_def lex_key_def)

lemma tokens_Nil [simp]: "tokens [] = []"
  by (subst tokens.simps) simp

lemma tl_tokens: "tl (tokens s) = tokens (dropWhile isDigit (after_lex s))"
  by (cases "s = []") (simp_all add: tokens.simps[of s])

lemma tokens_eq_Nil [simp]: "tokens s = [] \<longleftrightarrow> s = []"
  by (subst tokens.simps) simp

lemma compare_of_pair:
  "compare_of (a, b) (c, d) = (let x = compare_of a c in if x \<noteq> 0 then x else compare_of b d)"
  by (auto simp: compare_of_def Let_def)

lemma compareVer_tokens: "compareVer a b = cmp_pad pad_token (tokens a) (tokens b)"
proof (induction a b rule: compareVer.induct)
  case (1 a b)
  show ?case
    using 1
    by (subst compareVer.simps, subst cmp_pad_unfold)
      (auto simp: Let_def hd_tokens tl_tokens compareLexical_key compareNumeric_val takeWhile_digits
         compare_of_pair)
qed

lemma compareVer_flip: "compareVer b a = - compareVer a b"
  unfolding compareVer_tokens by (rule cmp_pad_flip)

lemma compareVer_self [simp]: "compareVer a a = 0"
  unfolding compareVer_tokens by simp

lemma compareVer_trans: "compareVer a b \<le> 0 \<Longrightarrow> compareVer b c \<le> 0 \<Longrightarrow> compareVer a c \<le> 0"
  unfolding compareVer_tokens by (rule cmp_pad_trans)

text \<open>A three-part lexicographic comparison of preorders.\<close>

definition key_cmp ::
  "int \<times> (int list \<times> nat) list \<times> (int list \<times> nat) list \<Rightarrow> int \<times> (int list \<times> nat) list \<times> (int list \<times> nat) list \<Rightarrow> int" where
  "key_cmp k l = (case (k, l) of ((e, u, r), (f, v, s)) \<Rightarrow>
     if e \<noteq> f then compare_of e f
     else if cmp_pad pad_token u v \<noteq> 0 then cmp_pad pad_token u v else cmp_pad pad_token r s)"

lemma Compare_key: "Compare a b = key_cmp (version_key a) (version_key b)"
  by (auto simp: Compare_def key_cmp_def version_key_def compareInt_eq compareVer_tokens Let_def
      split: prod.splits)

interpretation pad: three_way "cmp_pad z" for z :: "'a::linorder"
proof
  show "cmp_pad z x x = 0" for x by (rule cmp_pad_refl)
  show "cmp_pad z y x = - cmp_pad z x y" for x y by (rule cmp_pad_flip)
  show "cmp_pad z x y \<le> 0 \<Longrightarrow> cmp_pad z y w \<le> 0 \<Longrightarrow> cmp_pad z x w \<le> 0" for x y w
    by (rule cmp_pad_trans)
qed

lemma key_cmp_flip: "key_cmp l k = - key_cmp k l"
proof -
  obtain e u r f v s where k: "k = (e, u, r)" "l = (f, v, s)" by (metis prod_cases3)
  show ?thesis
    using cmp_pad_flip[of pad_token v u] cmp_pad_flip[of pad_token s r]
    by (auto simp: k key_cmp_def compare_of_def)
qed

lemma key_cmp_le_iff:
  "key_cmp (e, u, r) (f, v, s) \<le> 0 \<longleftrightarrow>
     e < f \<or> (e = f \<and> (cmp_pad pad_token u v < 0 \<or>
       (cmp_pad pad_token u v = 0 \<and> cmp_pad pad_token r s \<le> 0)))"
  by (auto simp: key_cmp_def compare_of_def)

lemma cmp_pad_trans_eq:
  "cmp_pad z x y = 0 \<Longrightarrow> cmp_pad z y w = 0 \<Longrightarrow> cmp_pad z x w = 0"
  using cmp_pad_trans[of z x y w] cmp_pad_trans[of z w y x] cmp_pad_flip[of z y x]
    cmp_pad_flip[of z w y] cmp_pad_flip[of z w x] by simp

lemma key_cmp_trans:
  assumes "key_cmp k l \<le> 0" "key_cmp l m \<le> 0"
  shows "key_cmp k m \<le> 0"
proof -
  obtain e u r f v s g w t where k: "k = (e, u, r)" "l = (f, v, s)" "m = (g, w, t)"
    by (metis prod_cases3)
  let ?c = "cmp_pad pad_token"
  have lt: "?c u w < 0" if "?c u v \<le> 0" "?c v w < 0 \<or> ?c u v < 0 \<and> ?c v w \<le> 0"
    using that pad.cmp_le_less_trans[of pad_token u v w] pad.cmp_less_le_trans[of pad_token u v w] by blast
  have eq: "?c u w = 0" if "?c u v = 0" "?c v w = 0" using that by (rule cmp_pad_trans_eq)
  have rt: "?c r t \<le> 0" if "?c r s \<le> 0" "?c s t \<le> 0" using that by (rule cmp_pad_trans)
  show ?thesis
    using assms lt eq rt unfolding k key_cmp_le_iff by (elim disjE conjE) simp_all
qed

interpretation deb: three_way Compare
proof
  show "Compare x x = 0" for x
    by (cases "version_key x") (simp add: Compare_key key_cmp_def)
  show "Compare y x = - Compare x y" for x y
    unfolding Compare_key by (rule key_cmp_flip)
  show "Compare x y \<le> 0 \<Longrightarrow> Compare y z \<le> 0 \<Longrightarrow> Compare x z \<le> 0" for x y z
    unfolding Compare_key by (rule key_cmp_trans)
qed


section \<open>Properties\<close>

text \<open>C18: \<open>Compare\<close> is a total preorder on version strings with results -1, 0 and 1: a version
  equals itself, swapping the arguments negates the result, and it is transitive.  This is what
  makes "keep the newest" well defined everywhere it is used.\<close>

theorem Compare_total_preorder:
  "Compare a a = 0 \<and> Compare b a = - Compare a b \<and> Compare a b \<in> {-1, 0, 1} \<and>
   (Compare a b \<le> 0 \<longrightarrow> Compare b c \<le> 0 \<longrightarrow> Compare a c \<le> 0)"
proof (intro conjI impI)
  show "Compare a a = 0" by (rule deb.cmp_self)
  show "Compare b a = - Compare a b" by (rule deb.cmp_flip)
  show "Compare a b \<in> {-1, 0, 1}"
    unfolding Compare_key key_cmp_def using cmp_pad_range[of pad_token]
    by (auto simp: compare_of_def split: prod.splits)
  show "Compare a b \<le> 0 \<Longrightarrow> Compare b c \<le> 0 \<Longrightarrow> Compare a c \<le> 0" by (rule deb.cmp_trans)
qed

theorem Compare_total_preorder_witness:
  "Compare ''1.0~rc1-1'' ''1.0-1'' \<le> 0 \<and> Compare ''1.0-1'' ''1:0.1'' \<le> 0 \<and>
   Compare ''1.0~rc1-1'' ''1:0.1'' \<le> 0"
proof -
  have a: "Compare ''1.0~rc1-1'' ''1.0-1'' \<le> 0" by code_simp
  have b: "Compare ''1.0-1'' ''1:0.1'' \<le> 0" by code_simp
  show ?thesis using a b Compare_total_preorder by blast
qed


lemma compareLexical_tilde: "compareLexical (u @ CHR ''~'' # s) u = -1"
  by (induction u) (simp_all add: order_def compareIntPrim_def)

lemma takeWhile_stop: "\<not> P y \<Longrightarrow> takeWhile P (xs @ y # ys) = takeWhile P xs"
  by (induction xs) auto

lemma dropWhile_stop: "\<not> P y \<Longrightarrow> dropWhile P (xs @ y # ys) = dropWhile P xs @ y # ys"
  by (induction xs) auto

lemma nondigit_tilde [simp]: "\<not> isDigit CHR ''~''"
  by (simp add: isDigit_def less_eq_char_def)

text \<open>a tilde sorts before everything, even before the end of the version: appending a tilde and
  any text to a version part makes it older.\<close>

theorem tilde_sorts_first: "compareVer (u @ CHR ''~'' # s) u = -1"
proof (induction "length u" arbitrary: u rule: less_induct)
  case less
  show ?case
  proof (cases "\<exists>c\<in>set u. isDigit c")
    case False
    then have "lex_part (u @ CHR ''~'' # s) = u @ CHR ''~'' # lex_part s" "lex_part u = u"
      by (auto simp: takeWhile_append takeWhile_eq_all_conv)
    then have "compareLexical (lex_part (u @ CHR ''~'' # s)) (lex_part u) = -1"
      by (simp only: compareLexical_tilde)
    then show ?thesis by (subst compareVer.simps) (simp add: Let_def)
  next
    case True
    then have u: "u \<noteq> []" and l: "lex_part (u @ CHR ''~'' # s) = lex_part u"
      and d: "after_lex (u @ CHR ''~'' # s) = after_lex u @ CHR ''~'' # s"
      by (auto simp: takeWhile_append dropWhile_append)
    let ?w = "after_lex u"
    have n: "takeWhile isDigit (?w @ CHR ''~'' # s) = takeWhile isDigit ?w"
      and r: "dropWhile isDigit (?w @ CHR ''~'' # s) = dropWhile isDigit ?w @ CHR ''~'' # s"
      by (simp_all add: takeWhile_stop dropWhile_stop)
    have "compareVer (dropWhile isDigit ?w @ CHR ''~'' # s) (dropWhile isDigit ?w) = -1"
      by (rule less) (simp add: ver_step_decreases u)
    then show ?thesis
      by (subst compareVer.simps)
        (simp add: l d n r Let_def compareLexical_pad compareNumeric_def)
  qed
qed

end
