(* ===== verification/Deb822.thy ===== *)
theory Deb822
  imports Prelude
begin

text \<open>
  deb822 paragraphs (\<open>src/internal/apt/deb822.go\<close>, the renderers and \<open>ParseStanza\<close> of
  \<open>packages.go\<close>).  A paragraph keeps its field names in order beside a map keyed by the lower-case
  name; every operation keeps the three in step.  Readers are complete byte strings and writers
  collect what is written; a read error of the underlying stream is not modelled, the scanner's
  own 16 MiB limit is.  The JSON codec of the standard library is a parameter.
\<close>

section \<open>Definitions\<close>

record Paragraph =
  pkeys :: "string list"
  plkeys :: "string list"
  pvalues :: "string \<rightharpoonup> string"

definition NewParagraph :: Paragraph where
  "NewParagraph = \<lparr>pkeys = [], plkeys = [], pvalues = Map.empty\<rparr>"

definition GetLower :: "Paragraph \<Rightarrow> string \<Rightarrow> string" where
  "GetLower p lkey = (case pvalues p lkey of None \<Rightarrow> [] | Some v \<Rightarrow> v)"

definition Get :: "Paragraph \<Rightarrow> string \<Rightarrow> string" where
  "Get p key = (case pvalues p (to_lower key) of None \<Rightarrow> [] | Some v \<Rightarrow> v)"

definition Has :: "Paragraph \<Rightarrow> string \<Rightarrow> bool" where
  "Has p key \<longleftrightarrow> pvalues p (to_lower key) \<noteq> None"

definition Set :: "Paragraph \<Rightarrow> string \<Rightarrow> string \<Rightarrow> Paragraph" where
  "Set p key value =
     (let lk = to_lower key;
          p = (if pvalues p lk = None
               then p\<lparr>pkeys := pkeys p @ [key], plkeys := plkeys p @ [lk]\<rparr> else p)
      in p\<lparr>pvalues := (pvalues p)(lk \<mapsto> value)\<rparr>)"

definition Keys :: "Paragraph \<Rightarrow> string list" where
  "Keys p = pkeys p"

definition LKeys :: "Paragraph \<Rightarrow> string list" where
  "LKeys p = plkeys p"

text \<open>The ordered key/value pairs that the JSON methods exchange with the codec.\<close>

definition paragraphFields :: "Paragraph \<Rightarrow> (string \<times> string) list" where
  "paragraphFields p = map (\<lambda>(k, lk). (k, GetLower p lk)) (zip (pkeys p) (plkeys p))"

definition MarshalJSON :: "((string \<times> string) list \<Rightarrow> string) \<Rightarrow> Paragraph \<Rightarrow> string" where
  "MarshalJSON json_encode p = json_encode (paragraphFields p)"

definition UnmarshalJSON :: "(string \<Rightarrow> (string \<times> string) list option) \<Rightarrow> string \<Rightarrow> Paragraph option" where
  "UnmarshalJSON json_decode data =
     (case json_decode data of
        None \<Rightarrow> None
      | Some fs \<Rightarrow> Some (foldl (\<lambda>np (k, v). Set np k v) NewParagraph fs))"

definition indentContinuation :: "string \<Rightarrow> string" where
  "indentContinuation v = join [NL] (map (\<lambda>l. CHR '' '' # l) (split_on NL v))"

definition write_field :: "string \<Rightarrow> string \<Rightarrow> string" where
  "write_field k v =
     (if NL \<in> set v then k @ '':'' @ [NL] @ indentContinuation (trim_prefix v [NL]) @ [NL]
      else k @ '': '' @ v @ [NL])"

definition WriteTo :: "Paragraph \<Rightarrow> string" where
  "WriteTo p = concat (map (\<lambda>(k, lk). write_field k (GetLower p lk)) (zip (pkeys p) (plkeys p)))"

fun WriteParagraphs :: "Paragraph list \<Rightarrow> string" where
  "WriteParagraphs [] = []"
| "WriteParagraphs [p] = WriteTo p"
| "WriteParagraphs (p # q # ps) = WriteTo p @ [NL] @ WriteParagraphs (q # ps)"

datatype deb822_error =
    NoPrecedingField string
  | InvalidFieldLine string
  | TokenTooLong
  | EmptyStanza

record parse_state =
  ps_paras :: "Paragraph list"
  ps_cur :: Paragraph
  ps_lastKey :: string
  ps_nonEmpty :: bool

definition init_parse_state :: parse_state where
  "init_parse_state = \<lparr>ps_paras = [], ps_cur = NewParagraph, ps_lastKey = [], ps_nonEmpty = False\<rparr>"

definition parse_flush :: "parse_state \<Rightarrow> parse_state" where
  "parse_flush st =
     \<lparr>ps_paras = (if ps_nonEmpty st then ps_paras st @ [ps_cur st] else ps_paras st),
      ps_cur = NewParagraph, ps_lastKey = [], ps_nonEmpty = False\<rparr>"

definition parse_line :: "string \<Rightarrow> parse_state \<Rightarrow> deb822_error + parse_state" where
  "parse_line line st =
     (if line = [] then Inr (parse_flush st)
      else if hd line = CHR '' '' \<or> hd line = TAB then
        (if ps_lastKey st = [] then Inl (NoPrecedingField line)
         else let cont = trim_right (\<lambda>c. c = CR) (tl line);
                  existing = Get (ps_cur st) (ps_lastKey st);
                  cur = ps_cur st
              in Inr (st\<lparr>ps_cur := cur\<lparr>pvalues :=
                   (pvalues cur)(to_lower (ps_lastKey st) \<mapsto> existing @ [NL] @ cont)\<rparr>\<rparr>))
      else case cut CHR '':'' line of
        None \<Rightarrow> Inl (InvalidFieldLine line)
      | Some (key, val) \<Rightarrow>
          Inr (st\<lparr>ps_cur := Set (ps_cur st) (trim_space key) (trim_space val),
                 ps_lastKey := trim_space key, ps_nonEmpty := True\<rparr>))"

fun parse_lines :: "string list \<Rightarrow> parse_state \<Rightarrow> deb822_error + parse_state" where
  "parse_lines [] st = Inr st"
| "parse_lines (l # ls) st =
     (case parse_line l st of Inl e \<Rightarrow> Inl e | Inr st' \<Rightarrow> parse_lines ls st')"

definition max_index_token :: nat where
  "max_index_token = 16 * 1024 * 1024"

definition ParseParagraphs :: "string \<Rightarrow> deb822_error + Paragraph list" where
  "ParseParagraphs r =
     (let (lines, too_long) = scan_lines max_index_token r
      in case parse_lines lines init_parse_state of
           Inl e \<Rightarrow> Inl e
         | Inr st \<Rightarrow> if too_long then Inl TokenTooLong else Inr (ps_paras (parse_flush st)))"

text \<open>\<open>writeIndented\<close>: one space before every line of the value.\<close>

function writeIndented :: "string \<Rightarrow> string" where
  "writeIndented v =
     (case cut NL v of
        None \<Rightarrow> CHR '' '' # v
      | Some (a, b) \<Rightarrow> CHR '' '' # a @ [NL] @ writeIndented b)"
  by pat_completeness auto
termination
  by (relation "measure length") (auto dest!: cut_SomeD(1))

declare writeIndented.simps [simp del]

definition StanzaString :: "Paragraph \<Rightarrow> string" where
  "StanzaString p =
     concat (map (\<lambda>(k, lk). let v = GetLower p lk in
                   if NL \<in> set v then k @ '':'' @ [NL] @ writeIndented v @ [NL]
                   else k @ '': '' @ v @ [NL])
                 (zip (pkeys p) (plkeys p)))"

definition ParseStanza :: "string \<Rightarrow> deb822_error + Paragraph" where
  "ParseStanza s =
     (case ParseParagraphs s of
        Inl e \<Rightarrow> Inl e
      | Inr [] \<Rightarrow> Inl EmptyStanza
      | Inr (p # _) \<Rightarrow> Inr p)"


section \<open>The paragraph invariant\<close>

definition para_ok :: "Paragraph \<Rightarrow> bool" where
  "para_ok p \<longleftrightarrow> plkeys p = map to_lower (pkeys p) \<and> distinct (plkeys p) \<and> dom (pvalues p) = set (plkeys p)"

lemma para_ok_New [simp]: "para_ok NewParagraph"
  by (simp add: para_ok_def NewParagraph_def)

lemma para_ok_Set [simp]: "para_ok p \<Longrightarrow> para_ok (Set p k v)"
proof -
  assume ok: "para_ok p"
  have "to_lower k \<in> set (plkeys p) \<longleftrightarrow> pvalues p (to_lower k) \<noteq> None"
    using ok by (auto simp: para_ok_def)
  with ok show ?thesis by (auto simp: para_ok_def Set_def Let_def simp del: domIff)
qed

lemma para_ok_update: "para_ok p \<Longrightarrow> lk \<in> set (plkeys p) \<Longrightarrow> para_ok (p\<lparr>pvalues := (pvalues p)(lk \<mapsto> v)\<rparr>)"
  by (auto simp: para_ok_def)

lemma Get_Set: "Get (Set p k v) j = (if to_lower j = to_lower k then v else Get p j)"
  by (simp add: Get_def Set_def Let_def)

lemma Set_lookup: "pvalues (Set p k v) = (pvalues p)(to_lower k \<mapsto> v)"
  by (simp add: Set_def Let_def)

lemma Set_lkeys: "set (plkeys (Set p k v)) = (if pvalues p (to_lower k) = None then insert (to_lower k) (set (plkeys p)) else set (plkeys p))"
  by (auto simp: Set_def Let_def)

text \<open>Field lists and paragraphs: a paragraph is the fold of \<open>Set\<close> over its fields.\<close>

definition para_of :: "Paragraph \<Rightarrow> (string \<times> string) list \<Rightarrow> Paragraph" where
  "para_of p fs = foldl (\<lambda>np (k, v). Set np k v) p fs"

lemma para_of_simps [simp]:
  "para_of p [] = p" "para_of p ((k, v) # fs) = para_of (Set p k v) fs"
  "para_of p (fs @ fs') = para_of (para_of p fs) fs'"
  by (simp_all add: para_of_def)

lemma para_of_fresh:
  assumes "distinct (map (to_lower \<circ> fst) fs)"
    and "\<And>k v. (k, v) \<in> set fs \<Longrightarrow> pvalues p (to_lower k) = None"
  shows "para_of p fs =
     \<lparr>pkeys = pkeys p @ map fst fs, plkeys = plkeys p @ map (to_lower \<circ> fst) fs,
      pvalues = pvalues p ++ map_of (map (\<lambda>(k, v). (to_lower k, v)) fs)\<rparr>"
  using assms
proof (induction fs arbitrary: p)
  case Nil
  then show ?case by simp
next
  case (Cons f fs)
  obtain k v where f: "f = (k, v)" by (cases f)
  have k: "pvalues p (to_lower k) = None" using Cons.prems(2) f by auto
  have fresh: "pvalues (Set p k v) (to_lower j) = None" if "(j, w) \<in> set fs" for j w
    using Cons.prems(1) Cons.prems(2)[of j w] that f by (force simp: Set_lookup)
  have notin: "map_of (map (\<lambda>(k, v). (to_lower k, v)) fs) (to_lower k) = None"
    using Cons.prems(1) f by (force simp: map_of_eq_None_iff)
  have "para_of p (f # fs) = para_of (Set p k v) fs" by (simp add: f)
  also have "\<dots> = \<lparr>pkeys = pkeys (Set p k v) @ map fst fs,
      plkeys = plkeys (Set p k v) @ map (to_lower \<circ> fst) fs,
      pvalues = pvalues (Set p k v) ++ map_of (map (\<lambda>(k, v). (to_lower k, v)) fs)\<rparr>"
    by (rule Cons.IH) (use Cons.prems(1) fresh in auto)
  also have "\<dots> = \<lparr>pkeys = pkeys p @ map fst (f # fs), plkeys = plkeys p @ map (to_lower \<circ> fst) (f # fs),
      pvalues = pvalues p ++ map_of (map (\<lambda>(k, v). (to_lower k, v)) (f # fs))\<rparr>"
    using k notin by (auto simp: Set_def Let_def f map_add_def fun_eq_iff split: option.splits)
  finally show ?case .
qed

lemma map_of_lookup:
  assumes "dom f = set ks" "\<And>k. k \<in> set ks \<Longrightarrow> g k = the (f k)"
  shows "map_of (map (\<lambda>k. (k, g k)) ks) = f"
proof
  fix x
  show "map_of (map (\<lambda>k. (k, g k)) ks) x = f x"
  proof (cases "x \<in> set ks")
    case True
    with assms obtain y where "f x = Some y" by blast
    with True assms show ?thesis by (simp add: map_of_map_restrict)
  next
    case False
    with assms have "f x = None" by blast
    with False show ?thesis by (simp add: map_of_map_restrict)
  qed
qed

lemma para_of_fields: "para_ok p \<Longrightarrow> para_of NewParagraph (paragraphFields p) = p"
proof -
  assume ok: "para_ok p"
  let ?fs = "paragraphFields p"
  have fs: "?fs = map (\<lambda>k. (k, GetLower p (to_lower k))) (pkeys p)"
    using ok by (simp add: paragraphFields_def para_ok_def zip_map2 map_idI zip_same_conv_map)
  have keys: "map fst ?fs = pkeys p" by (simp add: fs comp_def)
  have lk: "map (to_lower \<circ> fst) ?fs = plkeys p" using ok by (simp add: fs comp_def para_ok_def)
  have "map (\<lambda>(k, v). (to_lower k, v)) ?fs = map (\<lambda>k. (k, GetLower p k)) (plkeys p)"
    using ok by (simp add: fs comp_def para_ok_def)
  moreover have "map_of (map (\<lambda>k. (k, GetLower p k)) (plkeys p)) = pvalues p"
  proof (rule map_of_lookup)
    show dom: "dom (pvalues p) = set (plkeys p)" using ok by (simp add: para_ok_def)
    show "GetLower p k = the (pvalues p k)" if "k \<in> set (plkeys p)" for k
      using that unfolding dom[symmetric] by (auto simp: GetLower_def)
  qed
  ultimately have "map_of (map (\<lambda>(k, v). (to_lower k, v)) ?fs) = pvalues p" by simp
  then show ?thesis
    using ok keys lk by (subst para_of_fresh) (auto simp: para_ok_def NewParagraph_def)
qed


section \<open>What the parser returns\<close>

definition parse_state_ok :: "parse_state \<Rightarrow> bool" where
  "parse_state_ok st \<longleftrightarrow>
     list_all (\<lambda>p. para_ok p \<and> pkeys p \<noteq> []) (ps_paras st) \<and> para_ok (ps_cur st) \<and>
     (ps_lastKey st \<noteq> [] \<longrightarrow> to_lower (ps_lastKey st) \<in> set (plkeys (ps_cur st))) \<and>
     (ps_nonEmpty st \<longrightarrow> pkeys (ps_cur st) \<noteq> [])"

lemma parse_flush_ok: "parse_state_ok st \<Longrightarrow> parse_state_ok (parse_flush st)"
  by (auto simp: parse_state_ok_def parse_flush_def)

lemma Set_adds_key:
  "para_ok p \<Longrightarrow> to_lower k \<in> set (plkeys (Set p k v)) \<and> pkeys (Set p k v) \<noteq> []"
  by (auto simp: Set_def Let_def para_ok_def)

lemma continuation_ok:
  "parse_state_ok st \<Longrightarrow> ps_lastKey st \<noteq> [] \<Longrightarrow>
   parse_state_ok (st\<lparr>ps_cur := (ps_cur st)\<lparr>pvalues := (pvalues (ps_cur st))(to_lower (ps_lastKey st) \<mapsto> v)\<rparr>\<rparr>)"
  by (auto simp: parse_state_ok_def dest: para_ok_update)

lemma new_field_ok:
  "parse_state_ok st \<Longrightarrow>
   parse_state_ok (st\<lparr>ps_cur := Set (ps_cur st) k v, ps_lastKey := k, ps_nonEmpty := True\<rparr>)"
  by (simp add: parse_state_ok_def Set_adds_key)

lemma parse_line_ok: "parse_line l st = Inr st' \<Longrightarrow> parse_state_ok st \<Longrightarrow> parse_state_ok st'"
  unfolding parse_line_def Let_def
  by (auto simp: parse_flush_ok new_field_ok simp del: fun_upd_apply
      intro: continuation_ok split: if_splits option.splits)

lemma parse_lines_ok: "parse_lines ls st = Inr st' \<Longrightarrow> parse_state_ok st \<Longrightarrow> parse_state_ok st'"
  by (induction ls arbitrary: st) (auto split: sum.splits dest: parse_line_ok)

lemma parse_state_ok_init: "parse_state_ok init_parse_state"
  by (simp add: parse_state_ok_def init_parse_state_def)

text \<open>every paragraph the parser returns satisfies the paragraph invariant (ordered names, lower-case
  names and value map in step, no name twice) and has at least one field.\<close>

theorem ParseParagraphs_invariant:
  "ParseParagraphs r = Inr ps \<Longrightarrow> p \<in> set ps \<Longrightarrow> para_ok p \<and> pkeys p \<noteq> []"
proof -
  assume r: "ParseParagraphs r = Inr ps" and p: "p \<in> set ps"
  obtain st where st: "parse_lines (fst (scan_lines max_index_token r)) init_parse_state = Inr st"
    and ps: "ps = ps_paras (parse_flush st)"
    using r by (auto simp: ParseParagraphs_def split: prod.splits sum.splits if_splits)
  have "parse_state_ok (parse_flush st)"
    by (rule parse_flush_ok) (rule parse_lines_ok[OF st parse_state_ok_init])
  then show ?thesis using p ps by (auto simp: parse_state_ok_def list_all_iff)
qed


section \<open>Rendering and parsing back\<close>

text \<open>The fields the round trip is stated for: a name the parser reads back as it is, no
  carriage return, and no line at the scanner's limit.\<close>

definition field_ok :: "string \<times> string \<Rightarrow> bool" where
  "field_ok f = (case f of (k, v) \<Rightarrow>
     k \<noteq> [] \<and> trim_space k = k \<and> CHR '':'' \<notin> set k \<and> NL \<notin> set k \<and> CR \<notin> set k \<and>
     CR \<notin> set v \<and>
     length k + length v + 3 < max_index_token)"

definition para_canonical :: "Paragraph \<Rightarrow> bool" where
  "para_canonical p \<longleftrightarrow> para_ok p \<and> pkeys p \<noteq> [] \<and> list_all field_ok (paragraphFields p)"

text \<open>What rendering does to a value: a multi-line value is always written below its name, so it comes
  back with an empty first line; a single line comes back without the blanks around it.\<close>

definition reread :: "(string \<Rightarrow> string) \<Rightarrow> string \<Rightarrow> string" where
  "reread body v = (if NL \<in> set v then NL # body v else trim_space v)"

abbreviation below_name :: "string \<Rightarrow> string" where
  "below_name \<equiv> reread (\<lambda>v. trim_prefix v [NL])"

definition map_values :: "(string \<Rightarrow> string) \<Rightarrow> Paragraph \<Rightarrow> Paragraph" where
  "map_values f p = p\<lparr>pvalues := map_option f \<circ> pvalues p\<rparr>"

text \<open>The lines of a field whose multi-line value is given as its continuation text.\<close>

definition field_lines :: "(string \<Rightarrow> string) \<Rightarrow> string \<Rightarrow> string \<Rightarrow> string list" where
  "field_lines body k v =
     (if NL \<in> set v then (k @ '':'') # map (\<lambda>l. CHR '' '' # l) (split_on NL (body v))
      else [k @ '': '' @ v])"

lemma unlines_join: "xs \<noteq> [] \<Longrightarrow> unlines xs = join [NL] xs @ [NL]"
proof (induction xs)
  case (Cons x xs)
  then show ?case by (cases "xs = []") (simp_all add: join_Cons)
qed simp

lemma write_field_lines: "write_field k v = unlines (field_lines (\<lambda>v. trim_prefix v [NL]) k v)"
  by (simp add: write_field_def field_lines_def indentContinuation_def unlines_join join_Cons)

lemma writeIndented_join: "writeIndented v = join [NL] (map (\<lambda>l. CHR '' '' # l) (split_on NL v))"
proof (induction v rule: writeIndented.induct)
  case (1 v)
  show ?case
  proof (cases "cut NL v")
    case None
    then have "split_on NL v = [v]" by (simp add: cut_None_iff split_on_no_sep)
    then show ?thesis by (subst writeIndented.simps) (simp add: None)
  next
    case (Some ab)
    obtain a b where ab: "ab = (a, b)" by (cases ab)
    from cut_SomeD[OF Some[unfolded ab]] have v: "v = a @ NL # b" and a: "NL \<notin> set a" .
    have IH: "writeIndented b = join [NL] (map (\<lambda>l. CHR '' '' # l) (split_on NL b))"
      using 1 Some ab by simp
    show ?thesis
      by (subst writeIndented.simps)
        (simp add: Some ab IH, simp add: v split_on_append[OF a] join_Cons)
  qed
qed

lemma stanza_field_lines:
  "(if NL \<in> set v then k @ '':'' @ [NL] @ writeIndented v @ [NL] else k @ '': '' @ v @ [NL]) =
     unlines (field_lines (\<lambda>v. v) k v)"
  by (simp add: field_lines_def writeIndented_join unlines_join join_Cons)

lemma field_lines_ok:
  assumes "field_ok (k, v)" "\<And>w. set (body w) \<subseteq> set w" "\<And>w. length (body w) \<le> length w"
    "l \<in> set (field_lines body k v)"
  shows "NL \<notin> set l \<and> CR \<notin> set l \<and> length l < max_index_token"
proof (cases "NL \<in> set v")
  case False
  with assms show ?thesis by (auto simp: field_ok_def field_lines_def)
next
  case True
  then consider "l = k @ '':''" | l' where "l = CHR '' '' # l'" "l' \<in> set (split_on NL (body v))"
    using assms(4) by (auto simp: field_lines_def)
  then show ?thesis
  proof cases
    case 1
    with assms(1) show ?thesis by (auto simp: field_ok_def)
  next
    case 2
    have "set l' \<subseteq> set (body v) \<and> length l' \<le> length (body v)"
      using 2(2) by (rule split_on_piece_sub)
    with 2 assms(1) assms(2)[of v] assms(3)[of v] split_on_pieces[OF 2(2)] show ?thesis
      by (auto simp: field_ok_def)
  qed
qed

lemma continuation_lines:
  assumes "ps_lastKey st = k" "k \<noteq> []" "\<And>l. l \<in> set ls \<Longrightarrow> CR \<notin> set l"
    "pvalues (ps_cur st) (to_lower k) = Some v"
  shows "parse_lines (map (\<lambda>l. CHR '' '' # l) ls @ rest) st =
     parse_lines rest (st\<lparr>ps_cur := (ps_cur st)\<lparr>pvalues :=
       (pvalues (ps_cur st))(to_lower k \<mapsto> v @ concat (map (\<lambda>l. NL # l) ls))\<rparr>\<rparr>)"
  using assms
proof (induction ls arbitrary: st v)
  case Nil
  then have "(pvalues (ps_cur st))(to_lower k \<mapsto> v) = pvalues (ps_cur st)" by auto
  then show ?case by simp
next
  case (Cons l ls)
  have "trim_right (\<lambda>c. c = CR) l = l"
    using Cons.prems(3)[of l] by (intro trim_right_id) (metis last_in_set list.set_intros(1))
  then have "parse_line (CHR '' '' # l) st = Inr (st\<lparr>ps_cur := (ps_cur st)\<lparr>pvalues :=
       (pvalues (ps_cur st))(to_lower k \<mapsto> v @ NL # l)\<rparr>\<rparr>)"
    using Cons.prems by (simp add: parse_line_def Get_def Let_def)
  then show ?case
    using Cons.IH[of "st\<lparr>ps_cur := (ps_cur st)\<lparr>pvalues := (pvalues (ps_cur st))(to_lower k \<mapsto> v @ NL # l)\<rparr>\<rparr>" "v @ NL # l"]
      Cons.prems by (simp add: fun_upd_def cong: if_cong)
qed

lemma concat_NL_join: "xs \<noteq> [] \<Longrightarrow> concat (map (\<lambda>l. NL # l) xs) = NL # join [NL] xs"
proof (induction xs)
  case (Cons x xs)
  then show ?case by (cases "xs = []") (simp_all add: join_Cons)
qed simp

lemma Set_overwrite:
  "(Set p k v)\<lparr>pvalues := \<lambda>a. if a = to_lower k then Some w else pvalues (Set p k v) a\<rparr> = Set p k w"
  by (auto simp: Set_def Let_def fun_upd_def cong: if_cong)

lemma field_line_step:
  assumes "field_ok (k, v)"
  shows "parse_line (k @ '':'' @ (if NL \<in> set v then [] else CHR '' '' # v)) st =
    Inr (st\<lparr>ps_cur := Set (ps_cur st) k (if NL \<in> set v then [] else trim_space v), ps_lastKey := k, ps_nonEmpty := True\<rparr>)"
proof -
  have k: "k \<noteq> []" "trim_space k = k" "CHR '':'' \<notin> set k" using assms by (auto simp: field_ok_def)
  then have "\<not> is_space (hd k)" using trim_space_ends[of k] by auto
  then have h: "hd k \<noteq> CHR '' ''" "hd k \<noteq> TAB" by (auto simp: is_space_def)
  have "trim_space (CHR '' '' # v) = trim_space v" by (simp add: trim_space_cons_space is_space_def)
  then show ?thesis using k h by (auto simp: parse_line_def cut_append)
qed

lemma field_lines_parse:
  assumes "field_ok (k, v)" "\<And>w. set (body w) \<subseteq> set w"
  shows "parse_lines (field_lines body k v @ rest) st =
    parse_lines rest (st\<lparr>ps_cur := Set (ps_cur st) k (reread body v), ps_lastKey := k, ps_nonEmpty := True\<rparr>)"
proof (cases "NL \<in> set v")
  case False
  then show ?thesis
    using field_line_step[OF assms(1), of st] by (simp add: field_lines_def reread_def)
next
  case True
  let ?st = "st\<lparr>ps_cur := Set (ps_cur st) k [], ps_lastKey := k, ps_nonEmpty := True\<rparr>"
  let ?ls = "split_on NL (body v)"
  have k: "k \<noteq> []" using assms(1) by (simp add: field_ok_def)
  have cr: "CR \<notin> set l" if "l \<in> set ?ls" for l
    using that assms split_on_piece_sub[OF that] by (auto simp: field_ok_def)
  have "parse_lines (field_lines body k v @ rest) st = parse_lines (map (\<lambda>l. CHR '' '' # l) ?ls @ rest) ?st"
    using True field_line_step[OF assms(1), of st] by (simp add: field_lines_def)
  also have "\<dots> = parse_lines rest (?st\<lparr>ps_cur := (ps_cur ?st)\<lparr>pvalues :=
       (pvalues (ps_cur ?st))(to_lower k \<mapsto> [] @ concat (map (\<lambda>l. NL # l) ?ls))\<rparr>\<rparr>)"
    by (rule continuation_lines) (use k cr in \<open>auto simp: Set_lookup\<close>)
  also have "concat (map (\<lambda>l. NL # l) ?ls) = NL # body v"
    by (simp add: concat_NL_join)
  finally show ?thesis using True by (cases st) (simp add: reread_def Set_overwrite fun_upd_def)
qed

lemma fields_parse:
  assumes "list_all field_ok fs" "\<And>w. set (body w) \<subseteq> set w" "fs \<noteq> []"
  shows "parse_lines (concat (map (\<lambda>(k, v). field_lines body k v) fs) @ rest) st =
    parse_lines rest (st\<lparr>ps_cur := para_of (ps_cur st) (map (\<lambda>(k, v). (k, reread body v)) fs),
      ps_lastKey := fst (last fs), ps_nonEmpty := True\<rparr>)"
  using assms(1,3)
proof (induction fs arbitrary: st)
  case (Cons f fs)
  obtain k v where f: "f = (k, v)" by (cases f)
  let ?st = "st\<lparr>ps_cur := Set (ps_cur st) k (reread body v), ps_lastKey := k, ps_nonEmpty := True\<rparr>"
  have "parse_lines (field_lines body k v @ concat (map (\<lambda>(k, v). field_lines body k v) fs) @ rest) st
      = parse_lines (concat (map (\<lambda>(k, v). field_lines body k v) fs) @ rest) ?st"
    by (rule field_lines_parse) (use Cons.prems assms(2) f in auto)
  then show ?case
    using Cons.IH[of ?st] Cons.prems f by (cases "fs = []") auto
qed simp

lemma map_values_fields: "para_ok p \<Longrightarrow>
  para_of NewParagraph (map (\<lambda>(k, v). (k, f v)) (paragraphFields p)) = map_values f p"
proof -
  assume ok: "para_ok p"
  have ok': "para_ok (map_values f p)" using ok by (auto simp: para_ok_def map_values_def)
  have "k \<in> set (plkeys p) \<Longrightarrow> GetLower (map_values f p) k = f (GetLower p k)" for k
    using ok unfolding para_ok_def by (metis (no_types, lifting) GetLower_def map_values_def
      Paragraph.select_convs(3) Paragraph.surjective Paragraph.update_convs(3) comp_apply domD option.case(2) option.map(2))
  then have "map (\<lambda>(k, v). (k, f v)) (paragraphFields p) = paragraphFields (map_values f p)"
    by (auto simp: paragraphFields_def map_values_def dest: set_zip_rightD)
  with para_of_fields[OF ok'] show ?thesis by simp
qed


abbreviation paragraph_lines :: "(string \<Rightarrow> string) \<Rightarrow> Paragraph \<Rightarrow> string list" where
  "paragraph_lines body p \<equiv> concat (map (\<lambda>(k, v). field_lines body k v) (paragraphFields p))"

lemma unlines_concat: "unlines (concat xss) = concat (map unlines xss)"
  by (induction xss) simp_all

lemma WriteTo_lines: "WriteTo p = unlines (paragraph_lines (\<lambda>v. trim_prefix v [NL]) p)"
  by (simp add: WriteTo_def paragraphFields_def unlines_concat write_field_lines comp_def split_def)

lemma StanzaString_lines: "StanzaString p = unlines (paragraph_lines (\<lambda>v. v) p)"
  unfolding StanzaString_def Let_def stanza_field_lines
  by (simp add: paragraphFields_def unlines_concat comp_def split_def)

fun file_lines :: "Paragraph list \<Rightarrow> string list" where
  "file_lines [] = []"
| "file_lines [p] = paragraph_lines (\<lambda>v. trim_prefix v [NL]) p"
| "file_lines (p # q # ps) = paragraph_lines (\<lambda>v. trim_prefix v [NL]) p @ [] # file_lines (q # ps)"

lemma WriteParagraphs_lines: "WriteParagraphs ps = unlines (file_lines ps)"
  by (induction ps rule: WriteParagraphs.induct) (simp_all add: WriteTo_lines)

lemma set_trim_prefix: "set (trim_prefix w p) \<subseteq> set w"
  by (auto simp: trim_prefix_def dest: in_set_dropD)

lemma length_trim_prefix: "length (trim_prefix w p) \<le> length w"
  by (simp add: trim_prefix_def)

lemma paragraph_lines_ok:
  assumes "para_canonical p" "\<And>w. set (body w) \<subseteq> set w" "\<And>w. length (body w) \<le> length w"
    "l \<in> set (paragraph_lines body p)"
  shows "NL \<notin> set l \<and> CR \<notin> set l \<and> length l < max_index_token"
proof -
  obtain k v where kv: "(k, v) \<in> set (paragraphFields p)" "l \<in> set (field_lines body k v)"
    using assms(4) by auto
  have "field_ok (k, v)" using assms(1) kv(1) by (auto simp: para_canonical_def list_all_iff)
  from field_lines_ok[OF this assms(2,3) kv(2)] show ?thesis .
qed

lemma zero_less_max_token [simp]: "0 < max_index_token"
  by (simp add: max_index_token_def)

lemma file_lines_ok:
  "list_all para_canonical ps \<Longrightarrow> l \<in> set (file_lines ps) \<Longrightarrow>
   NL \<notin> set l \<and> CR \<notin> set l \<and> length l < max_index_token"
proof (induction ps rule: file_lines.induct)
  case (2 p)
  then show ?case using paragraph_lines_ok[of p "\<lambda>v. trim_prefix v [NL]" l, OF _ set_trim_prefix length_trim_prefix] by auto
next
  case (3 p q ps)
  then show ?case
    using paragraph_lines_ok[of p "\<lambda>v. trim_prefix v [NL]" l, OF _ set_trim_prefix length_trim_prefix]
    by auto
qed simp

lemma paragraph_parse:
  assumes "para_canonical p" "\<And>w. set (body w) \<subseteq> set w" "ps_cur st = NewParagraph"
  shows "\<exists>lk. parse_lines (paragraph_lines body p @ rest) st =
    parse_lines rest (st\<lparr>ps_cur := map_values (reread body) p, ps_lastKey := lk, ps_nonEmpty := True\<rparr>)"
proof -
  have ok: "para_ok p" "list_all field_ok (paragraphFields p)" using assms(1) by (auto simp: para_canonical_def)
  have "paragraphFields p \<noteq> []" using assms(1) by (auto simp: para_canonical_def paragraphFields_def para_ok_def)
  from fields_parse[OF ok(2) assms(2) this, of rest st] show ?thesis
    by (auto simp: map_values_fields[OF ok(1)] assms(3))
qed

lemma file_parse:
  assumes "list_all para_canonical ps"
  shows "\<exists>st. parse_lines (file_lines ps) \<lparr>ps_paras = qs, ps_cur = NewParagraph, ps_lastKey = [], ps_nonEmpty = False\<rparr> = Inr st
     \<and> ps_paras (parse_flush st) = qs @ map (map_values below_name) ps"
  using assms
proof (induction ps arbitrary: qs rule: file_lines.induct)
  case 1
  then show ?case by (simp add: parse_flush_def)
next
  case (2 p)
  let ?st = "\<lparr>ps_paras = qs, ps_cur = NewParagraph, ps_lastKey = [], ps_nonEmpty = False\<rparr>"
  show ?case
    using paragraph_parse[of p "\<lambda>v. trim_prefix v [NL]" ?st "[]", OF _ set_trim_prefix] 2
    by (auto simp: parse_flush_def)
next
  case (3 p q ps)
  let ?st = "\<lparr>ps_paras = qs, ps_cur = NewParagraph, ps_lastKey = [], ps_nonEmpty = False\<rparr>"
  let ?st' = "\<lparr>ps_paras = qs @ [map_values below_name p], ps_cur = NewParagraph, ps_lastKey = [], ps_nonEmpty = False\<rparr>"
  have "parse_lines (file_lines (p # q # ps)) ?st = parse_lines (file_lines (q # ps)) ?st'"
    using paragraph_parse[of p "\<lambda>v. trim_prefix v [NL]" ?st "[] # file_lines (q # ps)", OF _ set_trim_prefix] 3(2)
    by (auto simp: parse_flush_def parse_line_def)
  with 3(1)[of "qs @ [map_values below_name p]"] 3(2) show ?case by simp
qed

text \<open>C26: writing canonical paragraphs and parsing the result gives the same paragraphs: the same fields in
  the same order with the same values, a multi-line value being laid out below its name and a single line losing the
  blanks around it.\<close>

theorem WriteParagraphs_roundtrip:
  assumes "list_all para_canonical ps"
  shows "ParseParagraphs (WriteParagraphs ps) = Inr (map (map_values below_name) ps)"
proof -
  have scan: "scan_lines max_index_token (WriteParagraphs ps) = (file_lines ps, False)"
    unfolding WriteParagraphs_lines by (rule scan_lines_unlines) (rule file_lines_ok[OF assms])
  show ?thesis
    using file_parse[OF assms, of "[]"] by (auto simp: ParseParagraphs_def scan init_parse_state_def)
qed

lemma below_name_idem: "below_name (below_name v) = below_name v"
  using set_trim_space[of v] by (auto simp: reread_def trim_prefix_def has_prefix_def dest: in_set_dropD)


lemma StanzaString_parses:
  assumes "para_canonical p"
  shows "ParseParagraphs (StanzaString p) = Inr [map_values (reread (\<lambda>v. v)) p]"
proof -
  have scan: "scan_lines max_index_token (StanzaString p) = (paragraph_lines (\<lambda>v. v) p, False)"
    unfolding StanzaString_lines
    by (rule scan_lines_unlines) (rule paragraph_lines_ok[OF assms, of "\<lambda>v. v"], simp_all)
  have "\<exists>lk. parse_lines (paragraph_lines (\<lambda>v. v) p) init_parse_state = Inr (init_parse_state
      \<lparr>ps_cur := map_values (reread (\<lambda>v. v)) p, ps_lastKey := lk, ps_nonEmpty := True\<rparr>)"
    using paragraph_parse[OF assms, of "\<lambda>v. v" init_parse_state "[]"] by (simp add: init_parse_state_def)
  then show ?thesis by (auto simp: ParseParagraphs_def scan parse_flush_def init_parse_state_def)
qed

text \<open>a paragraph that went through \<open>ParseStanza\<close> and \<open>StanzaString\<close> keeps every field name and
  every single-line value up to the blanks around it, but \<open>StanzaString\<close> writes a multi-line value with its leading line break, so
  each such value comes back with one more of them.\<close>

theorem StanzaString_roundtrip:
  assumes "para_canonical p"
  shows "ParseStanza (StanzaString p) = Inr (map_values (reread (\<lambda>v. v)) p)"
  using StanzaString_parses[OF assms] by (simp add: ParseStanza_def)

text \<open>A paragraph survives the JSON methods: whatever codec decodes what it encoded gives back the
  fields in order, and \<open>UnmarshalJSON\<close> rebuilds the same paragraph from them.\<close>

theorem JSON_roundtrip:
  assumes "para_ok p" "\<And>fs. json_decode (json_encode fs) = Some fs"
  shows "UnmarshalJSON json_decode (MarshalJSON json_encode p) = Some p"
  using para_of_fields[OF assms(1)] assms(2)
  by (simp add: UnmarshalJSON_def MarshalJSON_def para_of_def)


section \<open>Witnesses\<close>

definition sample_para :: Paragraph where
  "sample_para = Set (Set NewParagraph ''Package'' ''hello'') ''Description'' (''greet'' @ [NL] @ ''more'')"

lemma sample_canonical: "para_canonical sample_para"
  by (simp add: para_canonical_def sample_para_def paragraphFields_def field_ok_def max_index_token_def
      GetLower_def Set_def NewParagraph_def Let_def to_lower_def lower_char_def trim_space_def trim_def
      trim_left_def trim_right_def is_space_def para_ok_def less_eq_char_def insert_commute)

theorem WriteParagraphs_roundtrip_witness:
  "ParseParagraphs (WriteParagraphs [sample_para, sample_para]) =
     Inr (map (map_values below_name) [sample_para, sample_para])"
  by (rule WriteParagraphs_roundtrip) (simp add: sample_canonical)

theorem StanzaString_roundtrip_witness:
  "ParseStanza (StanzaString sample_para) = Inr (map_values (reread (\<lambda>v. v)) sample_para)"
  by (rule StanzaString_roundtrip) (rule sample_canonical)


theorem ParseParagraphs_invariant_witness:
  "ParseParagraphs (''A: b'' @ [NL] @ ''C: d'' @ [NL]) = Inr [Set (Set NewParagraph ''A'' ''b'') ''C'' ''d''] \<and>
   para_ok (Set (Set NewParagraph ''A'' ''b'') ''C'' ''d'')"
proof -
  have parsed: "ParseParagraphs (''A: b'' @ [NL] @ ''C: d'' @ [NL]) = Inr [Set (Set NewParagraph ''A'' ''b'') ''C'' ''d'']"
    by (simp add: ParseParagraphs_def scan_lines_def raw_lines_def Let_def drop_cr_def max_index_token_def
        init_parse_state_def parse_line_def parse_flush_def cut_def trim_space_def trim_def trim_left_def
        trim_right_def is_space_def)
  with ParseParagraphs_invariant[OF parsed] show ?thesis by simp
qed

text \<open>A concrete codec with the round trip the JSON methods rely on.\<close>

fun enc_str :: "string \<Rightarrow> string" where
  "enc_str [] = ''.''"
| "enc_str (c # s) = CHR ''x'' # c # enc_str s"

fun dec_str :: "string \<Rightarrow> (string \<times> string) option" where
  "dec_str (x # rest) =
     (if x = CHR ''.'' then Some ([], rest)
      else case rest of [] \<Rightarrow> None | c # r \<Rightarrow> map_option (\<lambda>(s, t). (c # s, t)) (dec_str r))"
| "dec_str [] = None"

lemma dec_enc_str [simp]: "dec_str (enc_str s @ r) = Some (s, r)"
  by (induction s) simp_all

fun dec_pairs :: "nat \<Rightarrow> string \<Rightarrow> (string \<times> string) list option" where
  "dec_pairs n [] = Some []"
| "dec_pairs 0 _ = None"
| "dec_pairs (Suc n) s =
     (case dec_str s of None \<Rightarrow> None | Some (k, r) \<Rightarrow>
        (case dec_str r of None \<Rightarrow> None | Some (v, t) \<Rightarrow> map_option (\<lambda>fs. (k, v) # fs) (dec_pairs n t)))"

definition enc_fields :: "(string \<times> string) list \<Rightarrow> string" where
  "enc_fields fs = concat (map (\<lambda>(k, v). enc_str k @ enc_str v) fs)"

definition dec_fields :: "string \<Rightarrow> (string \<times> string) list option" where
  "dec_fields s = dec_pairs (length s) s"

lemma enc_str_not_Nil [simp]: "enc_str s \<noteq> []"
  by (cases s) simp_all

lemma dec_pairs_enc: "length fs \<le> n \<Longrightarrow> dec_pairs n (enc_fields fs) = Some fs"
proof (induction fs arbitrary: n)
  case Nil
  then show ?case by (simp add: enc_fields_def)
next
  case (Cons f fs)
  obtain k v where f: "f = (k, v)" by (cases f)
  obtain m where n: "n = Suc m" "length fs \<le> m" using Cons.prems by (cases n) auto
  obtain x xs where x: "enc_str k @ enc_str v @ enc_fields fs = x # xs"
    by (metis append_is_Nil_conv enc_str_not_Nil neq_Nil_conv)
  have "dec_str (x # xs) = Some (k, enc_str v @ enc_fields fs)" by (metis x dec_enc_str)
  moreover have "enc_fields (f # fs) = x # xs" using x by (simp add: enc_fields_def f)
  ultimately show ?case using Cons.IH[OF n(2)] by (simp add: n f)
qed

lemma length_enc_fields: "length fs \<le> length (enc_fields fs)"
proof (induction fs)
  case (Cons f fs)
  obtain n where "length (enc_str (fst f)) = Suc n" by (cases "enc_str (fst f)") auto
  with Cons show ?case by (cases f) (simp add: enc_fields_def)
qed (simp add: enc_fields_def)

lemma dec_enc_fields: "dec_fields (enc_fields fs) = Some fs"
  by (simp add: dec_fields_def dec_pairs_enc length_enc_fields)

theorem JSON_roundtrip_witness:
  "UnmarshalJSON dec_fields (MarshalJSON enc_fields sample_para) = Some sample_para"
  by (rule JSON_roundtrip) (simp_all add: dec_enc_fields sample_para_def)

end
