(* ===== verification/Stanzas.thy ===== *)
theory Stanzas
  imports Deb822
begin

text \<open>
  The streaming readers of Packages and Sources indices (\<open>src/internal/apt/packages.go\<close>,
  \<open>sources.go\<close>) and the two serialisers of \<open>pdiff.go\<close>.  Both readers extract a few fields and keep
  the verbatim stanza text; what they share is stated once as the locale \<open>stanza_scanner\<close>, and the
  rewriting of one field of a verbatim stanza as the locale \<open>field_rewriter\<close>.
\<close>

section \<open>Definitions\<close>

record RawPkg =
  rp_Package :: string
  rp_Version :: string
  rp_Arch :: string
  rp_Section :: string
  rp_Filename :: string
  rp_Size :: int
  rp_SHA256 :: string
  rp_SHA512 :: string
  rp_Depends :: string
  rp_PreDepends :: string
  rp_Raw :: string

record RawSrcFile =
  sf_Filename :: string
  sf_Size :: int
  sf_SHA256 :: string

record RawSrc =
  rs_Package :: string
  rs_Version :: string
  rs_Directory :: string
  rs_Files :: "RawSrcFile list"
  rs_Raw :: string

definition zero_RawPkg :: RawPkg where
  "zero_RawPkg = \<lparr>rp_Package = [], rp_Version = [], rp_Arch = [], rp_Section = [], rp_Filename = [],
     rp_Size = 0, rp_SHA256 = [], rp_SHA512 = [], rp_Depends = [], rp_PreDepends = [], rp_Raw = []\<rparr>"

definition zero_RawSrc :: RawSrc where
  "zero_RawSrc = \<lparr>rs_Package = [], rs_Version = [], rs_Directory = [], rs_Files = [], rs_Raw = []\<rparr>"

text \<open>Replacing the value of a field inside the verbatim text: the first line after the first one that
  starts with the exact \<open>Name: \<close>, else the first line; \<open>absent\<close> is the result when there is none.\<close>

definition with_field :: "string \<Rightarrow> string \<Rightarrow> string \<Rightarrow> string \<Rightarrow> string" where
  "with_field name raw new absent =
     (let prefix = NL # name @ '': '' in
      case index_sub raw prefix of
        None \<Rightarrow>
          (if has_prefix raw (name @ '': '')
           then (case cut NL raw of
                   None \<Rightarrow> name @ '': '' @ new
                 | Some (_, b) \<Rightarrow> name @ '': '' @ new @ NL # b)
           else absent)
      | Some idx \<Rightarrow>
          (let rest = drop (idx + length prefix) raw in
           case cut NL rest of
             None \<Rightarrow> take idx raw @ prefix @ new
           | Some (_, b) \<Rightarrow> take idx raw @ prefix @ new @ NL # b))"

definition WithFilename :: "RawPkg \<Rightarrow> string \<Rightarrow> string" where
  "WithFilename r newFilename =
     with_field ''Filename'' (rp_Raw r) newFilename (''Filename: '' @ newFilename @ [NL] @ rp_Raw r)"

definition WithDirectory :: "RawSrc \<Rightarrow> string \<Rightarrow> string" where
  "WithDirectory r newDir =
     with_field ''Directory'' (rs_Raw r) newDir (rs_Raw r @ ''Directory: '' @ newDir @ [NL])"

fun rawParseInt64_loop :: "int \<Rightarrow> string \<Rightarrow> int" where
  "rawParseInt64_loop n [] = n"
| "rawParseInt64_loop n (c # s) =
     (if is_digit c then rawParseInt64_loop (wrap64 (n * 10 + (byte_val c - 48))) s else n)"

definition rawParseInt64 :: "string \<Rightarrow> int" where
  "rawParseInt64 s = rawParseInt64_loop 0 s"

text \<open>The variables of both reading loops.\<close>

record 'c scan_state =
  sc_result :: "'c list"
  sc_raw :: string
  sc_cur :: 'c
  sc_nonEmpty :: bool
  sc_lastKey :: string

definition start_scan :: "'c \<Rightarrow> 'c scan_state" where
  "start_scan zero = \<lparr>sc_result = [], sc_raw = [], sc_cur = zero, sc_nonEmpty = False, sc_lastKey = []\<rparr>"

definition flush_stanza :: "('c \<Rightarrow> string \<Rightarrow> 'c) \<Rightarrow> 'c \<Rightarrow> 'c scan_state \<Rightarrow> 'c scan_state" where
  "flush_stanza set_raw zero st =
     \<lparr>sc_result = (if sc_nonEmpty st then sc_result st @ [set_raw (sc_cur st) (sc_raw st)] else sc_result st),
      sc_raw = [], sc_cur = zero, sc_nonEmpty = False, sc_lastKey = []\<rparr>"

fun scan_with :: "(string \<Rightarrow> 's \<Rightarrow> 'e + 's) \<Rightarrow> string list \<Rightarrow> 's \<Rightarrow> 'e + 's" where
  "scan_with step [] st = Inr st"
| "scan_with step (l # ls) st = (case step l st of Inl e \<Rightarrow> Inl e | Inr st' \<Rightarrow> scan_with step ls st')"

definition is_cont :: "string \<Rightarrow> bool" where
  "is_cont line \<longleftrightarrow> line \<noteq> [] \<and> (hd line = CHR '' '' \<or> hd line = TAB)"

definition pkg_set_raw :: "RawPkg \<Rightarrow> string \<Rightarrow> RawPkg" where
  "pkg_set_raw c raw = c\<lparr>rp_Raw := raw\<rparr>"

definition pkg_field :: "string \<Rightarrow> string \<Rightarrow> RawPkg \<Rightarrow> RawPkg" where
  "pkg_field lk val cur =
     (if lk = ''package'' then cur\<lparr>rp_Package := val\<rparr>
      else if lk = ''version'' then cur\<lparr>rp_Version := val\<rparr>
      else if lk = ''architecture'' then cur\<lparr>rp_Arch := val\<rparr>
      else if lk = ''section'' then cur\<lparr>rp_Section := val\<rparr>
      else if lk = ''filename'' then cur\<lparr>rp_Filename := val\<rparr>
      else if lk = ''size'' then cur\<lparr>rp_Size := rawParseInt64 val\<rparr>
      else if lk = ''sha256'' then cur\<lparr>rp_SHA256 := val\<rparr>
      else if lk = ''sha512'' then cur\<lparr>rp_SHA512 := val\<rparr>
      else if lk = ''depends'' then cur\<lparr>rp_Depends := val\<rparr>
      else if lk = ''pre-depends'' then cur\<lparr>rp_PreDepends := val\<rparr>
      else cur)"

definition pkg_cont :: "string \<Rightarrow> string \<Rightarrow> RawPkg \<Rightarrow> RawPkg" where
  "pkg_cont lastKey cont cur =
     (if lastKey = ''depends'' then cur\<lparr>rp_Depends := rp_Depends cur @ [NL] @ cont\<rparr>
      else if lastKey = ''pre-depends'' then cur\<lparr>rp_PreDepends := rp_PreDepends cur @ [NL] @ cont\<rparr>
      else cur)"

definition pkg_line :: "string \<Rightarrow> RawPkg scan_state \<Rightarrow> deb822_error + RawPkg scan_state" where
  "pkg_line line st =
     (if line = [] then Inr (flush_stanza pkg_set_raw zero_RawPkg st)
      else let st = st\<lparr>sc_raw := sc_raw st @ line @ [NL]\<rparr> in
        if is_cont line then Inr (st\<lparr>sc_cur := pkg_cont (sc_lastKey st) (tl line) (sc_cur st)\<rparr>)
        else case cut CHR '':'' line of
          None \<Rightarrow> Inl (InvalidFieldLine line)
        | Some (k, v) \<Rightarrow>
            Inr (st\<lparr>sc_cur := pkg_field (to_lower k) (trim_space v) (sc_cur st),
                   sc_nonEmpty := True, sc_lastKey := to_lower k\<rparr>))"

definition ParsePackageRaws :: "string \<Rightarrow> deb822_error + RawPkg list" where
  "ParsePackageRaws r =
     (let (lines, too_long) = scan_lines max_index_token r in
      case scan_with pkg_line lines (start_scan zero_RawPkg) of
        Inl e \<Rightarrow> Inl e
      | Inr st \<Rightarrow> if too_long then Inl TokenTooLong
                  else Inr (sc_result (flush_stanza pkg_set_raw zero_RawPkg st)))"

definition src_set_raw :: "RawSrc \<Rightarrow> string \<Rightarrow> RawSrc" where
  "src_set_raw c raw = c\<lparr>rs_Raw := raw\<rparr>"

definition src_field :: "string \<Rightarrow> string \<Rightarrow> RawSrc \<Rightarrow> RawSrc" where
  "src_field lk val cur =
     (if lk = ''package'' then cur\<lparr>rs_Package := val\<rparr>
      else if lk = ''version'' then cur\<lparr>rs_Version := val\<rparr>
      else if lk = ''directory'' then cur\<lparr>rs_Directory := val\<rparr>
      else cur)"

definition src_cont :: "string \<Rightarrow> string \<Rightarrow> RawSrc \<Rightarrow> RawSrc" where
  "src_cont lastKey line cur =
     (if lastKey = ''checksums-sha256''
      then (case str_fields line of
              [h, n, f] \<Rightarrow> cur\<lparr>rs_Files := rs_Files cur @
                             [\<lparr>sf_Filename = f, sf_Size = rawParseInt64 n, sf_SHA256 = h\<rparr>]\<rparr>
            | _ \<Rightarrow> cur)
      else cur)"

definition src_line :: "string \<Rightarrow> RawSrc scan_state \<Rightarrow> deb822_error + RawSrc scan_state" where
  "src_line line st =
     (if line = [] then Inr (flush_stanza src_set_raw zero_RawSrc st)
      else let st = st\<lparr>sc_raw := sc_raw st @ line @ [NL]\<rparr> in
        if is_cont line then Inr (st\<lparr>sc_cur := src_cont (sc_lastKey st) line (sc_cur st)\<rparr>)
        else case cut CHR '':'' line of
          None \<Rightarrow> Inr st
        | Some (k, v) \<Rightarrow>
            Inr (st\<lparr>sc_cur := src_field (to_lower k) (trim_space v) (sc_cur st),
                   sc_nonEmpty := True, sc_lastKey := to_lower k\<rparr>))"

definition ParseSourceRaws :: "string \<Rightarrow> deb822_error + RawSrc list" where
  "ParseSourceRaws r =
     (let (lines, too_long) = scan_lines max_index_token r in
      case scan_with src_line lines (start_scan zero_RawSrc) of
        Inl e \<Rightarrow> Inl e
      | Inr st \<Rightarrow> if too_long then Inl TokenTooLong
                  else Inr (sc_result (flush_stanza src_set_raw zero_RawSrc st)))"

definition SerializeRawPkgs :: "RawPkg list \<Rightarrow> string" where
  "SerializeRawPkgs pkgs = concat (map (\<lambda>p. rp_Raw p @ [NL]) pkgs)"

definition SerializeRawSrcs :: "RawSrc list \<Rightarrow> string" where
  "SerializeRawSrcs srcs = concat (map (\<lambda>s. rs_Raw s @ [NL]) srcs)"

text \<open>\<open>BuildPackagesStanza\<close>: the conventional fields first, then the others, then the repository fields.\<close>

definition packagesFieldOrder :: "string list" where
  "packagesFieldOrder =
     [''Package'', ''Source'', ''Version'', ''Architecture'', ''Maintainer'', ''Installed-Size'',
      ''Provides'', ''Depends'', ''Pre-Depends'', ''Recommends'', ''Suggests'', ''Conflicts'',
      ''Breaks'', ''Replaces'', ''Section'', ''Priority'', ''Multi-Arch'', ''Homepage'',
      ''Description'', ''Description-md5'']"

definition packagesFieldOrderLower :: "string list" where
  "packagesFieldOrderLower = map to_lower packagesFieldOrder"

definition stanza_standard :: "Paragraph \<Rightarrow> Paragraph \<times> string list" where
  "stanza_standard control =
     foldl (\<lambda>(out, seen) (k, lk). let v = GetLower control lk in
              if v \<noteq> [] then (Set out k v, lk # seen) else (out, seen))
           (NewParagraph, []) (zip packagesFieldOrder packagesFieldOrderLower)"

definition BuildPackagesStanza :: "Paragraph \<Rightarrow> string \<Rightarrow> int \<Rightarrow> string \<Rightarrow> string \<Rightarrow> Paragraph" where
  "BuildPackagesStanza control filename sz sha256 sha512 =
     (let (out, seen) = stanza_standard control;
          out = foldl (\<lambda>out (k, lk). if lk \<in> set seen then out else Set out k (GetLower control lk))
                  out (zip (Keys control) (LKeys control));
          out = Set out ''Filename'' filename;
          out = Set out ''Size'' (format_int sz);
          out = Set out ''SHA256'' sha256
      in if sha512 \<noteq> [] then Set out ''SHA512'' sha512 else out)"


section \<open>What every stanza reader promises\<close>

definition stanza_lines_ok :: "string list \<Rightarrow> bool" where
  "stanza_lines_ok ls \<longleftrightarrow>
     list_all (\<lambda>l. l \<noteq> [] \<and> NL \<notin> set l \<and> CR \<notin> set l \<and> length l < max_index_token) ls"

lemma stanza_lines_okD:
  assumes "stanza_lines_ok ls" "l \<in> set ls"
  shows "l \<noteq> []" "NL \<notin> set l" "CR \<notin> set l" "length l < max_index_token"
  using assms by (auto simp: stanza_lines_ok_def list_all_iff)

lemma scan_with_append:
  "scan_with step (xs @ ys) st = (case scan_with step xs st of Inl e \<Rightarrow> Inl e | Inr st' \<Rightarrow> scan_with step ys st')"
  by (induction xs arbitrary: st) (auto split: sum.splits)

locale stanza_scanner =
  fixes step :: "string \<Rightarrow> 'c scan_state \<Rightarrow> deb822_error + 'c scan_state"
    and set_raw :: "'c \<Rightarrow> string \<Rightarrow> 'c" and get_raw :: "'c \<Rightarrow> string" and zero :: 'c
  assumes blank: "step [] st = Inr (flush_stanza set_raw zero st)"
    and local: "l \<noteq> [] \<Longrightarrow> step l (st\<lparr>sc_result := r, sc_raw := w\<rparr>) =
      map_sum id (\<lambda>st'. st'\<lparr>sc_result := r, sc_raw := w @ l @ [NL]\<rparr>) (step l st)"
    and get_set_raw [simp]: "get_raw (set_raw c w) = w"
begin

definition parse :: "string \<Rightarrow> deb822_error + 'c list" where
  "parse r =
     (let (lines, too_long) = scan_lines max_index_token r in
      case scan_with step lines (start_scan zero) of
        Inl e \<Rightarrow> Inl e
      | Inr st \<Rightarrow> if too_long then Inl TokenTooLong else Inr (sc_result (flush_stanza set_raw zero st)))"

definition serialize :: "'c list \<Rightarrow> string" where
  "serialize cs = concat (map (\<lambda>c. get_raw c @ [NL]) cs)"

definition item :: "'c \<Rightarrow> string list \<Rightarrow> bool" where
  "item c ls \<longleftrightarrow> (\<exists>st. scan_with step ls (start_scan zero) = Inr st \<and> sc_nonEmpty st \<and>
      c = set_raw (sc_cur st) (unlines ls))"

lemma scan_local:
  assumes "list_all (\<lambda>l. l \<noteq> []) ls"
  shows "scan_with step ls (st\<lparr>sc_result := r, sc_raw := w\<rparr>) =
     map_sum id (\<lambda>st'. st'\<lparr>sc_result := r, sc_raw := w @ unlines ls\<rparr>) (scan_with step ls st)"
  using assms
proof (induction ls arbitrary: st w)
  case (Cons l ls)
  then show ?case
    using local[where l = l and st = st and r = r and w = w] by (cases "step l st") simp_all
qed simp

lemma scan_block:
  assumes "list_all (\<lambda>l. l \<noteq> []) ls" "scan_with step ls (start_scan zero) = Inr st"
  shows "scan_with step ls ((start_scan zero)\<lparr>sc_result := r\<rparr>) =
     Inr (st\<lparr>sc_result := r, sc_raw := unlines ls\<rparr>)"
  using scan_local[OF assms(1), where st = "start_scan zero" and r = r and w = "[]"] assms(2) by (simp add: start_scan_def)

lemma scan_block_raw:
  assumes "list_all (\<lambda>l. l \<noteq> []) ls" "scan_with step ls (start_scan zero) = Inr st"
  shows "sc_raw st = unlines ls" "sc_result st = []"
proof -
  have st: "st = st\<lparr>sc_result := [], sc_raw := unlines ls\<rparr>"
    using scan_block[OF assms, of "[]"] assms(2) by (simp add: start_scan_def)
  from arg_cong[OF st, of sc_raw] show "sc_raw st = unlines ls" by simp
  from arg_cong[OF st, of sc_result] show "sc_result st = []" by simp
qed

lemma step_keeps:
  assumes "l \<noteq> []" "step l st = Inr st'"
  shows "sc_result st' = sc_result st" "sc_raw st' = sc_raw st @ l @ [NL]"
    and "step l (st\<lparr>sc_result := r\<rparr>) = Inr (st'\<lparr>sc_result := r\<rparr>)"
proof -
  have "step l (st\<lparr>sc_result := sc_result st, sc_raw := sc_raw st\<rparr>) =
      Inr (st'\<lparr>sc_result := sc_result st, sc_raw := sc_raw st @ l @ [NL]\<rparr>)"
    by (subst local[OF assms(1)]) (simp add: assms(2))
  then have st': "st' = st'\<lparr>sc_result := sc_result st, sc_raw := sc_raw st @ l @ [NL]\<rparr>"
    using assms(2) by simp
  from arg_cong[OF st', of sc_result] show "sc_result st' = sc_result st" by simp
  from arg_cong[OF st', of sc_raw] show raw: "sc_raw st' = sc_raw st @ l @ [NL]" by simp
  have "step l (st\<lparr>sc_result := r, sc_raw := sc_raw st\<rparr>) =
      Inr (st'\<lparr>sc_result := r, sc_raw := sc_raw st @ l @ [NL]\<rparr>)"
    by (subst local[OF assms(1)]) (simp add: assms(2))
  then show "step l (st\<lparr>sc_result := r\<rparr>) = Inr (st'\<lparr>sc_result := r\<rparr>)"
    using raw[symmetric] by simp
qed

definition blocks_of :: "string set \<Rightarrow> 'c scan_state \<Rightarrow> bool" where
  "blocks_of L st \<longleftrightarrow>
     (\<exists>ls. list_all (\<lambda>l. l \<noteq> []) ls \<and> set ls \<subseteq> L \<and> scan_with step ls (start_scan zero) = Inr (st\<lparr>sc_result := []\<rparr>)) \<and>
     (\<forall>c\<in>set (sc_result st). \<exists>ls. list_all (\<lambda>l. l \<noteq> []) ls \<and> set ls \<subseteq> L \<and> item c ls)"

lemma blocks_of_flush: "blocks_of L st \<Longrightarrow> blocks_of L (flush_stanza set_raw zero st)"
proof -
  assume b: "blocks_of L st"
  then obtain ls where ls: "list_all (\<lambda>l. l \<noteq> []) ls" "set ls \<subseteq> L"
      "scan_with step ls (start_scan zero) = Inr (st\<lparr>sc_result := []\<rparr>)"
    by (auto simp: blocks_of_def)
  have "sc_raw st = unlines ls" using scan_block_raw(1)[OF ls(1,3)] by simp
  then have "sc_nonEmpty st \<Longrightarrow> item (set_raw (sc_cur st) (sc_raw st)) ls"
    using ls(3) by (auto simp: item_def)
  then have "\<forall>c\<in>set (sc_result (flush_stanza set_raw zero st)). \<exists>ls. list_all (\<lambda>l. l \<noteq> []) ls \<and> set ls \<subseteq> L \<and> item c ls"
    using b ls(1,2) by (auto simp: flush_stanza_def blocks_of_def)
  moreover have "scan_with step [] (start_scan zero) = Inr ((flush_stanza set_raw zero st)\<lparr>sc_result := []\<rparr>)"
    by (simp add: flush_stanza_def start_scan_def)
  ultimately show ?thesis
    unfolding blocks_of_def by (metis empty_subsetI list.pred_inject(1) list.set(1))
qed

lemma blocks_of_step:
  assumes "blocks_of L st" "step l st = Inr st'" "l \<in> L"
  shows "blocks_of L st'"
proof (cases "l = []")
  case True
  then show ?thesis using assms blank blocks_of_flush by auto
next
  case False
  obtain ls where ls: "list_all (\<lambda>l. l \<noteq> []) ls" "set ls \<subseteq> L"
      "scan_with step ls (start_scan zero) = Inr (st\<lparr>sc_result := []\<rparr>)"
    using assms(1) by (auto simp: blocks_of_def)
  have "scan_with step (ls @ [l]) (start_scan zero) = Inr (st'\<lparr>sc_result := []\<rparr>)"
    using ls(3) step_keeps(3)[OF False assms(2), of "[]"] by (simp add: scan_with_append)
  moreover have "list_all (\<lambda>l. l \<noteq> []) (ls @ [l])" "set (ls @ [l]) \<subseteq> L"
    using ls False assms(3) by auto
  ultimately show ?thesis
    using assms(1) step_keeps(1)[OF False assms(2)] unfolding blocks_of_def by metis
qed

lemma blocks_of_scan:
  "blocks_of L st \<Longrightarrow> scan_with step ls st = Inr st' \<Longrightarrow> set ls \<subseteq> L \<Longrightarrow> blocks_of L st'"
  by (induction ls arbitrary: st) (auto split: sum.splits dest: blocks_of_step)

lemma blocks_of_start: "blocks_of L (start_scan zero)"
  unfolding blocks_of_def by (intro conjI exI[of _ "[]"]) (simp_all add: start_scan_def)

lemma parse_items:
  assumes "parse s = Inr cs" "c \<in> set cs" "CR \<notin> set s"
  obtains ls where "stanza_lines_ok ls" "item c ls"
proof -
  let ?ls = "takeWhile (\<lambda>l. length l < max_index_token) (raw_lines s)"
  obtain st where st: "scan_with step (map drop_cr ?ls) (start_scan zero) = Inr st"
    and cs: "cs = sc_result (flush_stanza set_raw zero st)"
    using assms(1) by (auto simp: parse_def scan_lines_def Let_def split: sum.splits if_splits)
  have ok: "NL \<notin> set l \<and> CR \<notin> set l \<and> length l < max_index_token" if "l \<in> set ?ls" for l
    using that assms(3) raw_lines_no_NL raw_lines_sub[of l s] by (fastforce dest: set_takeWhileD)
  then have "map drop_cr ?ls = ?ls" by (simp add: map_idI)
  with st have "blocks_of (set ?ls) (flush_stanza set_raw zero st)"
    using blocks_of_flush blocks_of_scan[OF blocks_of_start, of ?ls st "set ?ls"] by simp
  then obtain ls where ls: "list_all (\<lambda>l. l \<noteq> []) ls" "set ls \<subseteq> set ?ls" "item c ls"
    using assms(2) cs by (auto simp: blocks_of_def)
  then have "stanza_lines_ok ls" using ok by (auto simp: stanza_lines_ok_def list_all_iff)
  then show thesis using that ls(3) by blast
qed

lemma scan_items:
  assumes "list_all2 (\<lambda>c ls. item c ls \<and> list_all (\<lambda>l. l \<noteq> []) ls) cs lss"
  shows "scan_with step (concat (map (\<lambda>ls. ls @ [[]]) lss)) ((start_scan zero)\<lparr>sc_result := r\<rparr>) =
     Inr ((start_scan zero)\<lparr>sc_result := r @ cs\<rparr>)"
  using assms
proof (induction cs lss arbitrary: r rule: list_all2_induct)
  case Nil
  then show ?case by simp
next
  case (Cons c cs ls lss)
  obtain st where st: "scan_with step ls (start_scan zero) = Inr st" "sc_nonEmpty st"
      "c = set_raw (sc_cur st) (unlines ls)"
    using Cons.hyps(1) by (auto simp: item_def)
  have "scan_with step (ls @ [[]]) ((start_scan zero)\<lparr>sc_result := r\<rparr>) = Inr ((start_scan zero)\<lparr>sc_result := r @ [c]\<rparr>)"
    using scan_block[of ls st r] Cons.hyps(1) st
    by (simp add: scan_with_append blank flush_stanza_def start_scan_def)
  moreover have "concat (map (\<lambda>ls. ls @ [[]]) (ls # lss)) = (ls @ [[]]) @ concat (map (\<lambda>ls. ls @ [[]]) lss)"
    by simp
  ultimately show ?case
    using Cons.IH[of "r @ [c]"] by (simp only: scan_with_append[of _ "ls @ [[]]"]) simp
qed

lemma item_raw: "item c ls \<Longrightarrow> get_raw c = unlines ls"
  by (auto simp: item_def)

lemma parse_items_serialized:
  assumes "list_all2 (\<lambda>c ls. item c ls \<and> stanza_lines_ok ls) cs lss"
  shows "parse (serialize cs) = Inr cs"
proof -
  let ?ls = "concat (map (\<lambda>ls. ls @ [[]]) lss)"
  have ser: "serialize cs = unlines ?ls"
    using assms by (induction cs lss rule: list_all2_induct) (auto simp: serialize_def item_raw)
  have "stanza_lines_ok ls" if "ls \<in> set lss" for ls
    using assms that by (auto simp: list_all2_conv_all_nth in_set_conv_nth)
  then have scan: "scan_lines max_index_token (serialize cs) = (?ls, False)"
    unfolding ser by (intro scan_lines_unlines) (auto dest: stanza_lines_okD split: if_splits)
  have "list_all2 (\<lambda>c ls. item c ls \<and> list_all (\<lambda>l. l \<noteq> []) ls) cs lss"
    by (rule list_all2_mono[OF assms]) (auto simp: stanza_lines_ok_def list_all_iff)
  from scan_items[OF this, of "[]"] show ?thesis
    by (simp add: parse_def scan flush_stanza_def start_scan_def)
qed

lemma parse_serialize:
  assumes "parse s = Inr cs" "CR \<notin> set s"
  shows "parse (serialize cs) = Inr cs"
proof -
  have "\<forall>c\<in>set cs. \<exists>ls. stanza_lines_ok ls \<and> item c ls" using parse_items[OF assms(1) _ assms(2)] by blast
  then obtain f where "\<forall>c\<in>set cs. stanza_lines_ok (f c) \<and> item c (f c)" by metis
  then have "list_all2 (\<lambda>c ls. item c ls \<and> stanza_lines_ok ls) cs (map f cs)"
    by (simp add: list.rel_map list.rel_refl_strong)
  then show ?thesis by (rule parse_items_serialized)
qed

lemma parse_one:
  assumes "item c ls" "stanza_lines_ok ls"
  shows "parse (get_raw c) = Inr [c]"
proof -
  obtain st where st: "scan_with step ls (start_scan zero) = Inr st" "sc_nonEmpty st"
      "c = set_raw (sc_cur st) (unlines ls)"
    using assms(1) by (auto simp: item_def)
  have nb: "list_all (\<lambda>l. l \<noteq> []) ls" using assms(2) by (auto simp: stanza_lines_ok_def list_all_iff)
  have "scan_lines max_index_token (unlines ls) = (ls, False)"
    by (rule scan_lines_unlines) (use stanza_lines_okD[OF assms(2)] in auto)
  then show ?thesis
    using st scan_block_raw[OF nb st(1)] by (simp add: parse_def flush_stanza_def)
qed

end


section \<open>Rewriting one field of a verbatim stanza\<close>

definition sets_field :: "string \<Rightarrow> string \<Rightarrow> bool" where
  "sets_field name l \<longleftrightarrow> \<not> is_cont l \<and>
     (case cut CHR '':'' l of None \<Rightarrow> False | Some (k, _) \<Rightarrow> to_lower k = to_lower name)"

text \<open>The stanzas the rewriting is meant for: the field occurs at most once, spelt \<open>Name: value\<close>.\<close>

definition sole_field :: "string \<Rightarrow> string \<Rightarrow> bool" where
  "sole_field name raw \<longleftrightarrow>
     (let ls = raw_lines raw in
      list_all (\<lambda>l. sets_field name l \<longrightarrow> has_prefix l (name @ '': '')) ls \<and>
      length (filter (sets_field name) ls) \<le> 1)"

lemma in_set_tlD: "x \<in> set (tl xs) \<Longrightarrow> x \<in> set xs"
  by (cases xs) auto

lemma index_sub_skip: "NL \<notin> set a \<Longrightarrow>
  index_sub (a @ NL # b) (NL # p) =
    (if has_prefix b p then Some (length a) else map_option (\<lambda>n. length a + 1 + n) (index_sub b (NL # p)))"
proof (induction a)
  case Nil
  then show ?case by (cases "index_sub b (NL # p)") (simp_all add: has_prefix_def)
next
  case (Cons x a)
  then have "\<not> has_prefix (x # a @ NL # b) (NL # p)" by (auto simp: has_prefix_def)
  with Cons show ?case by (cases "index_sub b (NL # p)") (auto simp: has_prefix_def)
qed

lemma has_prefix_line: "NL \<notin> set p \<Longrightarrow> has_prefix (l @ NL # r) p \<longleftrightarrow> has_prefix l p"
proof
  assume p: "NL \<notin> set p" and "has_prefix (l @ NL # r) p"
  then obtain q where q: "l @ NL # r = p @ q" by (auto dest: has_prefixD)
  then have "(\<exists>us. l = p @ us) \<or> (\<exists>us. l @ us = p \<and> NL # r = us @ q)"
    by (auto simp: append_eq_append_conv2)
  then show "has_prefix l p"
  proof
    assume "\<exists>us. l @ us = p \<and> NL # r = us @ q"
    then obtain us where us: "l @ us = p" "NL # r = us @ q" by blast
    with p have "us = []" by (cases us) auto
    with us show ?thesis by (auto simp: has_prefix_iff)
  qed (auto simp: has_prefix_iff)
qed (auto simp: has_prefix_iff)

lemma has_prefix_unlines:
  "NL \<notin> set p \<Longrightarrow> p \<noteq> [] \<Longrightarrow> has_prefix (unlines ls) p \<longleftrightarrow> ls \<noteq> [] \<and> has_prefix (hd ls) p"
  by (cases ls) (auto simp: has_prefix_line, simp add: has_prefix_def)

lemma index_sub_lines_None:
  assumes "\<And>l. l \<in> set ls \<Longrightarrow> NL \<notin> set l" "NL \<notin> set p" "p \<noteq> []" "\<And>l. l \<in> set (tl ls) \<Longrightarrow> \<not> has_prefix l p"
  shows "index_sub (unlines ls) (NL # p) = None"
  using assms
proof (induction ls)
  case (Cons l ls)
  have "\<not> has_prefix (unlines ls) p" using Cons.prems by (cases ls) (auto simp: has_prefix_line has_prefix_def[of "[]"])
  moreover have "index_sub (unlines ls) (NL # p) = None"
    using Cons by (cases ls) (auto)
  ultimately show ?case using Cons.prems by (simp add: index_sub_skip)
qed simp

lemma index_sub_lines_Some:
  assumes "\<And>l. l \<in> set (k # ks) \<Longrightarrow> NL \<notin> set l" "NL \<notin> set p" "p \<noteq> []" "\<And>l. l \<in> set ks \<Longrightarrow> \<not> has_prefix l p"
  shows "index_sub (unlines (k # ks) @ p @ r) (NL # p) = Some (length (unlines (k # ks)) - 1)"
  using assms
proof (induction ks arbitrary: k)
  case Nil
  then show ?case by (simp add: index_sub_skip)
next
  case (Cons l ks)
  have "\<not> has_prefix (unlines (l # ks) @ p @ r) p"
    using Cons.prems by (simp add: has_prefix_line)
  then show ?case using Cons.IH[of l] Cons.prems by (simp add: index_sub_skip)
qed

lemma with_field_replace:
  assumes "\<And>l. l \<in> set (pre @ post) \<Longrightarrow> NL \<notin> set l \<and> \<not> has_prefix l (name @ '': '')"
    and "NL \<notin> set name" "NL \<notin> set old"
  shows "with_field name (unlines (pre @ (name @ '': '' @ old) # post)) new absent =
    unlines (pre @ (name @ '': '' @ new) # post)"
proof (cases pre)
  case Nil
  let ?raw = "unlines ((name @ '': '' @ old) # post)"
  have "index_sub ?raw (NL # name @ '': '') = None"
    by (rule index_sub_lines_None) (use assms Nil in auto)
  moreover have "has_prefix ?raw (name @ '': '')" by (auto simp: has_prefix_iff)
  moreover have "cut NL ?raw = Some (name @ '': '' @ old, unlines post)"
    using assms cut_append[of NL "name @ '': '' @ old" "unlines post"] by simp
  ultimately show ?thesis by (simp add: with_field_def Nil Let_def)
next
  case (Cons k ks)
  let ?p = "name @ '': ''"
  let ?raw = "unlines pre @ ?p @ old @ NL # unlines post"
  have "index_sub ?raw (NL # ?p) = Some (length (unlines pre) - 1)"
    unfolding Cons by (rule index_sub_lines_Some) (use assms Cons in auto)
  moreover obtain u where u: "unlines pre = u @ [NL]" using Cons by (metis unlines_join list.distinct(1))
  moreover have "cut NL (old @ NL # unlines post) = Some (old, unlines post)"
    using assms(3) by (rule cut_append)
  moreover have "drop (3 + length name) (NL # ?p @ old @ NL # unlines post) = old @ NL # unlines post"
    by (simp add: numeral_3_eq_3)
  ultimately show ?thesis by (simp add: with_field_def Let_def)
qed

lemma with_field_absent:
  assumes "\<And>l. l \<in> set ls \<Longrightarrow> NL \<notin> set l \<and> \<not> has_prefix l (name @ '': '')" "NL \<notin> set name"
  shows "with_field name (unlines ls) new absent = absent"
proof -
  have "index_sub (unlines ls) (NL # name @ '': '') = None"
    by (rule index_sub_lines_None) (use assms in \<open>auto dest: in_set_tlD\<close>)
  moreover have "\<not> has_prefix (unlines ls) (name @ '': '')"
    using assms by (auto simp: has_prefix_unlines)
  ultimately show ?thesis by (simp add: with_field_def Let_def)
qed

lemma is_cont_simps [simp]: "\<not> is_cont []" "is_cont (c # l) \<longleftrightarrow> c = CHR '' '' \<or> c = TAB"
  by (simp_all add: is_cont_def)

lemma sole_field_split:
  assumes "sole_field name (unlines ls)" "stanza_lines_ok ls"
  shows "(\<forall>l\<in>set ls. \<not> sets_field name l) \<or>
    (\<exists>pre old post. ls = pre @ (name @ '': '' @ old) # post \<and> (\<forall>l\<in>set (pre @ post). \<not> sets_field name l))"
proof -
  have raw: "raw_lines (unlines ls) = ls" by (rule raw_lines_unlines) (use assms(2) stanza_lines_okD in blast)
  have sole: "list_all (\<lambda>l. sets_field name l \<longrightarrow> has_prefix l (name @ '': '')) ls"
      "length (filter (sets_field name) ls) \<le> 1"
    using assms(1) by (simp_all add: sole_field_def raw Let_def)
  show ?thesis
  proof (cases "\<exists>l\<in>set ls. sets_field name l")
    case True
    then obtain pre l post where ls: "ls = pre @ l # post" "sets_field name l" "\<forall>l\<in>set pre. \<not> sets_field name l"
      using split_list_first_prop[OF True] by blast
    then have "filter (sets_field name) post = []"
      using sole(2) by simp
    then have post: "\<forall>l\<in>set post. \<not> sets_field name l" by (simp add: filter_empty_conv)
    have "has_prefix l (name @ '': '')"
      using sole(1) ls by simp
    then obtain old where "l = (name @ '': '') @ old" using has_prefixD by blast
    then have "l = name @ '': '' @ old" by simp
    then show ?thesis using ls post by (intro disjI2 exI[of _ pre] exI[of _ old] exI[of _ post]) auto
  qed auto
qed

lemma field_prefix_sets:
  "has_prefix l (name @ '': '') \<Longrightarrow> CHR '':'' \<notin> set name \<Longrightarrow> \<not> is_cont name \<Longrightarrow> name \<noteq> [] \<Longrightarrow> sets_field name l"
  by (auto dest!: has_prefixD simp: sets_field_def cut_append is_cont_def)

lemma stanza_lines_ok_simps:
  "stanza_lines_ok (xs @ ys) \<longleftrightarrow> stanza_lines_ok xs \<and> stanza_lines_ok ys"
  "stanza_lines_ok (x # xs) \<longleftrightarrow> (x \<noteq> [] \<and> NL \<notin> set x \<and> CR \<notin> set x \<and> length x < max_index_token) \<and> stanza_lines_ok xs"
  "stanza_lines_ok []"
  by (auto simp: stanza_lines_ok_def)

text \<open>A field value that the rewriting can insert.\<close>

definition insertable :: "string \<Rightarrow> bool" where
  "insertable v \<longleftrightarrow> trim_space v = v \<and> NL \<notin> set v \<and> CR \<notin> set v \<and> length v + 16 < max_index_token"

definition plain_name :: "string \<Rightarrow> bool" where
  "plain_name name \<longleftrightarrow> name \<noteq> [] \<and> \<not> is_cont name \<and> CHR '':'' \<notin> set name \<and> NL \<notin> set name \<and> CR \<notin> set name \<and> length name \<le> 12"

lemma field_line_ok: "plain_name name \<Longrightarrow> insertable v \<Longrightarrow>
  name @ '': '' @ v \<noteq> [] \<and> NL \<notin> set (name @ '': '' @ v) \<and> CR \<notin> set (name @ '': '' @ v) \<and>
  length (name @ '': '' @ v) < max_index_token"
  by (simp add: plain_name_def insertable_def)

definition field_twin :: "string \<Rightarrow> (string \<Rightarrow> 'c \<Rightarrow> 'c) \<Rightarrow> string \<Rightarrow> 'c scan_state \<Rightarrow> 'c scan_state \<Rightarrow> bool" where
  "field_twin name upd v st st' \<longleftrightarrow> sc_cur st' = upd v (sc_cur st) \<and> (sc_nonEmpty st \<longrightarrow> sc_nonEmpty st') \<and>
     (sc_lastKey st' = sc_lastKey st \<or> sc_lastKey st = [] \<and> sc_lastKey st' = to_lower name)"

locale field_rewriter = stanza_scanner +
  fixes name :: string and upd :: "string \<Rightarrow> 'a \<Rightarrow> 'a"
  assumes set_step: "\<exists>raw. step (name @ '': '' @ v) st = Inr (st\<lparr>sc_raw := raw,
        sc_cur := upd (trim_space v) (sc_cur st), sc_nonEmpty := True, sc_lastKey := to_lower name\<rparr>)"
    and twin_step: "l \<noteq> [] \<Longrightarrow> \<not> sets_field name l \<Longrightarrow> field_twin name upd v st st' \<Longrightarrow>
        rel_sum (=) (field_twin name upd v) (step l st) (step l st')"
    and upd_upd: "upd v (upd w c) = upd v c"
    and set_raw_upd: "set_raw (upd v c) w = upd v (set_raw c w)"
    and set_raw_set_raw: "set_raw (set_raw c w) w' = set_raw c w'"
begin

lemma twin_scan:
  assumes "\<And>l. l \<in> set ls \<Longrightarrow> l \<noteq> [] \<and> \<not> sets_field name l" "field_twin name upd v st st'"
  shows "rel_sum (=) (field_twin name upd v) (scan_with step ls st) (scan_with step ls st')"
  using assms
proof (induction ls arbitrary: st st')
  case (Cons l ls)
  have "rel_sum (=) (field_twin name upd v) (step l st) (step l st')"
    using Cons.prems by (intro twin_step) auto
  then show ?case using Cons by (cases "step l st"; cases "step l st'") simp_all
qed simp

lemma twin_item:
  assumes "scan_with step pre (start_scan zero) = Inr st" "scan_with step pre' (start_scan zero) = Inr st'"
    "field_twin name upd v st st'" "item c (pre @ post)" "\<And>l. l \<in> set post \<Longrightarrow> l \<noteq> [] \<and> \<not> sets_field name l"
  shows "item (set_raw (upd v c) (unlines (pre' @ post))) (pre' @ post)"
proof -
  obtain t where t: "scan_with step post st = Inr t" "sc_nonEmpty t" "c = set_raw (sc_cur t) (unlines (pre @ post))"
    using assms(1,4) by (auto simp: item_def scan_with_append)
  have "rel_sum (=) (field_twin name upd v) (scan_with step post st) (scan_with step post st')"
    by (rule twin_scan) (use assms in auto)
  with t(1) obtain t' where t': "scan_with step post st' = Inr t'" "field_twin name upd v t t'"
    by (cases "scan_with step post st'") simp_all
  have "scan_with step (pre' @ post) (start_scan zero) = Inr t'"
    using assms(2) t'(1) by (simp add: scan_with_append)
  moreover have "sc_nonEmpty t'" "set_raw (upd v c) w = set_raw (sc_cur t') w" for w
    using t'(2) t(2,3) by (auto simp: field_twin_def set_raw_upd set_raw_set_raw)
  ultimately show ?thesis unfolding item_def by blast
qed

lemma replaced_item:
  assumes "item c (pre @ (name @ '': '' @ old) # post)"
    and "\<And>l. l \<in> set post \<Longrightarrow> l \<noteq> [] \<and> \<not> sets_field name l"
  shows "item (set_raw (upd (trim_space v) c) (unlines (pre @ (name @ '': '' @ v) # post)))
     (pre @ (name @ '': '' @ v) # post)"
proof -
  obtain s where s: "scan_with step pre (start_scan zero) = Inr s"
    using assms(1) by (auto simp: item_def scan_with_append split: sum.splits)
  obtain r r' where r: "step (name @ '': '' @ old) s = Inr (s\<lparr>sc_raw := r,
        sc_cur := upd (trim_space old) (sc_cur s), sc_nonEmpty := True, sc_lastKey := to_lower name\<rparr>)"
      "step (name @ '': '' @ v) s = Inr (s\<lparr>sc_raw := r',
        sc_cur := upd (trim_space v) (sc_cur s), sc_nonEmpty := True, sc_lastKey := to_lower name\<rparr>)"
    using set_step by metis
  have "item (set_raw (upd (trim_space v) c) (unlines ((pre @ [name @ '': '' @ v]) @ post))) ((pre @ [name @ '': '' @ v]) @ post)"
  proof (rule twin_item)
    show "scan_with step (pre @ [name @ '': '' @ old]) (start_scan zero) = Inr (s\<lparr>sc_raw := r,
        sc_cur := upd (trim_space old) (sc_cur s), sc_nonEmpty := True, sc_lastKey := to_lower name\<rparr>)"
      using s r(1) by (simp add: scan_with_append)
    show "scan_with step (pre @ [name @ '': '' @ v]) (start_scan zero) = Inr (s\<lparr>sc_raw := r',
        sc_cur := upd (trim_space v) (sc_cur s), sc_nonEmpty := True, sc_lastKey := to_lower name\<rparr>)"
      using s r(2) by (simp add: scan_with_append)
  qed (use assms in \<open>auto simp: field_twin_def upd_upd\<close>)
  then show ?thesis by simp
qed

lemma prepended_item:
  assumes "item c ls" "\<And>l. l \<in> set ls \<Longrightarrow> l \<noteq> [] \<and> \<not> sets_field name l"
  shows "item (set_raw (upd (trim_space v) c) (unlines ((name @ '': '' @ v) # ls))) ((name @ '': '' @ v) # ls)"
proof -
  obtain r where r: "step (name @ '': '' @ v) (start_scan zero) = Inr ((start_scan zero)\<lparr>sc_raw := r,
        sc_cur := upd (trim_space v) zero, sc_nonEmpty := True, sc_lastKey := to_lower name\<rparr>)"
    using set_step[of v "start_scan zero"] by (auto simp: start_scan_def)
  have "item (set_raw (upd (trim_space v) c) (unlines ([name @ '': '' @ v] @ ls))) ([name @ '': '' @ v] @ ls)"
  proof (rule twin_item)
    show "scan_with step [] (start_scan zero) = Inr (start_scan zero)" by simp
    show "scan_with step [name @ '': '' @ v] (start_scan zero) = Inr ((start_scan zero)\<lparr>sc_raw := r,
        sc_cur := upd (trim_space v) zero, sc_nonEmpty := True, sc_lastKey := to_lower name\<rparr>)"
      using r by simp
  qed (use assms in \<open>auto simp: field_twin_def start_scan_def\<close>)
  then show ?thesis by simp
qed

lemma appended_item:
  assumes "item c ls"
  shows "item (set_raw (upd (trim_space v) c) (unlines (ls @ [name @ '': '' @ v]))) (ls @ [name @ '': '' @ v])"
proof -
  obtain s where s: "scan_with step ls (start_scan zero) = Inr s" "c = set_raw (sc_cur s) (unlines ls)"
    using assms by (auto simp: item_def)
  obtain r where "step (name @ '': '' @ v) s = Inr (s\<lparr>sc_raw := r,
        sc_cur := upd (trim_space v) (sc_cur s), sc_nonEmpty := True, sc_lastKey := to_lower name\<rparr>)"
    using set_step by metis
  with s show ?thesis by (simp add: item_def scan_with_append set_raw_upd set_raw_set_raw)
qed

definition rewritten :: "'a \<Rightarrow> string \<Rightarrow> string \<Rightarrow> bool" where
  "rewritten c v text \<longleftrightarrow>
     (\<exists>ls. text = unlines ls \<and> stanza_lines_ok ls \<and> item (set_raw (upd v c) (unlines ls)) ls)"

lemma rewritten_parse: "rewritten c v text \<Longrightarrow> parse text = Inr [set_raw (upd v c) text]"
  by (auto simp: rewritten_def dest: parse_one)

lemma rewrite_absent:
  assumes "item c ls" "stanza_lines_ok ls" "\<forall>l\<in>set ls. \<not> sets_field name l" "insertable v" "plain_name name"
    "absent = (name @ '': '' @ v) @ [NL] @ get_raw c \<or> absent = get_raw c @ (name @ '': '' @ v) @ [NL]"
  shows "rewritten c v (with_field name (get_raw c) v absent)"
proof -
  have eq: "with_field name (get_raw c) v absent = absent"
    unfolding item_raw[OF assms(1)]
    by (rule with_field_absent) (use assms field_prefix_sets stanza_lines_okD[OF assms(2)] in \<open>auto simp: plain_name_def\<close>)
  show ?thesis
    using assms(6)
  proof
    assume "absent = (name @ '': '' @ v) @ [NL] @ get_raw c"
    then have "with_field name (get_raw c) v absent = unlines ((name @ '': '' @ v) # ls)"
      using eq item_raw[OF assms(1)] by simp
    moreover have "item (set_raw (upd v c) (unlines ((name @ '': '' @ v) # ls))) ((name @ '': '' @ v) # ls)"
      using prepended_item[OF assms(1), of v] assms(3,4) stanza_lines_okD(1)[OF assms(2)] by (simp add: insertable_def)
    ultimately show ?thesis
      unfolding rewritten_def using assms(2) field_line_ok[OF assms(5,4)] by (metis stanza_lines_ok_simps(2))
  next
    assume "absent = get_raw c @ (name @ '': '' @ v) @ [NL]"
    then have "with_field name (get_raw c) v absent = unlines (ls @ [name @ '': '' @ v])"
      using eq item_raw[OF assms(1)] by simp
    moreover have "item (set_raw (upd v c) (unlines (ls @ [name @ '': '' @ v]))) (ls @ [name @ '': '' @ v])"
      using appended_item[OF assms(1), of v] assms(4) by (simp add: insertable_def)
    ultimately show ?thesis
      unfolding rewritten_def using assms(2) field_line_ok[OF assms(5,4)] by (metis stanza_lines_ok_simps)
  qed
qed

lemma rewrite_present:
  assumes "item c (pre @ (name @ '': '' @ old) # post)" "stanza_lines_ok (pre @ (name @ '': '' @ old) # post)"
    "\<forall>l\<in>set (pre @ post). \<not> sets_field name l" "insertable v" "plain_name name"
  shows "rewritten c v (with_field name (get_raw c) v absent)"
proof -
  let ?ls = "pre @ (name @ '': '' @ v) # post"
  have "with_field name (get_raw c) v absent = unlines ?ls"
    unfolding item_raw[OF assms(1)]
    by (rule with_field_replace)
      (use assms field_prefix_sets stanza_lines_okD[OF assms(2)] in \<open>auto simp: plain_name_def stanza_lines_ok_simps\<close>)
  moreover have "stanza_lines_ok ?ls"
    using assms(2) field_line_ok[OF assms(5,4)] by (simp add: stanza_lines_ok_simps)
  moreover have "item (set_raw (upd v c) (unlines ?ls)) ?ls"
    using replaced_item[OF assms(1), of v] assms(3,4) stanza_lines_okD(1)[OF assms(2)] by (simp add: insertable_def)
  ultimately show ?thesis unfolding rewritten_def by blast
qed

lemma rewrite_reparse:
  assumes "parse s = Inr cs" "CR \<notin> set s" "c \<in> set cs" "sole_field name (get_raw c)" "insertable v" "plain_name name"
    "absent = (name @ '': '' @ v) @ [NL] @ get_raw c \<or> absent = get_raw c @ (name @ '': '' @ v) @ [NL]"
  shows "parse (with_field name (get_raw c) v absent) = Inr [set_raw (upd v c) (with_field name (get_raw c) v absent)]"
proof -
  obtain ls where ok: "stanza_lines_ok ls" and item: "item c ls" using parse_items[OF assms(1,3,2)] .
  from sole_field_split[OF assms(4)[unfolded item_raw[OF item]] ok]
  have "rewritten c v (with_field name (get_raw c) v absent)"
  proof (elim disjE exE conjE)
    assume "\<forall>l\<in>set ls. \<not> sets_field name l"
    then show ?thesis using rewrite_absent item ok assms by blast
  next
    fix pre old post
    assume "ls = pre @ (name @ '': '' @ old) # post" "\<forall>l\<in>set (pre @ post). \<not> sets_field name l"
    then show ?thesis using rewrite_present item ok assms by blast
  qed
  then show ?thesis by (rule rewritten_parse)
qed

end



section \<open>The Packages and the Sources reader\<close>

abbreviation set_Filename :: "string \<Rightarrow> RawPkg \<Rightarrow> RawPkg" where
  "set_Filename f c \<equiv> c\<lparr>rp_Filename := f\<rparr>"

abbreviation set_Directory :: "string \<Rightarrow> RawSrc \<Rightarrow> RawSrc" where
  "set_Directory d c \<equiv> c\<lparr>rs_Directory := d\<rparr>"

lemma pkg_field_twin:
  "lk \<noteq> ''filename'' \<Longrightarrow> pkg_field lk v (set_Filename f c) = set_Filename f (pkg_field lk v c)"
  by (simp add: pkg_field_def)

lemma pkg_cont_twin: "pkg_cont lk v (set_Filename f c) = set_Filename f (pkg_cont lk v c)"
  by (simp add: pkg_cont_def)

lemma pkg_cont_other: "pkg_cont [] v c = c" "pkg_cont ''filename'' v c = c"
  by (simp_all add: pkg_cont_def)

lemma to_lower_Filename: "to_lower ''Filename'' = ''filename''" "to_lower ''Directory'' = ''directory''"
  by code_simp+

lemma src_field_twin:
  "lk \<noteq> ''directory'' \<Longrightarrow> src_field lk v (set_Directory f c) = set_Directory f (src_field lk v c)"
  by (simp add: src_field_def)

lemma src_cont_twin: "src_cont lk v (set_Directory f c) = set_Directory f (src_cont lk v c)"
  by (simp add: src_cont_def split: list.splits)

lemma src_cont_other: "src_cont [] v c = c" "src_cont ''directory'' v c = c"
  by (simp_all add: src_cont_def)

interpretation pkg: field_rewriter pkg_line pkg_set_raw rp_Raw zero_RawPkg "''Filename''" set_Filename
proof
  show "pkg_line [] st = Inr (flush_stanza pkg_set_raw zero_RawPkg st)" for st
    by (simp add: pkg_line_def)
  show "l \<noteq> [] \<Longrightarrow> pkg_line l (st\<lparr>sc_result := r, sc_raw := w\<rparr>) =
      map_sum id (\<lambda>st'. st'\<lparr>sc_result := r, sc_raw := w @ l @ [NL]\<rparr>) (pkg_line l st)" for l st r w
    by (cases st) (simp add: pkg_line_def Let_def split: option.splits)
  show "rp_Raw (pkg_set_raw c w) = w" for c w by (simp add: pkg_set_raw_def)
  show "\<exists>raw. pkg_line (''Filename'' @ '': '' @ v) st = Inr (st\<lparr>sc_raw := raw, sc_cur := set_Filename (trim_space v) (sc_cur st),
      sc_nonEmpty := True, sc_lastKey := to_lower ''Filename''\<rparr>)" for v st
    using cut_append[of "CHR '':''" "''Filename''" "CHR '' '' # v"]
    by (simp add: pkg_line_def Let_def pkg_field_def to_lower_Filename trim_space_cons_space is_space_def)
      (rule exI, rule refl)
  show "rel_sum (=) (field_twin ''Filename'' set_Filename v) (pkg_line l st) (pkg_line l st')"
    if "l \<noteq> []" "\<not> sets_field ''Filename'' l" "field_twin ''Filename'' set_Filename v st st'" for l v st st'
    using that
    by (auto simp: pkg_line_def Let_def field_twin_def sets_field_def to_lower_Filename pkg_field_twin
        pkg_cont_twin pkg_cont_other split: option.splits)
qed (simp_all add: pkg_set_raw_def)

interpretation src: field_rewriter src_line src_set_raw rs_Raw zero_RawSrc "''Directory''" set_Directory
proof
  show "src_line [] st = Inr (flush_stanza src_set_raw zero_RawSrc st)" for st
    by (simp add: src_line_def)
  show "l \<noteq> [] \<Longrightarrow> src_line l (st\<lparr>sc_result := r, sc_raw := w\<rparr>) =
      map_sum id (\<lambda>st'. st'\<lparr>sc_result := r, sc_raw := w @ l @ [NL]\<rparr>) (src_line l st)" for l st r w
    by (cases st) (simp add: src_line_def Let_def split: option.splits)
  show "rs_Raw (src_set_raw c w) = w" for c w by (simp add: src_set_raw_def)
  show "\<exists>raw. src_line (''Directory'' @ '': '' @ v) st = Inr (st\<lparr>sc_raw := raw, sc_cur := set_Directory (trim_space v) (sc_cur st),
      sc_nonEmpty := True, sc_lastKey := to_lower ''Directory''\<rparr>)" for v st
    using cut_append[of "CHR '':''" "''Directory''" "CHR '' '' # v"]
    by (simp add: src_line_def Let_def src_field_def to_lower_Filename trim_space_cons_space is_space_def)
      (rule exI, rule refl)
  show "rel_sum (=) (field_twin ''Directory'' set_Directory v) (src_line l st) (src_line l st')"
    if "l \<noteq> []" "\<not> sets_field ''Directory'' l" "field_twin ''Directory'' set_Directory v st st'" for l v st st'
    using that
    by (auto simp: src_line_def Let_def field_twin_def sets_field_def to_lower_Filename src_field_twin
        src_cont_twin src_cont_other split: option.splits)
qed (simp_all add: src_set_raw_def)

lemma pkg_parse: "pkg.parse = ParsePackageRaws"
  by (rule ext) (simp add: pkg.parse_def ParsePackageRaws_def)

lemma src_parse: "src.parse = ParseSourceRaws"
  by (rule ext) (simp add: src.parse_def ParseSourceRaws_def)

lemma pkg_serialize: "pkg.serialize = SerializeRawPkgs"
  by (rule ext) (simp add: pkg.serialize_def SerializeRawPkgs_def)

lemma src_serialize: "src.serialize = SerializeRawSrcs"
  by (rule ext) (simp add: src.serialize_def SerializeRawSrcs_def)

text \<open>C27: reading a Packages index and writing the items back loses nothing: reading the written text
  again gives the same items, field by field and with the same verbatim stanzas.\<close>

theorem SerializeRawPkgs_roundtrip:
  "ParsePackageRaws s = Inr pkgs \<Longrightarrow> CR \<notin> set s \<Longrightarrow> ParsePackageRaws (SerializeRawPkgs pkgs) = Inr pkgs"
  using pkg.parse_serialize unfolding pkg_parse pkg_serialize .

text \<open>The same for a Sources index.\<close>

theorem SerializeRawSrcs_roundtrip:
  "ParseSourceRaws s = Inr srcs \<Longrightarrow> CR \<notin> set s \<Longrightarrow> ParseSourceRaws (SerializeRawSrcs srcs) = Inr srcs"
  using src.parse_serialize unfolding src_parse src_serialize .

text \<open>for a stanza read from a Packages index that spells its \<open>Filename\<close> field canonically and at most
  once, reading the rewritten stanza gives the same item with exactly the file name (and the text) changed.\<close>

theorem WithFilename_reparse:
  assumes "ParsePackageRaws s = Inr pkgs" "CR \<notin> set s" "r \<in> set pkgs"
    "sole_field ''Filename'' (rp_Raw r)" "insertable f"
  shows "ParsePackageRaws (WithFilename r f) = Inr [r\<lparr>rp_Filename := f, rp_Raw := WithFilename r f\<rparr>]"
  using pkg.rewrite_reparse[unfolded pkg_parse, OF assms, of "''Filename: '' @ f @ [NL] @ rp_Raw r"]
  by (simp add: WithFilename_def pkg_set_raw_def plain_name_def)

text \<open>The same for the \<open>Directory\<close> field of a Sources stanza.\<close>

theorem WithDirectory_reparse:
  assumes "ParseSourceRaws s = Inr srcs" "CR \<notin> set s" "r \<in> set srcs"
    "sole_field ''Directory'' (rs_Raw r)" "insertable d"
  shows "ParseSourceRaws (WithDirectory r d) = Inr [r\<lparr>rs_Directory := d, rs_Raw := WithDirectory r d\<rparr>]"
  using src.rewrite_reparse[unfolded src_parse, OF assms, of "rs_Raw r @ ''Directory: '' @ d @ [NL]"]
  by (simp add: WithDirectory_def src_set_raw_def plain_name_def)



section \<open>The stanza of an uploaded package\<close>

lemma pvalues_GetLower: "GetLower (Set p k v) lk = (if lk = to_lower k then v else GetLower p lk)"
  by (simp add: GetLower_def Set_def Let_def)

lemma stanza_standard_inv:
  assumes "stanza_standard control = (out, seen)"
  shows "para_ok out" "\<And>lk. GetLower out lk = (if lk \<in> set seen then GetLower control lk else [])"
proof -
  let ?step = "\<lambda>(out, seen) (k, lk). let v = GetLower control lk in
              if v \<noteq> [] then (Set out k v, lk # seen) else (out, seen)"
  let ?inv = "\<lambda>(out, seen). para_ok out \<and> (\<forall>lk. GetLower out lk = (if lk \<in> set seen then GetLower control lk else []))"
  have step: "?inv (?step (o1, sn) (k, lk))" if "?inv (o1, sn)" "lk = to_lower k" for o1 sn k lk
    using that by (auto simp: Let_def pvalues_GetLower)
  have run: "?inv (foldl ?step (o1, sn) xs)" if "?inv (o1, sn)" "list_all (\<lambda>(k, lk). lk = to_lower k) xs" for o1 sn xs
    using that
  proof (induction xs arbitrary: o1 sn)
    case (Cons x xs)
    obtain k lk where x: "x = (k, lk)" by (cases x)
    obtain o2 sn2 where y: "?step (o1, sn) (k, lk) = (o2, sn2)" by (meson surj_pair)
    show ?case using Cons.IH[of o2 sn2] Cons.prems step[of o1 sn lk k] x y by simp
  qed simp
  have order: "list_all (\<lambda>(k, lk). lk = to_lower k) (zip packagesFieldOrder packagesFieldOrderLower)"
    by (auto simp: packagesFieldOrderLower_def list_all_iff zip_map2 zip_same_conv_map)
  have base: "?inv (NewParagraph, [])" by (simp add: GetLower_def NewParagraph_def para_ok_def)
  have "?inv (stanza_standard control)" unfolding stanza_standard_def by (rule run[OF base order])
  then show "para_ok out" "\<And>lk. GetLower out lk = (if lk \<in> set seen then GetLower control lk else [])"
    unfolding assms by simp_all
qed

lemma stanza_others:
  fixes control :: Paragraph and seen :: "string list"
  assumes "para_ok out" "list_all (\<lambda>(k, lk). lk = to_lower k) xs"
  defines "res \<equiv> foldl (\<lambda>out (k, lk). if lk \<in> set seen then out else Set out k (GetLower control lk)) out xs"
  shows "para_ok res \<and> (\<forall>lk. GetLower res lk =
     (if lk \<in> snd ` set xs \<and> lk \<notin> set seen then GetLower control lk else GetLower out lk))"
  unfolding res_def using assms(1,2)
proof (induction xs arbitrary: out)
  case (Cons x xs)
  obtain k lk where x: "x = (k, lk)" by (cases x)
  have "para_ok (if lk \<in> set seen then out else Set out k (GetLower control lk))" using Cons.prems by simp
  from Cons.IH[OF this] Cons.prems(2) show ?case by (auto simp: x pvalues_GetLower intro: rev_image_eqI) (force+)
qed simp

text \<open>the stanza published for an uploaded package keeps every field of the control file with its value
  and carries the repository fields; the paragraph is well formed.\<close>

theorem BuildPackagesStanza_fields:
  assumes "para_ok control"
  shows "let out = BuildPackagesStanza control filename sz sha256 sha512; lk = to_lower k in
    para_ok out \<and> Get out k =
    (if lk = ''filename'' then filename else if lk = ''size'' then format_int sz
     else if lk = ''sha256'' then sha256 else if lk = ''sha512'' \<and> sha512 \<noteq> [] then sha512
     else Get control k)"
proof -
  obtain o1 seen where o1: "stanza_standard control = (o1, seen)" by (meson surj_pair)
  let ?xs = "zip (Keys control) (LKeys control)"
  define o2 where "o2 = foldl (\<lambda>out (k, lk). if lk \<in> set seen then out else Set out k (GetLower control lk)) o1 ?xs"
  have xs: "list_all (\<lambda>(k, lk). lk = to_lower k) ?xs" "snd ` set ?xs = set (plkeys control)"
    using assms(1) by (auto simp: para_ok_def Keys_def LKeys_def zip_map2 zip_same_conv_map list_all_iff image_iff)
  have none: "lk \<notin> set (plkeys control) \<Longrightarrow> GetLower control lk = []" for lk
    using assms(1) unfolding para_ok_def GetLower_def by (metis domIff option.case(1))
  have o2: "para_ok o2" "GetLower o2 lk = GetLower control lk" for lk
    using stanza_others[OF stanza_standard_inv(1)[OF o1] xs(1), of seen control]
      stanza_standard_inv(2)[OF o1, of lk] none[of lk] xs(2)
    unfolding o2_def[symmetric] by auto
  have lower: "to_lower ''Size'' = ''size''" "to_lower ''SHA256'' = ''sha256''" "to_lower ''SHA512'' = ''sha512''"
    by code_simp+
  have "BuildPackagesStanza control filename sz sha256 sha512 = (let o3 = Set (Set (Set o2 ''Filename'' filename) ''Size'' (format_int sz)) ''SHA256'' sha256
      in if sha512 \<noteq> [] then Set o3 ''SHA512'' sha512 else o3)"
    by (simp add: BuildPackagesStanza_def o1 o2_def Let_def)
  moreover have "Get p j = GetLower p (to_lower j)" for p j by (simp add: Get_def GetLower_def)
  ultimately show ?thesis
    using o2 by (simp add: Let_def pvalues_GetLower to_lower_Filename lower)
qed

theorem BuildPackagesStanza_fields_witness:
  "Get (BuildPackagesStanza sample_para ''pool/h.deb'' 12 ''ab'' []) ''Package'' = ''hello''"
proof -
  have "para_ok sample_para" by (simp add: sample_para_def)
  from BuildPackagesStanza_fields[OF this, of "''pool/h.deb''" 12 "''ab''" "[]" "''Package''"]
  show ?thesis
    by (simp add: sample_para_def Let_def string_eval Get_Set)
qed


section \<open>Witnesses\<close>

lemmas scan_eval = scan_lines_def raw_lines_def Let_def drop_cr_def max_index_token_def cut_def
  trim_space_def trim_def trim_left_def trim_right_def is_space_def is_cont_def start_scan_def flush_stanza_def
  string_eval

definition sample_index :: string where
  "sample_index = ''Package: a'' @ [NL] @ ''Filename: f'' @ [NL, NL] @ ''Package: b'' @ [NL]"

definition sample_pkgs :: "RawPkg list" where
  "sample_pkgs = [zero_RawPkg\<lparr>rp_Package := ''a'', rp_Filename := ''f'', rp_Raw := ''Package: a'' @ [NL] @ ''Filename: f'' @ [NL]\<rparr>,
     zero_RawPkg\<lparr>rp_Package := ''b'', rp_Raw := ''Package: b'' @ [NL]\<rparr>]"

lemma sample_index_parse: "ParsePackageRaws sample_index = Inr sample_pkgs"
  by (simp add: ParsePackageRaws_def sample_index_def sample_pkgs_def scan_eval pkg_line_def pkg_field_def
      pkg_set_raw_def)

theorem SerializeRawPkgs_roundtrip_witness: "ParsePackageRaws (SerializeRawPkgs sample_pkgs) = Inr sample_pkgs"
  by (rule SerializeRawPkgs_roundtrip[OF sample_index_parse]) (simp add: sample_index_def)

theorem WithFilename_reparse_witness:
  "let r = hd sample_pkgs in
   ParsePackageRaws (WithFilename r ''pool/a.deb'') =
     Inr [r\<lparr>rp_Filename := ''pool/a.deb'', rp_Raw := WithFilename r ''pool/a.deb''\<rparr>]"
proof -
  let ?r = "hd sample_pkgs"
  have r: "?r \<in> set sample_pkgs" by (simp add: sample_pkgs_def)
  have sole: "sole_field ''Filename'' (rp_Raw ?r)"
    by (simp add: sole_field_def sample_pkgs_def raw_lines_def Let_def sets_field_def cut_def has_prefix_def
        string_eval)
  have ins: "insertable ''pool/a.deb''"
    by (simp add: insertable_def scan_eval)
  have "CR \<notin> set sample_index" by (simp add: sample_index_def)
  from WithFilename_reparse[OF sample_index_parse this r sole ins] show ?thesis by simp
qed

definition sample_sources :: string where
  "sample_sources = ''Package: a'' @ [NL] @ ''Checksums-Sha256:'' @ [NL] @ '' ab 7 a.dsc'' @ [NL] @ ''Directory: d'' @ [NL]"

definition sample_srcs :: "RawSrc list" where
  "sample_srcs = [\<lparr>rs_Package = ''a'', rs_Version = [], rs_Directory = ''d'',
     rs_Files = [\<lparr>sf_Filename = ''a.dsc'', sf_Size = 7, sf_SHA256 = ''ab''\<rparr>], rs_Raw = sample_sources\<rparr>]"

lemma sample_fields: "str_fields '' ab 7 a.dsc'' = [''ab'', ''7'', ''a.dsc'']"
  by code_simp

lemma sample_sources_parse: "ParseSourceRaws sample_sources = Inr sample_srcs"
  by (simp add: ParseSourceRaws_def sample_sources_def sample_srcs_def scan_eval src_line_def src_field_def
      src_set_raw_def src_cont_def sample_fields rawParseInt64_def zero_RawSrc_def is_digit_def byte_val_def wrap64_def)

theorem SerializeRawSrcs_roundtrip_witness: "ParseSourceRaws (SerializeRawSrcs sample_srcs) = Inr sample_srcs"
  by (rule SerializeRawSrcs_roundtrip[OF sample_sources_parse]) (simp add: sample_sources_def)

theorem WithDirectory_reparse_witness:
  "let r = hd sample_srcs in
   ParseSourceRaws (WithDirectory r ''srcs/a'') =
     Inr [r\<lparr>rs_Directory := ''srcs/a'', rs_Raw := WithDirectory r ''srcs/a''\<rparr>]"
proof -
  let ?r = "hd sample_srcs"
  have r: "?r \<in> set sample_srcs" by (simp add: sample_srcs_def)
  have sole: "sole_field ''Directory'' (rs_Raw ?r)"
    by (simp add: sole_field_def sample_srcs_def sample_sources_def raw_lines_def Let_def sets_field_def cut_def
        has_prefix_def string_eval)
  have ins: "insertable ''srcs/a''"
    by (simp add: insertable_def scan_eval)
  have "CR \<notin> set sample_sources" by (simp add: sample_sources_def)
  from WithDirectory_reparse[OF sample_sources_parse this r sole ins] show ?thesis by simp
qed

text \<open>The rewriting looks for the exact spelling: a stanza that writes the field in another case gets a second
  \<open>Filename\<close> line, and the reader keeps the old value.\<close>

lemma WithFilename_lower_case_kept:
  "ParsePackageRaws (WithFilename (zero_RawPkg\<lparr>rp_Raw := ''filename: old'' @ [NL]\<rparr>) ''new'') =
     Inr [zero_RawPkg\<lparr>rp_Filename := ''old'', rp_Raw := ''Filename: new'' @ [NL] @ ''filename: old'' @ [NL]\<rparr>]"
  by (simp add: WithFilename_def with_field_def has_prefix_def ParsePackageRaws_def scan_eval pkg_line_def
      pkg_field_def pkg_set_raw_def)

end
