(* ===== verification/AptMeta.thy ===== *)
theory AptMeta
  imports Deb822
begin

text \<open>
  The smaller readers of \<open>src/internal/apt\<close>: Release files (\<open>release.go\<close>), the choice of a decoder
  by file name (\<open>decompress.go\<close>; the decoders themselves are parameters), dependency fields
  (\<open>depends.go\<close>), and the index of a pdiff history (\<open>pdiff.go\<close>).
\<close>

section \<open>Definitions\<close>

subsection \<open>Release files\<close>

record FileEntry =
  fe_Path :: string
  fe_Size :: int
  fe_SHA256 :: string
  fe_SHA512 :: string

record Release =
  rel_Para :: Paragraph
  rel_Files :: "string \<rightharpoonup> FileEntry"

datatype release_error = ReleaseParse deb822_error | EmptyRelease

definition zero_FileEntry :: FileEntry where
  "zero_FileEntry = \<lparr>fe_Path = [], fe_Size = 0, fe_SHA256 = [], fe_SHA512 = []\<rparr>"

definition hash_row :: "string \<Rightarrow> (string \<times> int \<times> string) option" where
  "hash_row line =
     (let line = trim_space line in
      if line = [] then None
      else case str_fields line of
        [h, n, f] \<Rightarrow> (case parse_int n of None \<Rightarrow> None | Some sz \<Rightarrow> Some (h, sz, f))
      | _ \<Rightarrow> None)"

definition add_row :: "(FileEntry \<Rightarrow> string \<Rightarrow> FileEntry) \<Rightarrow> (string \<rightharpoonup> FileEntry) \<Rightarrow> string \<times> int \<times> string
    \<Rightarrow> (string \<rightharpoonup> FileEntry)" where
  "add_row upd files row =
     (case row of (h, sz, filePath) \<Rightarrow>
        let e = (case files filePath of None \<Rightarrow> zero_FileEntry | Some e \<Rightarrow> e);
            e = e\<lparr>fe_Path := filePath, fe_Size := sz\<rparr>
        in files(filePath \<mapsto> upd e h))"

definition parseHashSection :: "(FileEntry \<Rightarrow> string \<Rightarrow> FileEntry) \<Rightarrow> string \<Rightarrow> (string \<rightharpoonup> FileEntry)
    \<Rightarrow> (string \<rightharpoonup> FileEntry)" where
  "parseHashSection upd section files =
     foldl (\<lambda>files line. case hash_row line of None \<Rightarrow> files | Some row \<Rightarrow> add_row upd files row)
       files (split_on NL section)"

definition ParseRelease :: "string \<Rightarrow> release_error + Release" where
  "ParseRelease r =
     (case ParseParagraphs r of
        Inl e \<Rightarrow> Inl (ReleaseParse e)
      | Inr [] \<Rightarrow> Inl EmptyRelease
      | Inr (p # _) \<Rightarrow>
          let files = parseHashSection (\<lambda>e h. e\<lparr>fe_SHA256 := h\<rparr>) (Get p ''SHA256'') Map.empty;
              files = parseHashSection (\<lambda>e h. e\<lparr>fe_SHA512 := h\<rparr>) (Get p ''SHA512'') files
          in Inr \<lparr>rel_Para = p, rel_Files = files\<rparr>)"

definition Release_Get :: "Release \<Rightarrow> string \<Rightarrow> string" where
  "Release_Get r key = Get (rel_Para r) key"


subsection \<open>Index compression\<close>

definition IndexSuffixes :: "string list" where
  "IndexSuffixes = [[], ''.zst'', ''.gz'', ''.xz'']"

text \<open>A decoder is given the compressed bytes; \<open>None\<close> is the error of opening the stream.\<close>

record decoders =
  dec_zstd :: "string \<Rightarrow> string option"
  dec_gzip :: "string \<Rightarrow> string option"
  dec_xz :: "string \<Rightarrow> string option"
  dec_bzip2 :: "string \<Rightarrow> string"

definition OpenCompressed :: "decoders \<Rightarrow> string \<Rightarrow> string \<Rightarrow> string option" where
  "OpenCompressed d name r =
     (if has_suffix name ''.zst'' then dec_zstd d r
      else if has_suffix name ''.gz'' then dec_gzip d r
      else if has_suffix name ''.xz'' then dec_xz d r
      else if has_suffix name ''.bz2'' then Some (dec_bzip2 d r)
      else Some r)"

definition StripIndexSuffix :: "string \<Rightarrow> string" where
  "StripIndexSuffix name =
     (case find (\<lambda>s. has_suffix name s) (tl IndexSuffixes) of
        None \<Rightarrow> name
      | Some s \<Rightarrow> trim_suffix name s)"


subsection \<open>Dependency fields\<close>

definition dependencyName :: "string \<Rightarrow> string" where
  "dependencyName s =
     (let s = trim_space s;
          s = (case cut CHR ''('' s of None \<Rightarrow> s | Some (a, _) \<Rightarrow> trim_space a);
          s = (case cut CHR '':'' s of None \<Rightarrow> s | Some (a, _) \<Rightarrow> a);
          s = (case cut CHR ''['' s of None \<Rightarrow> s | Some (a, _) \<Rightarrow> trim_space a)
      in trim_space s)"

definition ParseDependencyGroups :: "string \<Rightarrow> string list list" where
  "ParseDependencyGroups s =
     (let s = trim_space s in
      if s = [] then []
      else filter (\<lambda>alts. alts \<noteq> [])
             (map (\<lambda>group. filter (\<lambda>n. n \<noteq> []) (map dependencyName (split_on CHR ''|'' group)))
                (split_on CHR '','' s)))"


subsection \<open>The history of a pdiff index\<close>

record PDiffPatch =
  pd_PackagesSHA256 :: string
  pd_Name :: string

record PDiffIndex =
  pd_CurrentSHA256 :: string
  pd_Patches :: "PDiffPatch list"

datatype pdiff_error = PDiffParse deb822_error | EmptyIndex | MissingCurrent

fun PatchChain_from :: "PDiffPatch list \<Rightarrow> string \<Rightarrow> string list option" where
  "PatchChain_from [] sha256 = None"
| "PatchChain_from (p # ps) sha256 =
     (if equal_fold (pd_PackagesSHA256 p) sha256 then Some (map pd_Name (p # ps)) else PatchChain_from ps sha256)"

definition PatchChain :: "PDiffIndex \<Rightarrow> string \<Rightarrow> string list option" where
  "PatchChain idx sha256 = PatchChain_from (pd_Patches idx) sha256"

definition parsePDiffList :: "string \<Rightarrow> (string \<times> string \<times> string) list" where
  "parsePDiffList raw =
     concat (map (\<lambda>line. case str_fields line of a # b # c # _ \<Rightarrow> [(a, b, c)] | _ \<Rightarrow> []) (split_on NL raw))"

definition ParsePDiffIndex :: "string \<Rightarrow> pdiff_error + PDiffIndex" where
  "ParsePDiffIndex r =
     (case ParseParagraphs r of
        Inl e \<Rightarrow> Inl (PDiffParse e)
      | Inr [] \<Rightarrow> Inl EmptyIndex
      | Inr (p # _) \<Rightarrow>
          let curField = trim_space (Get p ''SHA256-Current'') in
          case str_fields curField of
            [] \<Rightarrow> Inl MissingCurrent
          | cur # _ \<Rightarrow>
              Inr \<lparr>pd_CurrentSHA256 = cur,
                   pd_Patches = map (\<lambda>(h, _, n). \<lparr>pd_PackagesSHA256 = h, pd_Name = n\<rparr>)
                     (parsePDiffList (Get p ''SHA256-History''))\<rparr>)"


section \<open>Release files\<close>

definition hash_rows :: "string \<Rightarrow> (string \<times> int \<times> string) list" where
  "hash_rows section = List.map_filter hash_row (split_on NL section)"

text \<open>The last row of a section for a path.\<close>

definition last_row :: "(string \<times> int \<times> string) list \<Rightarrow> string \<Rightarrow> (string \<times> int) option" where
  "last_row rows f = map_of (rev (map (\<lambda>(h, n, p). (p, (h, n))) rows)) f"

lemma parseHashSection_rows:
  "parseHashSection upd section files = foldl (add_row upd) files (hash_rows section)"
proof -
  have "foldl (\<lambda>files line. case hash_row line of None \<Rightarrow> files | Some row \<Rightarrow> add_row upd files row) files ls =
      foldl (add_row upd) files (List.map_filter hash_row ls)" for ls
    by (induction ls arbitrary: files) (auto simp: List.map_filter_simps split: option.splits)
  then show ?thesis by (simp add: parseHashSection_def hash_rows_def)
qed

lemma last_row_snoc: "last_row (rows @ [(h, n, p)]) f = (if f = p then Some (h, n) else last_row rows f)"
  by (simp add: last_row_def)

lemma rows256:
  "foldl (add_row (\<lambda>e h. e\<lparr>fe_SHA256 := h\<rparr>)) Map.empty rows f =
     map_option (\<lambda>(h, n). \<lparr>fe_Path = f, fe_Size = n, fe_SHA256 = h, fe_SHA512 = []\<rparr>) (last_row rows f)"
proof (induction rows rule: rev_induct)
  case Nil
  then show ?case by (simp add: last_row_def)
next
  case (snoc r rows)
  obtain h n p where r: "r = (h, n, p)" by (cases r)
  show ?case
    using snoc by (cases "last_row rows p") (auto simp: r last_row_snoc add_row_def Let_def zero_FileEntry_def split: option.splits)
qed

lemma rows512:
  "foldl (add_row (\<lambda>e h. e\<lparr>fe_SHA512 := h\<rparr>)) files rows f =
     (case last_row rows f of
        None \<Rightarrow> files f
      | Some (h, n) \<Rightarrow> Some ((case files f of None \<Rightarrow> zero_FileEntry | Some e \<Rightarrow> e)\<lparr>fe_Path := f, fe_Size := n, fe_SHA512 := h\<rparr>))"
proof (induction rows rule: rev_induct)
  case Nil
  then show ?case by (simp add: last_row_def)
next
  case (snoc r rows)
  obtain h n p where r: "r = (h, n, p)" by (cases r)
  show ?case
    using snoc by (cases "last_row rows p") (auto simp: r last_row_snoc add_row_def Let_def zero_FileEntry_def split: option.splits)
qed

text \<open>the digests a parsed Release holds for a file are those of the last well-formed row for that exact
  path in the SHA256 and in the SHA512 section; a path in neither section has no entry.\<close>

theorem ParseRelease_files:
  assumes "ParseRelease r = Inr rel"
  shows "let l256 = last_row (hash_rows (Release_Get rel ''SHA256'')) f;
             l512 = last_row (hash_rows (Release_Get rel ''SHA512'')) f
    in rel_Files rel f =
      (if l256 = None \<and> l512 = None then None
       else Some \<lparr>fe_Path = f, fe_Size = (case l512 of Some (_, n) \<Rightarrow> n | None \<Rightarrow> snd (the l256)),
         fe_SHA256 = (case l256 of Some (h, _) \<Rightarrow> h | None \<Rightarrow> []),
         fe_SHA512 = (case l512 of Some (h, _) \<Rightarrow> h | None \<Rightarrow> [])\<rparr>)"
proof -
  obtain p where p: "rel_Para rel = p" "rel_Files rel = parseHashSection (\<lambda>e h. e\<lparr>fe_SHA512 := h\<rparr>) (Get p ''SHA512'')
      (parseHashSection (\<lambda>e h. e\<lparr>fe_SHA256 := h\<rparr>) (Get p ''SHA256'') Map.empty)"
    using assms by (auto simp: ParseRelease_def Let_def split: sum.splits list.splits)
  show ?thesis
    unfolding Release_Get_def p parseHashSection_rows rows512 rows256 Let_def
    by (auto simp: zero_FileEntry_def split: option.splits)
qed


text \<open>The paths of \<open>rel.Files\<close> (lemma \<open>release_paths_dom\<close>).\<close>

definition release_paths :: "Release \<Rightarrow> string list" where
  "release_paths rel = map (\<lambda>(_, _, f). f) (hash_rows (Release_Get rel ''SHA256'') @ hash_rows (Release_Get rel ''SHA512''))"

lemma release_paths_dom: "ParseRelease body = Inr rel \<Longrightarrow> set (release_paths rel) = dom (rel_Files rel)"
proof -
  assume r: "ParseRelease body = Inr rel"
  obtain p where p: "rel_Para rel = p" "rel_Files rel = parseHashSection (\<lambda>e h. e\<lparr>fe_SHA512 := h\<rparr>) (Get p ''SHA512'')
      (parseHashSection (\<lambda>e h. e\<lparr>fe_SHA256 := h\<rparr>) (Get p ''SHA256'') Map.empty)"
    using r by (auto simp: ParseRelease_def Let_def split: sum.splits list.splits)
  have lr: "last_row rows f \<noteq> None \<longleftrightarrow> f \<in> (\<lambda>(_, _, f). f) ` set rows" for rows f
    by (auto simp: last_row_def map_of_eq_None_iff image_iff case_prod_unfold)
  have "f \<in> dom (rel_Files rel) \<longleftrightarrow>
      last_row (hash_rows (Get p ''SHA512'')) f \<noteq> None \<or> last_row (hash_rows (Get p ''SHA256'')) f \<noteq> None" for f
    unfolding p parseHashSection_rows dom_def mem_Collect_eq rows512 rows256 by (auto split: option.splits)
  then have "dom (rel_Files rel) = (\<lambda>(_, _, f). f) ` set (hash_rows (Get p ''SHA256'')) \<union> (\<lambda>(_, _, f). f) ` set (hash_rows (Get p ''SHA512''))"
    unfolding lr by blast
  then show ?thesis by (simp add: release_paths_def Release_Get_def p(1) image_Un)
qed


section \<open>Dependency fields\<close>

lemma cut_before: "cut c s = Some (a, b) \<Longrightarrow> set a \<subseteq> set s \<and> c \<notin> set a"
  using cut_SomeD[of c s a b] by auto

lemma dependencyName_chars:
  "trim_space (dependencyName s) = dependencyName s \<and>
   set (dependencyName s) \<subseteq> set s - {CHR ''('', CHR '':'', CHR ''[''}"
proof -
  define s1 where "s1 = trim_space s"
  define s2 where "s2 = (case cut CHR ''('' s1 of None \<Rightarrow> s1 | Some (a, _) \<Rightarrow> trim_space a)"
  define s3 where "s3 = (case cut CHR '':'' s2 of None \<Rightarrow> s2 | Some (a, _) \<Rightarrow> a)"
  define s4 where "s4 = (case cut CHR ''['' s3 of None \<Rightarrow> s3 | Some (a, _) \<Rightarrow> trim_space a)"
  have d: "dependencyName s = trim_space s4"
    unfolding dependencyName_def Let_def s4_def s3_def s2_def s1_def by (rule refl)
  have "set s1 \<subseteq> set s" unfolding s1_def by (rule set_trim_space)
  moreover have "set s2 \<subseteq> set s1 - {CHR ''(''}"
    using set_trim_space by (fastforce simp: s2_def cut_None_iff split: option.splits dest: cut_before)
  moreover have "set s3 \<subseteq> set s2 - {CHR '':''}"
    by (fastforce simp: s3_def cut_None_iff split: option.splits dest: cut_before)
  moreover have "set s4 \<subseteq> set s3 - {CHR ''[''}"
    using set_trim_space by (fastforce simp: s4_def cut_None_iff split: option.splits dest: cut_before)
  moreover have "set (trim_space s4) \<subseteq> set s4" by (rule set_trim_space)
  ultimately show ?thesis unfolding d by (simp add: subset_iff)
qed

text \<open>The names a dependency field may mention, and what may follow one.\<close>

definition dep_name_ok :: "string \<Rightarrow> bool" where
  "dep_name_ok n \<longleftrightarrow> n \<noteq> [] \<and> list_all (\<lambda>c. \<not> is_space c \<and> c \<notin> set ''(:[,|'') n"

definition dep_special :: "char \<Rightarrow> bool" where
  "dep_special c \<longleftrightarrow> c = CHR ''('' \<or> c = CHR '':'' \<or> c = CHR ''[''"

definition dep_rest :: "string \<Rightarrow> bool" where
  "dep_rest r \<longleftrightarrow> (case r of [] \<Rightarrow> True | [c] \<Rightarrow> c = CHR '' '' \<or> dep_special c
     | c # d # _ \<Rightarrow> dep_special c \<or> c = CHR '' '' \<and> dep_special d)"

definition dep_suffix_ok :: "string \<Rightarrow> bool" where
  "dep_suffix_ok r \<longleftrightarrow> dep_rest r \<and> CHR '','' \<notin> set r \<and> CHR ''|'' \<notin> set r \<and> (r = [] \<or> \<not> is_space (last r))"

definition dep_form :: "string \<Rightarrow> string \<Rightarrow> bool" where
  "dep_form n t \<longleftrightarrow> (\<exists>r. t = n @ r \<and> dep_rest r)"

lemma dep_special_space: "dep_special c \<Longrightarrow> \<not> is_space c"
  by (auto simp: dep_special_def is_space_def)

lemma trim_right_append: "\<not> P x \<Longrightarrow> trim_right P (xs @ x # ys) = xs @ x # trim_right P ys"
  by (induction ys rule: rev_induct) (auto simp: trim_right_def dropWhile_append)

lemma dep_form_trim:
  assumes "dep_name_ok n" "dep_form n t"
  shows "dep_form n (trim_space t)"
proof -
  obtain m x where n: "n = m @ [x]" "\<not> is_space x" using assms(1) by (cases n rule: rev_cases) (auto simp: dep_name_ok_def)
  obtain r where r: "t = n @ r" "dep_rest r" using assms(2) by (auto simp: dep_form_def)
  have "\<not> is_space (hd n)" "n \<noteq> []" using assms(1) by (cases n; auto simp: dep_name_ok_def)+
  then have "trim_left is_space t = t" using r by (intro trim_left_id) auto
  then have t: "trim_space t = n @ trim_right is_space r"
    using r(1) n trim_right_append[of is_space x m r] by (simp add: trim_space_def trim_def)
  have "dep_rest (trim_right is_space r)"
  proof (cases r)
    case (Cons c q)
    show ?thesis
    proof (cases "dep_special c")
      case True
      then have "trim_right is_space r = c # trim_right is_space q"
        using trim_right_append[of is_space c "[]" q] dep_special_space Cons by simp
      then show ?thesis using True by (auto simp: dep_rest_def split: list.splits)
    next
      case False
      then consider "r = '' ''" | d p where "r = CHR '' '' # d # p" "dep_special d"
        using r(2) Cons by (auto simp: dep_rest_def split: list.splits)
      then show ?thesis
      proof cases
        case 1
        then show ?thesis by (simp add: trim_right_def is_space_def dep_rest_def)
      next
        case 2
        then have "trim_right is_space r = CHR '' '' # d # trim_right is_space p"
          using trim_right_append[of is_space d "'' ''" p] dep_special_space by simp
        then show ?thesis using 2 by (simp add: dep_rest_def)
      qed
    qed
  qed (simp add: trim_right_def dep_rest_def)
  then show ?thesis unfolding t by (auto simp: dep_form_def)
qed

lemma dep_form_cut:
  assumes "dep_name_ok n" "dep_form n t" "dep_special c" "cut c t = Some (a, b)"
  shows "dep_form n a"
proof -
  obtain r where r: "t = n @ r" "dep_rest r" using assms(2) by (auto simp: dep_form_def)
  have "c \<notin> set n" using assms(1,3) by (auto simp: dep_name_ok_def dep_special_def list_all_iff)
  then have a: "a = n @ takeWhile (\<lambda>x. x \<noteq> c) r"
    using assms(4) r by (auto simp: cut_def takeWhile_append split: if_splits)
  have "dep_rest (takeWhile (\<lambda>x. x \<noteq> c) r)"
    using r(2) by (cases r rule: remdups_adj.cases) (auto simp: dep_rest_def split: list.splits)
  then show ?thesis by (auto simp: a dep_form_def)
qed

lemma dep_form_cut_step:
  assumes "dep_name_ok n" "dep_form n t" "dep_special c"
  shows "dep_form n (case cut c t of None \<Rightarrow> t | Some (a, _) \<Rightarrow> trim_space a)"
    and "dep_form n (case cut c t of None \<Rightarrow> t | Some (a, _) \<Rightarrow> a)"
  using dep_form_cut[OF assms] dep_form_trim[OF assms(1)] assms(2) by (auto split: option.splits)

lemma dependencyName_rendered:
  assumes "dep_name_ok n" "dep_rest r"
  shows "dependencyName (n @ r) = n"
proof -
  have "dep_form n (n @ r)" using assms(2) by (auto simp: dep_form_def)
  then have "dep_form n (dependencyName (n @ r))"
    unfolding dependencyName_def Let_def
    using assms(1) by (intro dep_form_trim dep_form_cut_step) (simp_all add: dep_special_def)
  then obtain q where q: "dependencyName (n @ r) = n @ q" "dep_rest q" by (auto simp: dep_form_def)
  have "dep_special c \<Longrightarrow> c \<notin> set (n @ q)" for c
    using dependencyName_chars[of "n @ r"] q(1) by (auto simp: dep_special_def)
  then have "q = [] \<or> q = '' ''" using q(2) by (auto simp: dep_rest_def split: list.splits)
  moreover have "q \<noteq> '' ''"
    using trim_space_ends[of "n @ r" ] dependencyName_chars[of "n @ r"] q(1) trim_space_ends[of "n @ q"]
    by (auto simp: is_space_def)
  ultimately show ?thesis using q(1) by auto
qed

lemma map_split_pad:
  assumes "\<And>t. f (CHR '' '' # t) = f t" "c \<noteq> CHR '' ''"
  shows "map f (split_on c (CHR '' '' # s)) = map f (split_on c s)"
  using assms by (cases "split_on c s") auto

lemma map_split_join:
  assumes "\<And>t. f (CHR '' '' # t) = f t" "\<And>x. x \<in> set xs \<Longrightarrow> f (x @ pad) = f x"
    "\<And>x. x \<in> set xs \<Longrightarrow> c \<notin> set x" "c \<notin> set pad" "c \<noteq> CHR '' ''" "xs \<noteq> []"
  shows "map f (split_on c (join (pad @ [c, CHR '' '']) xs)) = map f xs"
  using assms(2,3,6)
proof (induction xs)
  case (Cons x xs)
  show ?case
  proof (cases "xs = []")
    case True
    then show ?thesis using Cons.prems by (simp add: split_on_no_sep)
  next
    case False
    have "split_on c (x @ pad @ [c, CHR '' ''] @ join (pad @ [c, CHR '' '']) xs)
        = (x @ pad) # split_on c (CHR '' '' # join (pad @ [c, CHR '' '']) xs)"
      using split_on_append[of c "x @ pad"] Cons.prems assms(4) by simp
    then show ?thesis
      using False Cons.IH Cons.prems map_split_pad[where f = f, OF assms(1,5)] by (simp add: join_Cons)
  qed
qed simp

lemma dependencyName_pad: "dependencyName (CHR '' '' # t) = dependencyName t"
  by (simp add: dependencyName_def trim_space_cons_space is_space_def)

definition dep_render :: "(string \<times> string) list list \<Rightarrow> string" where
  "dep_render gs = join '', '' (map (\<lambda>g. join '' | '' (map (\<lambda>(n, r). n @ r) g)) gs)"

definition dep_groups_ok :: "(string \<times> string) list list \<Rightarrow> bool" where
  "dep_groups_ok gs \<longleftrightarrow> list_all (\<lambda>g. g \<noteq> [] \<and> list_all (\<lambda>(n, r). dep_name_ok n \<and> dep_suffix_ok r) g) gs"

definition tight :: "string \<Rightarrow> bool" where
  "tight s \<longleftrightarrow> s \<noteq> [] \<and> \<not> is_space (hd s) \<and> \<not> is_space (last s)"

lemma join_tight: "xs \<noteq> [] \<Longrightarrow> (\<And>x. x \<in> set xs \<Longrightarrow> tight x) \<Longrightarrow> tight (join sep xs)"
proof (induction xs)
  case (Cons x xs)
  then show ?case by (cases "xs = []") (auto simp: join_Cons tight_def)
qed simp

lemma dep_name_tight: "dep_name_ok n \<Longrightarrow> tight n"
  by (simp add: tight_def dep_name_ok_def list_all_iff)

lemma tight_alt: "dep_name_ok n \<Longrightarrow> dep_suffix_ok r \<Longrightarrow> tight (n @ r)"
  using dep_name_tight[of n] by (auto simp add: tight_def dep_suffix_ok_def last_append)

lemma dep_rest_pad: "dep_suffix_ok r \<Longrightarrow> dep_rest (r @ '' '')"
  by (cases r rule: remdups_adj.cases) (auto simp: dep_suffix_ok_def dep_rest_def is_space_def split: list.splits)

lemma alt_no_sep:
  assumes "dep_name_ok n" "dep_suffix_ok r"
  shows "CHR ''|'' \<notin> set (n @ r)" "CHR '','' \<notin> set (n @ r)"
  using assms by (auto simp: dep_name_ok_def dep_suffix_ok_def list_all_iff)

lemma group_parse:
  assumes "g \<noteq> []" "list_all (\<lambda>(n, r). dep_name_ok n \<and> dep_suffix_ok r) g"
  shows "map dependencyName (split_on CHR ''|'' (join '' | '' (map (\<lambda>(n, r). n @ r) g))) = map fst g"
proof -
  let ?alts = "map (\<lambda>(n, r). n @ r) g"
  have alt: "dep_name_ok n \<and> dep_suffix_ok r" if "(n, r) \<in> set g" for n r
    using assms(2) that by (auto simp: list_all_iff)
  have name: "dependencyName (n @ r) = n" "dependencyName ((n @ r) @ '' '') = n" if "(n, r) \<in> set g" for n r
    using alt[OF that] dependencyName_rendered[of n r] dependencyName_rendered[of n "r @ '' ''"] dep_rest_pad
    by (auto simp: dep_suffix_ok_def)
  have "map dependencyName (split_on CHR ''|'' (join ('' '' @ [CHR ''|'', CHR '' '']) ?alts)) = map dependencyName ?alts"
    by (rule map_split_join) (use dependencyName_pad name alt alt_no_sep assms(1) in fastforce)+
  moreover have "map dependencyName ?alts = map fst g" using name(1) by auto
  ultimately show ?thesis by simp
qed

text \<open>a dependency field in the usual form, groups separated by commas and alternatives by bars, each name
  followed by an optional architecture qualifier, version constraint or restriction, parses to exactly its
  names, group by group.\<close>

theorem ParseDependencyGroups_rendered:
  assumes "dep_groups_ok gs"
  shows "ParseDependencyGroups (dep_render gs) = map (map fst) gs"
proof (cases "gs = []")
  case True
  then show ?thesis by (simp add: dep_render_def ParseDependencyGroups_def)
next
  case False
  let ?f = "\<lambda>group. filter (\<lambda>n. n \<noteq> []) (map dependencyName (split_on CHR ''|'' group))"
  let ?r = "\<lambda>g. join '' | '' (map (\<lambda>(n, r). n @ r) g)"
  have g: "g \<noteq> []" "list_all (\<lambda>(n, r). dep_name_ok n \<and> dep_suffix_ok r) g" if "g \<in> set gs" for g
    using assms that by (auto simp: dep_groups_ok_def list_all_iff)
  have tight: "tight (?r g)" if "g \<in> set gs" for g
    by (rule join_tight) (use g[OF that] tight_alt in \<open>auto simp: list_all_iff\<close>)
  have "tight (dep_render gs)"
    unfolding dep_render_def by (rule join_tight) (use False tight in auto)
  then have trim: "trim_space (dep_render gs) = dep_render gs" "dep_render gs \<noteq> []"
    by (auto simp: tight_def trim_space_def intro!: trim_id)
  have pad: "?f (CHR '' '' # t) = ?f t" for t
    using map_split_pad[of dependencyName "CHR ''|''" t] dependencyName_pad by simp
  have nosep: "CHR '','' \<notin> set (?r g)" if "g \<in> set gs" for g
    using set_join_sub[of "'' | ''" "map (\<lambda>(n, r). n @ r) g"] g[OF that] alt_no_sep by (fastforce simp: list_all_iff)
  have "map ?f (split_on CHR '','' (join ([] @ [CHR '','', CHR '' '']) (map ?r gs))) = map ?f (map ?r gs)"
    by (rule map_split_join) (use pad nosep False in auto)
  also have "\<dots> = map (map fst) gs"
  proof (simp add: comp_def, intro ballI)
    fix g assume "g \<in> set gs"
    note gg = g[OF this]
    have "filter (\<lambda>n. n \<noteq> []) (map fst g) = map fst g"
    proof (rule filter_True, rule ballI)
      fix n assume "n \<in> set (map fst g)"
      then obtain q where "(n, q) \<in> set g" by auto
      with gg(2) have "dep_name_ok n" by (auto simp: list_all_iff)
      then show "n \<noteq> []" by (simp add: dep_name_ok_def)
    qed
    then show "?f (?r g) = map fst g" using group_parse[OF gg] by simp
  qed
  finally show ?thesis
    using trim g by (auto simp: ParseDependencyGroups_def Let_def dep_render_def filter_id_conv)
qed

theorem ParseDependencyGroups_rendered_witness:
  "ParseDependencyGroups ''libc6 (>= 2.34), foo:any | bar [amd64]'' = [[''libc6''], [''foo'', ''bar'']]"
proof -
  let ?gs = "[[(''libc6'', '' (>= 2.34)'')], [(''foo'', '':any''), (''bar'', '' [amd64]'')]]"
  have "dep_groups_ok ?gs"
    by (simp add: dep_groups_ok_def dep_name_ok_def dep_suffix_ok_def dep_rest_def dep_special_def is_space_def)
  from ParseDependencyGroups_rendered[OF this] show ?thesis by (simp add: dep_render_def)
qed


section \<open>Patch chains\<close>

text \<open>The promise of a pdiff index: patch \<open>i\<close> turns a file with the digest of entry \<open>i\<close> into one with the digest
  of the next entry, the last patch into the current file.\<close>

fun chain_valid :: "(string \<Rightarrow> 'f \<Rightarrow> 'f) \<Rightarrow> ('f \<Rightarrow> string) \<Rightarrow> string \<Rightarrow> PDiffPatch list \<Rightarrow> bool" where
  "chain_valid patch digest cur [] = True"
| "chain_valid patch digest cur (p # ps) =
     ((\<forall>x. equal_fold (pd_PackagesSHA256 p) (digest x) \<longrightarrow>
        equal_fold (case ps of [] \<Rightarrow> cur | q # _ \<Rightarrow> pd_PackagesSHA256 q) (digest (patch (pd_Name p) x))) \<and>
      chain_valid patch digest cur ps)"

lemma chain_valid_all:
  "chain_valid patch digest cur (p # ps) \<Longrightarrow> equal_fold (pd_PackagesSHA256 p) (digest x) \<Longrightarrow>
   equal_fold cur (digest (fold patch (map pd_Name (p # ps)) x))"
proof (induction ps arbitrary: p x)
  case (Cons q qs)
  then have "equal_fold (pd_PackagesSHA256 q) (digest (patch (pd_Name p) x))" by auto
  from Cons.IH[OF _ this] Cons.prems(1) show ?case by simp
qed simp

text \<open>C28: when the index keeps its promise, applying the chain that \<open>PatchChain\<close> returns for the digest of
  the file at hand ends at the current file.\<close>

theorem PatchChain_reaches_current:
  assumes "chain_valid patch digest (pd_CurrentSHA256 idx) (pd_Patches idx)" "PatchChain idx (digest x) = Some names"
  shows "equal_fold (pd_CurrentSHA256 idx) (digest (fold patch names x))"
proof -
  have "PatchChain_from ps (digest x) = Some names \<Longrightarrow> chain_valid patch digest cur ps \<Longrightarrow>
      equal_fold cur (digest (fold patch names x))" for ps cur
  proof (induction ps)
    case (Cons p ps)
    then show ?case using chain_valid_all[of patch digest cur p ps x] by (auto split: if_splits)
  qed simp
  then show ?thesis using assms by (simp add: PatchChain_def)
qed

theorem PatchChain_reaches_current_witness:
  "let idx = \<lparr>pd_CurrentSHA256 = ''C'', pd_Patches = [\<lparr>pd_PackagesSHA256 = ''a'', pd_Name = ''b''\<rparr>,
         \<lparr>pd_PackagesSHA256 = ''B'', pd_Name = ''c''\<rparr>]\<rparr>
   in PatchChain idx ''b'' = Some [''c''] \<and> equal_fold (pd_CurrentSHA256 idx) (fold (\<lambda>n _. n) [''c''] ''b'')"
proof -
  let ?idx = "\<lparr>pd_CurrentSHA256 = ''C'', pd_Patches = [\<lparr>pd_PackagesSHA256 = ''a'', pd_Name = ''b''\<rparr>,
         \<lparr>pd_PackagesSHA256 = ''B'', pd_Name = ''c''\<rparr>]\<rparr>"
  have v: "chain_valid (\<lambda>n _. n) (\<lambda>x. x) (pd_CurrentSHA256 ?idx) (pd_Patches ?idx)"
    by (simp add: equal_fold_def string_eval)
  have c: "PatchChain ?idx ''b'' = Some [''c'']"
    by (simp add: PatchChain_def equal_fold_def string_eval)
  from PatchChain_reaches_current[OF v, of "''b''"] c show ?thesis by simp
qed

theorem ParseRelease_files_witness:
  "\<exists>rel. ParseRelease (''SHA256:'' @ [NL] @ '' ab 3 f'' @ [NL]) = Inr rel \<and>
     rel_Files rel ''f'' = Some \<lparr>fe_Path = ''f'', fe_Size = 3, fe_SHA256 = ''ab'', fe_SHA512 = []\<rparr>"
proof -
  let ?p = "Set NewParagraph ''SHA256'' ([NL] @ ''ab 3 f'')"
  have sc: "str_fields ''ab 3 f'' = [''ab'', ''3'', ''f'']" by code_simp
  have lk: "to_lower ''SHA256'' = ''sha256''" "to_lower ''SHA512'' = ''sha512''" by code_simp+
  have pp: "ParseParagraphs (''SHA256:'' @ [NL] @ '' ab 3 f'' @ [NL]) = Inr [?p]"
    by (simp add: ParseParagraphs_def scan_lines_def raw_lines_def Let_def drop_cr_def max_index_token_def
        init_parse_state_def parse_line_def parse_flush_def cut_def trim_space_def trim_def trim_left_def
        trim_right_def is_space_def Set_def NewParagraph_def Get_def)
  then obtain rel where rel: "ParseRelease (''SHA256:'' @ [NL] @ '' ab 3 f'' @ [NL]) = Inr rel" "rel_Para rel = ?p"
    by (auto simp: ParseRelease_def Let_def)
  have rows: "hash_rows ([NL] @ ''ab 3 f'') = [(''ab'', 3, ''f'')]" "hash_rows [] = []"
    by (simp_all add: hash_rows_def hash_row_def List.map_filter_simps sc trim_space_def trim_def trim_left_def
        trim_right_def is_space_def parse_int_def has_prefix_def is_digit_def digits_val_def byte_val_def)
  have g: "Release_Get rel ''SHA256'' = [NL] @ ''ab 3 f''" "Release_Get rel ''SHA512'' = []"
    by (simp_all add: Release_Get_def rel(2) Get_def Set_def NewParagraph_def lk Let_def)
  have l: "last_row (hash_rows (Release_Get rel ''SHA256'')) ''f'' = Some (''ab'', 3)"
      "last_row (hash_rows (Release_Get rel ''SHA512'')) ''f'' = None"
    unfolding g rows by (simp_all add: last_row_def)
  from ParseRelease_files[OF rel(1), of "''f''"] have "rel_Files rel ''f'' =
      Some \<lparr>fe_Path = ''f'', fe_Size = 3, fe_SHA256 = ''ab'', fe_SHA512 = []\<rparr>"
    unfolding l Let_def by simp
  then show ?thesis using rel(1) by blast
qed

end
