(* ===== verification/Pdiff.thy ===== *)
theory Pdiff
  imports Stanzas
begin

text \<open>
  Application of pdiff patches (\<open>src/internal/apt/pdiff.go\<close>).  A patch is an ed script over the lines of an
  index file; the program applies it to the list of parsed stanzas through a read-only line index that is
  built once per patch.  The theory models the script parser and the stanza-level application and relates
  it to the line-level meaning of the script for scripts that are aligned with the stanzas.  The index
  expressions of the source that can panic are modelled as such (\<open>EdPanic\<close>).
\<close>

section \<open>Definitions\<close>

record edOp =
  ed_addr1 :: int
  ed_addr2 :: int
  ed_cmd :: char
  ed_text :: string

datatype ed_error =
    EdUnknownCommand string
  | EdBadAddress string
  | EdTokenTooLong
  | EdOutOfBounds
  | EdText deb822_error
  | EdEmptyResult
  | EdPanic

record lineIdx =
  li_lines :: "string list"
  li_stanzaOf :: "int list"
  li_stanzaFirst :: "nat list"

definition add_stanza :: "lineIdx \<Rightarrow> string \<Rightarrow> lineIdx" where
  "add_stanza li r =
     (let raw = trim_right (\<lambda>c. c = NL) r;
          ls = split_on NL raw;
          i = int (length (li_stanzaFirst li))
      in \<lparr>li_lines = li_lines li @ ls @ [[]],
          li_stanzaOf = li_stanzaOf li @ map (\<lambda>_. i) ls @ [-1],
          li_stanzaFirst = li_stanzaFirst li @ [length (li_lines li)]\<rparr>)"

definition buildLineIdxRaws :: "string list \<Rightarrow> lineIdx" where
  "buildLineIdxRaws raws = foldl add_stanza \<lparr>li_lines = [], li_stanzaOf = [], li_stanzaFirst = []\<rparr> raws"

definition buildLineIdx :: "RawPkg list \<Rightarrow> lineIdx" where
  "buildLineIdx pkgs = buildLineIdxRaws (map rp_Raw pkgs)"

definition buildLineIdxSrc :: "RawSrc list \<Rightarrow> lineIdx" where
  "buildLineIdxSrc srcs = buildLineIdxRaws (map rs_Raw srcs)"

definition stanzaAt :: "lineIdx \<Rightarrow> int \<Rightarrow> int" where
  "stanzaAt li edLine =
     (let i = edLine - 1 in
      if i < 0 \<or> i \<ge> int (length (li_stanzaOf li)) then -1 else li_stanzaOf li ! nat i)"

definition widen :: "int \<times> int \<Rightarrow> int \<Rightarrow> int \<times> int" where
  "widen r s = (case r of (s1, s2) \<Rightarrow>
     if s < 0 then (s1, s2)
     else (if s1 < 0 \<or> s < s1 then s else s1, if s > s2 then s else s2))"

definition stanzaRange :: "lineIdx \<Rightarrow> int \<Rightarrow> int \<Rightarrow> int \<times> int" where
  "stanzaRange li addr1 addr2 = foldl (\<lambda>r line. widen r (stanzaAt li line)) (-1, -1) [addr1..addr2]"

definition insertionStanza :: "lineIdx \<Rightarrow> int \<Rightarrow> int" where
  "insertionStanza li addr =
     (if addr = 0 then -1
      else let s = stanzaAt li addr in
        if s \<ge> 0 then s else if addr > 1 then stanzaAt li (addr - 1) else -1)"

text \<open>The slice expressions \<open>orig[:rel1]\<close> and \<open>orig[rel2+1:]\<close> panic outside their range: \<open>None\<close>.\<close>

definition rebuildStanza :: "lineIdx \<Rightarrow> nat \<Rightarrow> int \<Rightarrow> int \<Rightarrow> string \<Rightarrow> string option" where
  "rebuildStanza li s addr1 addr2 replacement =
     (if s \<ge> length (li_stanzaFirst li) then None
      else let first = li_stanzaFirst li ! s;
               orig = takeWhile (\<lambda>l. l \<noteq> []) (drop first (li_lines li));
               rel1 = addr1 - 1 - int first;
               rel2 = addr2 - 1 - int first;
               rel1 = (if rel1 < 0 then 0 else rel1);
               rel2 = (if rel2 \<ge> int (length orig) then int (length orig) - 1 else rel2)
           in if rel1 > int (length orig) \<or> rel2 + 1 < 0 then None
              else Some (unlines (take (nat rel1) orig) @ replacement @ unlines (drop (nat (rel2 + 1)) orig)))"

definition sliceInsert :: "'a list \<Rightarrow> int \<Rightarrow> 'a list \<Rightarrow> 'a list" where
  "sliceInsert s pos items =
     (let pos = (if pos < 0 then 0 else pos);
          pos = (if pos > int (length s) then int (length s) else pos)
      in take (nat pos) s @ items @ drop (nat pos) s)"

definition applyEdOpGeneric ::
  "'a list \<Rightarrow> lineIdx \<Rightarrow> edOp \<Rightarrow> (string \<Rightarrow> deb822_error + 'a list) \<Rightarrow> ed_error + 'a list" where
  "applyEdOpGeneric items li op parse =
     (if ed_cmd op = CHR ''d'' then
        (let (s1, s2) = stanzaRange li (ed_addr1 op) (ed_addr2 op) in
         if s1 < 0 then Inr items
         else if s2 < s1 \<or> s2 \<ge> int (length items) then Inl EdOutOfBounds
         else Inr (take (nat s1) items @ drop (nat s2 + 1) items))
      else if ed_cmd op = CHR ''a'' then
        (case parse (ed_text op) of
           Inl e \<Rightarrow> Inl (EdText e)
         | Inr newItems \<Rightarrow>
             let ins = insertionStanza li (ed_addr1 op) in
             if ins + 1 > int (length items) then Inl EdOutOfBounds
             else Inr (sliceInsert items (ins + 1) newItems))
      else if ed_cmd op = CHR ''c'' then
        (let (s1, s2) = stanzaRange li (ed_addr1 op) (ed_addr2 op) in
         if s1 < 0 then Inr items
         else if s2 < s1 \<or> s2 \<ge> int (length items) then Inl EdOutOfBounds
         else if s1 = s2 then
           (case rebuildStanza li (nat s1) (ed_addr1 op) (ed_addr2 op) (ed_text op) of
              None \<Rightarrow> Inl EdPanic
            | Some rebuilt \<Rightarrow>
                (case parse rebuilt of
                   Inl e \<Rightarrow> Inl (EdText e)
                 | Inr newItems \<Rightarrow>
                     if newItems = [] then Inl EdEmptyResult
                     else Inr (take (nat s1) items @ newItems @ drop (nat s1 + 1) items)))
         else
           (case parse (ed_text op) of
              Inl e \<Rightarrow> Inl (EdText e)
            | Inr newItems \<Rightarrow> Inr (take (nat s1) items @ newItems @ drop (nat s2 + 1) items)))
      else Inr items)"

definition parseEdCmd :: "string \<Rightarrow> ed_error + edOp" where
  "parseEdCmd line =
     (if line = [] then Inl (EdUnknownCommand line)
      else let cmd = last line; addrs = butlast line in
        if cmd \<noteq> CHR ''d'' \<and> cmd \<noteq> CHR ''a'' \<and> cmd \<noteq> CHR ''c'' then Inl (EdUnknownCommand line)
        else case cut CHR '','' addrs of
          Some (a, b) \<Rightarrow>
            (case (parse_int a, parse_int b) of
               (Some a1, Some a2) \<Rightarrow> Inr \<lparr>ed_addr1 = a1, ed_addr2 = a2, ed_cmd = cmd, ed_text = []\<rparr>
             | _ \<Rightarrow> Inl (EdBadAddress line))
        | None \<Rightarrow>
            (case parse_int addrs of
               Some a \<Rightarrow> Inr \<lparr>ed_addr1 = a, ed_addr2 = a, ed_cmd = cmd, ed_text = []\<rparr>
             | None \<Rightarrow> Inl (EdBadAddress line)))"

text \<open>The loop over the script; the inner loop reads the text of \<open>a\<close> and \<open>c\<close> up to a line with a single dot
  or to the end of the script.\<close>

function parseEdOps_loop :: "string list \<Rightarrow> ed_error + edOp list" where
  "parseEdOps_loop [] = Inr []"
| "parseEdOps_loop (line # rest) =
     (if line = [] then parseEdOps_loop rest
      else case parseEdCmd line of
        Inl e \<Rightarrow> Inl e
      | Inr op \<Rightarrow>
          (if ed_cmd op = CHR ''a'' \<or> ed_cmd op = CHR ''c''
           then map_sum id ((#) (op\<lparr>ed_text := unlines (takeWhile (\<lambda>t. t \<noteq> ''.'') rest)\<rparr>))
                  (parseEdOps_loop (drop 1 (dropWhile (\<lambda>t. t \<noteq> ''.'') rest)))
           else map_sum id ((#) op) (parseEdOps_loop rest)))"
  by pat_completeness auto
termination
  by (relation "measure length") (auto simp: length_dropWhile_le less_Suc_eq_le intro: le_trans[OF diff_le_self])

definition max_ed_token :: nat where
  "max_ed_token = 4 * 1024 * 1024"

definition parseEdOps :: "string \<Rightarrow> ed_error + edOp list" where
  "parseEdOps data =
     (let (lines, too_long) = scan_lines max_ed_token data in
      case parseEdOps_loop lines of
        Inl e \<Rightarrow> Inl e
      | Inr ops \<Rightarrow> if too_long then Inl EdTokenTooLong else Inr ops)"

fun applyEdOps ::
  "'a list \<Rightarrow> lineIdx \<Rightarrow> edOp list \<Rightarrow> (string \<Rightarrow> deb822_error + 'a list) \<Rightarrow> ed_error + 'a list" where
  "applyEdOps items li [] parse = Inr items"
| "applyEdOps items li (op # ops) parse =
     (case applyEdOpGeneric items li op parse of
        Inl e \<Rightarrow> Inl e
      | Inr items' \<Rightarrow> applyEdOps items' li ops parse)"

definition ApplyEdPatch :: "RawPkg list \<Rightarrow> string \<Rightarrow> ed_error + RawPkg list" where
  "ApplyEdPatch pkgs patchData =
     (case parseEdOps patchData of
        Inl e \<Rightarrow> Inl e
      | Inr ops \<Rightarrow> if ops = [] then Inr pkgs else applyEdOps pkgs (buildLineIdx pkgs) ops ParsePackageRaws)"

definition ApplyEdPatchSrc :: "RawSrc list \<Rightarrow> string \<Rightarrow> ed_error + RawSrc list" where
  "ApplyEdPatchSrc srcs patchData =
     (case parseEdOps patchData of
        Inl e \<Rightarrow> Inl e
      | Inr ops \<Rightarrow> if ops = [] then Inr srcs else applyEdOps srcs (buildLineIdxSrc srcs) ops ParseSourceRaws)"


section \<open>The line index\<close>

text \<open>The document of a list of stanzas, each given by its lines, and where each stanza starts in it.\<close>

definition doc :: "string list list \<Rightarrow> string list" where
  "doc lss = concat (map (\<lambda>ls. ls @ [[]]) lss)"

definition start_of :: "string list list \<Rightarrow> nat \<Rightarrow> nat" where
  "start_of lss i = length (doc (take i lss))"

definition stanza_ok :: "string list \<Rightarrow> bool" where
  "stanza_ok ls \<longleftrightarrow> ls \<noteq> [] \<and> stanza_lines_ok ls"

lemma doc_simps [simp]: "doc [] = []" "doc (ls # lss) = ls @ [] # doc lss" "doc (xs @ ys) = doc xs @ doc ys"
  by (simp_all add: doc_def)

lemma split_trim_unlines:
  assumes "stanza_ok ls"
  shows "split_on NL (trim_right (\<lambda>c. c = NL) (unlines ls)) = ls"
proof -
  have ls: "ls \<noteq> []" "\<And>l. l \<in> set ls \<Longrightarrow> NL \<notin> set l" "\<And>l. l \<in> set ls \<Longrightarrow> l \<noteq> []"
    using assms stanza_lines_okD by (auto simp: stanza_ok_def)
  obtain u where u: "unlines ls = join [NL] ls @ [NL]" using ls(1) by (simp add: unlines_join)
  have last: "join [NL] xs \<noteq> [] \<and> last (join [NL] xs) \<noteq> NL"
    if "xs \<noteq> []" "\<And>l. l \<in> set xs \<Longrightarrow> NL \<notin> set l" "\<And>l. l \<in> set xs \<Longrightarrow> l \<noteq> []" for xs :: "string list"
    using that
  proof (induction xs)
    case (Cons x xs)
    have "last x \<in> set x" using Cons.prems(3) by simp
    then have "last x \<noteq> NL" using Cons.prems(2)[of x] by auto
    with Cons show ?case by (cases "xs = []") (auto simp: join_Cons)
  qed simp
  have "trim_right (\<lambda>c. c = NL) (unlines ls) = trim_right (\<lambda>c. c = NL) (join [NL] ls)"
    unfolding u by (simp add: trim_right_def)
  also have "\<dots> = join [NL] ls" using last[OF ls] by (intro trim_right_id) auto
  finally show ?thesis using split_on_join[OF ls(1), of NL] ls(2) by simp
qed

definition stanza_numbers :: "string list list \<Rightarrow> int list" where
  "stanza_numbers lss = concat (map (\<lambda>(i, ls). map (\<lambda>_. int i) ls @ [-1]) (zip [0..<length lss] lss))"

lemma buildLineIdxRaws_doc:
  assumes "list_all stanza_ok lss"
  shows "buildLineIdxRaws (map unlines lss) =
     \<lparr>li_lines = doc lss, li_stanzaOf = stanza_numbers lss, li_stanzaFirst = map (start_of lss) [0..<length lss]\<rparr>"
  using assms
proof (induction lss rule: rev_induct)
  case Nil
  then show ?case by (simp add: buildLineIdxRaws_def stanza_numbers_def)
next
  case (snoc ls lss)
  have "map (start_of (lss @ [ls])) [0..<length lss] = map (start_of lss) [0..<length lss]"
    by (simp add: start_of_def)
  then show ?case
    using snoc split_trim_unlines[of ls]
    by (simp add: buildLineIdxRaws_def add_stanza_def Let_def stanza_numbers_def start_of_def)
qed

lemma stanza_numbers_nth:
  assumes "i < length lss"
  shows "u < length (lss ! i) \<Longrightarrow> stanza_numbers lss ! (start_of lss i + u) = int i"
    and "stanza_numbers lss ! (start_of lss i + length (lss ! i)) = -1"
    and "start_of lss i + length (lss ! i) < length (stanza_numbers lss)"
proof -
  have len: "length (concat (map (\<lambda>(i, ls). map (\<lambda>_. int i) ls @ [-1]) (zip is xs))) = length (doc xs)"
    if "length is = length xs" for "is" :: "nat list" and xs :: "string list list"
    using that by (induction "is" xs rule: list_induct2) auto
  let ?f = "\<lambda>(i, ls :: string list). map (\<lambda>_. int i) ls @ [-1 :: int]"
  have split: "zip [0..<length lss] lss = zip [0..<i] (take i lss) @ (i, lss ! i) # zip [Suc i..<length lss] (drop (Suc i) lss)"
  proof -
    have l: "lss = take i lss @ lss ! i # drop (Suc i) lss" using assms by (rule id_take_nth_drop)
    have "[0..<length lss] = [0..<i] @ i # [Suc i..<length lss]"
      using assms upt_add_eq_append[of 0 i "length lss - i"] by (simp add: upt_conv_Cons)
    then show ?thesis using assms by (subst (1) l) (simp add: zip_append1)
  qed
  have pre: "length (concat (map ?f (zip [0..<i] (take i lss)))) = start_of lss i"
    using len[of "[0..<i]" "take i lss"] assms by (simp add: start_of_def)
  have num: "stanza_numbers lss = concat (map ?f (zip [0..<i] (take i lss))) @
      (map (\<lambda>_. int i) (lss ! i) @ [-1]) @ concat (map ?f (zip [Suc i..<length lss] (drop (Suc i) lss)))"
    unfolding stanza_numbers_def split by simp
  show "u < length (lss ! i) \<Longrightarrow> stanza_numbers lss ! (start_of lss i + u) = int i"
    unfolding num using pre by (simp add: nth_append)
  show "stanza_numbers lss ! (start_of lss i + length (lss ! i)) = -1"
    unfolding num using pre by (simp add: nth_append)
  show "start_of lss i + length (lss ! i) < length (stanza_numbers lss)"
    unfolding num using pre by simp
qed


section \<open>Scripts aligned with the stanzas\<close>

text \<open>The meaning of one ed command on the lines of the file.\<close>

definition ed_line :: "string list \<Rightarrow> edOp \<Rightarrow> string list" where
  "ed_line ls op =
     (if ed_cmd op = CHR ''d'' then take (nat (ed_addr1 op - 1)) ls @ drop (nat (ed_addr2 op)) ls
      else if ed_cmd op = CHR ''a''
      then take (nat (ed_addr1 op)) ls @ raw_lines (ed_text op) @ drop (nat (ed_addr1 op)) ls
      else if ed_cmd op = CHR ''c''
      then take (nat (ed_addr1 op - 1)) ls @ raw_lines (ed_text op) @ drop (nat (ed_addr2 op)) ls
      else ls)"

text \<open>A command that respects the stanzas of the original file \<open>lss0\<close>, applied to a file whose first \<open>k\<close> stanzas
  are still the original ones: it deletes whole stanzas with a separator each, inserts whole stanzas at a
  separator, or changes lines inside one stanza.  \<open>d\<close> is 1 when the script names the separator before instead
  of the one after.  The next command may only touch stanzas before this one, as in every script that
  \<open>diff --ed\<close> writes.\<close>

inductive aligned ::
  "('c \<Rightarrow> string list \<Rightarrow> bool) \<Rightarrow> string list list \<Rightarrow> nat \<Rightarrow> 'c list \<times> string list list \<Rightarrow> edOp \<Rightarrow>
   nat \<Rightarrow> 'c list \<times> string list list \<Rightarrow> bool" for itm lss0 where
  delete: "i \<le> j \<Longrightarrow> j < k \<Longrightarrow> d = 0 \<or> d = 1 \<and> 0 < i \<Longrightarrow>
     aligned itm lss0 k (items, lss)
       \<lparr>ed_addr1 = int (start_of lss0 i) + 1 - int d, ed_addr2 = int (start_of lss0 (Suc j)) - int d, ed_cmd = CHR ''d'', ed_text = t\<rparr>
       i (take i items @ drop (Suc j) items, take i lss @ drop (Suc j) lss)"
| append: "i \<le> k \<Longrightarrow> d = 0 \<or> d = 1 \<and> 0 < i \<Longrightarrow> list_all2 itm news nss \<Longrightarrow> list_all stanza_ok nss \<Longrightarrow> nss \<noteq> [] \<Longrightarrow>
     aligned itm lss0 k (items, lss)
       \<lparr>ed_addr1 = int (start_of lss0 i) - int d, ed_addr2 = a2, ed_cmd = CHR ''a'',
        ed_text = unlines (if d = 0 then doc nss else [] # butlast (doc nss))\<rparr>
       i (take i items @ news @ drop i items, take i lss @ nss @ drop i lss)"
| change: "i < k \<Longrightarrow> u < v \<Longrightarrow> v \<le> length (lss0 ! i) \<Longrightarrow> ls' = take u (lss0 ! i) @ t @ drop v (lss0 ! i) \<Longrightarrow>
     stanza_ok ls' \<Longrightarrow> itm c' ls' \<Longrightarrow>
     aligned itm lss0 k (items, lss)
       \<lparr>ed_addr1 = int (start_of lss0 i) + 1 + int u, ed_addr2 = int (start_of lss0 i) + int v, ed_cmd = CHR ''c'', ed_text = unlines t\<rparr>
       i (items[i := c'], lss[i := ls'])"

inductive ed_script ::
  "('c \<Rightarrow> string list \<Rightarrow> bool) \<Rightarrow> string list list \<Rightarrow> nat \<Rightarrow> 'c list \<times> string list list \<Rightarrow> edOp list \<Rightarrow>
   'c list \<times> string list list \<Rightarrow> bool" for itm lss0 where
  stop: "ed_script itm lss0 k st [] st"
| next_op: "aligned itm lss0 k st op k' st' \<Longrightarrow> ed_script itm lss0 k' st' ops st'' \<Longrightarrow> ed_script itm lss0 k st (op # ops) st''"

inductive_cases ed_script_NilE: "ed_script itm lss0 k st [] st'"
inductive_cases ed_script_ConsE: "ed_script itm lss0 k st (op # ops) st'"

abbreviation line_index :: "string list list \<Rightarrow> lineIdx" where
  "line_index lss \<equiv> \<lparr>li_lines = doc lss, li_stanzaOf = stanza_numbers lss, li_stanzaFirst = map (start_of lss) [0..<length lss]\<rparr>"

lemma start_of_Suc: "i < length lss \<Longrightarrow> start_of lss (Suc i) = start_of lss i + length (lss ! i) + 1"
  by (simp add: start_of_def take_Suc_conv_app_nth)

lemma start_of_0 [simp]: "start_of lss 0 = 0"
  by (simp add: start_of_def)

lemma start_of_mono: "i \<le> j \<Longrightarrow> j \<le> length lss \<Longrightarrow> start_of lss i \<le> start_of lss j"
proof (induction j)
  case (Suc j)
  then show ?case by (cases "i = Suc j") (auto simp: start_of_Suc)
qed simp

lemma stanzaAt_line:
  assumes "i < length lss"
  shows "u < length (lss ! i) \<Longrightarrow> stanzaAt (line_index lss) (int (start_of lss i + u) + 1) = int i"
    and "stanzaAt (line_index lss) (int (start_of lss i + length (lss ! i)) + 1) = -1"
  using stanza_numbers_nth[OF assms] by (auto simp: stanzaAt_def nat_add_distrib)

lemma stanzaAt_sep:
  assumes "i < length lss"
  shows "stanzaAt (line_index lss) (int (start_of lss (Suc i))) = -1"
  using stanzaAt_line(2)[OF assms] by (simp add: start_of_Suc[OF assms] add.commute)

lemma line_in_stanza:
  assumes "start_of lss i \<le> p" "p < start_of lss (Suc j)" "i \<le> j" "j < length lss"
  shows "\<exists>m u. i \<le> m \<and> m \<le> j \<and> u \<le> length (lss ! m) \<and> p = start_of lss m + u"
  using assms
proof (induction j)
  case 0
  then show ?case by (auto simp: start_of_Suc)
next
  case (Suc j)
  show ?case
  proof (cases "p < start_of lss (Suc j)")
    case True
    then have "i \<le> j" using Suc.prems start_of_mono[of "Suc j" i lss] by (cases "i = Suc j") auto
    with True Suc show ?thesis by (meson Suc_lessD le_Suc_eq)
  next
    case False
    then show ?thesis
      using Suc.prems by (intro exI[of _ "Suc j"] exI[of _ "p - start_of lss (Suc j)"]) (auto simp: start_of_Suc)
  qed
qed

definition hull_of :: "int set \<Rightarrow> int \<times> int \<Rightarrow> bool" where
  "hull_of X r \<longleftrightarrow> (case r of (s1, s2) \<Rightarrow>
     if \<forall>y\<in>X. y < 0 then s1 = -1 \<and> s2 = -1
     else s1 \<ge> 0 \<and> s1 \<in> X \<and> s2 \<in> X \<and> (\<forall>y\<in>X. y \<ge> 0 \<longrightarrow> s1 \<le> y \<and> y \<le> s2))"

lemma hull_of_widen:
  assumes "hull_of X (s1, s2)"
  shows "hull_of (insert y X) (widen (s1, s2) y)"
proof (cases "\<forall>z\<in>X. z < 0")
  case True
  with assms have "s1 = -1" "s2 = -1" by (auto simp: hull_of_def)
  with True show ?thesis by (auto simp: hull_of_def widen_def)
next
  case False
  with assms have inv: "s1 \<ge> 0" "s1 \<in> X" "s2 \<in> X" "\<forall>y\<in>X. y \<ge> 0 \<longrightarrow> s1 \<le> y \<and> y \<le> s2"
    by (auto simp: hull_of_def)
  then have "s1 \<le> s2" by auto
  moreover have "\<not> (\<forall>z\<in>insert y X. z < 0)" using False by simp
  ultimately show ?thesis
    unfolding hull_of_def widen_def using inv by (cases "y < 0"; cases "y < s1"; cases "y > s2") auto
qed

lemma hull_of_fold: "hull_of (f ` set xs) (foldl (\<lambda>r x. widen r (f x)) (-1, -1) xs)"
proof (induction xs rule: rev_induct)
  case Nil
  then show ?case by (simp add: hull_of_def)
next
  case (snoc x xs)
  then show ?case
    using hull_of_widen[of "f ` set xs" _ _ "f x"]
    by (cases "foldl (\<lambda>r x. widen r (f x)) (-1, -1) xs") simp
qed

lemma stanzaRange_eq:
  assumes "0 \<le> i" "i \<le> j" "\<forall>x\<in>{a1..a2}. stanzaAt li x = -1 \<or> (i \<le> stanzaAt li x \<and> stanzaAt li x \<le> j)"
    "x1 \<in> {a1..a2}" "stanzaAt li x1 = i" "x2 \<in> {a1..a2}" "stanzaAt li x2 = j"
  shows "stanzaRange li a1 a2 = (i, j)"
proof -
  obtain s1 s2 where s: "stanzaRange li a1 a2 = (s1, s2)" by (cases "stanzaRange li a1 a2")
  have "\<not> (\<forall>x\<in>{a1..a2}. stanzaAt li x < 0)" using assms by (meson not_le)
  then have "s1 \<ge> 0" "s1 \<in> stanzaAt li ` {a1..a2}" "s2 \<in> stanzaAt li ` {a1..a2}"
      and le: "\<forall>x\<in>{a1..a2}. stanzaAt li x \<ge> 0 \<longrightarrow> s1 \<le> stanzaAt li x \<and> stanzaAt li x \<le> s2"
    using hull_of_fold[of "stanzaAt li" "[a1..a2]"] s unfolding stanzaRange_def set_upto
    by (auto simp: hull_of_def simp del: atLeastAtMost_iff)
  moreover have "s1 \<le> i" "j \<le> s2" using le assms by force+
  moreover have "s1 \<ge> i" using assms(3) \<open>s1 \<ge> 0\<close> \<open>s1 \<in> stanzaAt li ` {a1..a2}\<close> by force
  moreover have "s2 \<le> j" using assms(1,2,3) \<open>s2 \<in> stanzaAt li ` {a1..a2}\<close> by force
  ultimately show ?thesis using s by simp
qed

lemma range_delete:
  assumes "list_all stanza_ok lss" "i \<le> j" "j < length lss" "d = 0 \<or> d = 1 \<and> 0 < i"
  shows "stanzaRange (line_index lss) (int (start_of lss i) + 1 - d) (int (start_of lss (Suc j)) - d) = (int i, int j)"
proof -
  have ne: "0 < length (lss ! m)" if "m < length lss" for m
    using assms(1) that by (auto simp: list_all_length stanza_ok_def)
  have mono: "start_of lss i \<le> start_of lss j" using start_of_mono assms by simp
  have suc: "start_of lss (Suc j) = start_of lss j + length (lss ! j) + 1" using start_of_Suc assms by simp
  show ?thesis
  proof (rule stanzaRange_eq)
    show "\<forall>x\<in>{int (start_of lss i) + 1 - d..int (start_of lss (Suc j)) - d}.
       stanzaAt (line_index lss) x = -1 \<or> int i \<le> stanzaAt (line_index lss) x \<and> stanzaAt (line_index lss) x \<le> int j"
    proof
      fix x assume x: "x \<in> {int (start_of lss i) + 1 - d..int (start_of lss (Suc j)) - d}"
      show "stanzaAt (line_index lss) x = -1 \<or> int i \<le> stanzaAt (line_index lss) x \<and> stanzaAt (line_index lss) x \<le> int j"
      proof (cases "x \<le> int (start_of lss i)")
        case True
        with x assms(4) obtain i' where "x = int (start_of lss i)" "i = Suc i'" by (cases i) auto
        then show ?thesis using stanzaAt_sep[of i' lss] assms by auto
      next
        case False
        define p where "p = nat (x - 1)"
        have p: "x = int p + 1" "start_of lss i \<le> p" "p < start_of lss (Suc j)"
          using x False assms(4) by (auto simp: p_def)
        then obtain m u where m: "i \<le> m" "m \<le> j" "u \<le> length (lss ! m)" "p = start_of lss m + u"
          using line_in_stanza assms by blast
        then have "m < length lss" using assms(3) by simp
        from stanzaAt_line[OF this] m p(1) show ?thesis by (cases "u < length (lss ! m)") auto
      qed
    qed
    show "stanzaAt (line_index lss) (int (start_of lss i + 0) + 1) = int i"
      using stanzaAt_line(1)[of i lss 0] ne[of i] assms by simp
    show "stanzaAt (line_index lss) (int (start_of lss j + 0) + 1) = int j"
      using stanzaAt_line(1)[of j lss 0] ne[of j] assms by simp
  next
    have "0 < length (lss ! j)" using ne assms(3) by simp
    then show "int (start_of lss i + 0) + 1 \<in> {int (start_of lss i) + 1 - d..int (start_of lss (Suc j)) - d}"
      "int (start_of lss j + 0) + 1 \<in> {int (start_of lss i) + 1 - d..int (start_of lss (Suc j)) - d}"
      using mono assms(4) unfolding suc atLeastAtMost_iff by linarith+
  qed (use assms in auto)
qed

lemma range_change:
  assumes "i < length lss" "u < v" "v \<le> length (lss ! i)"
  shows "stanzaRange (line_index lss) (int (start_of lss i) + 1 + int u) (int (start_of lss i) + int v) = (int i, int i)"
proof (rule stanzaRange_eq)
  show "\<forall>x\<in>{int (start_of lss i) + 1 + int u..int (start_of lss i) + int v}.
      stanzaAt (line_index lss) x = -1 \<or> int i \<le> stanzaAt (line_index lss) x \<and> stanzaAt (line_index lss) x \<le> int i"
  proof
    fix x assume x: "x \<in> {int (start_of lss i) + 1 + int u..int (start_of lss i) + int v}"
    define w where "w = nat (x - 1 - int (start_of lss i))"
    have "x = int (start_of lss i + w) + 1" "w < length (lss ! i)" using x assms by (auto simp: w_def)
    then show "stanzaAt (line_index lss) x = -1 \<or> int i \<le> stanzaAt (line_index lss) x \<and> stanzaAt (line_index lss) x \<le> int i"
      using stanzaAt_line(1)[OF assms(1), of w] by simp
  qed
  show "stanzaAt (line_index lss) (int (start_of lss i + u) + 1) = int i"
    "stanzaAt (line_index lss) (int (start_of lss i + u) + 1) = int i"
    using stanzaAt_line(1)[OF assms(1), of u] assms by auto
qed (use assms in auto)

lemma insertion_append:
  assumes "list_all stanza_ok lss" "i \<le> length lss" "d = 0 \<or> d = 1 \<and> 0 < i"
  shows "insertionStanza (line_index lss) (int (start_of lss i) - d) = int i - 1"
proof (cases i)
  case 0
  then show ?thesis using assms by (simp add: insertionStanza_def)
next
  case (Suc m)
  then have m: "m < length lss" "0 < length (lss ! m)"
    using assms by (auto simp: list_all_length stanza_ok_def)
  then obtain u where u: "length (lss ! m) = Suc u" by (cases "length (lss ! m)") auto
  have at: "stanzaAt (line_index lss) (int (start_of lss m + u) + 1) = int m"
    using stanzaAt_line(1)[OF m(1), of u] u by simp
  have s: "int (start_of lss i) = int (start_of lss m + u) + 2" using m by (simp add: Suc start_of_Suc u)
  from assms(3) show ?thesis
  proof
    assume "d = 0"
    then show ?thesis using at stanzaAt_sep[OF m(1)] s Suc by (simp add: insertionStanza_def Let_def add.commute add.left_commute)
  next
    assume "d = 1 \<and> 0 < i"
    then show ?thesis using at s Suc by (simp add: insertionStanza_def Let_def add.commute add.left_commute)
  qed
qed

lemma start_of_cong: "take k lss = take k lss0 \<Longrightarrow> i \<le> k \<Longrightarrow> start_of lss i = start_of lss0 i"
  unfolding start_of_def by (metis min.absorb1 take_take)

lemma doc_take_drop: "doc lss = doc (take i lss) @ doc (drop i lss)"
  by (metis append_take_drop_id doc_simps(3))

lemma doc_snoc: "lss \<noteq> [] \<Longrightarrow> doc lss = butlast (doc lss) @ [[]]"
  by (cases lss rule: rev_cases) (simp_all add: butlast_append)

lemma doc_lines_ok:
  assumes "list_all stanza_ok lss" "l \<in> set (doc lss)"
  shows "NL \<notin> set l \<and> CR \<notin> set l \<and> length l < max_index_token"
  using assms by (induction lss) (auto simp: stanza_ok_def dest: stanza_lines_okD)

lemma doc_take_len: "i \<le> length lss \<Longrightarrow> length (doc (take i lss)) = start_of lss i"
  by (simp add: start_of_def)

lemma take_doc:
  assumes "i \<le> length lss" "d = 0 \<or> d = 1 \<and> 0 < i"
  shows "take (start_of lss i - d) (doc lss) = take (start_of lss i - d) (doc (take i lss))"
  using doc_take_len[OF assms(1)] by (subst doc_take_drop[of lss i]) simp

lemma cut_doc:
  assumes "i \<le> length lss" "d = 0 \<or> d = 1 \<and> 0 < i"
  shows "take (start_of lss i - d) (doc lss) @ (if d = 0 then [] else [[]]) = doc (take i lss)"
    and "drop (start_of lss i - d) (doc lss) = (if d = 0 then [] else [[]]) @ doc (drop i lss)"
proof -
  have len: "length (doc (take i lss)) = start_of lss i" using assms(1) by (rule doc_take_len)
  have split: "doc lss = doc (take i lss) @ doc (drop i lss)" by (rule doc_take_drop)
  have last: "d \<noteq> 0 \<Longrightarrow> doc (take i lss) = butlast (doc (take i lss)) @ [[]]"
    using assms by (intro doc_snoc) auto
  show "take (start_of lss i - d) (doc lss) @ (if d = 0 then [] else [[]]) = doc (take i lss)"
  proof (cases "d = 0")
    case True
    then show ?thesis using len by (subst split) simp
  next
    case False
    then show ?thesis using assms(2) len last by (subst split) (simp add: butlast_conv_take)
  qed
  show "drop (start_of lss i - d) (doc lss) = (if d = 0 then [] else [[]]) @ doc (drop i lss)"
  proof (cases "d = 0")
    case True
    then show ?thesis using len by (subst split) simp
  next
    case False
    then have "doc lss = butlast (doc (take i lss)) @ [[]] @ doc (drop i lss)" using last split by simp
    moreover have "length (butlast (doc (take i lss))) = start_of lss i - d" using len assms(2) False by simp
    ultimately show ?thesis using False by simp
  qed
qed

lemma drop_drop_doc:
  assumes "i \<le> length lss"
  shows "drop (start_of lss i) (doc lss) = doc (drop i lss)" "take (start_of lss i) (doc lss) = doc (take i lss)"
  using cut_doc[OF assms, of 0] by simp_all

lemma ed_delete:
  assumes "i \<le> j" "j < length lss" "d = 0 \<or> d = 1 \<and> 0 < i"
  shows "ed_line (doc lss) \<lparr>ed_addr1 = int (start_of lss i) + 1 - int d, ed_addr2 = int (start_of lss (Suc j)) - int d,
      ed_cmd = CHR ''d'', ed_text = t\<rparr> = doc (take i lss @ drop (Suc j) lss)"
proof -
  have n: "nat (int (start_of lss i) + 1 - int d - 1) = start_of lss i - d"
      "nat (int (start_of lss (Suc j)) - int d) = start_of lss (Suc j) - d"
    by linarith+
  have "drop (start_of lss (Suc j) - d) (doc lss) = (if d = 0 then [] else [[]]) @ doc (drop (Suc j) lss)"
    by (rule cut_doc(2)) (use assms in auto)
  then have "ed_line (doc lss) \<lparr>ed_addr1 = int (start_of lss i) + 1 - int d, ed_addr2 = int (start_of lss (Suc j)) - int d,
      ed_cmd = CHR ''d'', ed_text = t\<rparr> =
      (take (start_of lss i - d) (doc lss) @ (if d = 0 then [] else [[]])) @ doc (drop (Suc j) lss)"
    unfolding ed_line_def using n by simp
  also have "\<dots> = doc (take i lss) @ doc (drop (Suc j) lss)"
    using cut_doc(1)[of i lss d] assms by simp
  finally show ?thesis by simp
qed

lemma ed_append:
  assumes "i \<le> length lss" "d = 0 \<or> d = 1 \<and> 0 < i" "list_all stanza_ok nss" "nss \<noteq> []"
  shows "ed_line (doc lss) \<lparr>ed_addr1 = int (start_of lss i) - int d, ed_addr2 = a2, ed_cmd = CHR ''a'',
      ed_text = unlines (if d = 0 then doc nss else [] # butlast (doc nss))\<rparr> = doc (take i lss @ nss @ drop i lss)"
proof -
  have n: "nat (int (start_of lss i) - int d) = start_of lss i - d" by linarith
  have "raw_lines (unlines (if d = 0 then doc nss else [] # butlast (doc nss))) = (if d = 0 then doc nss else [] # butlast (doc nss))"
    by (rule raw_lines_unlines) (use doc_lines_ok[OF assms(3)] in \<open>auto dest: in_set_butlastD split: if_splits\<close>)
  then have "ed_line (doc lss) \<lparr>ed_addr1 = int (start_of lss i) - int d, ed_addr2 = a2, ed_cmd = CHR ''a'',
      ed_text = unlines (if d = 0 then doc nss else [] # butlast (doc nss))\<rparr> =
      take (start_of lss i - d) (doc lss) @ (if d = 0 then doc nss else [] # butlast (doc nss)) @
      (if d = 0 then [] else [[]]) @ doc (drop i lss)"
    using cut_doc(2)[OF assms(1,2)] unfolding ed_line_def by (simp add: n)
  also have "\<dots> = doc (take i lss) @ doc nss @ doc (drop i lss)"
  proof (cases "d = 0")
    case True
    then show ?thesis using cut_doc(1)[OF assms(1,2)] by simp
  next
    case False
    then have "doc (take i lss) @ doc nss @ doc (drop i lss) =
        (take (start_of lss i - d) (doc lss) @ [[]]) @ (butlast (doc nss) @ [[]]) @ doc (drop i lss)"
      using cut_doc(1)[OF assms(1,2)] doc_snoc[OF assms(4)] by simp
    then show ?thesis using False by simp
  qed
  finally show ?thesis by simp
qed

lemma ed_change:
  assumes "i < length lss" "u < v" "v \<le> length (lss ! i)" "list_all (\<lambda>l. NL \<notin> set l) t"
  shows "ed_line (doc lss) \<lparr>ed_addr1 = int (start_of lss i) + 1 + int u, ed_addr2 = int (start_of lss i) + int v,
      ed_cmd = CHR ''c'', ed_text = unlines t\<rparr> = doc (lss[i := take u (lss ! i) @ t @ drop v (lss ! i)])"
proof -
  have n: "nat (int (start_of lss i) + 1 + int u - 1) = start_of lss i + u"
      "nat (int (start_of lss i) + int v) = start_of lss i + v" by linarith+
  have raw: "raw_lines (unlines t) = t" by (rule raw_lines_unlines) (use assms(4) in \<open>auto simp: list_all_iff\<close>)
  have split: "doc lss = doc (take i lss) @ (lss ! i @ [] # doc (drop (Suc i) lss))"
    using assms(1) by (metis doc_simps id_take_nth_drop)
  have len: "length (doc (take i lss)) = start_of lss i" using assms(1) by (simp add: start_of_def)
  have "ed_line (doc lss) \<lparr>ed_addr1 = int (start_of lss i) + 1 + int u, ed_addr2 = int (start_of lss i) + int v,
      ed_cmd = CHR ''c'', ed_text = unlines t\<rparr> = take (start_of lss i + u) (doc lss) @ t @ drop (start_of lss i + v) (doc lss)"
    unfolding ed_line_def by (simp add: n raw nat_int_add)
  also have "\<dots> = doc (take i lss) @ take u (lss ! i) @ t @ drop v (lss ! i) @ [] # doc (drop (Suc i) lss)"
    using assms(2,3) len by (subst (1 2) split) simp
  finally show ?thesis using assms(1) by (simp add: upd_conv_take_nth_drop)
qed

context stanza_scanner
begin

lemma parse_news:
  assumes "list_all2 item news nss" "list_all stanza_ok nss" "nss \<noteq> []"
  shows "parse (unlines (if d = 0 then doc nss else [] # butlast (doc nss))) = Inr news"
proof -
  let ?ls = "if d = 0 then doc nss else [] # butlast (doc nss)"
  have scan: "scan_lines max_index_token (unlines ?ls) = (?ls, False)"
    by (rule scan_lines_unlines) (use doc_lines_ok[OF assms(2)] in \<open>auto dest: in_set_butlastD split: if_splits\<close>)
  have "list_all2 (\<lambda>c ls. item c ls \<and> list_all (\<lambda>l. l \<noteq> []) ls) news nss"
    using assms(1,2) by (auto simp: list_all2_conv_all_nth list_all_length stanza_ok_def stanza_lines_ok_def)
  from scan_items[OF this, of "[]"]
  have all: "scan_with step (doc nss) (start_scan zero) = Inr ((start_scan zero)\<lparr>sc_result := news\<rparr>)"
    by (simp add: doc_def start_scan_def)
  show ?thesis
  proof (cases "d = 0")
    case True
    then show ?thesis using scan all by (simp add: parse_def flush_stanza_def start_scan_def)
  next
    case False
    obtain st where st: "scan_with step (butlast (doc nss)) (start_scan zero) = Inr st"
        "flush_stanza set_raw zero st = (start_scan zero)\<lparr>sc_result := news\<rparr>"
    proof -
      have "scan_with step (butlast (doc nss) @ [[]]) (start_scan zero) = Inr ((start_scan zero)\<lparr>sc_result := news\<rparr>)"
        using all doc_snoc[OF assms(3)] by simp
      then show thesis using that by (auto simp: scan_with_append blank split: sum.splits)
    qed
    have "flush_stanza set_raw zero (start_scan zero) = start_scan zero"
      by (simp add: flush_stanza_def start_scan_def)
    then show ?thesis using False scan st by (simp add: parse_def blank start_scan_def)
  qed
qed

lemma rebuild_change:
  assumes "list_all stanza_ok lss0" "i < length lss0" "u < v" "v \<le> length (lss0 ! i)"
  shows "rebuildStanza (line_index lss0) i (int (start_of lss0 i) + 1 + int u) (int (start_of lss0 i) + int v) (unlines t) =
     Some (unlines (take u (lss0 ! i) @ t @ drop v (lss0 ! i)))"
proof -
  have ok: "\<And>l. l \<in> set (lss0 ! i) \<Longrightarrow> l \<noteq> []"
    using assms(1,2) stanza_lines_okD(1) by (fastforce simp: list_all_length stanza_ok_def)
  have "drop (start_of lss0 i) (doc lss0) = lss0 ! i @ [] # doc (drop (Suc i) lss0)"
    using drop_drop_doc(1)[of i lss0] assms(2) by (simp add: Cons_nth_drop_Suc[symmetric])
  then have orig: "takeWhile (\<lambda>l. l \<noteq> []) (drop (start_of lss0 i) (doc lss0)) = lss0 ! i"
    using ok by (simp add: takeWhile_append)
  have rel: "int (start_of lss0 i) + 1 + int u - 1 - int (start_of lss0 i) = int u"
      "int (start_of lss0 i) + int v - 1 - int (start_of lss0 i) = int v - 1" by linarith+
  show ?thesis using assms(2-4) unfolding rebuildStanza_def by (simp add: Let_def orig rel)
qed

lemma aligned_step:
  assumes "aligned item lss0 k (items, lss) op k' (items', lss')"
    and "take k lss = take k lss0" "k \<le> length lss0" "k \<le> length lss" "list_all stanza_ok lss0" "length items = length lss"
  shows "applyEdOpGeneric items (line_index lss0) op parse = Inr items' \<and> ed_line (doc lss) op = doc lss' \<and>
    take k' lss' = take k' lss0 \<and> k' \<le> k \<and> k' \<le> length lss' \<and> length items' = length lss'"
  using assms(1)
proof cases
  case (delete j d t)
  have st: "start_of lss0 m = start_of lss m" if "m \<le> k" for m using start_of_cong[OF assms(2) that] by simp
  have "applyEdOpGeneric items (line_index lss0) op parse = Inr items'"
    using delete range_delete[OF assms(5), of k' j "int d"] assms by (simp add: applyEdOpGeneric_def)
  moreover have "ed_line (doc lss) op = doc lss'"
    using ed_delete[of k' j lss d t] delete assms(4) st[of k'] st[of "Suc j"] by simp
  moreover have "take k' lss = take k' lss0" using assms(2) delete by (metis le_trans less_imp_le_nat min.absorb1 take_take)
  ultimately show ?thesis using delete assms by (simp add: min_def)
next
  case (append d news nss a2)
  have st: "start_of lss0 k' = start_of lss k'" using start_of_cong[OF assms(2), of k'] append by simp
  have "applyEdOpGeneric items (line_index lss0) op parse = Inr items'"
    using append parse_news[of news nss d] insertion_append[OF assms(5), of k' "int d"] assms
    by (auto simp: applyEdOpGeneric_def sliceInsert_def Let_def)
  moreover have "ed_line (doc lss) op = doc lss'"
    using ed_append[of k' lss d nss a2] append assms(4) st by simp
  moreover have "take k' lss = take k' lss0" using assms(2) append by (metis min.absorb1 take_take)
  ultimately show ?thesis using append assms list_all2_lengthD[of item news nss] by (auto simp: min_def)
next
  case (change u v ls' t c')
  have st: "start_of lss0 k' = start_of lss k'" "lss0 ! k' = lss ! k'"
    using start_of_cong[OF assms(2), of k'] change assms(2) by (simp_all) (metis nth_take)
  have "parse (unlines ls') = Inr [c']"
    using parse_one[of c' ls'] item_raw[of c' ls'] change by (simp add: stanza_ok_def)
  then have "applyEdOpGeneric items (line_index lss0) op parse = Inr items'"
    using change range_change[of k' lss0 u v] rebuild_change[OF assms(5), of k' u v t] assms
    by (simp add: applyEdOpGeneric_def upd_conv_take_nth_drop)
  moreover have "list_all (\<lambda>l. NL \<notin> set l) t"
    using change by (auto simp: stanza_ok_def stanza_lines_ok_def list_all_iff)
  then have "ed_line (doc lss) op = doc lss'"
    using ed_change[of k' lss u v t] change assms(4) st by simp
  moreover have "take k' lss = take k' lss0" using assms(2) change by (metis less_imp_le_nat min.absorb1 take_take)
  ultimately show ?thesis using change assms by simp
qed

lemma script_run:
  assumes "ed_script item lss0 k st ops st'" "st = (items, lss)" "st' = (items', lss')"
    and "take k lss = take k lss0" "k \<le> length lss0" "k \<le> length lss" "list_all stanza_ok lss0" "length items = length lss"
  shows "applyEdOps items (line_index lss0) ops parse = Inr items' \<and> foldl ed_line (doc lss) ops = doc lss'"
  using assms
proof (induction k st ops st' arbitrary: items lss)
  case (stop k st)
  then show ?case by simp
next
  case (next_op k st op k' st1 ops st2)
  obtain items1 lss1 where st1: "st1 = (items1, lss1)" by (cases st1)
  from aligned_step[OF next_op.hyps(1)[unfolded st1 next_op.prems(1)] next_op.prems(3-7)]
  have step: "applyEdOpGeneric items (line_index lss0) op parse = Inr items1" "ed_line (doc lss) op = doc lss1"
      "take k' lss1 = take k' lss0" "k' \<le> k" "k' \<le> length lss1" "length items1 = length lss1" by auto
  with next_op.IH[OF st1 next_op.prems(2) step(3)] next_op.prems show ?case by simp
qed

lemma serialize_doc: "list_all2 item cs lss \<Longrightarrow> serialize cs = unlines (doc lss)"
  by (induction cs lss rule: list_all2_induct) (auto simp: serialize_def item_raw)

lemma item_parse_iff:
  assumes "stanza_ok ls"
  shows "item c ls \<longleftrightarrow> parse (unlines ls) = Inr [c]"
proof
  assume "item c ls"
  then show "parse (unlines ls) = Inr [c]"
    using parse_one[of c ls] item_raw[of c ls] assms by (simp add: stanza_ok_def)
next
  assume p: "parse (unlines ls) = Inr [c]"
  have scan: "scan_lines max_index_token (unlines ls) = (ls, False)"
    by (rule scan_lines_unlines) (use assms stanza_lines_okD in \<open>auto simp: stanza_ok_def\<close>)
  have nb: "list_all (\<lambda>l. l \<noteq> []) ls" using assms by (auto simp: stanza_ok_def stanza_lines_ok_def list_all_iff)
  obtain st where st: "scan_with step ls (start_scan zero) = Inr st" "sc_result (flush_stanza set_raw zero st) = [c]"
    using p by (auto simp: parse_def scan split: sum.splits)
  with scan_block_raw[OF nb st(1)] show "item c ls"
    by (auto simp: item_def flush_stanza_def split: if_splits)
qed

end

lemma aligned_repr:
  assumes "aligned itm lss0 k (items, lss) op k' (items', lss')" "list_all2 itm items lss" "k \<le> length lss0" "k \<le> length lss"
  shows "list_all2 itm items' lss'"
  using assms(1)
proof cases
  case (delete j d t)
  then show ?thesis using assms(2) by (auto intro!: list_all2_appendI list_all2_takeI list_all2_dropI)
next
  case (append d news nss a2)
  then show ?thesis using assms(2) by (auto intro!: list_all2_appendI list_all2_takeI list_all2_dropI)
next
  case (change u v ls' t c')
  then show ?thesis using assms by (auto intro!: list_all2_update_cong)
qed

lemma aligned_mono:
  assumes "aligned itm lss0 k st op k' st'" "\<And>c ls. stanza_ok ls \<Longrightarrow> itm c ls \<Longrightarrow> itm' c ls"
  shows "aligned itm' lss0 k st op k' st'"
  using assms(1)
proof cases
  case (delete j d items lss t)
  then show ?thesis unfolding delete(1-3) by (intro aligned.delete)
next
  case (append d news nss items lss a2)
  then have "list_all2 itm' news nss" using assms(2) by (auto simp: list_all2_conv_all_nth list_all_length)
  with append show ?thesis unfolding append(1-3) by (intro aligned.append)
next
  case (change u v ls' t c' items lss)
  then have "itm' c' ls'" using assms(2) by blast
  with change show ?thesis unfolding change(1-3) by (intro aligned.change)
qed

lemma ed_script_mono:
  "ed_script itm lss0 k st ops st' \<Longrightarrow> (\<And>c ls. stanza_ok ls \<Longrightarrow> itm c ls \<Longrightarrow> itm' c ls) \<Longrightarrow> ed_script itm' lss0 k st ops st'"
  by (induction rule: ed_script.induct) (auto intro: ed_script.intros aligned_mono)

lemma ed_script_repr:
  assumes "ed_script itm lss0 k st ops st'" "list_all2 itm (fst st) (snd st)" "k \<le> length lss0" "k \<le> length (snd st)"
    "\<And>st op k' st' k. aligned itm lss0 k st op k' st' \<Longrightarrow> k \<le> length lss0 \<Longrightarrow> k \<le> length (snd st) \<Longrightarrow>
       k' \<le> length lss0 \<and> k' \<le> length (snd st')"
  shows "list_all2 itm (fst st') (snd st')"
  using assms(1-4)
proof (induction rule: ed_script.induct)
  case (next_op k st op k' st' ops st'')
  have "list_all2 itm (fst st') (snd st')"
    using aligned_repr[of itm lss0 k "fst st" "snd st" op k' "fst st'" "snd st'"] next_op by simp
  then show ?case using next_op assms(5)[OF next_op.hyps(1)] by blast
qed simp

lemma aligned_bounds:
  assumes "aligned itm lss0 k st op k' st'" "k \<le> length lss0" "k \<le> length (snd st)"
  shows "k' \<le> length lss0 \<and> k' \<le> length (snd st')"
  using assms by cases auto


section \<open>The patches of the two index kinds\<close>

definition pkg_stanza :: "RawPkg \<Rightarrow> string list \<Rightarrow> bool" where
  "pkg_stanza c ls \<longleftrightarrow> stanza_ok ls \<and> ParsePackageRaws (unlines ls) = Inr [c]"

definition src_stanza :: "RawSrc \<Rightarrow> string list \<Rightarrow> bool" where
  "src_stanza c ls \<longleftrightarrow> stanza_ok ls \<and> ParseSourceRaws (unlines ls) = Inr [c]"

context stanza_scanner
begin

lemma patch_refines:
  assumes "list_all2 (\<lambda>c ls. stanza_ok ls \<and> parse (unlines ls) = Inr [c]) cs lss"
    and "ed_script (\<lambda>c ls. stanza_ok ls \<and> parse (unlines ls) = Inr [c]) lss (length lss) (cs, lss) ops (cs', lss')"
  shows "applyEdOps cs (buildLineIdxRaws (map get_raw cs)) ops parse = Inr cs' \<and>
    serialize cs' = unlines (foldl ed_line (raw_lines (serialize cs)) ops)"
proof -
  have ok: "list_all stanza_ok lss" using assms(1) by (induction rule: list_all2_induct) auto
  have items: "list_all2 item cs lss"
    by (rule list_all2_mono[OF assms(1)]) (auto simp: item_parse_iff)
  have script: "ed_script item lss (length lss) (cs, lss) ops (cs', lss')"
    by (rule ed_script_mono[OF assms(2)]) (auto simp: item_parse_iff)
  have items': "list_all2 item cs' lss'"
    using ed_script_repr[OF script] items aligned_bounds[of item lss] by simp
  have raws: "map get_raw cs = map unlines lss"
    using items by (induction rule: list_all2_induct) (auto simp: item_raw)
  have run: "applyEdOps cs (line_index lss) ops parse = Inr cs'" "foldl ed_line (doc lss) ops = doc lss'"
    using script_run[OF script refl refl refl] ok list_all2_lengthD[OF items] by auto
  have "raw_lines (unlines (doc lss)) = doc lss"
    by (rule raw_lines_unlines) (use doc_lines_ok[OF ok] in auto)
  then show ?thesis
    using run serialize_doc[OF items] serialize_doc[OF items'] by (simp add: raws buildLineIdxRaws_doc[OF ok])
qed

end

text \<open>C15: for a patch whose commands respect the stanzas, applying it to the parsed stanzas of a Packages index
  gives the stanzas of the file that ed would produce from the text: the result, written out, is the old text
  with every command applied to its lines.\<close>

theorem ApplyEdPatch_refines_ed:
  assumes "list_all2 pkg_stanza pkgs lss" "parseEdOps patch = Inr ops"
    "ed_script pkg_stanza lss (length lss) (pkgs, lss) ops (pkgs', lss')"
  shows "ApplyEdPatch pkgs patch = Inr pkgs' \<and>
    SerializeRawPkgs pkgs' = unlines (foldl ed_line (raw_lines (SerializeRawPkgs pkgs)) ops)"
proof -
  note refines = pkg.patch_refines[unfolded pkg_parse pkg_serialize, OF assms(1,3)[unfolded pkg_stanza_def]]
  from conjunct1[OF refines] have "ApplyEdPatch pkgs patch = Inr pkgs'"
    using assms(2) by (cases "ops = []") (simp_all add: ApplyEdPatch_def buildLineIdx_def)
  with conjunct2[OF refines] show ?thesis by blast
qed

text \<open>The same for a Sources index.\<close>

theorem ApplyEdPatchSrc_refines_ed:
  assumes "list_all2 src_stanza srcs lss" "parseEdOps patch = Inr ops"
    "ed_script src_stanza lss (length lss) (srcs, lss) ops (srcs', lss')"
  shows "ApplyEdPatchSrc srcs patch = Inr srcs' \<and>
    SerializeRawSrcs srcs' = unlines (foldl ed_line (raw_lines (SerializeRawSrcs srcs)) ops)"
proof -
  note refines = src.patch_refines[unfolded src_parse src_serialize, OF assms(1,3)[unfolded src_stanza_def]]
  from conjunct1[OF refines] have "ApplyEdPatchSrc srcs patch = Inr srcs'"
    using assms(2) by (cases "ops = []") (simp_all add: ApplyEdPatchSrc_def buildLineIdxSrc_def)
  with conjunct2[OF refines] show ?thesis by blast
qed



section \<open>Witnesses\<close>

definition one_pkg :: "string \<Rightarrow> RawPkg" where
  "one_pkg n = zero_RawPkg\<lparr>rp_Package := n, rp_Raw := ''Package: '' @ n @ [NL]\<rparr>"

definition one_src :: "string \<Rightarrow> RawSrc" where
  "one_src n = zero_RawSrc\<lparr>rs_Package := n, rs_Raw := ''Package: '' @ n @ [NL]\<rparr>"

definition sample_patch :: string where
  "sample_patch = ''3,4d'' @ [NL] @ ''1c'' @ [NL] @ ''Package: d'' @ [NL] @ ''.'' @ [NL]"

definition sample_ops :: "edOp list" where
  "sample_ops = [\<lparr>ed_addr1 = 3, ed_addr2 = 4, ed_cmd = CHR ''d'', ed_text = []\<rparr>,
     \<lparr>ed_addr1 = 1, ed_addr2 = 1, ed_cmd = CHR ''c'', ed_text = ''Package: d'' @ [NL]\<rparr>]"

lemma sample_patch_ops: "parseEdOps sample_patch = Inr sample_ops"
  by (simp add: parseEdOps_def sample_patch_def sample_ops_def scan_lines_def raw_lines_def Let_def drop_cr_def
      max_ed_token_def parseEdCmd_def cut_def parse_int_def has_prefix_def is_digit_def digits_val_def byte_val_def
      less_eq_char_def)

lemma one_pkg_stanza: "n \<in> {''a'', ''b'', ''d''} \<Longrightarrow> pkg_stanza (one_pkg n) [''Package: '' @ n]"
  by (auto simp: pkg_stanza_def one_pkg_def stanza_ok_def stanza_lines_ok_def ParsePackageRaws_def scan_eval
      pkg_line_def pkg_field_def pkg_set_raw_def)

lemma one_src_stanza: "n \<in> {''a'', ''b'', ''d''} \<Longrightarrow> src_stanza (one_src n) [''Package: '' @ n]"
  by (auto simp: src_stanza_def one_src_def stanza_ok_def stanza_lines_ok_def ParseSourceRaws_def scan_eval
      src_line_def src_field_def src_set_raw_def)

lemma sample_script:
  assumes "itm d [''Package: d'']"
  shows "ed_script itm [[''Package: a''], [''Package: b'']] 2 ([a, b], [[''Package: a''], [''Package: b'']]) sample_ops
     ([d], [[''Package: d'']])"
proof -
  let ?lss = "[[''Package: a''], [''Package: b'']]"
  have st: "start_of ?lss 1 = 2" "start_of ?lss 2 = 4" by (simp_all add: start_of_def)
  have "aligned itm ?lss 2 ([a, b], ?lss) (sample_ops ! 0) 1 ([a], [[''Package: a'']])"
    using aligned.delete[of 1 1 2 0 itm ?lss "[a, b]" ?lss "[]"] st by (simp add: sample_ops_def numeral_2_eq_2)
  moreover have "aligned itm ?lss 1 ([a], [[''Package: a'']]) (sample_ops ! 1) 0 ([d], [[''Package: d'']])"
    using aligned.change[of 0 1 0 1 ?lss "[''Package: d'']" "[''Package: d'']" itm d "[a]" "[[''Package: a'']]"] assms
    by (simp add: sample_ops_def stanza_ok_def stanza_lines_ok_def max_index_token_def)
  ultimately show ?thesis
    unfolding sample_ops_def using ed_script.intros[of itm ?lss] by simp
qed

theorem ApplyEdPatch_refines_ed_witness:
  "ApplyEdPatch [one_pkg ''a'', one_pkg ''b''] sample_patch = Inr [one_pkg ''d'']"
proof -
  have "list_all2 pkg_stanza [one_pkg ''a'', one_pkg ''b''] [[''Package: a''], [''Package: b'']]"
    using one_pkg_stanza[of "''a''"] one_pkg_stanza[of "''b''"] by simp
  moreover have "ed_script pkg_stanza [[''Package: a''], [''Package: b'']] (length [[''Package: a''], [''Package: b'']])
      ([one_pkg ''a'', one_pkg ''b''], [[''Package: a''], [''Package: b'']]) sample_ops ([one_pkg ''d''], [[''Package: d'']])"
    using sample_script[of pkg_stanza "one_pkg ''d''"] one_pkg_stanza[of "''d''"] by (simp add: numeral_2_eq_2)
  ultimately show ?thesis using ApplyEdPatch_refines_ed[OF _ sample_patch_ops] by blast
qed

theorem ApplyEdPatchSrc_refines_ed_witness:
  "ApplyEdPatchSrc [one_src ''a'', one_src ''b''] sample_patch = Inr [one_src ''d'']"
proof -
  have "list_all2 src_stanza [one_src ''a'', one_src ''b''] [[''Package: a''], [''Package: b'']]"
    using one_src_stanza[of "''a''"] one_src_stanza[of "''b''"] by simp
  moreover have "ed_script src_stanza [[''Package: a''], [''Package: b'']] (length [[''Package: a''], [''Package: b'']])
      ([one_src ''a'', one_src ''b''], [[''Package: a''], [''Package: b'']]) sample_ops ([one_src ''d''], [[''Package: d'']])"
    using sample_script[of src_stanza "one_src ''d''"] one_src_stanza[of "''d''"] by (simp add: numeral_2_eq_2)
  ultimately show ?thesis using ApplyEdPatchSrc_refines_ed[OF _ sample_patch_ops] by blast
qed

text \<open>Outside the aligned scripts the stanza level differs from ed: a command that deletes one line of a stanza
  removes the whole stanza, and of two changes inside one stanza only the last survives, because each is rebuilt
  from the unchanged line index.  The program relies on comparing the digest of the result.\<close>

definition two_line_pkg :: RawPkg where
  "two_line_pkg = zero_RawPkg\<lparr>rp_Package := ''a'', rp_Version := ''1'', rp_Raw := ''Package: a'' @ [NL] @ ''Version: 1'' @ [NL]\<rparr>"

lemmas ed_eval = parseEdOps_def scan_lines_def raw_lines_def Let_def drop_cr_def max_ed_token_def parseEdCmd_def cut_def
  parse_int_def has_prefix_def is_digit_def digits_val_def byte_val_def less_eq_char_def ApplyEdPatch_def buildLineIdx_def
  buildLineIdxRaws_def add_stanza_def applyEdOpGeneric_def stanzaRange_def stanzaAt_def widen_def trim_right_def
  rebuildStanza_def two_line_pkg_def upto.simps

lemma delete_one_line_removes_stanza: "ApplyEdPatch [two_line_pkg] (''2d'' @ [NL]) = Inr []"
  by (simp add: ed_eval)

lemma second_change_undoes_first:
  "ApplyEdPatch [two_line_pkg] (''2c'' @ [NL] @ ''Version: 2'' @ [NL] @ ''.'' @ [NL] @ ''1c'' @ [NL] @ ''Package: b'' @ [NL] @ ''.'' @ [NL]) =
     Inr [zero_RawPkg\<lparr>rp_Package := ''b'', rp_Version := ''1'', rp_Raw := ''Package: b'' @ [NL] @ ''Version: 1'' @ [NL]\<rparr>]"
  by (simp add: ed_eval ParsePackageRaws_def scan_eval pkg_line_def pkg_field_def pkg_set_raw_def)

end
