(* ===== verification/Paths.thy ===== *)
theory Paths
  imports Prelude
begin

text \<open>
  Storage paths: Go's \<open>path.Clean\<close> and \<open>path.Join\<close>, the guard \<open>CleanRelPath\<close> that both storage
  backends apply to every caller-supplied path (\<open>src/internal/storage/storage.go\<close>), the mapping of
  the filesystem backend onto its root (\<open>src/internal/storage/filesystem/fs.go\<close>), and the layout
  of the pool and of the source tree (\<open>src/internal/model/model.go\<close>, \<open>avail.go\<close>).
\<close>

section \<open>Definitions\<close>

text \<open>\<open>path.Clean\<close>: the segments are pushed on a stack (kept in reverse).\<close>

fun clean_segs :: "bool \<Rightarrow> string list \<Rightarrow> string list \<Rightarrow> string list" where
  "clean_segs rooted stack [] = stack"
| "clean_segs rooted stack (s # segs) =
     (if s = [] \<or> s = ''.'' then clean_segs rooted stack segs
      else if s = ''..'' then
        (if stack \<noteq> [] \<and> hd stack \<noteq> ''..'' then clean_segs rooted (tl stack) segs
         else if rooted then clean_segs rooted stack segs
         else clean_segs rooted (s # stack) segs)
      else clean_segs rooted (s # stack) segs)"

definition path_clean :: "string \<Rightarrow> string" where
  "path_clean p =
     (if p = [] then ''.''
      else let rooted = (hd p = CHR ''/'');
               out = join ''/'' (rev (clean_segs rooted [] (split_on CHR ''/'' p)))
           in if rooted then CHR ''/'' # out else if out = [] then ''.'' else out)"

definition path_join :: "string list \<Rightarrow> string" where
  "path_join elems = (let es = filter (\<lambda>e. e \<noteq> []) elems in if es = [] then [] else path_clean (join ''/'' es))"

definition CleanRelPath :: "string \<Rightarrow> string option" where
  "CleanRelPath p =
     (if NUL \<in> set p then None
      else let trimmed = trim_left (\<lambda>c. c = CHR ''/'') (trim_space p);
               clean = path_clean trimmed;
               clean = (if clean = ''.'' then [] else clean)
           in if clean = ''..'' \<or> has_prefix clean ''../'' then None else Some clean)"

text \<open>The filesystem backend.  On the platforms it runs on \<open>filepath\<close> and \<open>path\<close> agree and
  \<open>FromSlash\<close> is the identity.\<close>

record fs_Store =
  fs_root :: string
  fs_poolRoot :: string

definition fs_New :: "string \<Rightarrow> fs_Store" where
  "fs_New root = \<lparr>fs_root = root, fs_poolRoot = path_join [root, ''pool'']\<rparr>"

definition absPool :: "fs_Store \<Rightarrow> string \<Rightarrow> string option" where
  "absPool s poolPath =
     (case CleanRelPath poolPath of
        None \<Rightarrow> None
      | Some clean \<Rightarrow> Some (path_join [fs_poolRoot s, trim_prefix clean ''pool/'']))"

definition absPublished :: "fs_Store \<Rightarrow> string \<Rightarrow> string option" where
  "absPublished s relPath =
     (case CleanRelPath relPath of
        None \<Rightarrow> None
      | Some clean \<Rightarrow> Some (path_join [fs_root s, clean]))"

text \<open>The pool layout.\<close>

definition first_letter :: "string \<Rightarrow> string" where
  "first_letter name = (if name = [] then ''_'' else to_lower [hd name])"

definition SourceDir :: "string \<Rightarrow> string \<Rightarrow> string \<Rightarrow> string \<Rightarrow> string \<Rightarrow> string" where
  "SourceDir osName codename upstreamName component name =
     path_join [''src'', osName, codename, upstreamName, component, first_letter name, name]"

definition SourceFilePath :: "string \<Rightarrow> string \<Rightarrow> string \<Rightarrow> string \<Rightarrow> string \<Rightarrow> string \<Rightarrow> string" where
  "SourceFilePath osName codename upstreamName component name filename =
     SourceDir osName codename upstreamName component name @ ''/'' @ filename"

definition PoolSection :: "string \<Rightarrow> string" where
  "PoolSection section = (let s = trim_space section in if s = [] then ''misc'' else s)"

definition PoolPath :: "string \<Rightarrow> string \<Rightarrow> string \<Rightarrow> string \<Rightarrow> string \<Rightarrow> string \<Rightarrow> string \<Rightarrow> string" where
  "PoolPath os codename upstream section name version arch =
     path_join [''pool'', os, codename, upstream, PoolSection section, first_letter name, name,
       name @ ''_'' @ version @ ''_'' @ arch @ ''.deb'']"

definition poolPathFromFilename :: "string \<Rightarrow> string \<Rightarrow> string \<Rightarrow> string \<Rightarrow> string \<Rightarrow> string \<Rightarrow> string" where
  "poolPathFromFilename os codename upstreamName section pkgName upstreamFilename =
     (let debFile = (case cut_last CHR ''/'' upstreamFilename of None \<Rightarrow> upstreamFilename | Some (_, f) \<Rightarrow> f)
      in ''pool/'' @ os @ ''/'' @ codename @ ''/'' @ upstreamName @ ''/'' @ PoolSection section @ ''/'' @
         first_letter pkgName @ ''/'' @ pkgName @ ''/'' @ debFile)"

text \<open>\<open>strings.SplitN(poolPath, "/", 5)\<close> has at least four parts exactly when there are three slashes, and
  its first four parts are those of a full split, the fourth cut at the next slash.\<close>

definition upstreamNameFromPoolPath :: "string \<Rightarrow> string option" where
  "upstreamNameFromPoolPath poolPath =
     (let segs = split_on CHR ''/'' poolPath
      in if length segs < 4 \<or> segs ! 0 \<noteq> ''pool'' then None else Some (segs ! 3))"


section \<open>Clean segments\<close>

definition plain_seg :: "string \<Rightarrow> bool" where
  "plain_seg s \<longleftrightarrow> s \<noteq> [] \<and> s \<noteq> ''.'' \<and> s \<noteq> ''..'' \<and> CHR ''/'' \<notin> set s"

lemma clean_segs_plain: "list_all plain_seg segs \<Longrightarrow> clean_segs rooted stack segs = rev segs @ stack"
  by (induction segs arbitrary: stack) (auto simp: plain_seg_def)

lemma clean_segs_shape:
  assumes "\<And>s. s \<in> set segs \<Longrightarrow> CHR ''/'' \<notin> set s"
    and "\<exists>n ps. stack = ps @ replicate n ''..'' \<and> list_all plain_seg ps \<and> (rooted \<longrightarrow> n = 0)"
  shows "\<exists>n ps. clean_segs rooted stack segs = ps @ replicate n ''..'' \<and> list_all plain_seg ps \<and> (rooted \<longrightarrow> n = 0)"
  using assms
proof (induction segs arbitrary: stack)
  case (Cons s segs)
  obtain n ps where st: "stack = ps @ replicate n ''..''" "list_all plain_seg ps" "rooted \<longrightarrow> n = 0"
    using Cons.prems(2) by blast
  have pop: "\<exists>n ps. tl stack = ps @ replicate n ''..'' \<and> list_all plain_seg ps \<and> (rooted \<longrightarrow> n = 0)"
    if "stack \<noteq> []" "hd stack \<noteq> ''..''"
  proof (cases ps)
    case Nil
    with st that show ?thesis by (cases n) auto
  next
    case (Cons q qs)
    with st show ?thesis by auto
  qed
  have up: "\<exists>n ps. ''..'' # stack = ps @ replicate n ''..'' \<and> list_all plain_seg ps \<and> (rooted \<longrightarrow> n = 0)"
    if "\<not> (stack \<noteq> [] \<and> hd stack \<noteq> ''..'')" "\<not> rooted"
  proof (cases ps)
    case Nil
    with st that show ?thesis by (intro exI[of _ "Suc n"] exI[of _ "[]"]) auto
  next
    case (Cons q qs)
    with st that show ?thesis by (auto simp: plain_seg_def)
  qed
  have push: "\<exists>n ps. s # stack = ps @ replicate n ''..'' \<and> list_all plain_seg ps \<and> (rooted \<longrightarrow> n = 0)"
    if "s \<noteq> []" "s \<noteq> ''.''" "s \<noteq> ''..''"
    using st that Cons.prems(1) by (intro exI[of _ n] exI[of _ "s # ps"]) (auto simp: plain_seg_def)
  have IH: "\<And>stack. \<exists>n ps. stack = ps @ replicate n ''..'' \<and> list_all plain_seg ps \<and> (rooted \<longrightarrow> n = 0) \<Longrightarrow>
      \<exists>n ps. clean_segs rooted stack segs = ps @ replicate n ''..'' \<and> list_all plain_seg ps \<and> (rooted \<longrightarrow> n = 0)"
    using Cons.IH Cons.prems(1) by auto
  show ?case
    using IH[OF Cons.prems(2)] IH[OF pop] IH[OF up] IH[OF push] by auto
qed simp

lemma join_slash_ne: "xs \<noteq> [] \<Longrightarrow> hd xs \<noteq> [] \<Longrightarrow> join ''/'' xs \<noteq> [] \<and> hd (join ''/'' xs) = hd (hd xs)"
  by (cases xs; cases "tl xs") (auto simp: hd_append)

lemma join_head: "xs \<noteq> [] \<Longrightarrow> join ''/'' (x # xs) = x @ ''/'' @ join ''/'' xs"
  by (rule join_Cons)

lemma path_clean_plain:
  assumes "segs \<noteq> []" "list_all plain_seg segs"
  shows "path_clean (join ''/'' segs) = join ''/'' segs" "path_clean (CHR ''/'' # join ''/'' segs) = CHR ''/'' # join ''/'' segs"
proof -
  obtain s ss where s: "segs = s # ss" "s \<noteq> []" "CHR ''/'' \<notin> set s"
    using assms by (cases segs) (auto simp: plain_seg_def)
  have ne: "join ''/'' segs \<noteq> []" "hd (join ''/'' segs) = hd s"
    using join_slash_ne[of segs] s by auto
  have hd: "hd s \<noteq> CHR ''/''" using s by (cases s) auto
  have split: "split_on CHR ''/'' (join ''/'' segs) = segs"
    using split_on_join[of segs "CHR ''/''"] assms by (auto simp: list_all_iff plain_seg_def)
  show "path_clean (join ''/'' segs) = join ''/'' segs"
    using ne hd assms(2) by (simp add: path_clean_def split clean_segs_plain Let_def)
  show "path_clean (CHR ''/'' # join ''/'' segs) = CHR ''/'' # join ''/'' segs"
    using assms(2) by (simp add: path_clean_def split clean_segs_plain Let_def)
qed

lemma path_join_plain:
  assumes "segs \<noteq> []" "list_all plain_seg segs"
  shows "path_join segs = join ''/'' segs"
proof -
  have "filter (\<lambda>e. e \<noteq> []) segs = segs" using assms(2) by (auto simp: list_all_iff plain_seg_def filter_id_conv)
  then show ?thesis using assms path_clean_plain(1)[OF assms] by (simp add: path_join_def Let_def)
qed

text \<open>A path with no upward or empty segment: the empty path, or plain segments separated by slashes.\<close>

definition inside :: "string \<Rightarrow> bool" where
  "inside c \<longleftrightarrow> c = [] \<or> list_all plain_seg (split_on CHR ''/'' c)"

lemma path_clean_relative:
  assumes "p = [] \<or> hd p \<noteq> CHR ''/''" "path_clean p \<noteq> ''..''" "\<not> has_prefix (path_clean p) ''../''"
  shows "path_clean p = ''.'' \<or> inside (path_clean p)"
proof (cases "p = []")
  case True
  then show ?thesis by (simp add: path_clean_def)
next
  case False
  let ?st = "clean_segs False [] (split_on CHR ''/'' p)"
  obtain n ps where st: "?st = ps @ replicate n ''..''" "list_all plain_seg ps"
    using clean_segs_shape[of "split_on CHR ''/'' p" "[]" False] split_on_pieces by fastforce
  have pc: "path_clean p = (let out = join ''/'' (rev ?st) in if out = [] then ''.'' else out)"
    using False assms(1) by (simp add: path_clean_def Let_def)
  have "n = 0"
  proof (rule ccontr)
    assume "n \<noteq> 0"
    then obtain m where n: "n = Suc m" by (cases n) auto
    let ?rest = "replicate m ''..'' @ rev ps"
    have rev: "rev ?st = ''..'' # ?rest" using st(1) n by (simp add: replicate_append_same)
    show False
    proof (cases "?rest = []")
      case True
      then show False using assms(2) pc rev by (simp add: Let_def)
    next
      case False
      then have "path_clean p = ''../'' @ join ''/'' ?rest" unfolding pc rev by (simp add: join_head Let_def)
      then show False using assms(3) by (metis has_prefix_append)
    qed
  qed
  with st pc have out: "path_clean p = (if join ''/'' (rev ps) = [] then ''.'' else join ''/'' (rev ps))"
    by (simp add: Let_def)
  show ?thesis
  proof (cases "ps = []")
    case True
    then show ?thesis using out by simp
  next
    case False
    have "split_on CHR ''/'' (join ''/'' (rev ps)) = rev ps"
      using split_on_join[of "rev ps" "CHR ''/''"] False st(2) by (auto simp: list_all_iff plain_seg_def)
    then show ?thesis using out st(2) by (auto simp: inside_def list_all_iff)
  qed
qed


section \<open>Properties\<close>

lemma clean_segs_subset: "set (clean_segs r st segs) \<subseteq> set st \<union> set segs"
proof (induction segs arbitrary: st)
  case (Cons s segs)
  have "set (tl st) \<subseteq> set st" by (cases st) auto
  then show ?case using Cons[of st] Cons[of "tl st"] Cons[of "s # st"] by auto
qed simp

lemma set_path_clean: "set (path_clean p) \<subseteq> set p \<union> {CHR ''.'', CHR ''/''}"
proof -
  have "set (join ''/'' (rev (clean_segs r [] (split_on CHR ''/'' p)))) \<subseteq> set p \<union> {CHR ''/''}" for r
    using set_join_sub[of "''/''" "rev (clean_segs r [] (split_on CHR ''/'' p))"]
      clean_segs_subset[of r "[]" "split_on CHR ''/'' p"] split_on_piece_sub[of _ "CHR ''/''" p] by fastforce
  then show ?thesis by (auto simp: path_clean_def Let_def)
qed

lemma CleanRelPath_inside: "CleanRelPath p = Some c \<Longrightarrow> inside c"
proof -
  assume c: "CleanRelPath p = Some c"
  let ?t = "trim_left (\<lambda>c. c = CHR ''/'') (trim_space p)"
  have t: "?t = [] \<or> hd ?t \<noteq> CHR ''/''" using trim_left_ends by fastforce
  have dot: "path_clean ?t \<noteq> ''..''" "\<not> has_prefix (path_clean ?t) ''../''"
    using c by (auto simp: CleanRelPath_def Let_def has_prefix_def split: if_splits)
  have "c = (if path_clean ?t = ''.'' then [] else path_clean ?t)"
    using c by (auto simp: CleanRelPath_def Let_def split: if_splits)
  with path_clean_relative[OF t dot] show ?thesis by (auto simp: inside_def)
qed

text \<open>C12: whatever path a client or an upstream supplies, the cleaned path is refused or has only ordinary
  segments: it does not start with a slash, no segment is empty, a dot or a double dot, and it has no NUL.\<close>

theorem CleanRelPath_safe:
  "CleanRelPath p = Some c \<Longrightarrow> (c = [] \<or> list_all plain_seg (split_on CHR ''/'' c)) \<and> NUL \<notin> set c"
proof -
  assume c: "CleanRelPath p = Some c"
  let ?t = "trim_left (\<lambda>c. c = CHR ''/'') (trim_space p)"
  have "NUL \<notin> set p" using c by (auto simp: CleanRelPath_def split: if_splits)
  then have "NUL \<notin> set ?t" using set_trim_space[of p] by (auto simp: trim_left_def dest: set_dropWhileD)
  then have "NUL \<notin> set (path_clean ?t)" using set_path_clean[of ?t] by auto
  moreover have "c = [] \<or> c = path_clean ?t"
    using c by (auto simp: CleanRelPath_def Let_def split: if_splits)
  ultimately show ?thesis using CleanRelPath_inside[OF c] by (auto simp: inside_def)
qed

theorem CleanRelPath_safe_witness:
  "CleanRelPath ''/a/../b//c'' = Some ''b/c'' \<and> list_all plain_seg (split_on CHR ''/'' ''b/c'')"
proof -
  have c: "CleanRelPath ''/a/../b//c'' = Some ''b/c''" by code_simp
  from CleanRelPath_safe[OF c] c show ?thesis by simp
qed

lemma inside_trim_pool: "inside c \<Longrightarrow> inside (trim_prefix c ''pool/'')"
proof (cases "has_prefix c ''pool/''")
  case True
  then obtain r where r: "c = ''pool'' @ CHR ''/'' # r" by (auto dest: has_prefixD)
  assume "inside c"
  then have "list_all plain_seg (split_on CHR ''/'' r)"
    using split_on_append[of "CHR ''/''" "''pool''" r] by (simp add: inside_def r)
  then show ?thesis using True r by (simp add: trim_prefix_def inside_def)
qed (simp add: trim_prefix_def)

lemma join_append: "xs \<noteq> [] \<Longrightarrow> ys \<noteq> [] \<Longrightarrow> join ''/'' (xs @ ys) = join ''/'' xs @ ''/'' @ join ''/'' ys"
proof (induction xs)
  case (Cons x xs)
  then show ?case by (cases "xs = []") (simp_all add: join_Cons)
qed simp

text \<open>A storage root: an absolute path of plain segments.\<close>

definition abs_path :: "string list \<Rightarrow> string" where
  "abs_path segs = concat (map (\<lambda>s. CHR ''/'' # s) segs)"

lemma abs_path_join: "segs \<noteq> [] \<Longrightarrow> abs_path segs = CHR ''/'' # join ''/'' segs"
proof (induction segs)
  case (Cons s segs)
  then show ?case by (cases "segs = []") (simp_all add: abs_path_def join_Cons)
qed simp

lemma path_join_root:
  assumes "segs \<noteq> []" "list_all plain_seg segs" "inside c"
  shows "path_join [abs_path segs, c] = abs_path (segs @ (if c = [] then [] else split_on CHR ''/'' c))"
proof (cases "c = []")
  case True
  then show ?thesis using path_clean_plain(2)[OF assms(1,2)] assms(1)
    by (simp add: path_join_def abs_path_join)
next
  case False
  let ?cs = "split_on CHR ''/'' c"
  have cs: "list_all plain_seg (segs @ ?cs)" "segs @ ?cs \<noteq> []" using assms False by (auto simp: inside_def)
  have "join ''/'' [abs_path segs, c] = CHR ''/'' # join ''/'' (segs @ ?cs)"
    using assms(1) join_append[OF assms(1), of ?cs] by (simp add: abs_path_join)
  then show ?thesis
    using False assms(1) path_clean_plain(2)[OF cs(2,1)] by (simp add: path_join_def abs_path_join)
qed



text \<open>C29: a pool path built for a package of an upstream leads back to that upstream, both from the
  name parts and from the upstream's own file name.\<close>

theorem pool_path_names_upstream:
  assumes "list_all plain_seg [os, codename, upstream]"
  shows "upstreamNameFromPoolPath (poolPathFromFilename os codename upstream section name filename) = Some upstream \<and>
    (list_all plain_seg [PoolSection section, first_letter name, name, name @ ''_'' @ version @ ''_'' @ arch @ ''.deb''] \<longrightarrow>
     upstreamNameFromPoolPath (PoolPath os codename upstream section name version arch) = Some upstream)"
proof
  have no: "CHR ''/'' \<notin> set ''pool''" "CHR ''/'' \<notin> set os" "CHR ''/'' \<notin> set codename" "CHR ''/'' \<notin> set upstream"
    using assms by (auto simp: plain_seg_def)
  have names: "upstreamNameFromPoolPath (''pool/'' @ os @ ''/'' @ codename @ ''/'' @ upstream @ ''/'' @ rest) = Some upstream" for rest
    using split_on_append[OF no(1), of "os @ ''/'' @ codename @ ''/'' @ upstream @ ''/'' @ rest"]
      split_on_append[OF no(2), of "codename @ ''/'' @ upstream @ ''/'' @ rest"]
      split_on_append[OF no(3), of "upstream @ ''/'' @ rest"] split_on_append[OF no(4), of rest]
    by (auto simp: upstreamNameFromPoolPath_def Let_def split: list.splits)
  show "upstreamNameFromPoolPath (poolPathFromFilename os codename upstream section name filename) = Some upstream"
    unfolding poolPathFromFilename_def Let_def by (rule names)
  show "list_all plain_seg [PoolSection section, first_letter name, name, name @ ''_'' @ version @ ''_'' @ arch @ ''.deb''] \<longrightarrow>
     upstreamNameFromPoolPath (PoolPath os codename upstream section name version arch) = Some upstream"
  proof
    assume seg: "list_all plain_seg [PoolSection section, first_letter name, name, name @ ''_'' @ version @ ''_'' @ arch @ ''.deb'']"
    show "upstreamNameFromPoolPath (PoolPath os codename upstream section name version arch) = Some upstream"
    proof -
      have "list_all plain_seg [''pool'', os, codename, upstream, PoolSection section, first_letter name, name,
         name @ ''_'' @ version @ ''_'' @ arch @ ''.deb'']" using assms seg by (simp add: plain_seg_def)
      from path_join_plain[OF _ this] show ?thesis
        using names[of "PoolSection section @ ''/'' @ first_letter name @ ''/'' @ name @ ''/'' @ name @ ''_'' @ version @ ''_'' @ arch @ ''.deb''"]
        by (simp add: PoolPath_def)
    qed
  qed
qed

theorem pool_path_names_upstream_witness:
  "upstreamNameFromPoolPath (PoolPath ''debian'' ''trixie'' ''main'' [] ''bash'' ''5'' ''amd64'') = Some ''main''"
proof -
  have "list_all plain_seg [''debian'', ''trixie'', ''main'']" by code_simp
  moreover have "list_all plain_seg [PoolSection [], first_letter ''bash'', ''bash'', ''bash'' @ ''_'' @ ''5'' @ ''_'' @ ''amd64'' @ ''.deb'']"
    by code_simp
  ultimately show ?thesis using pool_path_names_upstream by blast
qed

end
