(* ===== verification/Avail.thy ===== *)
theory Avail
  imports DebVersion Stanzas AptMeta Paths "HOL-Library.AList" "HOL-Library.Multiset"
begin

text \<open>
  The merged view of a codename (\<open>src/internal/avail/avail.go\<close>) and the data it is made of
  (\<open>src/internal/model/model.go\<close>).  The calls into the fetcher are the fields of \<open>upstreams\<close>: what each
  upstream's index adoption and fetch return.  What the Go runtime leaves open is the \<open>schedule\<close>: the order
  in which the goroutines append their entries, the order in which \<open>range\<close> visits the packages of one entry,
  and the order of the architecture set.  A Go map that is iterated is an association list.
\<close>

section \<open>Definitions\<close>

record UpstreamSource =
  us_Name :: string
  us_URL :: string
  us_Suite :: string
  us_Component :: "string list"
  us_Archs :: "string list"
  us_AutoUpdate :: bool
  us_FetchSources :: bool
  us_VerifyKeys :: "string list"
  us_Username :: string
  us_Password :: string
  us_Network :: string

definition ComponentKey :: "UpstreamSource \<Rightarrow> string" where
  "ComponentKey u = join '','' (us_Component u)"

definition DedupKey :: "UpstreamSource \<Rightarrow> string" where
  "DedupKey u = us_URL u @ [NUL] @ us_Suite u @ [NUL] @ ComponentKey u"

record Layout =
  ly_OS :: string
  ly_Codename :: string
  ly_Component :: string
  ly_Archs :: "string list"
  ly_HashTypes :: "string list"
  ly_Upstreams :: "UpstreamSource list"

definition Layout_Key :: "Layout \<Rightarrow> string" where
  "Layout_Key l = path_join [ly_OS l, ly_Codename l, ly_Component l]"

record Pkg =
  pk_Name :: string
  pk_Version :: string
  pk_Arch :: string
  pk_Section :: string
  pk_Component :: string
  pk_Filename :: string
  pk_SHA256 :: string
  pk_SHA512 :: string
  pk_Size :: int
  pk_PoolPath :: string
  pk_Depends :: string
  pk_PreDepends :: string
  pk_Upstream :: UpstreamSource
  pk_StanzaStr :: string

record SrcPkg =
  sp_Package :: string
  sp_Version :: string
  sp_Component :: string
  sp_UpstreamDir :: string
  sp_LocalDir :: string
  sp_Files :: "RawSrcFile list"
  sp_Upstream :: UpstreamSource
  sp_StanzaStr :: string

record Available =
  av_OS :: string
  av_Codename :: string
  av_Components :: "string list"
  av_Arches :: "string list"
  av_HasStaleMismatch :: bool
  av_HasFetchFailure :: bool
  av_Pkgs :: "string \<rightharpoonup> (string \<times> (string \<rightharpoonup> Pkg)) list"
  av_ByPoolPath :: "string \<rightharpoonup> Pkg"
  av_Srcs :: "string \<rightharpoonup> (string \<rightharpoonup> SrcPkg)"
  av_AllSrcs :: "SrcPkg list"

record Index =
  ix_ByArch :: "(string \<times> RawPkg list) list"
  ix_HasStaleMismatch :: bool

text \<open>What the fetcher returns for each upstream: an index adopted outright (when the layout's data is known to
  be fresh, which needs a cache) or a fetched one, where \<open>None\<close> is the error.  For Sources a nil slice is the inner \<open>None\<close>.\<close>

record upstreams =
  up_cache :: bool
  up_layoutDataFresh :: bool
  up_adopt :: "UpstreamSource \<Rightarrow> Index option"
  up_fetch :: "UpstreamSource \<Rightarrow> Index option"
  up_adoptSources :: "UpstreamSource \<Rightarrow> RawSrc list option"
  up_fetchSources :: "UpstreamSource \<Rightarrow> RawSrc list option option"

record archEntry =
  ae_order :: nat
  ae_component :: string
  ae_arch :: string
  ae_pkgs :: "(string \<times> Pkg) list"
  ae_stale :: bool

record schedule =
  sch_arrive :: "archEntry list \<Rightarrow> archEntry list"
  sch_range :: "(string \<times> Pkg) list \<Rightarrow> (string \<times> Pkg) list"
  sch_arches :: "string list \<Rightarrow> string list"

text \<open>\<open>None\<close> is the zero \<open>Pkg\<close> the callers skip by its empty name.\<close>

definition buildPkg :: "string \<Rightarrow> string \<Rightarrow> string \<Rightarrow> string \<Rightarrow> UpstreamSource \<Rightarrow> RawPkg \<Rightarrow> Pkg option" where
  "buildPkg osName codename component arch src st =
     (if rp_Package st = [] \<or> rp_Version st = [] then None
      else let pkgArch = (if rp_Arch st = [] then arch else rp_Arch st);
               poolPath = poolPathFromFilename osName codename (us_Name src) (rp_Section st) (rp_Package st) (rp_Filename st)
           in Some \<lparr>pk_Name = rp_Package st, pk_Version = rp_Version st, pk_Arch = pkgArch, pk_Section = rp_Section st,
                pk_Component = component, pk_Filename = rp_Filename st, pk_SHA256 = rp_SHA256 st, pk_SHA512 = rp_SHA512 st,
                pk_Size = rp_Size st, pk_PoolPath = poolPath, pk_Depends = rp_Depends st, pk_PreDepends = rp_PreDepends st,
                pk_Upstream = src, pk_StanzaStr = WithFilename st poolPath\<rparr>)"

text \<open>Phase 1: one goroutine's private map.\<close>

definition put_newest :: "(string \<times> Pkg) list \<Rightarrow> Pkg \<Rightarrow> (string \<times> Pkg) list" where
  "put_newest dest p =
     (case map_of dest (pk_Name p) of
        Some existing \<Rightarrow>
          if Compare (pk_Version p) (pk_Version existing) \<le> 0 then dest else AList.update (pk_Name p) p dest
      | None \<Rightarrow> AList.update (pk_Name p) p dest)"

definition arch_pkgs :: "string \<Rightarrow> string \<Rightarrow> string \<Rightarrow> string \<Rightarrow> UpstreamSource \<Rightarrow> RawPkg list \<Rightarrow> (string \<times> Pkg) list" where
  "arch_pkgs osName codename component arch src stanzas =
     foldl (\<lambda>dest st. case buildPkg osName codename component arch src st of None \<Rightarrow> dest | Some p \<Rightarrow> put_newest dest p)
       [] stanzas"

text \<open>The layouts of the codename, their jobs and the result of each job.\<close>

definition layouts_of :: "Layout list \<Rightarrow> string \<Rightarrow> string \<Rightarrow> Layout list" where
  "layouts_of layouts osName codename = filter (\<lambda>l. ly_OS l = osName \<and> ly_Codename l = codename) layouts"

definition jobs_of :: "Layout list \<Rightarrow> (string \<times> UpstreamSource) list" where
  "jobs_of ls = concat (map (\<lambda>l. map (\<lambda>src. (ly_Component l, src)) (ly_Upstreams l)) ls)"

definition job_index :: "upstreams \<Rightarrow> UpstreamSource \<Rightarrow> Index option" where
  "job_index env src =
     (case (if up_layoutDataFresh env then up_adopt env src else None) of
        Some idx \<Rightarrow> Some idx
      | None \<Rightarrow> up_fetch env src)"

definition job_fetches :: "upstreams \<Rightarrow> UpstreamSource \<Rightarrow> bool" where
  "job_fetches env src \<longleftrightarrow> (if up_layoutDataFresh env then up_adopt env src else None) = None"

definition job_entries :: "string \<Rightarrow> string \<Rightarrow> upstreams \<Rightarrow> nat \<Rightarrow> string \<times> UpstreamSource \<Rightarrow> archEntry list" where
  "job_entries osName codename env i job =
     (case job of (component, src) \<Rightarrow>
        case job_index env src of
          None \<Rightarrow> []
        | Some idx \<Rightarrow>
            map (\<lambda>(arch, stanzas).
                  \<lparr>ae_order = i, ae_component = component, ae_arch = arch,
                   ae_pkgs = arch_pkgs osName codename component arch src stanzas,
                   ae_stale = ix_HasStaleMismatch idx\<rparr>) (ix_ByArch idx))"

definition all_entries :: "string \<Rightarrow> string \<Rightarrow> upstreams \<Rightarrow> (string \<times> UpstreamSource) list \<Rightarrow> archEntry list" where
  "all_entries osName codename env jobs =
     concat (map (\<lambda>(i, job). job_entries osName codename env i job) (zip [0..<length jobs] jobs))"

definition entry_key :: "archEntry \<Rightarrow> nat \<times> string" where
  "entry_key e = (ae_order e, ae_arch e)"

text \<open>Phase 2: the merge into the shared view.\<close>

definition merge_pkg :: "(string \<rightharpoonup> Pkg) \<Rightarrow> string \<times> Pkg \<Rightarrow> (string \<rightharpoonup> Pkg)" where
  "merge_pkg dest np =
     (case np of (name, p) \<Rightarrow>
        case dest name of
          Some existing \<Rightarrow> if Compare (pk_Version p) (pk_Version existing) \<le> 0 then dest else dest(name \<mapsto> p)
        | None \<Rightarrow> dest(name \<mapsto> p))"

definition add_pool_path :: "(string \<rightharpoonup> Pkg) \<Rightarrow> string \<times> Pkg \<Rightarrow> (string \<rightharpoonup> Pkg)" where
  "add_pool_path m np = m(pk_PoolPath (snd np) \<mapsto> snd np)"

definition component_arches :: "Available \<Rightarrow> string \<Rightarrow> (string \<times> (string \<rightharpoonup> Pkg)) list" where
  "component_arches av c = (case av_Pkgs av c of None \<Rightarrow> [] | Some m \<Rightarrow> m)"

definition merge_binary :: "schedule \<Rightarrow> Available \<Rightarrow> archEntry \<Rightarrow> Available" where
  "merge_binary sch av e =
     (if ae_arch e = ''all'' then av
      else let archs = component_arches av (ae_component e);
               dest = (case map_of archs (ae_arch e) of None \<Rightarrow> Map.empty | Some d \<Rightarrow> d);
               pkgs = sch_range sch (ae_pkgs e)
           in av\<lparr>av_HasStaleMismatch := av_HasStaleMismatch av \<or> ae_stale e,
                 av_Pkgs := (av_Pkgs av)(ae_component e \<mapsto>
                   AList.update (ae_arch e) (foldl merge_pkg dest pkgs) archs),
                 av_ByPoolPath := foldl add_pool_path (av_ByPoolPath av) pkgs\<rparr>)"

definition merge_all :: "schedule \<Rightarrow> Available \<Rightarrow> archEntry \<Rightarrow> Available" where
  "merge_all sch av e =
     (if ae_arch e \<noteq> ''all'' then av
      else let archs = component_arches av (ae_component e);
               pkgs = sch_range sch (ae_pkgs e)
           in av\<lparr>av_HasStaleMismatch := av_HasStaleMismatch av \<or> ae_stale e,
                 av_Pkgs := (if archs = [] then av_Pkgs av else (av_Pkgs av)(ae_component e \<mapsto>
                   map (\<lambda>(a, dest). (a, foldl merge_pkg dest pkgs)) archs)),
                 av_ByPoolPath := foldl (\<lambda>m _. foldl add_pool_path m pkgs) (av_ByPoolPath av) archs\<rparr>)"

definition init_available :: "string \<Rightarrow> string \<Rightarrow> Layout list \<Rightarrow> Available" where
  "init_available osName codename ls =
     \<lparr>av_OS = osName, av_Codename = codename,
      av_Components = rev (remdups (rev (map ly_Component ls))), av_Arches = [],
      av_HasStaleMismatch = False, av_HasFetchFailure = False,
      av_Pkgs = (\<lambda>c. if c \<in> ly_Component ` set ls then Some [] else None),
      av_ByPoolPath = Map.empty, av_Srcs = Map.empty, av_AllSrcs = []\<rparr>"

definition merge_entries :: "schedule \<Rightarrow> Available \<Rightarrow> archEntry list \<Rightarrow> Available" where
  "merge_entries sch av entries = foldl (merge_all sch) (foldl (merge_binary sch) av entries) entries"

text \<open>The Sources half.\<close>

definition job_sources :: "upstreams \<Rightarrow> UpstreamSource \<Rightarrow> RawSrc list option option" where
  "job_sources env src =
     (case (if up_layoutDataFresh env then up_adoptSources env src else None) of
        Some raws \<Rightarrow> Some (Some raws)
      | None \<Rightarrow> up_fetchSources env src)"

definition src_fetches :: "upstreams \<Rightarrow> UpstreamSource \<Rightarrow> bool" where
  "src_fetches env src \<longleftrightarrow> (if up_layoutDataFresh env then up_adoptSources env src else None) = None"

definition build_src :: "string \<Rightarrow> string \<Rightarrow> string \<Rightarrow> UpstreamSource \<Rightarrow> RawSrc \<Rightarrow> SrcPkg" where
  "build_src osName codename component src raw =
     (let localDir = SourceDir osName codename (us_Name src) component (rs_Package raw)
      in \<lparr>sp_Package = rs_Package raw, sp_Version = rs_Version raw, sp_Component = component,
          sp_UpstreamDir = rs_Directory raw, sp_LocalDir = localDir, sp_Files = rs_Files raw,
          sp_Upstream = src, sp_StanzaStr = WithDirectory raw localDir\<rparr>)"

definition merge_src :: "Available \<Rightarrow> SrcPkg \<Rightarrow> Available" where
  "merge_src av sp =
     (let c = sp_Component sp;
          m = (case av_Srcs av c of None \<Rightarrow> Map.empty | Some m \<Rightarrow> m);
          av = av\<lparr>av_AllSrcs := av_AllSrcs av @ [sp]\<rparr>
      in case m (sp_Package sp) of
           Some existing \<Rightarrow>
             if Compare (sp_Version sp) (sp_Version existing) \<le> 0 then av
             else av\<lparr>av_Srcs := (av_Srcs av)(c \<mapsto> m(sp_Package sp \<mapsto> sp))\<rparr>
         | None \<Rightarrow> av\<lparr>av_Srcs := (av_Srcs av)(c \<mapsto> m(sp_Package sp \<mapsto> sp))\<rparr>)"

definition source_jobs :: "Layout list \<Rightarrow> (string \<times> UpstreamSource) list" where
  "source_jobs ls = filter (\<lambda>(_, src). us_FetchSources src) (jobs_of ls)"

definition merge_src_job :: "string \<Rightarrow> string \<Rightarrow> upstreams \<Rightarrow> Available \<Rightarrow> string \<times> UpstreamSource \<Rightarrow> Available" where
  "merge_src_job osName codename env av job =
     (case job of (component, src) \<Rightarrow>
        case job_sources env src of
          Some (Some raws) \<Rightarrow>
            let av = (if av_Srcs av component = None then av\<lparr>av_Srcs := (av_Srcs av)(component \<mapsto> Map.empty)\<rparr> else av)
            in foldl merge_src av
                 (map (build_src osName codename component src) (filter (\<lambda>r. rs_Package r \<noteq> [] \<and> rs_Version r \<noteq> []) raws))
        | _ \<Rightarrow> av)"

text \<open>The keys evicted from the shared cache: one per distinct upstream mirror.\<close>

definition evicted_sources :: "(string \<times> UpstreamSource) list \<Rightarrow> UpstreamSource list" where
  "evicted_sources jobs =
     fst (foldl (\<lambda>(out, seen) (_, src). if DedupKey src \<in> set seen then (out, seen)
                   else (out @ [src], DedupKey src # seen)) ([], []) jobs)"

text \<open>The two atomic flags: some fetch failed outright, some real fetch succeeded.\<close>

definition realFetchFailed :: "upstreams \<Rightarrow> Layout list \<Rightarrow> bool" where
  "realFetchFailed env ls \<longleftrightarrow>
     list_ex (\<lambda>(_, src). job_index env src = None) (jobs_of ls) \<or>
     list_ex (\<lambda>(_, src). job_sources env src = None) (source_jobs ls)"

definition didRealFetch :: "upstreams \<Rightarrow> Layout list \<Rightarrow> bool" where
  "didRealFetch env ls \<longleftrightarrow>
     list_ex (\<lambda>(_, src). job_fetches env src \<and> up_fetch env src \<noteq> None) (jobs_of ls) \<or>
     list_ex (\<lambda>(_, src). src_fetches env src \<and> up_fetchSources env src \<noteq> None) (source_jobs ls)"

definition Build :: "schedule \<Rightarrow> upstreams \<Rightarrow> Layout list \<Rightarrow> string \<Rightarrow> string \<Rightarrow>
    Available \<times> UpstreamSource list \<times> bool" where
  "Build sch env layouts osName codename =
     (let ls = layouts_of layouts osName codename;
          jobs = jobs_of ls;
          entries = sort_key entry_key (sch_arrive sch (all_entries osName codename env jobs));
          av = merge_entries sch (init_available osName codename ls) entries;
          archs = filter (\<lambda>a. a \<noteq> ''all'') (concat (map ly_Archs ls));
          av = av\<lparr>av_Arches := sch_arches sch (remdups archs)\<rparr>;
          av = foldl (merge_src_job osName codename env) av (source_jobs ls);
          av = av\<lparr>av_HasFetchFailure := realFetchFailed env ls\<rparr>
      in (av, if up_cache env then evicted_sources jobs else [],
          up_cache env \<and> didRealFetch env ls \<and> \<not> realFetchFailed env ls))"

text \<open>The fingerprint that decides whether a rebuild is needed at all.  \<open>releaseOnly\<close> is the cached Release of an
  upstream and the hash is a parameter.  \<open>sort.Slice\<close> on the keys is a stable sort here; the keys, upstream name and
  component, are distinct in a configuration that lists an upstream once per component.\<close>

definition release_digest :: "(string \<Rightarrow> string) \<Rightarrow> (string \<times> FileEntry) list \<Rightarrow> string" where
  "release_digest sha256hex files =
     sha256hex (concat (map (\<lambda>(p, fe). p @ [NUL] @ fe_SHA256 fe @ [NUL]) (sort_key fst files)))"

definition fingerprint_entries :: "(string \<Rightarrow> string) \<Rightarrow> (UpstreamSource \<Rightarrow> (string \<times> FileEntry) list option) \<Rightarrow>
    (string \<times> UpstreamSource) list \<Rightarrow> (string \<times> string) list option" where
  "fingerprint_entries sha256hex releaseOnly jobs =
     those (map (\<lambda>(component, src). map_option (\<lambda>files. (us_Name src @ [NUL] @ component, release_digest sha256hex files))
       (releaseOnly src)) jobs)"

definition QuickFingerprint :: "(string \<Rightarrow> string) \<Rightarrow> (UpstreamSource \<Rightarrow> (string \<times> FileEntry) list option) \<Rightarrow>
    Layout list \<Rightarrow> string \<Rightarrow> string \<Rightarrow> string option" where
  "QuickFingerprint sha256hex releaseOnly layouts osName codename =
     map_option (\<lambda>entries. sha256hex (concat (map (\<lambda>(key, digest). key @ [NUL] @ digest @ [NUL]) (sort_key fst entries))))
       (fingerprint_entries sha256hex releaseOnly (jobs_of (layouts_of layouts osName codename)))"

text \<open>Resolving one pool path against the single upstream it names.\<close>

definition resolveFromUpstream :: "upstreams \<Rightarrow> string \<Rightarrow> string \<Rightarrow> string \<Rightarrow> UpstreamSource \<Rightarrow> string \<Rightarrow> Pkg option" where
  "resolveFromUpstream env osName codename component src poolPath =
     (case (case up_adopt env src of Some idx \<Rightarrow> Some idx | None \<Rightarrow> up_fetch env src) of
        None \<Rightarrow> None
      | Some idx \<Rightarrow>
          List.find (\<lambda>p. pk_PoolPath p = poolPath)
            (concat (map (\<lambda>(arch, stanzas). List.map_filter (buildPkg osName codename component arch src) stanzas)
               (ix_ByArch idx))))"

definition ResolvePoolPath :: "upstreams \<Rightarrow> Layout list \<Rightarrow> string \<Rightarrow> string \<Rightarrow> string \<Rightarrow> Pkg option" where
  "ResolvePoolPath env layouts osName codename poolPath =
     (case upstreamNameFromPoolPath poolPath of
        None \<Rightarrow> None
      | Some upstreamName \<Rightarrow>
          (case List.map_filter (\<lambda>(component, src).
                   if us_Name src \<noteq> upstreamName then None
                   else resolveFromUpstream env osName codename component src poolPath)
                 (jobs_of (layouts_of layouts osName codename)) of
             [] \<Rightarrow> None
           | p # _ \<Rightarrow> Some p))"

text \<open>The dependency closure.  \<open>comps\<close> gives, for every name, the order in which \<open>range\<close> visits the components when
  that name is looked up.\<close>

definition arch_lookup :: "Available \<Rightarrow> string \<Rightarrow> string \<Rightarrow> string \<Rightarrow> Pkg option" where
  "arch_lookup av arch name c =
     (case map_of (component_arches av c) arch of None \<Rightarrow> None | Some m \<Rightarrow> m name)"

definition dep_lookup :: "Available \<Rightarrow> (string \<Rightarrow> string list) \<Rightarrow> string \<Rightarrow> string \<Rightarrow> string \<Rightarrow> Pkg option" where
  "dep_lookup av comps component arch name =
     (case arch_lookup av arch name component of
        Some p \<Rightarrow> Some p
      | None \<Rightarrow> (case List.map_filter (arch_lookup av arch name) (comps name) of [] \<Rightarrow> None | p # _ \<Rightarrow> Some p))"

definition next_deps :: "(string \<Rightarrow> Pkg option) \<Rightarrow> Pkg \<Rightarrow> string list" where
  "next_deps lookup p =
     List.map_filter (List.find (\<lambda>alt. lookup alt \<noteq> None))
       (ParseDependencyGroups (pk_PreDepends p) @ ParseDependencyGroups (pk_Depends p))"

partial_function (option) DepClosure_loop ::
  "(string \<Rightarrow> Pkg option) \<Rightarrow> string list \<Rightarrow> (string \<rightharpoonup> Pkg) \<Rightarrow> (string \<rightharpoonup> Pkg) option" where
  "DepClosure_loop lookup queue resolved =
     (case queue of
        [] \<Rightarrow> Some resolved
      | name # rest \<Rightarrow>
          if resolved name \<noteq> None then DepClosure_loop lookup rest resolved
          else (case lookup name of
                  None \<Rightarrow> DepClosure_loop lookup rest resolved
                | Some p \<Rightarrow> DepClosure_loop lookup (rest @ next_deps lookup p) (resolved(name \<mapsto> p))))"

definition DepClosure :: "Available \<Rightarrow> (string \<Rightarrow> string list) \<Rightarrow> string \<Rightarrow> string \<Rightarrow> string list \<Rightarrow> (string \<rightharpoonup> Pkg) option" where
  "DepClosure av comps component arch seeds =
     DepClosure_loop (dep_lookup av comps component arch) seeds Map.empty"


section \<open>The dependency closure\<close>

inductive dep_reach :: "(string \<Rightarrow> Pkg option) \<Rightarrow> string list \<Rightarrow> string \<Rightarrow> bool" for lookup seeds where
  seed: "n \<in> set seeds \<Longrightarrow> lookup n \<noteq> None \<Longrightarrow> dep_reach lookup seeds n"
| dep: "dep_reach lookup seeds n \<Longrightarrow> lookup n = Some p \<Longrightarrow> m \<in> set (next_deps lookup p) \<Longrightarrow> dep_reach lookup seeds m"

lemma next_deps_resolvable: "m \<in> set (next_deps lookup p) \<Longrightarrow> lookup m \<noteq> None"
proof -
  assume "m \<in> set (next_deps lookup p)"
  then obtain g where "List.find (\<lambda>alt. lookup alt \<noteq> None) g = Some m"
    by (auto simp: next_deps_def List.map_filter_def)
  then show "lookup m \<noteq> None" by (auto simp: find_Some_iff)
qed

lemma dep_reach_resolvable: "dep_reach lookup seeds n \<Longrightarrow> lookup n \<noteq> None"
  by (induction rule: dep_reach.induct) (auto dest: next_deps_resolvable)

definition closure_inv :: "(string \<Rightarrow> Pkg option) \<Rightarrow> string list \<Rightarrow> string list \<Rightarrow> (string \<rightharpoonup> Pkg) \<Rightarrow> bool" where
  "closure_inv lookup seeds queue resolved \<longleftrightarrow>
     (\<forall>n p. resolved n = Some p \<longrightarrow> lookup n = Some p \<and> dep_reach lookup seeds n) \<and>
     (\<forall>n\<in>set queue. lookup n \<noteq> None \<longrightarrow> dep_reach lookup seeds n) \<and>
     (\<forall>n\<in>set seeds. lookup n \<noteq> None \<longrightarrow> n \<in> dom resolved \<or> n \<in> set queue) \<and>
     (\<forall>n p. resolved n = Some p \<longrightarrow> set (next_deps lookup p) \<subseteq> dom resolved \<union> set queue)"

lemma closure_inv_done:
  assumes "closure_inv lookup seeds [] resolved"
  shows "resolved = (\<lambda>n. if dep_reach lookup seeds n then lookup n else None)"
proof
  fix n
  have "n \<in> dom resolved" if "dep_reach lookup seeds n"
    using that
  proof (induction rule: dep_reach.induct)
    case (seed n)
    then show ?case using assms by (auto simp: closure_inv_def)
  next
    case (dep n p m)
    then obtain q where "resolved n = Some q" "q = p" using assms by (auto simp: closure_inv_def)
    then have "set (next_deps lookup p) \<subseteq> dom resolved" using assms unfolding closure_inv_def by fastforce
    with dep show ?case by blast
  qed
  then show "resolved n = (if dep_reach lookup seeds n then lookup n else None)"
    using assms by (cases "resolved n") (auto simp: closure_inv_def)
qed

lemma closure_invD:
  assumes "closure_inv lookup seeds queue resolved"
  shows "resolved n = Some p \<Longrightarrow> lookup n = Some p \<and> dep_reach lookup seeds n"
    "n \<in> set queue \<Longrightarrow> lookup n \<noteq> None \<Longrightarrow> dep_reach lookup seeds n"
    "n \<in> set seeds \<Longrightarrow> lookup n \<noteq> None \<Longrightarrow> resolved n \<noteq> None \<or> n \<in> set queue"
    "resolved n = Some p \<Longrightarrow> m \<in> set (next_deps lookup p) \<Longrightarrow> resolved m \<noteq> None \<or> m \<in> set queue"
  using assms unfolding closure_inv_def by blast+

lemma closure_invI:
  assumes "\<And>n p. resolved n = Some p \<Longrightarrow> lookup n = Some p \<and> dep_reach lookup seeds n"
    "\<And>n. n \<in> set queue \<Longrightarrow> lookup n \<noteq> None \<Longrightarrow> dep_reach lookup seeds n"
    "\<And>n. n \<in> set seeds \<Longrightarrow> lookup n \<noteq> None \<Longrightarrow> resolved n \<noteq> None \<or> n \<in> set queue"
    "\<And>n p m. resolved n = Some p \<Longrightarrow> m \<in> set (next_deps lookup p) \<Longrightarrow> resolved m \<noteq> None \<or> m \<in> set queue"
  shows "closure_inv lookup seeds queue resolved"
  using assms unfolding closure_inv_def by blast

lemma closure_inv_skip:
  assumes "closure_inv lookup seeds (n # rest) resolved" "resolved n \<noteq> None \<or> lookup n = None"
  shows "closure_inv lookup seeds rest resolved"
proof (rule closure_invI)
  show "resolved m \<noteq> None \<or> m \<in> set rest" if "resolved k = Some p" "m \<in> set (next_deps lookup p)" for k p m
    using closure_invD(4)[OF assms(1) that] assms(2) next_deps_resolvable[OF that(2)] by (cases "m = n") auto
  show "resolved m \<noteq> None \<or> m \<in> set rest" if "m \<in> set seeds" "lookup m \<noteq> None" for m
    using closure_invD(3)[OF assms(1) that] assms(2) that(2) by (cases "m = n") auto
qed (use closure_invD(1,2)[OF assms(1)] in auto)

lemma closure_inv_add:
  assumes "closure_inv lookup seeds (n # rest) resolved" "lookup n = Some p"
  shows "closure_inv lookup seeds (rest @ next_deps lookup p) (resolved(n \<mapsto> p))"
proof -
  have n: "dep_reach lookup seeds n" using closure_invD(2)[OF assms(1), of n] assms(2) by simp
  show ?thesis
  proof (rule closure_invI)
    show "lookup m = Some q \<and> dep_reach lookup seeds m" if "(resolved(n \<mapsto> p)) m = Some q" for m q
      using that closure_invD(1)[OF assms(1), of m q] assms(2) n by (auto split: if_splits)
    show "dep_reach lookup seeds m" if "m \<in> set (rest @ next_deps lookup p)" "lookup m \<noteq> None" for m
      using that closure_invD(2)[OF assms(1), of m] dep_reach.dep[OF n assms(2), of m] by auto
    show "(resolved(n \<mapsto> p)) m \<noteq> None \<or> m \<in> set (rest @ next_deps lookup p)" if "m \<in> set seeds" "lookup m \<noteq> None" for m
      using closure_invD(3)[OF assms(1) that] by auto
    show "(resolved(n \<mapsto> p)) m \<noteq> None \<or> m \<in> set (rest @ next_deps lookup p)"
      if "(resolved(n \<mapsto> p)) k = Some q" "m \<in> set (next_deps lookup q)" for k q m
      using that closure_invD(4)[OF assms(1), of k q m] by (cases "k = n") auto
  qed
qed

lemma DepClosure_loop_returns:
  assumes "finite {n. lookup n \<noteq> None}" "closure_inv lookup seeds queue resolved"
  shows "DepClosure_loop lookup queue resolved = Some (\<lambda>n. if dep_reach lookup seeds n then lookup n else None)"
  using assms(2)
proof (induction "(card {n. lookup n \<noteq> None \<and> resolved n = None}, length queue)" arbitrary: queue resolved
    rule: wf_induct_rule[OF wf_lex_prod[OF wf_less_than wf_less_than]])
  case (1 queue resolved)
  show ?case
  proof (cases queue)
    case Nil
    then show ?thesis using closure_inv_done[of lookup seeds resolved] 1(2) by (simp add: DepClosure_loop.simps)
  next
    case (Cons n rest)
    show ?thesis
    proof (cases "resolved n \<noteq> None \<or> lookup n = None")
      case True
      have "DepClosure_loop lookup queue resolved = DepClosure_loop lookup rest resolved"
        using True Cons by (subst DepClosure_loop.simps) auto
      also have "\<dots> = Some (\<lambda>n. if dep_reach lookup seeds n then lookup n else None)"
        by (rule 1(1)) (use Cons closure_inv_skip[of lookup seeds n rest resolved] True 1(2) in auto)
      finally show ?thesis .
    next
      case False
      then obtain p where p: "lookup n = Some p" "resolved n = None" by auto
      let ?U = "\<lambda>resolved. {m. lookup m \<noteq> None \<and> resolved m = None}"
      have "?U (resolved(n \<mapsto> p)) \<subset> ?U resolved" using p by auto
      moreover have "finite (?U resolved)" using assms(1) by (rule rev_finite_subset) auto
      ultimately have "card (?U (resolved(n \<mapsto> p))) < card (?U resolved)" by (rule psubset_card_mono[rotated])
      have "DepClosure_loop lookup queue resolved = DepClosure_loop lookup (rest @ next_deps lookup p) (resolved(n \<mapsto> p))"
        using p Cons by (subst DepClosure_loop.simps) auto
      also have "\<dots> = Some (\<lambda>n. if dep_reach lookup seeds n then lookup n else None)"
        by (rule 1(1)) (use \<open>card _ < _\<close> closure_inv_add[of lookup seeds n rest resolved p] p 1(2) Cons in auto)
      finally show ?thesis .
    qed
  qed
qed

text \<open>C17: on a view with finitely many packages the closure loop ends, and it returns exactly the packages
  reachable from the seeds through the first available alternative of every dependency group, each with the
  package the lookup selects for it.\<close>

theorem DepClosure_correct:
  assumes "finite {n. dep_lookup av comps component arch n \<noteq> None}"
  shows "DepClosure av comps component arch seeds =
    Some (\<lambda>n. if dep_reach (dep_lookup av comps component arch) seeds n then dep_lookup av comps component arch n else None)"
  unfolding DepClosure_def
  by (rule DepClosure_loop_returns[OF assms], rule closure_invI) (auto intro: dep_reach.seed)


section \<open>The merge\<close>

abbreviation newest_pkgs :: "Pkg list \<Rightarrow> (string \<rightharpoonup> Pkg)" where
  "newest_pkgs \<equiv> newest_by Compare pk_Name pk_Version"

definition entry_ok :: "archEntry \<Rightarrow> bool" where
  "entry_ok e \<longleftrightarrow> distinct (map fst (ae_pkgs e)) \<and> (\<forall>(n, p)\<in>set (ae_pkgs e). n = pk_Name p)"

definition schedule_ok :: "schedule \<Rightarrow> bool" where
  "schedule_ok sch \<longleftrightarrow> (\<forall>es. mset (sch_arrive sch es) = mset es) \<and> (\<forall>xs. mset (sch_range sch xs) = mset xs) \<and>
     (\<forall>xs. mset (sch_arches sch xs) = mset xs)"

lemma put_newest_map: "map_of (put_newest dest p) = keep_newest Compare pk_Name pk_Version (map_of dest) p"
  by (auto simp: put_newest_def keep_newest_def update_conv split: option.splits)

lemma put_newest_ok:
  "distinct (map fst dest) \<and> (\<forall>(n, p)\<in>set dest. n = pk_Name p) \<Longrightarrow>
   distinct (map fst (put_newest dest p)) \<and> (\<forall>(n, q)\<in>set (put_newest dest p). n = pk_Name q)"
proof -
  assume ok: "distinct (map fst dest) \<and> (\<forall>(n, p)\<in>set dest. n = pk_Name p)"
  have d: "distinct (map fst (AList.update (pk_Name p) p dest))" using ok by (simp add: distinct_update)
  have "n = pk_Name q" if "(n, q) \<in> set (AList.update (pk_Name p) p dest)" for n q
  proof -
    have "map_of (AList.update (pk_Name p) p dest) n = Some q" using that d by (simp add: map_of_is_SomeI)
    then have "n = pk_Name p \<and> q = p \<or> map_of dest n = Some q" by (auto simp: update_conv split: if_splits)
    then show ?thesis using ok by (auto dest: map_of_SomeD)
  qed
  with ok d show ?thesis by (auto simp: put_newest_def split: option.splits)
qed

definition built :: "string \<Rightarrow> string \<Rightarrow> string \<Rightarrow> string \<Rightarrow> UpstreamSource \<Rightarrow> RawPkg list \<Rightarrow> Pkg list" where
  "built osName codename component arch src stanzas =
     List.map_filter (buildPkg osName codename component arch src) stanzas"

lemma arch_pkgs_built:
  "arch_pkgs os cn c a src stanzas = foldl put_newest [] (built os cn c a src stanzas)"
proof -
  have "foldl (\<lambda>dest st. case buildPkg os cn c a src st of None \<Rightarrow> dest | Some p \<Rightarrow> put_newest dest p) d stanzas =
      foldl put_newest d (built os cn c a src stanzas)" for d
    by (induction stanzas arbitrary: d) (auto simp: built_def List.map_filter_simps split: option.splits)
  then show ?thesis by (simp add: arch_pkgs_def)
qed

lemma fold_put_newest:
  "map_of (foldl put_newest [] ps) = newest_pkgs ps \<and>
   distinct (map fst (foldl put_newest [] ps)) \<and> (\<forall>(n, q)\<in>set (foldl put_newest [] ps). n = pk_Name q)"
proof (induction ps rule: rev_induct)
  case Nil
  then show ?case by simp
next
  case (snoc p ps)
  then show ?case
    using put_newest_ok[of "foldl put_newest [] ps" p] by (simp add: put_newest_map newest_by_def)
qed

lemma newest_pkgs_alist:
  assumes "distinct (map fst xs)" "\<forall>(n, p)\<in>set xs. n = pk_Name p"
  shows "newest_pkgs (map snd xs) = map_of xs"
  using assms
proof (induction xs rule: rev_induct)
  case (snoc x xs)
  obtain n p where x: "x = (n, p)" "n = pk_Name p" using snoc.prems(2) by (cases x) auto
  have IH: "newest_pkgs (map snd xs) = map_of xs" using snoc by auto
  have "n \<notin> fst ` set xs" using snoc.prems(1) x by auto
  then have none: "map_of xs n = None" by (simp add: map_of_eq_None_iff)
  show ?case
  proof
    fix k
    show "newest_pkgs (map snd (xs @ [x])) k = map_of (xs @ [x]) k"
      using IH none x newest_by_snoc[of Compare pk_Name pk_Version "map snd xs" p k]
      by (auto simp: Let_def map_add_def split: option.splits)
  qed
qed simp

text \<open>Merging one entry into a destination that holds the newest packages so far.\<close>

lemma fold_merge_pkg:
  "distinct (map fst xs) \<Longrightarrow> foldl merge_pkg dest xs n =
    (case map_of xs n of None \<Rightarrow> dest n
     | Some p \<Rightarrow> (case dest n of None \<Rightarrow> Some p
         | Some e \<Rightarrow> Some (if Compare (pk_Version p) (pk_Version e) > 0 then p else e)))"
proof (induction xs rule: rev_induct)
  case (snoc x xs)
  obtain m p where x: "x = (m, p)" by (cases x)
  have none: "map_of xs m = None" using snoc.prems x by (auto simp: map_of_eq_None_iff)
  show ?case
    using snoc none by (cases "n = m") (auto simp: x merge_pkg_def map_add_def split: option.splits)
qed simp

lemma range_ok:
  assumes "schedule_ok sch" "entry_ok e"
  shows "distinct (map fst (sch_range sch (ae_pkgs e)))" "map_of (sch_range sch (ae_pkgs e)) = map_of (ae_pkgs e)"
    "set (sch_range sch (ae_pkgs e)) = set (ae_pkgs e)"
proof -
  have m: "mset (sch_range sch (ae_pkgs e)) = mset (ae_pkgs e)" using assms(1) by (simp add: schedule_ok_def)
  show s: "set (sch_range sch (ae_pkgs e)) = set (ae_pkgs e)" using mset_eq_setD[OF m] .
  have "mset (map fst (sch_range sch (ae_pkgs e))) = mset (map fst (ae_pkgs e))" using m by simp
  then have "distinct (map fst (sch_range sch (ae_pkgs e))) \<longleftrightarrow> distinct (map fst (ae_pkgs e))"
    by (rule mset_eq_imp_distinct_iff)
  then show d: "distinct (map fst (sch_range sch (ae_pkgs e)))" using assms(2) by (simp add: entry_ok_def)
  show "map_of (sch_range sch (ae_pkgs e)) = map_of (ae_pkgs e)"
    using d s assms(2) by (subst map_of_inject_set) (auto simp: entry_ok_def)
qed

lemma merge_into_newest:
  assumes "schedule_ok sch" "entry_ok e"
  shows "foldl merge_pkg (newest_pkgs xs) (sch_range sch (ae_pkgs e)) = newest_pkgs (xs @ map snd (ae_pkgs e))"
proof
  fix n
  have "newest_pkgs (map snd (ae_pkgs e)) = map_of (ae_pkgs e)"
    using newest_pkgs_alist assms(2) by (auto simp: entry_ok_def)
  then show "foldl merge_pkg (newest_pkgs xs) (sch_range sch (ae_pkgs e)) n = newest_pkgs (xs @ map snd (ae_pkgs e)) n"
    using deb.newest_by_append[where key = pk_Name and ver = pk_Version and xs = xs and ys = "map snd (ae_pkgs e)" and k = n]
    by (simp add: fold_merge_pkg range_ok[OF assms])
qed

definition pkgs_for :: "string \<Rightarrow> string \<Rightarrow> archEntry list \<Rightarrow> Pkg list" where
  "pkgs_for c a es = concat (map (\<lambda>e. map snd (ae_pkgs e)) (filter (\<lambda>e. ae_component e = c \<and> ae_arch e = a) es))"

definition has_entry :: "string \<Rightarrow> string \<Rightarrow> archEntry list \<Rightarrow> bool" where
  "has_entry c a es \<longleftrightarrow> (\<exists>e\<in>set es. ae_component e = c \<and> ae_arch e = a)"

lemma pkgs_for_snoc:
  "pkgs_for c a (es @ [e]) = pkgs_for c a es @ (if ae_component e = c \<and> ae_arch e = a then map snd (ae_pkgs e) else [])"
  by (simp add: pkgs_for_def)

lemma component_arches_upd: "av_Pkgs av' = (av_Pkgs av)(c \<mapsto> m) \<Longrightarrow> component_arches av' d = (if d = c then m else component_arches av d)"
  by (simp add: component_arches_def)

lemma merge_binary_archs:
  assumes "schedule_ok sch" "\<forall>e\<in>set es. entry_ok e" "av0 = foldl (merge_binary sch) av es"
    "\<And>c. component_arches av c = []"
  shows "map_of (component_arches av0 c) a =
    (if a \<noteq> ''all'' \<and> has_entry c a es then Some (newest_pkgs (pkgs_for c a es)) else None)"
  using assms(2,3)
proof (induction es arbitrary: av0 c a rule: rev_induct)
  case Nil
  then show ?case using assms(4) by (simp add: has_entry_def)
next
  case (snoc e es)
  define av1 where "av1 = foldl (merge_binary sch) av es"
  have av0: "av0 = merge_binary sch av1 e" using snoc.prems(2) by (simp add: av1_def)
  have ok: "entry_ok e" "\<forall>e\<in>set es. entry_ok e" using snoc.prems(1) by auto
  note IH = snoc.IH[OF ok(2) av1_def]
  show ?case
  proof (cases "ae_arch e = ''all''")
    case True
    then show ?thesis using IH av0 by (auto simp: merge_binary_def has_entry_def pkgs_for_snoc)
  next
    case False
    let ?archs = "component_arches av1 (ae_component e)"
    have dest: "(case map_of ?archs (ae_arch e) of None \<Rightarrow> Map.empty | Some d \<Rightarrow> d) = newest_pkgs (pkgs_for (ae_component e) (ae_arch e) es)"
    proof (cases "has_entry (ae_component e) (ae_arch e) es")
      case True
      then show ?thesis using IH False by simp
    next
      case noe: False
      then have "pkgs_for (ae_component e) (ae_arch e) es = []" by (auto simp: pkgs_for_def has_entry_def filter_empty_conv)
      with noe show ?thesis using IH by simp
    qed
    have "component_arches av0 c =
        (if c = ae_component e
         then AList.update (ae_arch e) (newest_pkgs (pkgs_for (ae_component e) (ae_arch e) es @ map snd (ae_pkgs e))) ?archs
         else component_arches av1 c)"
      unfolding av0 merge_binary_def using False dest merge_into_newest[OF assms(1) ok(1)]
      by (simp add: Let_def component_arches_def)
    then show ?thesis
      using IH[of c a] False by (auto simp: update_conv has_entry_def pkgs_for_snoc)
  qed
qed

lemma merge_all_archs:
  assumes "schedule_ok sch" "\<forall>e\<in>set es. entry_ok e" "av0 = foldl (merge_all sch) av es"
    "map_of (component_arches av c) a = map_option newest_pkgs xs"
  shows "map_of (component_arches av0 c) a = map_option (\<lambda>xs. newest_pkgs (xs @ pkgs_for c ''all'' es)) xs"
  using assms(2,3)
proof (induction es arbitrary: av0 rule: rev_induct)
  case Nil
  then show ?case using assms(4) by (simp add: pkgs_for_def)
next
  case (snoc e es)
  define av1 where "av1 = foldl (merge_all sch) av es"
  have av0: "av0 = merge_all sch av1 e" using snoc.prems(2) by (simp add: av1_def)
  have ok: "entry_ok e" "\<forall>e\<in>set es. entry_ok e" using snoc.prems(1) by auto
  note IH = snoc.IH[OF ok(2) av1_def]
  show ?case
  proof (cases "ae_arch e = ''all'' \<and> ae_component e = c")
    case False
    then have "component_arches av0 c = component_arches av1 c"
      unfolding av0 merge_all_def by (auto simp: Let_def component_arches_def)
    moreover have "pkgs_for c ''all'' (es @ [e]) = pkgs_for c ''all'' es" using False by (auto simp: pkgs_for_snoc)
    ultimately show ?thesis using IH by simp
  next
    case True
    let ?pkgs = "sch_range sch (ae_pkgs e)"
    have "component_arches av0 c = map (\<lambda>(a, dest). (a, foldl merge_pkg dest ?pkgs)) (component_arches av1 c)"
      unfolding av0 merge_all_def using True by (auto simp: Let_def component_arches_def)
    then have "map_of (component_arches av0 c) a = map_option (\<lambda>dest. foldl merge_pkg dest ?pkgs) (map_of (component_arches av1 c) a)"
      by (simp add: map_of_map)
    then show ?thesis
      using IH True by (cases xs) (simp_all add: merge_into_newest[OF assms(1) ok(1)] pkgs_for_snoc)
  qed
qed

lemma merge_entries_archs:
  assumes "schedule_ok sch" "\<forall>e\<in>set es. entry_ok e" "\<And>c. component_arches av c = []"
  shows "map_of (component_arches (merge_entries sch av es) c) a =
    (if a \<noteq> ''all'' \<and> has_entry c a es then Some (newest_pkgs (pkgs_for c a es @ pkgs_for c ''all'' es)) else None)"
proof -
  have "map_of (component_arches (foldl (merge_binary sch) av es) c) a =
      map_option newest_pkgs (if a \<noteq> ''all'' \<and> has_entry c a es then Some (pkgs_for c a es) else None)"
    using merge_binary_archs[OF assms(1,2) refl assms(3)] by simp
  from merge_all_archs[OF assms(1,2) refl this] show ?thesis by (simp add: merge_entries_def)
qed


subsection \<open>The entries of the jobs\<close>

definition indices_ok :: "upstreams \<Rightarrow> (string \<times> UpstreamSource) list \<Rightarrow> bool" where
  "indices_ok env jobs \<longleftrightarrow>
     list_all (\<lambda>(_, src). case job_index env src of None \<Rightarrow> True
       | Some idx \<Rightarrow> distinct (map fst (ix_ByArch idx)) \<and>
           list_all (\<lambda>(_, sts). list_all (\<lambda>st. CHR ''/'' \<notin> set (rp_Package st)) sts) (ix_ByArch idx)) jobs"

lemma job_entries_in:
  assumes "e \<in> set (job_entries os cn env i (c, src))"
  obtains idx sts where "job_index env src = Some idx" "(ae_arch e, sts) \<in> set (ix_ByArch idx)"
    "e = \<lparr>ae_order = i, ae_component = c, ae_arch = ae_arch e, ae_pkgs = arch_pkgs os cn c (ae_arch e) src sts, ae_stale = ix_HasStaleMismatch idx\<rparr>"
proof -
  obtain idx where idx: "job_index env src = Some idx"
    using assms by (cases "job_index env src") (auto simp: job_entries_def)
  with assms obtain a sts where "(a, sts) \<in> set (ix_ByArch idx)" "e = \<lparr>ae_order = i, ae_component = c, ae_arch = a,
      ae_pkgs = arch_pkgs os cn c a src sts, ae_stale = ix_HasStaleMismatch idx\<rparr>"
    by (auto simp: job_entries_def)
  with idx show thesis by (intro that) auto
qed

lemma all_entries_in:
  assumes "e \<in> set (all_entries os cn env jobs)"
  obtains i c src where "i < length jobs" "jobs ! i = (c, src)" "e \<in> set (job_entries os cn env i (c, src))"
proof -
  obtain i where i: "i < length jobs" "e \<in> set (job_entries os cn env i (jobs ! i))"
    using assms by (auto simp: all_entries_def set_zip)
  obtain c src where "jobs ! i = (c, src)" by (cases "jobs ! i")
  with i show thesis by (intro that) auto
qed

lemma entries_ok:
  assumes "e \<in> set (all_entries os cn env jobs)"
  shows "entry_ok e"
proof -
  obtain i c src where "e \<in> set (job_entries os cn env i (c, src))" using all_entries_in[OF assms] by blast
  then obtain sts where "ae_pkgs e = arch_pkgs os cn c (ae_arch e) src sts" by (elim job_entries_in) (metis archEntry.select_convs(4))
  then show ?thesis using fold_put_newest by (simp add: entry_ok_def arch_pkgs_built)
qed

lemma entry_key_inj:
  assumes "indices_ok env jobs"
  shows "inj_on entry_key (set (all_entries os cn env jobs))"
proof (rule inj_onI)
  fix e f
  assume e: "e \<in> set (all_entries os cn env jobs)" and f: "f \<in> set (all_entries os cn env jobs)" and k: "entry_key e = entry_key f"
  obtain i c src where i: "i < length jobs" "jobs ! i = (c, src)" "e \<in> set (job_entries os cn env i (c, src))"
    using all_entries_in[OF e] .
  obtain j d srd where j: "j < length jobs" "jobs ! j = (d, srd)" "f \<in> set (job_entries os cn env j (d, srd))"
    using all_entries_in[OF f] .
  have "ae_order e = i" "ae_order f = j" using i(3) j(3) by (auto elim!: job_entries_in) (metis archEntry.select_convs(1))+
  then have ij: "i = j" "c = d" "src = srd" "ae_arch e = ae_arch f" using k i j by (auto simp: entry_key_def)
  obtain idx sts where x: "job_index env src = Some idx" "(ae_arch e, sts) \<in> set (ix_ByArch idx)"
    "e = \<lparr>ae_order = i, ae_component = c, ae_arch = ae_arch e, ae_pkgs = arch_pkgs os cn c (ae_arch e) src sts, ae_stale = ix_HasStaleMismatch idx\<rparr>"
    using i(3) by (rule job_entries_in)
  obtain idy stt where y: "job_index env srd = Some idy" "(ae_arch f, stt) \<in> set (ix_ByArch idy)"
    "f = \<lparr>ae_order = j, ae_component = d, ae_arch = ae_arch f, ae_pkgs = arch_pkgs os cn d (ae_arch f) srd stt, ae_stale = ix_HasStaleMismatch idy\<rparr>"
    using j(3) by (rule job_entries_in)
  have "(c, src) \<in> set jobs" using i by (metis nth_mem)
  then have "distinct (map fst (ix_ByArch idx))" using assms x(1) by (auto simp: indices_ok_def list_all_iff)
  then have "sts = stt" using x(1,2) y(1,2) ij by (metis eq_key_imp_eq_value option.inject)
  then show "e = f" using x(1,3) y(1,3) ij by (metis option.inject)
qed

lemma entries_sorted_unique:
  assumes "schedule_ok sch" "indices_ok env jobs"
  shows "sort_key entry_key (sch_arrive sch (all_entries os cn env jobs)) = sort_key entry_key (all_entries os cn env jobs)"
proof (rule sort_key_inj_key_eq)
  let ?A = "all_entries os cn env jobs"
  have m: "mset (sch_arrive sch ?A) = mset ?A" using assms(1) by (simp add: schedule_ok_def)
  then show "mset (sch_arrive sch ?A) = mset (sort_key entry_key ?A)" by simp
  show "inj_on entry_key (set (sch_arrive sch ?A))"
    using entry_key_inj[OF assms(2)] mset_eq_setD[OF m] by simp
qed simp



subsection \<open>Independence of the schedule\<close>

definition pool_ok :: "archEntry \<Rightarrow> bool" where
  "pool_ok e \<longleftrightarrow> (\<forall>(n, p)\<in>set (ae_pkgs e). \<forall>(m, q)\<in>set (ae_pkgs e). pk_PoolPath p = pk_PoolPath q \<longrightarrow> n = m)"

lemma poolPath_name:
  assumes "poolPathFromFilename os cn up sec n fn = poolPathFromFilename os cn up sec' n' fn'" "CHR ''/'' \<notin> set n" "CHR ''/'' \<notin> set n'"
  shows "n = n'"
proof -
  have shape: "\<exists>A deb. poolPathFromFilename os cn up sec n fn = (A @ CHR ''/'' # n) @ CHR ''/'' # deb \<and> CHR ''/'' \<notin> set deb" for sec n fn
  proof -
    let ?deb = "case cut_last CHR ''/'' fn of None \<Rightarrow> fn | Some (_, f) \<Rightarrow> f"
    have "CHR ''/'' \<notin> set ?deb"
      by (auto simp: cut_last_None_iff split: option.splits dest: cut_last_SomeD(2))
    then show ?thesis
      by (intro exI[of _ "''pool/'' @ os @ ''/'' @ cn @ ''/'' @ up @ ''/'' @ PoolSection sec @ ''/'' @ first_letter n"] exI[of _ ?deb])
        (simp add: poolPathFromFilename_def)
  qed
  obtain A deb A' deb' where "poolPathFromFilename os cn up sec n fn = (A @ CHR ''/'' # n) @ CHR ''/'' # deb" "CHR ''/'' \<notin> set deb"
      "poolPathFromFilename os cn up sec' n' fn' = (A' @ CHR ''/'' # n') @ CHR ''/'' # deb'" "CHR ''/'' \<notin> set deb'"
    using shape by meson
  then have "A @ CHR ''/'' # n = A' @ CHR ''/'' # n'"
    using assms(1) cut_last_append[of "CHR ''/''" deb] cut_last_append[of "CHR ''/''" deb'] by (metis option.inject prod.inject)
  then show ?thesis
    using assms(2,3) cut_last_append[of "CHR ''/''" n] cut_last_append[of "CHR ''/''" n'] by (metis option.inject prod.inject)
qed

lemma built_pool:
  "p \<in> set (built os cn c a src sts) \<Longrightarrow> \<exists>st\<in>set sts. pk_Name p = rp_Package st \<and>
     pk_PoolPath p = poolPathFromFilename os cn (us_Name src) (rp_Section st) (rp_Package st) (rp_Filename st)"
  by (auto simp: built_def List.map_filter_def buildPkg_def Let_def split: if_splits)

lemma put_newest_sub: "snd ` set (foldl put_newest [] ps) \<subseteq> set ps"
proof -
  have "q \<in> set ps" if "(n, q) \<in> set (foldl put_newest [] ps)" for n q
  proof -
    note f = fold_put_newest[of ps]
    have "map_of (foldl put_newest [] ps) n = Some q" using that conjunct1[OF conjunct2[OF f]] by (rule map_of_is_SomeI[rotated])
    then show ?thesis unfolding conjunct1[OF f] by (rule deb.newest_by_SomeD(1))
  qed
  then show ?thesis by auto
qed

lemma entries_pool_ok:
  assumes "indices_ok env jobs" "e \<in> set (all_entries os cn env jobs)"
  shows "pool_ok e"
proof -
  obtain i c src where i: "i < length jobs" "jobs ! i = (c, src)" "e \<in> set (job_entries os cn env i (c, src))"
    using all_entries_in[OF assms(2)] .
  obtain idx sts where x: "job_index env src = Some idx" "(ae_arch e, sts) \<in> set (ix_ByArch idx)"
    "e = \<lparr>ae_order = i, ae_component = c, ae_arch = ae_arch e, ae_pkgs = arch_pkgs os cn c (ae_arch e) src sts, ae_stale = ix_HasStaleMismatch idx\<rparr>"
    using i(3) by (rule job_entries_in)
  have "(c, src) \<in> set jobs" using i by (metis nth_mem)
  then have slash: "CHR ''/'' \<notin> set (rp_Package st)" if "st \<in> set sts" for st
    using assms(1) x(1,2) that by (fastforce simp: indices_ok_def list_all_iff)
  have pkgs: "ae_pkgs e = foldl put_newest [] (built os cn c (ae_arch e) src sts)"
    using x(3) by (metis archEntry.select_convs(4) arch_pkgs_built)
  have named: "n = pk_Name p \<and> (\<exists>st\<in>set sts. pk_Name p = rp_Package st \<and>
       pk_PoolPath p = poolPathFromFilename os cn (us_Name src) (rp_Section st) (rp_Package st) (rp_Filename st))"
    if "(n, p) \<in> set (ae_pkgs e)" for n p
  proof -
    let ?b = "built os cn c (ae_arch e) src sts"
    have in_b: "(n, p) \<in> set (foldl put_newest [] ?b)" using that unfolding pkgs .
    then have "n = pk_Name p" using conjunct2[OF conjunct2[OF fold_put_newest[of ?b]]] by blast
    moreover have "p \<in> set ?b" using put_newest_sub[of ?b] in_b by force
    ultimately show ?thesis using built_pool by blast
  qed
  show ?thesis
    unfolding pool_ok_def
  proof (clarify)
    fix n p m q
    assume np: "(n, p) \<in> set (ae_pkgs e)" and mq: "(m, q) \<in> set (ae_pkgs e)" and eq: "pk_PoolPath p = pk_PoolPath q"
    from named[OF np] obtain st where st: "n = rp_Package st" "st \<in> set sts"
      "pk_PoolPath p = poolPathFromFilename os cn (us_Name src) (rp_Section st) (rp_Package st) (rp_Filename st)" by auto
    from named[OF mq] obtain su where su: "m = rp_Package su" "su \<in> set sts"
      "pk_PoolPath q = poolPathFromFilename os cn (us_Name src) (rp_Section su) (rp_Package su) (rp_Filename su)" by auto
    show "n = m" unfolding st(1) su(1)
      by (rule poolPath_name[OF trans[OF st(3)[symmetric] trans[OF eq su(3)]] slash[OF st(2)] slash[OF su(2)]])
  qed
qed

lemma fold_add_pool_path:
  "foldl add_pool_path m xs q = (case map_of (rev (map (\<lambda>(n, p). (pk_PoolPath p, p)) xs)) q of None \<Rightarrow> m q | Some p \<Rightarrow> Some p)"
  by (induction xs arbitrary: m) (auto simp: add_pool_path_def map_add_def split: option.splits)

lemma fold_pool_distinct:
  assumes "entry_ok e" "pool_ok e" "set xs = set (ae_pkgs e)" "(n, p) \<in> set xs"
  shows "foldl add_pool_path m xs (pk_PoolPath p) = Some p"
proof -
  let ?ys = "rev (map (\<lambda>(n, p). (pk_PoolPath p, p)) xs)"
  have "(pk_PoolPath p, p) \<in> set ?ys" using assms(4) by auto
  then obtain r where r: "map_of ?ys (pk_PoolPath p) = Some r" by (meson weak_map_of_SomeI)
  from map_of_SomeD[OF this] obtain k where k: "(k, r) \<in> set xs" "pk_PoolPath r = pk_PoolPath p" by auto
  have in_e: "(k, r) \<in> set (ae_pkgs e)" "(n, p) \<in> set (ae_pkgs e)" using k(1) assms(3,4) by auto
  then have "k = n" using assms(2) k(2) unfolding pool_ok_def by blast
  moreover have "distinct (map fst (ae_pkgs e))" using assms(1) by (simp add: entry_ok_def)
  ultimately have "r = p" using in_e by (auto dest: eq_key_imp_eq_value)
  then show ?thesis using r by (simp add: fold_add_pool_path)
qed

lemma fold_pool_other: "(\<And>n p. (n, p) \<in> set xs \<Longrightarrow> pk_PoolPath p \<noteq> q) \<Longrightarrow> foldl add_pool_path m xs q = m q"
proof (induction xs arbitrary: m)
  case (Cons x xs)
  have "foldl add_pool_path (add_pool_path m x) xs q = add_pool_path m x q" using Cons by (meson list.set_intros(2))
  moreover have "pk_PoolPath (snd x) \<noteq> q" using Cons.prems[of "fst x" "snd x"] by simp
  ultimately show ?case using add_pool_path_def[of m x] by simp
qed simp

lemma fold_pool_perm:
  assumes "schedule_ok sch1" "schedule_ok sch2" "entry_ok e" "pool_ok e"
  shows "foldl add_pool_path m (sch_range sch1 (ae_pkgs e)) = foldl add_pool_path m (sch_range sch2 (ae_pkgs e))"
proof
  fix q
  let ?xs = "sch_range sch1 (ae_pkgs e)" and ?ys = "sch_range sch2 (ae_pkgs e)"
  have s: "set ?xs = set (ae_pkgs e)" "set ?ys = set (ae_pkgs e)" using range_ok(3) assms by blast+
  show "foldl add_pool_path m ?xs q = foldl add_pool_path m ?ys q"
  proof (cases "\<exists>n p. (n, p) \<in> set (ae_pkgs e) \<and> pk_PoolPath p = q")
    case True
    then obtain n p where "(n, p) \<in> set (ae_pkgs e)" "pk_PoolPath p = q" by blast
    then show ?thesis using fold_pool_distinct[OF assms(3,4) s(1)] fold_pool_distinct[OF assms(3,4) s(2)] s by metis
  next
    case False
    then show ?thesis using fold_pool_other[of ?xs q m] fold_pool_other[of ?ys q m] s by simp
  qed
qed

lemma fold_merge_perm:
  assumes "schedule_ok sch1" "schedule_ok sch2" "entry_ok e"
  shows "foldl merge_pkg dest (sch_range sch1 (ae_pkgs e)) = foldl merge_pkg dest (sch_range sch2 (ae_pkgs e))"
  by (rule ext) (simp add: fold_merge_pkg range_ok[OF assms(1,3)] range_ok[OF assms(2,3)])

lemma merge_entries_perm:
  assumes "schedule_ok sch1" "schedule_ok sch2" "\<forall>e\<in>set es. entry_ok e \<and> pool_ok e"
  shows "merge_entries sch1 av es = merge_entries sch2 av es"
proof -
  have b: "merge_binary sch1 av e = merge_binary sch2 av e" if "e \<in> set es" for av e
    using that assms fold_pool_perm[OF assms(1,2)] fold_merge_perm[OF assms(1,2)] by (simp add: merge_binary_def Let_def)
  have a: "merge_all sch1 av e = merge_all sch2 av e" if "e \<in> set es" for av e
    using that assms fold_pool_perm[OF assms(1,2)] fold_merge_perm[OF assms(1,2)] by (simp add: merge_all_def Let_def)
  have "foldl (merge_binary sch1) av es = foldl (merge_binary sch2) av es" by (rule foldl_cong) (use b in auto)
  moreover have "foldl (merge_all sch1) av' es = foldl (merge_all sch2) av' es" for av' by (rule foldl_cong) (use a in auto)
  ultimately show ?thesis by (simp add: merge_entries_def)
qed

lemma merge_src_job_arches: "merge_src_job os cn env (av\<lparr>av_Arches := xs\<rparr>) job = (merge_src_job os cn env av job)\<lparr>av_Arches := xs\<rparr>"
proof -
  have one: "merge_src (av\<lparr>av_Arches := xs\<rparr>) sp = (merge_src av sp)\<lparr>av_Arches := xs\<rparr>" for av sp
    by (cases av) (simp add: merge_src_def Let_def split: option.splits)
  have fold: "foldl merge_src (av\<lparr>av_Arches := xs\<rparr>) sps = (foldl merge_src av sps)\<lparr>av_Arches := xs\<rparr>" for av sps
    by (induction sps arbitrary: av) (simp_all add: one)
  have upd: "(av\<lparr>av_Arches := xs\<rparr>)\<lparr>av_Srcs := m\<rparr> = (av\<lparr>av_Srcs := m\<rparr>)\<lparr>av_Arches := xs\<rparr>" for m by simp
  obtain c src where job: "job = (c, src)" by (cases job)
  show ?thesis
    unfolding merge_src_job_def job Let_def
    by (cases "job_sources env src"; cases "the (job_sources env src)") (simp_all add: upd fold del: foldl_map)
qed

lemma merge_src_jobs_arches:
  "foldl (merge_src_job os cn env) (av\<lparr>av_Arches := xs\<rparr>) jobs = (foldl (merge_src_job os cn env) av jobs)\<lparr>av_Arches := xs\<rparr>"
  by (induction jobs arbitrary: av) (simp_all add: merge_src_job_arches)

text \<open>C16: two runs of \<open>Build\<close> on the same upstream data give the same view, the same evictions and the same
  freshness decision, whatever the order in which the goroutines finish and maps are ranged over; only the
  list of architectures may be permuted.\<close>

theorem Build_deterministic:
  assumes "schedule_ok sch1" "schedule_ok sch2" "indices_ok env (jobs_of (layouts_of layouts osName codename))"
    "Build sch1 env layouts osName codename = (av1, ev1, fresh1)" "Build sch2 env layouts osName codename = (av2, ev2, fresh2)"
  shows "av1\<lparr>av_Arches := []\<rparr> = av2\<lparr>av_Arches := []\<rparr> \<and> mset (av_Arches av1) = mset (av_Arches av2) \<and> ev1 = ev2 \<and> fresh1 = fresh2"
proof -
  define ls where "ls = layouts_of layouts osName codename"
  define es where "es = sort_key entry_key (all_entries osName codename env (jobs_of ls))"
  define av where "av = merge_entries sch1 (init_available osName codename ls) es"
  let ?archs = "remdups (filter (\<lambda>a. a \<noteq> ''all'') (concat (map ly_Archs ls)))"
  let ?src = "\<lambda>av. foldl (merge_src_job osName codename env) av (source_jobs ls)"
  have ok: "\<forall>e\<in>set es. entry_ok e \<and> pool_ok e"
    using entries_ok entries_pool_ok[OF assms(3)] by (auto simp: es_def ls_def)
  have sorted: "sort_key entry_key (sch_arrive sch1 (all_entries osName codename env (jobs_of ls))) = es"
      "sort_key entry_key (sch_arrive sch2 (all_entries osName codename env (jobs_of ls))) = es"
    using entries_sorted_unique assms(1-3) by (auto simp: es_def ls_def)
  have av': "merge_entries sch2 (init_available osName codename ls) es = av"
    unfolding av_def by (rule merge_entries_perm[OF assms(2,1) ok])
  have b1: "av1 = (?src av)\<lparr>av_Arches := sch_arches sch1 ?archs, av_HasFetchFailure := av_HasFetchFailure av1\<rparr>"
    using assms(4) unfolding Build_def Let_def ls_def[symmetric] sorted merge_src_jobs_arches av_def[symmetric] by auto
  have b2: "av2 = (?src av)\<lparr>av_Arches := sch_arches sch2 ?archs, av_HasFetchFailure := av_HasFetchFailure av2\<rparr>"
    using assms(5) unfolding Build_def Let_def ls_def[symmetric] sorted merge_src_jobs_arches av' by auto
  have f: "av_HasFetchFailure av1 = av_HasFetchFailure av2" "ev1 = ev2" "fresh1 = fresh2"
    using assms(4,5) unfolding Build_def Let_def ls_def[symmetric] by auto
  have a: "av_Arches av1 = sch_arches sch1 ?archs" "av_Arches av2 = sch_arches sch2 ?archs"
    by (subst b1, simp) (subst b2, simp)
  have "mset (av_Arches av1) = mset (av_Arches av2)" using assms(1,2) unfolding a by (simp add: schedule_ok_def)
  moreover have "av1\<lparr>av_Arches := []\<rparr> = av2\<lparr>av_Arches := []\<rparr>" by (subst b1, subst b2) (simp add: f(1))
  ultimately show ?thesis using f by simp
qed


subsection \<open>What is selected\<close>

text \<open>The packages one job offers for an architecture, in the order of its index.\<close>

definition job_pkgs :: "string \<Rightarrow> string \<Rightarrow> upstreams \<Rightarrow> string \<Rightarrow> string \<times> UpstreamSource \<Rightarrow> Pkg list" where
  "job_pkgs os cn env a job =
     (case job of (c, src) \<Rightarrow>
        case job_index env src of None \<Rightarrow> []
        | Some idx \<Rightarrow> (case map_of (ix_ByArch idx) a of None \<Rightarrow> [] | Some sts \<Rightarrow> built os cn c a src sts))"

text \<open>All candidates of a component and architecture: the upstreams in configured order, and after them the
  architecture-independent indices in the same order.\<close>

definition candidates :: "string \<Rightarrow> string \<Rightarrow> upstreams \<Rightarrow> (string \<times> UpstreamSource) list \<Rightarrow> string \<Rightarrow> string \<Rightarrow> Pkg list" where
  "candidates os cn env jobs c a =
     (let js = filter (\<lambda>j. fst j = c) jobs
      in concat (map (job_pkgs os cn env a) js) @ concat (map (job_pkgs os cn env ''all'') js))"

lemma filter_arch_entries:
  assumes "distinct (map fst (ix_ByArch idx))" "job_index env src = Some idx"
  shows "newest_pkgs (pkgs_for c a (job_entries os cn env i (d, src))) =
     newest_pkgs (if d = c then job_pkgs os cn env a (d, src) else [])"
proof -
  have one: "pkgs_for c a (map (\<lambda>(arch, stanzas). \<lparr>ae_order = i, ae_component = d, ae_arch = arch,
        ae_pkgs = arch_pkgs os cn d arch src stanzas, ae_stale = st\<rparr>) xs) =
      (if d = c then (case map_of xs a of None \<Rightarrow> [] | Some sts \<Rightarrow> map snd (arch_pkgs os cn d a src sts)) else [])"
    if "distinct (map fst xs)" for xs st
    using that
  proof (induction xs)
    case (Cons x xs)
    obtain b sts where x: "x = (b, sts)" by (cases x)
    have none: "map_of xs b = None" using Cons.prems x by (simp add: map_of_eq_None_iff)
    have IH: "pkgs_for c a (map (\<lambda>(arch, stanzas). \<lparr>ae_order = i, ae_component = d, ae_arch = arch,
        ae_pkgs = arch_pkgs os cn d arch src stanzas, ae_stale = st\<rparr>) xs) =
      (if d = c then (case map_of xs a of None \<Rightarrow> [] | Some sts \<Rightarrow> map snd (arch_pkgs os cn d a src sts)) else [])"
      using Cons by simp
    have cons: "pkgs_for c a (e # es) = (if ae_component e = c \<and> ae_arch e = a then map snd (ae_pkgs e) else []) @ pkgs_for c a es" for e es
      by (simp add: pkgs_for_def)
    show ?case using none IH by (cases "b = a") (simp_all add: x cons)
  qed (simp add: pkgs_for_def)
  have "newest_pkgs (map snd (arch_pkgs os cn d a src sts)) = newest_pkgs (built os cn d a src sts)" for sts
    using newest_pkgs_alist[of "arch_pkgs os cn d a src sts"] fold_put_newest[of "built os cn d a src sts"]
    by (simp add: arch_pkgs_built)
  then show ?thesis
    using one[OF assms(1), of "ix_HasStaleMismatch idx"] assms(2)
    by (cases "d = c") (simp_all add: job_entries_def job_pkgs_def split: option.splits)
qed

lemma pkgs_for_concat: "pkgs_for c a (concat ess) = concat (map (pkgs_for c a) ess)"
  by (induction ess) (simp_all add: pkgs_for_def)

lemma newest_all_entries:
  assumes "indices_ok env jobs"
  shows "newest_pkgs (pkgs_for c a (all_entries os cn env jobs)) =
    newest_pkgs (concat (map (job_pkgs os cn env a) (filter (\<lambda>j. fst j = c) jobs)))"
proof -
  have "concat (map (job_pkgs os cn env a) (filter (\<lambda>j. fst j = c) js)) =
      concat (map (\<lambda>j. if fst j = c then job_pkgs os cn env a j else []) js)" for js
    by (induction js) auto
  moreover have "list_all2 (\<lambda>xs ys. newest_pkgs xs = newest_pkgs ys)
      (map (\<lambda>(i, j). pkgs_for c a (job_entries os cn env i j)) (zip [0..<length jobs] jobs))
      (map (\<lambda>j. if fst j = c then job_pkgs os cn env a j else []) jobs)"
    unfolding list_all2_conv_all_nth
  proof (intro conjI allI impI)
    fix i assume "i < length (map (\<lambda>(i, j). pkgs_for c a (job_entries os cn env i j)) (zip [0..<length jobs] jobs))"
    then have i: "i < length jobs" by simp
    obtain d src where j: "jobs ! i = (d, src)" by (cases "jobs ! i")
    have "(d, src) \<in> set jobs" using i j by (metis nth_mem)
    then have "newest_pkgs (pkgs_for c a (job_entries os cn env i (d, src))) = newest_pkgs (if d = c then job_pkgs os cn env a (d, src) else [])"
      using assms filter_arch_entries[of _ env src c a os cn i d]
      by (cases "job_index env src") (auto simp: indices_ok_def list_all_iff job_entries_def job_pkgs_def pkgs_for_def)
    then show "newest_pkgs (map (\<lambda>(i, j). pkgs_for c a (job_entries os cn env i j)) (zip [0..<length jobs] jobs) ! i) =
        newest_pkgs (map (\<lambda>j. if fst j = c then job_pkgs os cn env a j else []) jobs ! i)"
      using i j by simp
  qed simp
  ultimately show ?thesis
    unfolding all_entries_def pkgs_for_concat map_map comp_def prod.case_distrib[of "pkgs_for c a"]
    by (simp only: deb.newest_by_concat_cong)
qed

lemma sorted_const: "(\<And>x. x \<in> set xs \<Longrightarrow> f x = k) \<Longrightarrow> sorted (map f xs)"
  by (induction xs) simp_all

lemma all_entries_order: "sorted (map ae_order (all_entries os cn env jobs))"
proof -
  have "sorted (map ae_order (concat (map (\<lambda>(i, j). job_entries os cn env i j) (zip [k..<k + length js] js)))) \<and>
      (\<forall>e\<in>set (concat (map (\<lambda>(i, j). job_entries os cn env i j) (zip [k..<k + length js] js))). k \<le> ae_order e)" for k js
  proof (induction js arbitrary: k)
    case (Cons j js)
    have j: "ae_order e = k" if "e \<in> set (job_entries os cn env k j)" for e
      using that by (cases j) (auto simp: job_entries_def split: option.splits)
    then have "sorted (map ae_order (job_entries os cn env k j))" by (rule sorted_const)
    moreover have "[k..<k + length (j # js)] = k # [Suc k..<Suc k + length js]" by (subst upt_conv_Cons) simp_all
    ultimately show ?case using Cons.IH[of "Suc k"] j by (fastforce simp: sorted_append)
  qed simp
  from this[of 0 jobs] show ?thesis by (simp add: all_entries_def)
qed

lemma sorted_key_pairs:
  fixes f :: "'e \<Rightarrow> nat" and a :: string
  assumes "sorted (map f xs)" "\<And>x. x \<in> set xs \<Longrightarrow> k x = (f x, a)"
  shows "sorted (map k xs)"
  using assms by (induction xs) (auto simp: less_eq_prod_def)

lemma pkgs_for_sorted:
  "pkgs_for c a (sort_key entry_key (all_entries os cn env jobs)) = pkgs_for c a (all_entries os cn env jobs)"
proof -
  let ?P = "\<lambda>e. ae_component e = c \<and> ae_arch e = a" and ?A = "all_entries os cn env jobs"
  have "sorted (map ae_order (filter ?P ?A))" using all_entries_order by (rule sorted_filter)
  then have "sorted (map entry_key (filter ?P ?A))"
  proof (rule sorted_key_pairs)
    show "entry_key e = (ae_order e, a)" if "e \<in> set (filter ?P ?A)" for e using that by (simp add: entry_key_def)
  qed
  then have "filter ?P (sort_key entry_key ?A) = filter ?P ?A"
    by (simp add: filter_sort sort_key_id_if_sorted)
  then show ?thesis by (simp add: pkgs_for_def)
qed

lemma merge_src_job_keeps:
  "av_Pkgs (merge_src_job os cn env av job) = av_Pkgs av" "av_ByPoolPath (merge_src_job os cn env av job) = av_ByPoolPath av"
proof -
  have one: "av_Pkgs (merge_src av sp) = av_Pkgs av \<and> av_ByPoolPath (merge_src av sp) = av_ByPoolPath av" for av sp
    by (simp add: merge_src_def Let_def split: option.splits)
  have fold: "av_Pkgs (foldl merge_src av sps) = av_Pkgs av \<and> av_ByPoolPath (foldl merge_src av sps) = av_ByPoolPath av" for av sps
    by (induction sps arbitrary: av) (simp_all add: one)
  show "av_Pkgs (merge_src_job os cn env av job) = av_Pkgs av" "av_ByPoolPath (merge_src_job os cn env av job) = av_ByPoolPath av"
    using fold by (auto simp: merge_src_job_def Let_def split: option.splits prod.splits)
qed

lemma merge_src_jobs_keep:
  "av_Pkgs (foldl (merge_src_job os cn env) av jobs) = av_Pkgs av"
  "av_ByPoolPath (foldl (merge_src_job os cn env) av jobs) = av_ByPoolPath av"
  by (induction jobs arbitrary: av) (simp_all add: merge_src_job_keeps)

lemma Build_merge:
  assumes "schedule_ok sch" "ls = layouts_of layouts osName codename" "indices_ok env (jobs_of ls)"
    "Build sch env layouts osName codename = (av, ev, fresh)"
  defines "m \<equiv> merge_entries sch (init_available osName codename ls) (sort_key entry_key (all_entries osName codename env (jobs_of ls)))"
  shows "av_Pkgs av = av_Pkgs m" "av_ByPoolPath av = av_ByPoolPath m"
proof -
  have "sort_key entry_key (sch_arrive sch (all_entries osName codename env (jobs_of ls))) = sort_key entry_key (all_entries osName codename env (jobs_of ls))"
    by (rule entries_sorted_unique[OF assms(1,3)])
  then have "av = (foldl (merge_src_job osName codename env) (m\<lparr>av_Arches := av_Arches av\<rparr>) (source_jobs ls))\<lparr>av_HasFetchFailure := realFetchFailed env ls\<rparr>"
    using assms(4) unfolding Build_def Let_def assms(2)[symmetric] m_def by (auto simp: merge_src_jobs_arches)
  then show "av_Pkgs av = av_Pkgs m" "av_ByPoolPath av = av_ByPoolPath m"
    by (metis (no_types, lifting) Available.select_convs Available.surjective Available.update_convs merge_src_jobs_keep)+
qed

lemma Build_newest:
  assumes "schedule_ok sch" "jobs = jobs_of (layouts_of layouts osName codename)" "indices_ok env jobs"
    "Build sch env layouts osName codename = (av, ev, fresh)" "map_of (component_arches av c) a = Some dest"
  shows "dest n = Some p \<longleftrightarrow>
    newest_of Compare pk_Version (filter (\<lambda>q. pk_Name q = n) (candidates osName codename env jobs c a)) p"
proof -
  define ls where "ls = layouts_of layouts osName codename"
  let ?A = "all_entries osName codename env jobs"
  let ?es = "sort_key entry_key ?A"
  have jobs: "jobs = jobs_of ls" using assms(2) by (simp add: ls_def)
  have ok: "\<forall>e\<in>set ?es. entry_ok e" using entries_ok by auto
  have init: "component_arches (init_available osName codename ls) d = []" for d
    by (simp add: component_arches_def init_available_def)
  have "component_arches av = component_arches (merge_entries sch (init_available osName codename ls) ?es)"
    using Build_merge(1)[OF assms(1) ls_def _ assms(4)] assms(3) by (simp add: component_arches_def jobs fun_eq_iff)
  then have "a \<noteq> ''all'' \<and> has_entry c a ?es" "dest = newest_pkgs (pkgs_for c a ?es @ pkgs_for c ''all'' ?es)"
    using merge_entries_archs[OF assms(1) ok init, of c a] assms(5) by (auto split: if_splits)
  moreover have "newest_pkgs (pkgs_for c a ?es @ pkgs_for c ''all'' ?es) = newest_pkgs (candidates osName codename env jobs c a)"
    unfolding candidates_def Let_def pkgs_for_sorted
    by (rule deb.newest_by_append_cong) (rule newest_all_entries[OF assms(3)])+
  ultimately show ?thesis by (simp add: deb.newest_by_Some_iff)
qed

text \<open>C2: the view lists, for every component and binary architecture an upstream serves, exactly one package per
  name: the one with the greatest version among all upstreams of the component and the architecture-independent
  indices; among equal versions the one of the first configured upstream.\<close>

theorem Build_selects_newest:
  assumes "schedule_ok sch" "jobs = jobs_of (layouts_of layouts osName codename)" "indices_ok env jobs"
    "Build sch env layouts osName codename = (av, ev, fresh)" "map_of (component_arches av c) a = Some dest"
  shows "dest n = Some p \<longleftrightarrow>
    newest_of Compare pk_Version (filter (\<lambda>q. pk_Name q = n) (candidates osName codename env jobs c a)) p"
  by (rule Build_newest[OF assms])

text \<open>The pool path leads to a package with exactly this pool path.\<close>

definition resolvable :: "(string \<rightharpoonup> Pkg) \<Rightarrow> string \<Rightarrow> bool" where
  "resolvable m x \<longleftrightarrow> (case m x of None \<Rightarrow> False | Some q \<Rightarrow> pk_PoolPath q = x)"

lemma resolvable_add: "resolvable m x \<Longrightarrow> resolvable (foldl add_pool_path m xs) x"
  by (induction xs arbitrary: m) (auto simp: add_pool_path_def resolvable_def)

lemma resolvable_added: "(n, p) \<in> set xs \<Longrightarrow> resolvable (foldl add_pool_path m xs) (pk_PoolPath p)"
proof (induction xs arbitrary: m)
  case (Cons x xs)
  show ?case
  proof (cases "x = (n, p)")
    case True
    then have "resolvable (add_pool_path m x) (pk_PoolPath p)" by (simp add: add_pool_path_def resolvable_def)
    then show ?thesis using resolvable_add by simp
  qed (use Cons in auto)
qed simp

lemma resolvable_arches: "resolvable m x \<Longrightarrow> resolvable (foldl (\<lambda>m _. foldl add_pool_path m xs) m archs) x"
  by (induction archs arbitrary: m) (simp_all add: resolvable_add)

lemma merge_resolvable:
  assumes "resolvable (av_ByPoolPath av) x"
  shows "resolvable (av_ByPoolPath (foldl (merge_binary sch) av es)) x" "resolvable (av_ByPoolPath (foldl (merge_all sch) av es)) x"
proof -
  have b: "resolvable (av_ByPoolPath av) x \<Longrightarrow> resolvable (av_ByPoolPath (merge_binary sch av e)) x" for av e
    by (simp add: merge_binary_def Let_def resolvable_add)
  have a: "resolvable (av_ByPoolPath av) x \<Longrightarrow> resolvable (av_ByPoolPath (merge_all sch av e)) x" for av e
    by (simp add: merge_all_def Let_def resolvable_arches)
  show "resolvable (av_ByPoolPath (foldl (merge_binary sch) av es)) x"
    using assms by (induction es arbitrary: av) (simp_all add: b)
  show "resolvable (av_ByPoolPath (foldl (merge_all sch) av es)) x"
    using assms by (induction es arbitrary: av) (simp_all add: a)
qed

lemma merge_all_nonempty: "component_arches (foldl (merge_all sch) av es) c = [] \<longleftrightarrow> component_arches av c = []"
proof (induction es arbitrary: av)
  case (Cons e es)
  have "component_arches (merge_all sch av e) c = [] \<longleftrightarrow> component_arches av c = []"
    by (auto simp: merge_all_def Let_def component_arches_def)
  with Cons show ?case by simp
qed simp

lemma merge_entry_resolvable:
  assumes "schedule_ok sch" "entry_ok e" "e \<in> set es" "(n, p) \<in> set (ae_pkgs e)"
    "ae_arch e \<noteq> ''all'' \<or> component_arches (merge_entries sch av es) (ae_component e) \<noteq> []"
  shows "resolvable (av_ByPoolPath (merge_entries sch av es)) (pk_PoolPath p)"
proof -
  obtain xs ys where es: "es = xs @ e # ys" using assms(3) by (meson split_list)
  have in_range: "(n, p) \<in> set (sch_range sch (ae_pkgs e))" using range_ok(3)[OF assms(1,2)] assms(4) by simp
  show ?thesis
  proof (cases "ae_arch e = ''all''")
    case False
    then have "resolvable (av_ByPoolPath (merge_binary sch (foldl (merge_binary sch) av xs) e)) (pk_PoolPath p)"
      using resolvable_added[OF in_range] by (simp add: merge_binary_def Let_def)
    then have "resolvable (av_ByPoolPath (foldl (merge_binary sch) av es)) (pk_PoolPath p)"
      using merge_resolvable(1) by (simp add: es)
    then show ?thesis unfolding merge_entries_def by (rule merge_resolvable(2))
  next
    case True
    define av1 where "av1 = foldl (merge_all sch) (foldl (merge_binary sch) av es) xs"
    have "component_arches av1 (ae_component e) \<noteq> []"
      using True assms(5) unfolding merge_entries_def av1_def merge_all_nonempty by simp
    then obtain y ys' where "component_arches av1 (ae_component e) = y # ys'" unfolding neq_Nil_conv by blast
    then have "resolvable (av_ByPoolPath (merge_all sch av1 e)) (pk_PoolPath p)"
      using True resolvable_arches[OF resolvable_added[OF in_range]] by (simp add: merge_all_def Let_def)
    from merge_resolvable(2)[OF this]
    have "resolvable (av_ByPoolPath (foldl (merge_all sch) (foldl (merge_binary sch) av es) (xs @ e # ys))) (pk_PoolPath p)"
      unfolding av1_def by simp
    then show ?thesis unfolding merge_entries_def es[symmetric] .
  qed
qed



section \<open>A small repository\<close>

text \<open>One upstream with two versions of \<open>a\<close>, which depends on \<open>b\<close>.\<close>

definition wit_src :: UpstreamSource where
  "wit_src = \<lparr>us_Name = ''deb'', us_URL = ''http://d'', us_Suite = ''s'', us_Component = [''main''], us_Archs = [''amd64''],
     us_AutoUpdate = False, us_FetchSources = False, us_VerifyKeys = [], us_Username = [], us_Password = [], us_Network = []\<rparr>"

definition wit_raw :: "string \<Rightarrow> string \<Rightarrow> string \<Rightarrow> RawPkg" where
  "wit_raw n v d = zero_RawPkg\<lparr>rp_Package := n, rp_Version := v, rp_Depends := d, rp_Filename := ''pool/'' @ n @ v\<rparr>"

definition wit_idx :: Index where
  "wit_idx = \<lparr>ix_ByArch = [(''amd64'', [wit_raw ''a'' ''1'' ''b'', wit_raw ''a'' ''2'' ''b'', wit_raw ''b'' ''1'' []])],
     ix_HasStaleMismatch = False\<rparr>"

definition wit_env :: upstreams where
  "wit_env = \<lparr>up_cache = True, up_layoutDataFresh = False, up_adopt = (\<lambda>_. None), up_fetch = (\<lambda>_. Some wit_idx),
     up_adoptSources = (\<lambda>_. None), up_fetchSources = (\<lambda>_. None)\<rparr>"

definition wit_layouts :: "Layout list" where
  "wit_layouts = [\<lparr>ly_OS = ''o'', ly_Codename = ''c'', ly_Component = ''main'', ly_Archs = [''amd64''],
     ly_HashTypes = [], ly_Upstreams = [wit_src]\<rparr>]"

definition wit_sch :: schedule where
  "wit_sch = \<lparr>sch_arrive = id, sch_range = id, sch_arches = id\<rparr>"

definition wit_rev :: schedule where
  "wit_rev = \<lparr>sch_arrive = rev, sch_range = rev, sch_arches = rev\<rparr>"

definition wit_av :: Available where
  "wit_av = fst (Build wit_sch wit_env wit_layouts ''o'' ''c'')"

definition wit_pkgs :: "(string \<times> Pkg) list" where
  "wit_pkgs = arch_pkgs ''o'' ''c'' ''main'' ''amd64'' wit_src (snd (hd (ix_ByArch wit_idx)))"

definition wit_closure :: Available where
  "wit_closure = (init_available ''o'' ''c'' wit_layouts)\<lparr>av_Pkgs := [''main'' \<mapsto> [(''amd64'', map_of wit_pkgs)]]\<rparr>"

lemma wit_schedules: "schedule_ok wit_sch" "schedule_ok wit_rev"
  by (simp_all add: schedule_ok_def wit_sch_def wit_rev_def)

lemma wit_indices: "indices_ok wit_env (jobs_of (layouts_of wit_layouts ''o'' ''c''))"
  by code_simp

lemma wit_Build: "Build wit_sch wit_env wit_layouts ''o'' ''c'' =
    (wit_av, fst (snd (Build wit_sch wit_env wit_layouts ''o'' ''c'')), snd (snd (Build wit_sch wit_env wit_layouts ''o'' ''c'')))"
  by (simp add: wit_av_def)

theorem DepClosure_correct_witness:
  "\<exists>m. DepClosure wit_closure (\<lambda>_. [''main'']) ''main'' ''amd64'' [''a''] = Some m \<and> m ''b'' \<noteq> None \<and> m ''c'' = None"
proof -
  let ?lk = "dep_lookup wit_closure (\<lambda>_. [''main'']) ''main'' ''amd64''"
  define dest where "dest = map_of wit_pkgs"
  have d: "map_of (component_arches wit_closure ''main'') ''amd64'' = Some dest" "finite (dom dest)"
    by (simp_all add: wit_closure_def component_arches_def dest_def finite_dom_map_of)
  have "{n. ?lk n \<noteq> None} \<subseteq> dom dest"
    by (auto simp: dep_lookup_def arch_lookup_def d(1) List.map_filter_def split: option.splits)
  then have fin: "finite {n. ?lk n \<noteq> None}" using d(2) finite_subset by blast
  have lk: "?lk ''a'' \<noteq> None" "?lk ''b'' \<noteq> None" "?lk ''c'' = None" "''b'' \<in> set (next_deps ?lk (the (?lk ''a'')))"
    by code_simp+
  then obtain p where p: "?lk ''a'' = Some p" by auto
  have "dep_reach ?lk [''a''] ''a''" using lk(1) by (auto intro: dep_reach.seed)
  then have "dep_reach ?lk [''a''] ''b''" by (rule dep_reach.dep[where lookup = ?lk and p = p]) (use lk(4) p in simp_all)
  then show ?thesis using DepClosure_correct[OF fin, of "[''a'']"] lk by simp
qed

theorem Build_deterministic_witness:
  "av_Pkgs (fst (Build wit_rev wit_env wit_layouts ''o'' ''c'')) = av_Pkgs wit_av"
proof -
  obtain av ev fresh where b: "Build wit_rev wit_env wit_layouts ''o'' ''c'' = (av, ev, fresh)" by (metis prod.exhaust)
  from Build_deterministic[OF wit_schedules wit_indices wit_Build b]
  have "av_Pkgs (wit_av\<lparr>av_Arches := []\<rparr>) = av_Pkgs (av\<lparr>av_Arches := []\<rparr>)" by (elim conjE) (rule arg_cong)
  then show ?thesis by (simp add: b)
qed

theorem Build_selects_newest_witness:
  "\<exists>dest p. map_of (component_arches wit_av ''main'') ''amd64'' = Some dest \<and> dest ''a'' = Some p \<and>
     newest_of Compare pk_Version (filter (\<lambda>q. pk_Name q = ''a'')
       (candidates ''o'' ''c'' wit_env (jobs_of (layouts_of wit_layouts ''o'' ''c'')) ''main'' ''amd64'')) p \<and> pk_Version p = ''2''"
proof -
  have "(case map_of (component_arches wit_av ''main'') ''amd64'' of None \<Rightarrow> False
      | Some dest \<Rightarrow> (case dest ''a'' of None \<Rightarrow> False | Some p \<Rightarrow> pk_Version p = ''2''))" by code_simp
  then obtain dest p where d: "map_of (component_arches wit_av ''main'') ''amd64'' = Some dest" "dest ''a'' = Some p" "pk_Version p = ''2''"
    by (auto split: option.splits)
  show ?thesis
    using Build_selects_newest[OF wit_schedules(1) refl wit_indices wit_Build d(1)] d by blast
qed


end
