(* ===== verification/FsStore.thy ===== *)
theory FsStore
  imports Paths "HOL-Library.AList" "HOL-Library.Char_ord" "HOL-Library.List_Lexorder"
begin

text \<open>
  The filesystem storage backend (\<open>src/internal/storage/filesystem/fs.go\<close>) over a model of the operating
  system's file tree: an association list from absolute paths to nodes.  Every system call may fail: \<open>sys c p\<close>
  holds when the system refuses call \<open>c\<close> on path \<open>p\<close> (\<open>ctx\<close> stands for a cancelled context).  The
  temporary file of a write exists only during the call (the deferred removal takes it away on every return),
  so a write that returns has either put the complete file in place by renaming or changed no file.
\<close>

section \<open>Definitions\<close>

record FileInfo =
  fi_Path :: string
  fi_Size :: int
  fi_ModTime :: int

record SnapshotRef =
  sr_ID :: string
  sr_OS :: string
  sr_CreatedAt :: int

datatype node = File string int | Dir int int

fun node_size :: "node \<Rightarrow> int" where
  "node_size (File d _) = int (length d)"
| "node_size (Dir n _) = n"

fun node_mtime :: "node \<Rightarrow> int" where
  "node_mtime (File _ t) = t"
| "node_mtime (Dir _ t) = t"

fun is_dir :: "node \<Rightarrow> bool" where
  "is_dir (File _ _) = False"
| "is_dir (Dir _ _) = True"

type_synonym os_state = "(string \<times> node) list"
type_synonym sys = "string \<Rightarrow> string \<Rightarrow> bool"

datatype os_error = InvalidPath | NotExist | Exist | OsError

text \<open>\<open>path.Dir\<close> and \<open>path.Base\<close>.\<close>

definition path_dir :: "string \<Rightarrow> string" where
  "path_dir p = (case cut_last CHR ''/'' p of None \<Rightarrow> ''.'' | Some (d, _) \<Rightarrow> path_clean (d @ ''/''))"

definition path_base :: "string \<Rightarrow> string" where
  "path_base p =
     (if p = [] then ''.''
      else let q = trim_right (\<lambda>c. c = CHR ''/'') p
           in if q = [] then ''/'' else (case cut_last CHR ''/'' q of None \<Rightarrow> q | Some (_, b) \<Rightarrow> b))"

text \<open>The system calls.\<close>

definition os_Stat :: "sys \<Rightarrow> os_state \<Rightarrow> string \<Rightarrow> os_error + node" where
  "os_Stat sys st p =
     (if sys ''stat'' p then Inl OsError
      else case map_of st p of None \<Rightarrow> Inl NotExist | Some n \<Rightarrow> Inr n)"

definition os_Open :: "sys \<Rightarrow> os_state \<Rightarrow> string \<Rightarrow> os_error + string" where
  "os_Open sys st p =
     (if sys ''open'' p then Inl OsError
      else case map_of st p of None \<Rightarrow> Inl NotExist | Some (Dir _ _) \<Rightarrow> Inl OsError | Some (File d _) \<Rightarrow> Inr d)"

definition beneath :: "string \<Rightarrow> string \<Rightarrow> bool" where
  "beneath r p \<longleftrightarrow> has_prefix p (if r = ''/'' then r else r @ ''/'')"

definition os_Remove :: "sys \<Rightarrow> os_state \<Rightarrow> string \<Rightarrow> os_error option \<times> os_state" where
  "os_Remove sys st p =
     (if sys ''remove'' p then (Some OsError, st)
      else case map_of st p of
             None \<Rightarrow> (Some NotExist, st)
           | Some n \<Rightarrow> if is_dir n \<and> list_ex (\<lambda>(q, _). beneath p q) st then (Some OsError, st)
                       else (None, AList.delete p st))"

definition dir_chain :: "string \<Rightarrow> string list" where
  "dir_chain p = (let segs = split_on CHR ''/'' p
     in filter (\<lambda>d. d \<noteq> []) (map (\<lambda>i. join ''/'' (take i segs)) [1..<Suc (length segs)]))"

definition os_MkdirAll :: "sys \<Rightarrow> int \<Rightarrow> os_state \<Rightarrow> string \<Rightarrow> os_error option \<times> os_state" where
  "os_MkdirAll sys now st p =
     (if sys ''mkdir'' p \<or> list_ex (\<lambda>d. case map_of st d of Some (File _ _) \<Rightarrow> True | _ \<Rightarrow> False) (dir_chain p)
      then (Some OsError, st)
      else (None, foldl (\<lambda>st d. if map_of st d = None then st @ [(d, Dir 0 now)] else st) st (dir_chain p)))"

definition os_Rename :: "sys \<Rightarrow> int \<Rightarrow> os_state \<Rightarrow> string \<Rightarrow> string \<Rightarrow> os_error option \<times> os_state" where
  "os_Rename sys now st data p =
     (if sys ''rename'' p then (Some OsError, st)
      else case map_of st p of
             Some (Dir _ _) \<Rightarrow> (Some Exist, st)
           | _ \<Rightarrow> (None, AList.update p (File data now) st))"

definition temp_fails :: "sys \<Rightarrow> string \<Rightarrow> bool" where
  "temp_fails sys dir \<longleftrightarrow> sys ''createtemp'' dir \<or> sys ''copy'' dir \<or> sys ''close'' dir \<or> sys ''chmod'' dir"

text \<open>\<open>filepath.WalkDir\<close>: the nodes at and below a path, in lexical order within every directory.\<close>

definition os_Walk :: "os_state \<Rightarrow> string \<Rightarrow> (string \<times> node) list" where
  "os_Walk st r = sort_key (\<lambda>(p, _). split_on CHR ''/'' p) (filter (\<lambda>(p, _). p = r \<or> beneath r p) st)"

definition path_rel :: "string \<Rightarrow> string \<Rightarrow> string" where
  "path_rel r p = (if p = r then ''.'' else trim_prefix p (if r = ''/'' then r else r @ ''/''))"

text \<open>The backend's operations.\<close>

definition fs_Ping :: "sys \<Rightarrow> fs_Store \<Rightarrow> os_state \<Rightarrow> os_error option" where
  "fs_Ping sys s st =
     (if sys ''ctx'' [] then Some OsError
      else case os_Stat sys st (fs_root s) of Inl e \<Rightarrow> Some e | Inr _ \<Rightarrow> None)"

definition stat_at :: "sys \<Rightarrow> os_state \<Rightarrow> string \<Rightarrow> string option \<Rightarrow> os_error + FileInfo" where
  "stat_at sys st p a0 =
     (if sys ''ctx'' [] then Inl OsError
      else case a0 of
             None \<Rightarrow> Inl InvalidPath
           | Some a \<Rightarrow> (case os_Stat sys st a of
               Inl e \<Rightarrow> Inl e
             | Inr n \<Rightarrow> Inr \<lparr>fi_Path = p, fi_Size = node_size n, fi_ModTime = node_mtime n\<rparr>))"

definition open_at :: "sys \<Rightarrow> os_state \<Rightarrow> string option \<Rightarrow> os_error + string" where
  "open_at sys st a0 =
     (if sys ''ctx'' [] then Inl OsError
      else case a0 of None \<Rightarrow> Inl InvalidPath | Some a \<Rightarrow> os_Open sys st a)"

definition remove_at :: "sys \<Rightarrow> os_state \<Rightarrow> string option \<Rightarrow> os_error option \<times> os_state" where
  "remove_at sys st a0 =
     (if sys ''ctx'' [] then (Some OsError, st)
      else case a0 of None \<Rightarrow> (Some InvalidPath, st) | Some a \<Rightarrow> os_Remove sys st a)"

definition fs_Open :: "sys \<Rightarrow> fs_Store \<Rightarrow> os_state \<Rightarrow> string \<Rightarrow> os_error + string" where
  "fs_Open sys s st p = open_at sys st (absPool s p)"

definition fs_Stat :: "sys \<Rightarrow> fs_Store \<Rightarrow> os_state \<Rightarrow> string \<Rightarrow> os_error + FileInfo" where
  "fs_Stat sys s st p = stat_at sys st p (absPool s p)"

definition fs_Exists :: "sys \<Rightarrow> fs_Store \<Rightarrow> os_state \<Rightarrow> string \<Rightarrow> os_error + bool" where
  "fs_Exists sys s st p =
     (if sys ''ctx'' [] then Inl OsError
      else case absPool s p of
             None \<Rightarrow> Inl InvalidPath
           | Some a \<Rightarrow> (case os_Stat sys st a of
               Inr _ \<Rightarrow> Inr True
             | Inl e \<Rightarrow> if e = NotExist then Inr False else Inl e))"

definition fs_Delete :: "sys \<Rightarrow> fs_Store \<Rightarrow> os_state \<Rightarrow> string \<Rightarrow> os_error option \<times> os_state" where
  "fs_Delete sys s st p = remove_at sys st (absPool s p)"

definition fs_PutFile :: "sys \<Rightarrow> int \<Rightarrow> fs_Store \<Rightarrow> os_state \<Rightarrow> string \<Rightarrow> string \<Rightarrow> os_error option \<times> os_state" where
  "fs_PutFile sys now s st poolPath data =
     (case absPool s poolPath of
        None \<Rightarrow> (Some InvalidPath, st)
      | Some a \<Rightarrow>
          (case fs_Exists sys s st poolPath of
             Inl e \<Rightarrow> (Some e, st)
           | Inr True \<Rightarrow> (None, st)
           | Inr False \<Rightarrow>
               (case os_MkdirAll sys now st (path_dir a) of
                  (Some e, st1) \<Rightarrow> (Some e, st1)
                | (None, st1) \<Rightarrow>
                    if temp_fails sys (path_dir a) then (Some OsError, st1)
                    else (case os_Rename sys now st1 data a of
                            (None, st2) \<Rightarrow> (None, st2)
                          | (Some e, st2) \<Rightarrow>
                              if e = Exist then (None, st2)
                              else (case os_Stat sys st2 a of Inr _ \<Rightarrow> (None, st2) | Inl _ \<Rightarrow> (Some e, st2))))))"

definition fs_WriteFile :: "sys \<Rightarrow> int \<Rightarrow> fs_Store \<Rightarrow> os_state \<Rightarrow> string \<Rightarrow> string \<Rightarrow> os_error option \<times> os_state" where
  "fs_WriteFile sys now s st relPath data =
     (case absPublished s relPath of
        None \<Rightarrow> (Some InvalidPath, st)
      | Some a \<Rightarrow>
          (case os_MkdirAll sys now st (path_dir a) of
             (Some e, st1) \<Rightarrow> (Some e, st1)
           | (None, st1) \<Rightarrow>
               if temp_fails sys (path_dir a) then (Some OsError, st1)
               else os_Rename sys now st1 data a))"

definition fs_DeletePublished :: "sys \<Rightarrow> fs_Store \<Rightarrow> os_state \<Rightarrow> string \<Rightarrow> os_error option \<times> os_state" where
  "fs_DeletePublished sys s st p = remove_at sys st (absPublished s p)"

definition fs_OpenPublished :: "sys \<Rightarrow> fs_Store \<Rightarrow> os_state \<Rightarrow> string \<Rightarrow> os_error + string" where
  "fs_OpenPublished sys s st p = open_at sys st (absPublished s p)"

definition fs_StatPublished :: "sys \<Rightarrow> fs_Store \<Rightarrow> os_state \<Rightarrow> string \<Rightarrow> os_error + FileInfo" where
  "fs_StatPublished sys s st p = stat_at sys st p (absPublished s p)"

definition fs_ComputeChecksums :: "(string \<Rightarrow> string) \<Rightarrow> (string \<Rightarrow> string) \<Rightarrow> sys \<Rightarrow> fs_Store \<Rightarrow> os_state \<Rightarrow> string \<Rightarrow>
    os_error + (string \<times> string)" where
  "fs_ComputeChecksums sha256hex sha512hex sys s st p =
     (case fs_Open sys s st p of Inl e \<Rightarrow> Inl e | Inr d \<Rightarrow> Inr (sha256hex d, sha512hex d))"

text \<open>\<open>WalkPool\<close> as the list of the calls of its callback.\<close>

definition fs_WalkPool :: "sys \<Rightarrow> fs_Store \<Rightarrow> os_state \<Rightarrow> os_error + FileInfo list" where
  "fs_WalkPool sys s st =
     (if sys ''ctx'' [] \<or> sys ''walk'' (fs_poolRoot s) then Inl OsError
      else if map_of st (fs_poolRoot s) = None then Inl NotExist
      else Inr (map (\<lambda>(p, n). \<lparr>fi_Path = path_join [''pool'', path_rel (fs_poolRoot s) p], fi_Size = node_size n,
                                fi_ModTime = node_mtime n\<rparr>)
             (filter (\<lambda>(p, n). \<not> is_dir n \<and> has_suffix (to_lower (path_base p)) ''.deb'') (os_Walk st (fs_poolRoot s)))))"

definition tempFilePrefixes :: "string list" where
  "tempFilePrefixes = [''.upload-'', ''.pub-'']"

definition fs_is_temp :: "string \<Rightarrow> bool" where
  "fs_is_temp p \<longleftrightarrow> list_ex (has_prefix (path_base p)) tempFilePrefixes"

definition fs_CleanupTempFiles :: "sys \<Rightarrow> fs_Store \<Rightarrow> os_state \<Rightarrow> int \<Rightarrow> (os_error + nat) \<times> os_state" where
  "fs_CleanupTempFiles sys s st olderThan =
     (if sys ''ctx'' [] \<or> sys ''walk'' (fs_root s) then (Inl OsError, st)
      else if map_of st (fs_root s) = None then (Inl NotExist, st)
      else let (k, st') =
             foldl (\<lambda>(k, st) (p, n).
                 if is_dir n \<or> \<not> fs_is_temp p \<or> \<not> node_mtime n < olderThan then (k, st)
                 else (case os_Remove sys st p of (None, st') \<Rightarrow> (Suc k, st') | (Some _, _) \<Rightarrow> (k, st)))
               (0, st) (os_Walk st (fs_root s))
           in (Inr k, st'))"

definition fs_ListPublishedInfo :: "sys \<Rightarrow> fs_Store \<Rightarrow> os_state \<Rightarrow> string \<Rightarrow> os_error + FileInfo list" where
  "fs_ListPublishedInfo sys s st prefix =
     (let dir = path_join [fs_root s, path_clean prefix]
      in if sys ''ctx'' [] \<or> sys ''walk'' dir then Inl OsError
         else Inr (map (\<lambda>(p, n). \<lparr>fi_Path = path_rel (fs_root s) p, fi_Size = node_size n, fi_ModTime = node_mtime n\<rparr>)
                (filter (\<lambda>(p, n). \<not> is_dir n) (os_Walk st dir))))"

definition fs_ListPublished :: "sys \<Rightarrow> fs_Store \<Rightarrow> os_state \<Rightarrow> string \<Rightarrow> os_error + string list" where
  "fs_ListPublished sys s st prefix =
     (case fs_ListPublishedInfo sys s st prefix of Inl e \<Rightarrow> Inl e | Inr infos \<Rightarrow> Inr (map fi_Path infos))"

text \<open>\<open>time.Parse\<close> for the two snapshot name layouts; the result is in nanoseconds since the first day of year 1.
  The layout \<open>15\<close> also accepts an hour of one digit, and a fraction may follow the seconds.\<close>

definition leap :: "int \<Rightarrow> bool" where
  "leap y \<longleftrightarrow> y mod 4 = 0 \<and> (y mod 100 \<noteq> 0 \<or> y mod 400 = 0)"

definition days_in :: "int \<Rightarrow> int \<Rightarrow> int" where
  "days_in y m = (if m = 2 then (if leap y then 29 else 28) else if m \<in> {4, 6, 9, 11} then 30 else 31)"

definition civil_day :: "int \<Rightarrow> int \<Rightarrow> int \<Rightarrow> int" where
  "civil_day y m d =
     365 * (y - 1) + (y - 1) div 4 - (y - 1) div 100 + (y - 1) div 400
       + sum_list (map (\<lambda>k. days_in y (int k)) [1..<nat m]) + (d - 1)"

definition get_num :: "nat \<Rightarrow> string \<Rightarrow> (int \<times> string) option" where
  "get_num n s = (if n \<le> length s \<and> list_all is_digit (take n s) then Some (digits_val (take n s), drop n s) else None)"

definition get_hour :: "string \<Rightarrow> (int \<times> string) option" where
  "get_hour s = (case get_num 2 s of Some x \<Rightarrow> Some x | None \<Rightarrow> get_num 1 s)"

definition eat :: "char \<Rightarrow> string \<Rightarrow> string option" where
  "eat c s = (case s of [] \<Rightarrow> None | x # xs \<Rightarrow> if x = c then Some xs else None)"

definition parse_date :: "string \<Rightarrow> (int \<times> string) option" where
  "parse_date s =
     (case get_num 4 s of None \<Rightarrow> None | Some (y, s1) \<Rightarrow>
      case eat CHR ''-'' s1 of None \<Rightarrow> None | Some s2 \<Rightarrow>
      case get_num 2 s2 of None \<Rightarrow> None | Some (m, s3) \<Rightarrow>
      case eat CHR ''-'' s3 of None \<Rightarrow> None | Some s4 \<Rightarrow>
      case get_num 2 s4 of None \<Rightarrow> None | Some (d, s5) \<Rightarrow>
        if 1 \<le> m \<and> m \<le> 12 \<and> 1 \<le> d \<and> d \<le> days_in y m then Some (civil_day y m d, s5) else None)"

definition parse_fraction :: "string \<Rightarrow> int option" where
  "parse_fraction s =
     (if s = [] then Some 0
      else if 2 \<le> length s \<and> (hd s = CHR ''.'' \<or> hd s = CHR '','') \<and> list_all is_digit (tl s)
      then let ds = take 9 (tl s) in Some (digits_val ds * 10 ^ (9 - length ds))
      else None)"

definition parse_clock :: "string \<Rightarrow> int option" where
  "parse_clock s =
     (case get_hour s of None \<Rightarrow> None | Some (h, s1) \<Rightarrow>
      case eat CHR ''-'' s1 of None \<Rightarrow> None | Some s2 \<Rightarrow>
      case get_num 2 s2 of None \<Rightarrow> None | Some (mi, s3) \<Rightarrow>
      case eat CHR ''-'' s3 of None \<Rightarrow> None | Some s4 \<Rightarrow>
      case get_num 2 s4 of None \<Rightarrow> None | Some (sec, s5) \<Rightarrow>
      case parse_fraction s5 of None \<Rightarrow> None | Some ns \<Rightarrow>
        if h < 24 \<and> mi < 60 \<and> sec < 60 then Some (((h * 60 + mi) * 60 + sec) * 10 ^ 9 + ns) else None)"

definition parseSnapshotID :: "string \<Rightarrow> int option" where
  "parseSnapshotID name =
     (case parse_date name of None \<Rightarrow> None | Some (day, rest) \<Rightarrow>
        let base = day * 86400 * 10 ^ 9
        in if rest = [] then Some base
           else (case eat CHR ''T'' rest of None \<Rightarrow> None | Some clock \<Rightarrow> map_option (\<lambda>c. base + c) (parse_clock clock)))"

text \<open>\<open>os.ReadDir\<close> of the root: the names of the nodes directly below it, sorted.\<close>

definition os_ReadDir :: "os_state \<Rightarrow> string \<Rightarrow> string list" where
  "os_ReadDir st r = sort (filter (\<lambda>n. CHR ''/'' \<notin> set n) (map (path_rel r) (filter (beneath r) (map fst st))))"

definition snapshot_ref :: "sys \<Rightarrow> fs_Store \<Rightarrow> os_state \<Rightarrow> string \<Rightarrow> string \<Rightarrow> SnapshotRef option" where
  "snapshot_ref sys s st osName e =
     (if e = ''current'' \<or> e = ''pool'' then None
      else case parseSnapshotID e of
             None \<Rightarrow> None
           | Some t \<Rightarrow> (case os_Stat sys st (path_join [fs_root s, e, osName]) of
               Inl _ \<Rightarrow> None
             | Inr _ \<Rightarrow> Some \<lparr>sr_ID = e, sr_OS = osName, sr_CreatedAt = t\<rparr>))"

definition fs_ListSnapshots :: "sys \<Rightarrow> fs_Store \<Rightarrow> os_state \<Rightarrow> string \<Rightarrow> os_error + SnapshotRef list" where
  "fs_ListSnapshots sys s st osName =
     (if sys ''ctx'' [] \<or> sys ''readdir'' (fs_root s) then Inl OsError
      else if map_of st (fs_root s) = None then Inl NotExist
      else Inr (sort_key sr_CreatedAt (List.map_filter (snapshot_ref sys s st osName) (os_ReadDir st (fs_root s)))))"

definition fs_ResolveSnapshot :: "sys \<Rightarrow> fs_Store \<Rightarrow> os_state \<Rightarrow> string \<Rightarrow> int \<Rightarrow> os_error + string" where
  "fs_ResolveSnapshot sys s st osName at =
     (case fs_ListSnapshots sys s st osName of
        Inl e \<Rightarrow> Inl e
      | Inr refs \<Rightarrow>
          let chosen = foldl (\<lambda>chosen ref. if \<not> at < sr_CreatedAt ref then sr_ID ref else chosen) [] refs
          in if chosen = [] then Inl NotExist else Inr chosen)"


section \<open>Canonical paths\<close>

text \<open>A path that the guard leaves as it is.  Below a root of ordinary segments, pool and published operations
  address the file \<open>root/path\<close>.\<close>

definition canonical :: "string \<Rightarrow> bool" where
  "canonical p \<longleftrightarrow> p \<noteq> [] \<and> CleanRelPath p = Some p"

definition pool_key :: "string \<Rightarrow> bool" where
  "pool_key p \<longleftrightarrow> canonical p \<and> has_prefix p ''pool/'' \<and> p \<noteq> ''pool/''"

definition published_key :: "string \<Rightarrow> bool" where
  "published_key p \<longleftrightarrow> canonical p \<and> \<not> has_prefix p ''pool/''"

definition root_ok :: "fs_Store \<Rightarrow> bool" where
  "root_ok s \<longleftrightarrow> (\<exists>segs. segs \<noteq> [] \<and> list_all plain_seg segs \<and> s = fs_New (abs_path segs))"

lemma root_okE:
  assumes "root_ok s"
  obtains segs where "segs \<noteq> []" "list_all plain_seg segs" "fs_root s = abs_path segs" "fs_poolRoot s = abs_path (segs @ [''pool''])"
proof -
  obtain segs where g: "segs \<noteq> []" "list_all plain_seg segs" "s = fs_New (abs_path segs)"
    using assms by (auto simp: root_ok_def)
  have "inside ''pool''" by (simp add: inside_def plain_seg_def)
  from path_join_root[OF g(1,2) this] have "fs_poolRoot s = abs_path (segs @ [''pool''])" by (simp add: g(3) fs_New_def)
  with g show ?thesis using that by (simp add: fs_New_def)
qed

lemma abs_path_append: "abs_path (xs @ ys) = abs_path xs @ abs_path ys"
  by (simp add: abs_path_def)

lemma abs_path_split: "abs_path (split_on CHR ''/'' c) = CHR ''/'' # c"
  using abs_path_join[of "split_on CHR ''/'' c"] by simp

lemma canonical_inside: "canonical p \<Longrightarrow> inside p"
  using CleanRelPath_inside by (auto simp: canonical_def)

lemma published_abs: "root_ok s \<Longrightarrow> canonical p \<Longrightarrow> absPublished s p = Some (fs_root s @ ''/'' @ p)"
  by (erule root_okE) (use canonical_inside in \<open>auto simp: canonical_def absPublished_def path_join_root abs_path_append abs_path_split\<close>)

lemma pool_abs:
  assumes "root_ok s" "pool_key p"
  shows "absPool s p = Some (fs_root s @ ''/'' @ p)"
proof -
  obtain q where q: "p = ''pool/'' @ q" "q \<noteq> []" using assms(2) unfolding pool_key_def has_prefix_iff by fastforce
  have "inside q" using inside_trim_pool[OF canonical_inside, of p] assms(2) q by (simp add: pool_key_def trim_prefix_def)
  then have qs: "inside q" .
  obtain segs where g: "segs \<noteq> []" "list_all plain_seg segs" "fs_root s = abs_path segs" "fs_poolRoot s = abs_path (segs @ [''pool''])"
    using root_okE[OF assms(1)] .
  have "list_all plain_seg (segs @ [''pool''])" using g(2) by (simp add: plain_seg_def)
  then have "path_join [fs_poolRoot s, q] = abs_path ((segs @ [''pool'']) @ split_on CHR ''/'' q)"
    using path_join_root[of "segs @ [''pool'']" q] qs q(2) g(4) by simp
  also have "\<dots> = fs_root s @ ''/'' @ p"
    unfolding abs_path_append abs_path_split g(3) q(1) by (simp add: abs_path_def)
  finally have "path_join [fs_poolRoot s, q] = fs_root s @ ''/'' @ p" .
  moreover have "CleanRelPath p = Some p" using assms(2) by (simp add: pool_key_def canonical_def)
  moreover have "trim_prefix p ''pool/'' = q" by (simp add: trim_prefix_def q(1) has_prefix_def)
  ultimately show ?thesis by (simp add: absPool_def)
qed

lemma plain_segs_trailing: "list_all plain_seg ys \<Longrightarrow> clean_segs rooted st (ys @ [[]]) = rev ys @ st"
  by (induction ys arbitrary: st) (auto simp: plain_seg_def)

lemma path_dir_abs:
  assumes "list_all plain_seg (ys @ [y])"
  shows "path_dir (abs_path (ys @ [y])) = (if ys = [] then ''/'' else abs_path ys)"
proof -
  have y: "CHR ''/'' \<notin> set y" using assms by (simp add: plain_seg_def)
  have dir: "cut_last CHR ''/'' (abs_path (ys @ [y])) = Some (abs_path ys, y)"
    using cut_last_append[OF y, of "abs_path ys"] by (simp add: abs_path_def)
  have split: "split_on CHR ''/'' (abs_path ys @ ''/'') = [] # ys @ [[]]"
  proof -
    have "abs_path ys @ ''/'' = join ''/'' ([] # ys @ [[]])"
      by (induction ys) (simp_all add: abs_path_def join_Cons)
    moreover have "CHR ''/'' \<notin> set x" if "x \<in> set ([] # ys @ [[]])" for x
      using that assms by (induction ys) (auto simp: plain_seg_def)
    ultimately show ?thesis using split_on_join[of "[] # ys @ [[]]" "CHR ''/''"] by simp
  qed
  have "hd (abs_path ys @ ''/'') = CHR ''/''" by (cases ys) (simp_all add: abs_path_def)
  then have "path_clean (abs_path ys @ ''/'') = CHR ''/'' # join ''/'' ys"
    using assms by (simp add: path_clean_def split Let_def plain_segs_trailing)
  then show ?thesis using dir by (simp add: path_dir_def abs_path_join)
qed

lemma join_take_length: "length (join ''/'' (take i segs)) \<le> length (join ''/'' segs)"
proof (induction segs arbitrary: i)
  case (Cons s segs)
  show ?case
  proof (cases i)
    case (Suc j)
    then show ?thesis using Cons[of j] by (cases "segs = []"; cases "take j segs = []") (simp_all add: join_Cons)
  qed simp
qed simp

lemma dir_chain_length: "d \<in> set (dir_chain p) \<Longrightarrow> length d \<le> length p"
  using join_take_length[of _ "split_on CHR ''/'' p"] by (auto simp: dir_chain_def Let_def)

text \<open>The parent chain of a file below the root does not contain the file.\<close>

lemma parent_chain:
  assumes "a = abs_path (xs @ [x])" "list_all plain_seg (xs @ [x])"
  shows "a \<notin> set (dir_chain (path_dir a))"
proof
  assume "a \<in> set (dir_chain (path_dir a))"
  then have "length a \<le> length (path_dir a)" by (rule dir_chain_length)
  moreover have "length x > 0" using assms(2) by (simp add: plain_seg_def)
  moreover have "path_dir a = (if xs = [] then ''/'' else abs_path xs)" using path_dir_abs assms by simp
  moreover have "a = abs_path xs @ CHR ''/'' # x" using assms(1) by (simp add: abs_path_def)
  ultimately show False by (auto split: if_splits)
qed


lemma absPool_shape:
  assumes "root_ok s" "absPool s p = Some a"
  obtains xs x r where "a = abs_path (xs @ [x])" "list_all plain_seg (xs @ [x])" "a = fs_root s @ ''/pool'' @ r"
proof -
  obtain segs where g: "segs \<noteq> []" "list_all plain_seg segs" "fs_root s = abs_path segs" "fs_poolRoot s = abs_path (segs @ [''pool''])"
    using root_okE[OF assms(1)] .
  obtain c where c: "inside c" "a = path_join [fs_poolRoot s, c]"
    using assms(2) CleanRelPath_inside inside_trim_pool by (auto simp: absPool_def split: option.splits)
  define cs where "cs = (if c = [] then [] else split_on CHR ''/'' c)"
  have pool: "list_all plain_seg (segs @ [''pool''])" using g(2) by (simp add: plain_seg_def)
  have a: "a = abs_path ((segs @ [''pool'']) @ cs)" using path_join_root[OF _ pool c(1)] c(2) g(4) by (simp add: cs_def)
  have plain: "list_all plain_seg ((segs @ [''pool'']) @ cs)" using pool c(1) by (auto simp: cs_def inside_def)
  have "(segs @ [''pool'']) @ cs = butlast (segs @ ''pool'' # cs) @ [last (segs @ ''pool'' # cs)]"
    using append_butlast_last_id[of "segs @ ''pool'' # cs"] by simp
  moreover have "a = fs_root s @ ''/pool'' @ abs_path cs" unfolding a abs_path_append g(3) by (simp add: abs_path_def)
  ultimately show ?thesis using that a plain by metis
qed


section \<open>What the operations do to files\<close>

definition file_at :: "os_state \<Rightarrow> string \<Rightarrow> (string \<times> int) option" where
  "file_at st p = (case map_of st p of Some (File d t) \<Rightarrow> Some (d, t) | _ \<Rightarrow> None)"

lemma mkdir_fold:
  "file_at (foldl (\<lambda>st d. if map_of st d = None then st @ [(d, Dir 0 now)] else st) st ds) q = file_at st q"
  "q \<notin> set ds \<Longrightarrow> map_of (foldl (\<lambda>st d. if map_of st d = None then st @ [(d, Dir 0 now)] else st) st ds) q = map_of st q"
  by (induction ds arbitrary: st) (auto simp: file_at_def map_add_def split: option.splits)

lemma os_MkdirAll_keeps:
  assumes "os_MkdirAll sys now st p = (r, st1)"
  shows "file_at st1 q = file_at st q" "q \<notin> set (dir_chain p) \<Longrightarrow> map_of st1 q = map_of st q"
  using assms mkdir_fold[where now = now and st = st] by (auto simp: os_MkdirAll_def split: if_splits)

lemma os_Rename_result:
  assumes "os_Rename sys now st d p = (r, st2)"
  shows "r = None \<Longrightarrow> map_of st2 p = Some (File d now)" "r \<noteq> None \<Longrightarrow> st2 = st" "q \<noteq> p \<Longrightarrow> map_of st2 q = map_of st q"
  using assms by (auto simp: os_Rename_def update_conv' split: if_splits option.splits node.splits)

lemma os_Remove_result:
  assumes "os_Remove sys st p = (r, st2)"
  shows "r = None \<Longrightarrow> map_of st2 p = None" "r \<noteq> None \<Longrightarrow> st2 = st" "q \<noteq> p \<Longrightarrow> map_of st2 q = map_of st q"
  using assms by (auto simp: os_Remove_def delete_conv' split: if_splits option.splits)

lemma file_at_cong: "map_of st' q = map_of st q \<Longrightarrow> file_at st' q = file_at st q"
  by (simp add: file_at_def)

lemma fs_PutFile_cases:
  assumes "fs_PutFile sys now s st p d = (r, st')" "absPool s p = Some a"
  shows "st' = st \<and> (r = None \<longrightarrow> map_of st a \<noteq> None) \<or>
    (\<exists>st1 r1. map_of st a = None \<and> os_MkdirAll sys now st (path_dir a) = (r1, st1) \<and>
      (st' = st1 \<and> (r = None \<longrightarrow> map_of st1 a \<noteq> None) \<or> r = None \<and> os_Rename sys now st1 d a = (None, st')))"
proof -
  have ex: "fs_Exists sys s st p = Inr b \<Longrightarrow> b \<longleftrightarrow> map_of st a \<noteq> None" for b
    using assms(2) by (auto simp: fs_Exists_def os_Stat_def split: if_splits option.splits)
  obtain r1 st1 where m: "os_MkdirAll sys now st (path_dir a) = (r1, st1)" by fastforce
  obtain r2 st2 where n: "os_Rename sys now st1 d a = (r2, st2)" by fastforce
  have n2: "r2 \<noteq> None \<Longrightarrow> st2 = st1" "r2 = Some Exist \<Longrightarrow> map_of st1 a \<noteq> None"
    using n by (auto simp: os_Rename_def split: if_splits option.splits node.splits)
  have stat: "os_Stat sys st2 a = Inr x \<Longrightarrow> map_of st2 a \<noteq> None" for x
    by (auto simp: os_Stat_def split: if_splits option.splits)
  show ?thesis
    using assms ex m n n2 stat
    by (auto simp: fs_PutFile_def split: sum.splits bool.splits option.splits if_splits)
qed

text \<open>C21: a pool file is written once.  A successful \<open>PutFile\<close> leaves at the path what was there before, or the
  complete new content when there was nothing; a failed one leaves it unchanged; and no other file changes.\<close>

theorem PutFile_first_wins:
  assumes "root_ok s" "absPool s p = Some a" "fs_PutFile sys now s st p d = (r, st')"
  shows "(r = None \<longrightarrow> map_of st' a = (case map_of st a of Some n \<Rightarrow> Some n | None \<Rightarrow> Some (File d now))) \<and>
    (r \<noteq> None \<longrightarrow> file_at st' a = file_at st a) \<and> (\<forall>q. q \<noteq> a \<longrightarrow> file_at st' q = file_at st q)"
proof -
  obtain xs x where a: "a = abs_path (xs @ [x])" "list_all plain_seg (xs @ [x])" using absPool_shape[OF assms(1,2)] by metis
  have keep: "map_of st1 a = map_of st a" "file_at st1 q = file_at st q" if "os_MkdirAll sys now st (path_dir a) = (r1, st1)" for st1 r1 q
    using os_MkdirAll_keeps[OF that] parent_chain[OF a] by auto
  from fs_PutFile_cases[OF assms(3,2)] show ?thesis
  proof (elim disjE exE conjE)
    fix st1 r1 assume m: "map_of st a = None" "os_MkdirAll sys now st (path_dir a) = (r1, st1)" "r = None"
      "os_Rename sys now st1 d a = (None, st')"
    have "file_at st' q = file_at st q" if "q \<noteq> a" for q
      using os_Rename_result(3)[OF m(4) that] keep(2)[OF m(2)] file_at_cong by metis
    then show ?thesis using os_Rename_result(1)[OF m(4)] m(1,3) by simp
  qed (auto simp: keep split: option.splits)
qed

theorem PutFile_first_wins_witness:
  "\<exists>st'. fs_PutFile (\<lambda>_ _. False) 7 (fs_New ''/srv'') [] ''pool/a'' ''new'' = (None, st') \<and>
     map_of st' ''/srv/pool/a'' = Some (File ''new'' 7)"
proof -
  have r: "root_ok (fs_New ''/srv'')"
    unfolding root_ok_def by (rule exI[of _ "[''srv'']"]) (simp add: plain_seg_def abs_path_def)
  have a: "absPool (fs_New ''/srv'') ''pool/a'' = Some ''/srv/pool/a''" by code_simp
  obtain st' where p: "fs_PutFile (\<lambda>_ _. False) 7 (fs_New ''/srv'') [] ''pool/a'' ''new'' = (None, st')"
  proof -
    have "fst (fs_PutFile (\<lambda>_ _. False) 7 (fs_New ''/srv'') [] ''pool/a'' ''new'') = None" by code_simp
    then show ?thesis using that by (metis prod.collapse)
  qed
  from PutFile_first_wins[OF r a p] p show ?thesis by simp
qed


section \<open>What the published listing shows\<close>

lemma filter_update: "(\<And>v. \<not> P (k, v)) \<Longrightarrow> filter P (AList.update k v st) = filter P st"
  by (induction st) auto

lemma filter_mkdir:
  assumes "os_MkdirAll sys now st p = (r, st1)" "\<And>d a b. \<not> P (d, Dir a b)"
  shows "filter P st1 = filter P st"
proof -
  have "filter P (foldl (\<lambda>st d. if map_of st d = None then st @ [(d, Dir 0 now)] else st) st ds) = filter P st" for ds
    by (induction ds arbitrary: st) (auto simp: assms(2))
  then show ?thesis using assms(1) by (auto simp: os_MkdirAll_def split: if_splits)
qed

text \<open>C30: a file stored by \<open>PutFile\<close> never shows up in the listing of the published tree \<open>src\<close>: whatever path it is
  stored at, the listing is the same as before.  The source files of the proxy are stored by \<open>PutFile\<close> at paths
  below \<open>src/\<close>, which the backend places in \<open>pool/src/\<close>, and the garbage collection of sources works from this listing.\<close>

theorem PutFile_not_listed_under_src:
  assumes "root_ok s"
  shows "fs_ListPublishedInfo sys2 s (snd (fs_PutFile sys now s st p d)) ''src'' = fs_ListPublishedInfo sys2 s st ''src''"
proof (cases "absPool s p")
  case None
  then show ?thesis by (simp add: fs_PutFile_def)
next
  case (Some a)
  obtain r st' where put: "fs_PutFile sys now s st p d = (r, st')" by fastforce
  obtain q where a: "a = fs_root s @ ''/pool'' @ q" using absPool_shape[OF assms Some] by metis
  define P where "P = (\<lambda>(p, n). (p = fs_root s @ ''/src'' \<or> beneath (fs_root s @ ''/src'') p) \<and> \<not> is_dir n)"
  have "\<not> P (a, v)" for v by (auto simp: P_def a beneath_def has_prefix_iff)
  then have upd: "filter P (AList.update a v l) = filter P l" for v l by (rule filter_update)
  have mk: "filter P st1 = filter P st" if "os_MkdirAll sys now st (path_dir a) = (r1, st1)" for r1 st1
    by (rule filter_mkdir[OF that]) (simp add: P_def)
  have "filter P st' = filter P st"
    using fs_PutFile_cases[OF put Some] mk upd by (auto simp: os_Rename_def split: if_splits option.splits node.splits)
  moreover have dir: "path_join [fs_root s, path_clean ''src''] = fs_root s @ ''/src''"
  proof -
    obtain segs where g: "segs \<noteq> []" "list_all plain_seg segs" "fs_root s = abs_path segs" using root_okE[OF assms] by metis
    have "path_clean ''src'' = ''src''" "inside ''src''" by code_simp+
    then show ?thesis using path_join_root[OF g(1,2), of "''src''"] g(3) by (simp add: abs_path_def)
  qed
  moreover have "filter (\<lambda>(p, n). \<not> is_dir n) (os_Walk l (fs_root s @ ''/src'')) =
      sort_key (\<lambda>(p, _). split_on CHR ''/'' p) (filter P l)" for l
    by (simp add: os_Walk_def filter_sort P_def case_prod_beta' conj_commute)
  ultimately show ?thesis by (simp add: fs_ListPublishedInfo_def put Let_def)
qed

theorem PutFile_not_listed_under_src_witness:
  "fs_ListPublished (\<lambda>_ _. False) (fs_New ''/srv'')
     (snd (fs_PutFile (\<lambda>_ _. False) 7 (fs_New ''/srv'') [] ''src/debian/a.dsc'' ''x'')) ''src'' = Inr []"
proof -
  have r: "root_ok (fs_New ''/srv'')"
    unfolding root_ok_def by (rule exI[of _ "[''srv'']"]) (simp add: plain_seg_def abs_path_def)
  have "fs_ListPublishedInfo (\<lambda>_ _. False) (fs_New ''/srv'') [] ''src'' = Inr []" by code_simp
  then show ?thesis using PutFile_not_listed_under_src[OF r] by (simp add: fs_ListPublished_def)
qed

text \<open>resolving a time picks a newest snapshot not after it, and fails exactly when every snapshot of the system
  is later.\<close>

theorem ResolveSnapshot_newest:
  assumes "fs_ListSnapshots sys s st osName = Inr refs"
  shows "case fs_ResolveSnapshot sys s st osName at of
      Inl _ \<Rightarrow> list_all (\<lambda>r. at < sr_CreatedAt r) refs
    | Inr sid \<Rightarrow> list_ex (\<lambda>r. sr_ID r = sid \<and> sr_CreatedAt r \<le> at \<and>
        list_all (\<lambda>r'. sr_CreatedAt r' \<le> at \<longrightarrow> sr_CreatedAt r' \<le> sr_CreatedAt r) refs) refs"
proof -
  have "parseSnapshotID [] = None" by code_simp
  then have none: "snapshot_ref sys s st osName e = Some r \<Longrightarrow> sr_ID r \<noteq> []" for e r
    by (auto simp: snapshot_ref_def split: if_splits option.splits sum.splits)
  have sorted: "sorted (map sr_CreatedAt refs)" and ids: "\<And>r. r \<in> set refs \<Longrightarrow> sr_ID r \<noteq> []"
    using assms none by (auto simp: fs_ListSnapshots_def List.map_filter_def split: if_splits)
  let ?f = "\<lambda>chosen ref. if \<not> at < sr_CreatedAt ref then sr_ID ref else chosen"
  have "(foldl ?f [] refs = [] \<longleftrightarrow> list_all (\<lambda>r. at < sr_CreatedAt r) refs) \<and>
      (foldl ?f [] refs \<noteq> [] \<longrightarrow> list_ex (\<lambda>r. sr_ID r = foldl ?f [] refs \<and> sr_CreatedAt r \<le> at \<and>
        list_all (\<lambda>r'. sr_CreatedAt r' \<le> at \<longrightarrow> sr_CreatedAt r' \<le> sr_CreatedAt r) refs) refs)"
    using sorted ids
  proof (induction refs rule: rev_induct)
    case (snoc r refs)
    then show ?case by (auto simp: sorted_append list_ex_iff list_all_iff)
  qed simp
  then show ?thesis using assms by (auto simp: fs_ResolveSnapshot_def Let_def)
qed


theorem ResolveSnapshot_newest_witness:
  "fs_ResolveSnapshot (\<lambda>_ _. False) (fs_New ''/srv'')
     [(''/srv'', Dir 0 0), (''/srv/2026-01-02/debian'', Dir 0 0), (''/srv/2026-01-02'', Dir 0 0),
      (''/srv/2026-01-03'', Dir 0 0), (''/srv/2026-01-03/debian'', Dir 0 0)] ''debian'' (10 ^ 30) = Inr ''2026-01-03''"
proof -
  let ?st = "[(''/srv'', Dir 0 0), (''/srv/2026-01-02/debian'', Dir 0 0), (''/srv/2026-01-02'', Dir 0 0),
      (''/srv/2026-01-03'', Dir 0 0), (''/srv/2026-01-03/debian'', Dir 0 0)]"
  have l: "fs_ListSnapshots (\<lambda>_ _. False) (fs_New ''/srv'') ?st ''debian'' =
      Inr [\<lparr>sr_ID = ''2026-01-02'', sr_OS = ''debian'', sr_CreatedAt = 63902908800000000000\<rparr>,
           \<lparr>sr_ID = ''2026-01-03'', sr_OS = ''debian'', sr_CreatedAt = 63902995200000000000\<rparr>]" by code_simp
  show ?thesis
    using ResolveSnapshot_newest[OF l, of "10 ^ 30"] l
    by (auto simp: fs_ResolveSnapshot_def split: sum.splits)
qed

end
