(* ===== verification/FileCache.thy ===== *)
theory FileCache
  imports FsStore
begin

text \<open>
  The size-bounded in-process file cache around a storage backend (\<open>src/internal/storage/filecache/filecache.go\<close>).
  The wrapped backend is a record of its operations over its own state; every call takes an environment, which
  stands for the clock and the failures of that moment.  The linked list \<open>order\<close> is a list, most recently used
  first, and the index \<open>byPath\<close> is the search in it (every element carries its path).
\<close>

section \<open>Definitions\<close>

record ('e, 'b) backend =
  be_Exists :: "'e \<Rightarrow> 'b \<Rightarrow> string \<Rightarrow> os_error + bool"
  be_Stat :: "'e \<Rightarrow> 'b \<Rightarrow> string \<Rightarrow> os_error + FileInfo"
  be_Open :: "'e \<Rightarrow> 'b \<Rightarrow> string \<Rightarrow> os_error + string"
  be_StatPublished :: "'e \<Rightarrow> 'b \<Rightarrow> string \<Rightarrow> os_error + FileInfo"
  be_OpenPublished :: "'e \<Rightarrow> 'b \<Rightarrow> string \<Rightarrow> os_error + string"
  be_PutFile :: "'e \<Rightarrow> 'b \<Rightarrow> string \<Rightarrow> string \<Rightarrow> os_error option \<times> 'b"
  be_WriteFile :: "'e \<Rightarrow> 'b \<Rightarrow> string \<Rightarrow> string \<Rightarrow> os_error option \<times> 'b"
  be_Delete :: "'e \<Rightarrow> 'b \<Rightarrow> string \<Rightarrow> os_error option \<times> 'b"
  be_DeletePublished :: "'e \<Rightarrow> 'b \<Rightarrow> string \<Rightarrow> os_error option \<times> 'b"

record centry =
  ce_path :: string
  ce_data :: string
  ce_info :: FileInfo

record fcache =
  fc_order :: "centry list"
  fc_curBytes :: int
  fc_maxBytes :: int

definition maxEntryFraction :: int where "maxEntryFraction = 10"

definition maxEntryAbsoluteBytes :: int where "maxEntryAbsoluteBytes = 64 * 1024 * 1024"

text \<open>\<open>None\<close>: the store is returned unwrapped.\<close>

definition fc_Wrap :: "int \<Rightarrow> fcache option" where
  "fc_Wrap maxBytes = (if maxBytes \<le> 0 then None else Some \<lparr>fc_order = [], fc_curBytes = 0, fc_maxBytes = maxBytes\<rparr>)"

definition maxEntryBytes :: "fcache \<Rightarrow> int" where
  "maxEntryBytes c =
     (let limit = fc_maxBytes c div maxEntryFraction
      in if limit > maxEntryAbsoluteBytes then maxEntryAbsoluteBytes else limit)"

definition fc_find :: "fcache \<Rightarrow> string \<Rightarrow> centry option" where
  "fc_find c path = List.find (\<lambda>e. ce_path e = path) (fc_order c)"

definition without :: "string \<Rightarrow> centry list \<Rightarrow> centry list" where
  "without path es = filter (\<lambda>e. ce_path e \<noteq> path) es"

definition fc_get :: "fcache \<Rightarrow> string \<Rightarrow> centry option \<times> fcache" where
  "fc_get c path =
     (case fc_find c path of
        None \<Rightarrow> (None, c)
      | Some e \<Rightarrow> (Some e, c\<lparr>fc_order := e # without path (fc_order c)\<rparr>))"

definition fc_removeLocked :: "fcache \<Rightarrow> string \<Rightarrow> fcache" where
  "fc_removeLocked c path =
     (case fc_find c path of
        None \<Rightarrow> c
      | Some e \<Rightarrow> c\<lparr>fc_curBytes := fc_curBytes c - int (length (ce_data e)), fc_order := without path (fc_order c)\<rparr>)"

definition fc_PurgePrefix :: "fcache \<Rightarrow> string \<Rightarrow> fcache" where
  "fc_PurgePrefix c prefix = foldl fc_removeLocked c (filter (\<lambda>p. has_prefix p prefix) (map ce_path (fc_order c)))"

function fc_evict :: "int \<Rightarrow> fcache \<Rightarrow> fcache" where
  "fc_evict sz c =
     (if fc_curBytes c + sz > fc_maxBytes c \<and> fc_order c \<noteq> []
      then fc_evict sz (c\<lparr>fc_order := butlast (fc_order c),
             fc_curBytes := fc_curBytes c - int (length (ce_data (last (fc_order c))))\<rparr>)
      else c)"
  by pat_completeness auto
termination by (relation "measure (\<lambda>(_, c). length (fc_order c))") auto

declare fc_evict.simps [simp del]

definition fc_put :: "fcache \<Rightarrow> string \<Rightarrow> string \<Rightarrow> FileInfo \<Rightarrow> fcache" where
  "fc_put c path data info =
     (let sz = int (length data)
      in if sz > maxEntryBytes c then c
         else let c = fc_evict sz (fc_removeLocked c path)
              in c\<lparr>fc_order := \<lparr>ce_path = path, ce_data = data, ce_info = info\<rparr> # fc_order c,
                   fc_curBytes := fc_curBytes c + sz\<rparr>)"

text \<open>Reads.\<close>

definition fc_Exists :: "('e, 'b) backend \<Rightarrow> 'e \<Rightarrow> fcache \<times> 'b \<Rightarrow> string \<Rightarrow> (os_error + bool) \<times> fcache" where
  "fc_Exists be e s path =
     (case fc_get (fst s) path of (Some _, c) \<Rightarrow> (Inr True, c) | (None, c) \<Rightarrow> (be_Exists be e (snd s) path, c))"

definition fc_Stat :: "('e \<Rightarrow> 'b \<Rightarrow> string \<Rightarrow> os_error + FileInfo) \<Rightarrow> 'e \<Rightarrow> fcache \<times> 'b \<Rightarrow> string \<Rightarrow> (os_error + FileInfo) \<times> fcache" where
  "fc_Stat statFn e s path =
     (case fc_get (fst s) path of (Some x, c) \<Rightarrow> (Inr (ce_info x), c) | (None, c) \<Rightarrow> (statFn e (snd s) path, c))"

definition cachedOpen :: "('e \<Rightarrow> 'b \<Rightarrow> string \<Rightarrow> os_error + FileInfo) \<Rightarrow> ('e \<Rightarrow> 'b \<Rightarrow> string \<Rightarrow> os_error + string) \<Rightarrow>
    'e \<Rightarrow> fcache \<times> 'b \<Rightarrow> string \<Rightarrow> (os_error + string) \<times> fcache" where
  "cachedOpen statFn openFn e s path =
     (case fc_get (fst s) path of
        (Some x, c) \<Rightarrow> (Inr (ce_data x), c)
      | (None, c) \<Rightarrow>
          (case statFn e (snd s) path of
             Inl _ \<Rightarrow> (openFn e (snd s) path, c)
           | Inr info \<Rightarrow>
               if fi_Size info > maxEntryBytes c then (openFn e (snd s) path, c)
               else (case openFn e (snd s) path of
                       Inl err \<Rightarrow> (Inl err, c)
                     | Inr data \<Rightarrow> (Inr data, fc_put c path data info))))"

text \<open>Writes: a successful one invalidates the exact path.\<close>

definition fc_write :: "(os_error option \<times> 'b) \<Rightarrow> fcache \<Rightarrow> string \<Rightarrow> os_error option \<times> fcache \<times> 'b" where
  "fc_write res c path = (case res of (err, b) \<Rightarrow> (err, if err = None then fc_removeLocked c path else c, b))"

text \<open>The calls a client can make, their results, and one step of the wrapped and of the bare store.\<close>

datatype cop = CExists string | CStat string | COpen string | CStatPublished string | COpenPublished string
  | CPutFile string string | CWriteFile string string | CDelete string | CDeletePublished string | CPurge string

datatype cres = RBool "os_error + bool" | RInfo "os_error + FileInfo" | RData "os_error + string" | RErr "os_error option"

fun step_cached :: "('e, 'b) backend \<Rightarrow> 'e \<times> cop \<Rightarrow> fcache \<times> 'b \<Rightarrow> cres \<times> fcache \<times> 'b" where
  "step_cached be (e, CExists p) s = (case fc_Exists be e s p of (r, c) \<Rightarrow> (RBool r, c, snd s))"
| "step_cached be (e, CStat p) s = (case fc_Stat (be_Stat be) e s p of (r, c) \<Rightarrow> (RInfo r, c, snd s))"
| "step_cached be (e, COpen p) s = (case cachedOpen (be_Stat be) (be_Open be) e s p of (r, c) \<Rightarrow> (RData r, c, snd s))"
| "step_cached be (e, CStatPublished p) s = (case fc_Stat (be_StatPublished be) e s p of (r, c) \<Rightarrow> (RInfo r, c, snd s))"
| "step_cached be (e, COpenPublished p) s =
     (case cachedOpen (be_StatPublished be) (be_OpenPublished be) e s p of (r, c) \<Rightarrow> (RData r, c, snd s))"
| "step_cached be (e, CPutFile p d) s = (case fc_write (be_PutFile be e (snd s) p d) (fst s) p of (r, s') \<Rightarrow> (RErr r, s'))"
| "step_cached be (e, CWriteFile p d) s = (case fc_write (be_WriteFile be e (snd s) p d) (fst s) p of (r, s') \<Rightarrow> (RErr r, s'))"
| "step_cached be (e, CDelete p) s = (case fc_write (be_Delete be e (snd s) p) (fst s) p of (r, s') \<Rightarrow> (RErr r, s'))"
| "step_cached be (e, CDeletePublished p) s = (case fc_write (be_DeletePublished be e (snd s) p) (fst s) p of (r, s') \<Rightarrow> (RErr r, s'))"
| "step_cached be (e, CPurge p) s = (RErr None, fc_PurgePrefix (fst s) p, snd s)"

fun step_bare :: "('e, 'b) backend \<Rightarrow> 'e \<times> cop \<Rightarrow> 'b \<Rightarrow> cres \<times> 'b" where
  "step_bare be (e, CExists p) b = (RBool (be_Exists be e b p), b)"
| "step_bare be (e, CStat p) b = (RInfo (be_Stat be e b p), b)"
| "step_bare be (e, COpen p) b = (RData (be_Open be e b p), b)"
| "step_bare be (e, CStatPublished p) b = (RInfo (be_StatPublished be e b p), b)"
| "step_bare be (e, COpenPublished p) b = (RData (be_OpenPublished be e b p), b)"
| "step_bare be (e, CPutFile p d) b = (case be_PutFile be e b p d of (r, b') \<Rightarrow> (RErr r, b'))"
| "step_bare be (e, CWriteFile p d) b = (case be_WriteFile be e b p d of (r, b') \<Rightarrow> (RErr r, b'))"
| "step_bare be (e, CDelete p) b = (case be_Delete be e b p of (r, b') \<Rightarrow> (RErr r, b'))"
| "step_bare be (e, CDeletePublished p) b = (case be_DeletePublished be e b p of (r, b') \<Rightarrow> (RErr r, b'))"
| "step_bare be (e, CPurge p) b = (RErr None, b)"

fun run_cached :: "('e, 'b) backend \<Rightarrow> ('e \<times> cop) list \<Rightarrow> fcache \<times> 'b \<Rightarrow> cres list \<times> fcache \<times> 'b" where
  "run_cached be [] s = ([], s)"
| "run_cached be (x # xs) s = (case step_cached be x s of (r, s1) \<Rightarrow> case run_cached be xs s1 of (rs, s2) \<Rightarrow> (r # rs, s2))"

fun run_bare :: "('e, 'b) backend \<Rightarrow> ('e \<times> cop) list \<Rightarrow> 'b \<Rightarrow> cres list \<times> 'b" where
  "run_bare be [] b = ([], b)"
| "run_bare be (x # xs) b = (case step_bare be x b of (r, b1) \<Rightarrow> case run_bare be xs b1 of (rs, b2) \<Rightarrow> (r # rs, b2))"

text \<open>The filesystem backend as such a record; the environment is the failing calls and the clock.\<close>

definition fs_backend :: "fs_Store \<Rightarrow> (sys \<times> int, os_state) backend" where
  "fs_backend s =
     \<lparr>be_Exists = (\<lambda>e b. fs_Exists (fst e) s b), be_Stat = (\<lambda>e b. fs_Stat (fst e) s b), be_Open = (\<lambda>e b. fs_Open (fst e) s b),
      be_StatPublished = (\<lambda>e b. fs_StatPublished (fst e) s b), be_OpenPublished = (\<lambda>e b. fs_OpenPublished (fst e) s b),
      be_PutFile = (\<lambda>e b. fs_PutFile (fst e) (snd e) s b), be_WriteFile = (\<lambda>e b. fs_WriteFile (fst e) (snd e) s b),
      be_Delete = (\<lambda>e b. fs_Delete (fst e) s b), be_DeletePublished = (\<lambda>e b. fs_DeletePublished (fst e) s b)\<rparr>"


section \<open>The bound\<close>

definition bytes_of :: "centry list \<Rightarrow> int" where
  "bytes_of es = sum_list (map (\<lambda>e. int (length (ce_data e))) es)"

definition cache_ok :: "fcache \<Rightarrow> bool" where
  "cache_ok c \<longleftrightarrow> distinct (map ce_path (fc_order c)) \<and> fc_curBytes c = bytes_of (fc_order c) \<and>
     fc_curBytes c \<le> fc_maxBytes c \<and> list_all (\<lambda>e. int (length (ce_data e)) \<le> maxEntryBytes c) (fc_order c)"

lemma bytes_of_simps [simp]: "bytes_of [] = 0" "bytes_of (e # es) = int (length (ce_data e)) + bytes_of es"
  "bytes_of (es @ fs) = bytes_of es + bytes_of fs"
  by (simp_all add: bytes_of_def)

lemma bytes_of_nonneg [simp]: "0 \<le> bytes_of es"
  by (induction es) simp_all

lemma without_distinct: "distinct (map ce_path es) \<Longrightarrow> distinct (map ce_path (without p es))"
  by (induction es) (auto simp: without_def)

lemma without_not_in: "p \<notin> ce_path ` set (without p es)"
  by (auto simp: without_def)

lemma find_split:
  assumes "distinct (map ce_path es)" "List.find (\<lambda>e. ce_path e = p) es = Some e"
  shows "bytes_of es = int (length (ce_data e)) + bytes_of (without p es)" "e \<in> set es" "ce_path e = p"
  using assms
proof (induction es)
  case (Cons x es)
  {
    case 1
    have "ce_path x = p \<Longrightarrow> without p es = es" using 1(1) unfolding without_def filter_id_conv by (metis distinct.simps(2) image_eqI list.simps(9) set_map)
    then show ?case using 1 Cons by (auto simp: without_def split: if_splits)
  next
    case 2
    then show ?case using Cons by (auto split: if_splits)
  next
    case 3
    then show ?case using Cons by (auto split: if_splits)
  }
qed simp_all

lemma fc_get_ok:
  assumes "cache_ok c" "fc_get c p = (r, c')"
  shows "cache_ok c' \<and> fc_maxBytes c' = fc_maxBytes c \<and> set (fc_order c') = set (fc_order c)"
proof (cases "fc_find c p")
  case (Some e)
  have d: "distinct (map ce_path (fc_order c))" using assms(1) by (simp add: cache_ok_def)
  note sp = find_split[OF d Some[unfolded fc_find_def]]
  have c': "c' = c\<lparr>fc_order := e # without p (fc_order c)\<rparr>" using assms(2) Some by (simp add: fc_get_def)
  have same: "set (e # without p (fc_order c)) = set (fc_order c)"
    using sp(2,3) d by (auto simp: without_def distinct_map inj_on_def)
  show ?thesis
    using assms(1) sp without_distinct[OF d, of p] without_not_in[of p "fc_order c"] same
    by (auto simp: c' cache_ok_def maxEntryBytes_def list_all_iff)
qed (use assms in \<open>auto simp: fc_get_def\<close>)

lemma fc_removeLocked_ok:
  assumes "cache_ok c"
  shows "cache_ok (fc_removeLocked c p) \<and> fc_maxBytes (fc_removeLocked c p) = fc_maxBytes c \<and>
    set (fc_order (fc_removeLocked c p)) = {e \<in> set (fc_order c). ce_path e \<noteq> p}"
proof (cases "fc_find c p")
  case None
  then have "fc_removeLocked c p = c" by (simp add: fc_removeLocked_def)
  moreover have "p \<notin> ce_path ` set (fc_order c)" using None by (auto simp: fc_find_def find_None_iff)
  ultimately show ?thesis using assms by auto
next
  case (Some e)
  have d: "distinct (map ce_path (fc_order c))" using assms by (simp add: cache_ok_def)
  note sp = find_split[OF d Some[unfolded fc_find_def]]
  then show ?thesis
    using assms without_distinct[OF d, of p] Some
    by (auto simp: fc_removeLocked_def cache_ok_def maxEntryBytes_def list_all_iff without_def)
qed

lemma fc_evict_ok:
  assumes "cache_ok c" "0 \<le> sz" "sz \<le> maxEntryBytes c"
  shows "cache_ok (fc_evict sz c) \<and> fc_maxBytes (fc_evict sz c) = fc_maxBytes c \<and>
    set (fc_order (fc_evict sz c)) \<subseteq> set (fc_order c) \<and> fc_curBytes (fc_evict sz c) + sz \<le> fc_maxBytes c"
  using assms
proof (induction sz c rule: fc_evict.induct)
  case (1 sz c)
  let ?c = "c\<lparr>fc_order := butlast (fc_order c), fc_curBytes := fc_curBytes c - int (length (ce_data (last (fc_order c))))\<rparr>"
  show ?case
  proof (cases "fc_curBytes c + sz > fc_maxBytes c \<and> fc_order c \<noteq> []")
    case True
    then obtain es e where es: "fc_order c = es @ [e]" by (metis append_butlast_last_id)
    have ok: "cache_ok ?c" using "1.prems"(1) by (simp add: cache_ok_def es maxEntryBytes_def)
    have me: "sz \<le> maxEntryBytes ?c" using "1.prems"(3) by (simp add: maxEntryBytes_def)
    from "1.IH"[OF True ok "1.prems"(2) me] show ?thesis
      using True by (subst (1 2 3 4) fc_evict.simps) (auto simp: es)
  next
    case False
    have "sz \<le> fc_maxBytes c" if "fc_order c = []"
      using "1.prems" that by (auto simp: maxEntryBytes_def maxEntryFraction_def Let_def cache_ok_def split: if_splits)
    then show ?thesis
      using False "1.prems"(1) by (subst (1 2 3 4) fc_evict.simps) (auto simp: cache_ok_def)
  qed
qed

lemma fc_put_ok:
  assumes "cache_ok c"
  shows "cache_ok (fc_put c p d i) \<and> fc_maxBytes (fc_put c p d i) = fc_maxBytes c \<and>
    set (fc_order (fc_put c p d i)) \<subseteq> set (fc_order c) \<union> {\<lparr>ce_path = p, ce_data = d, ce_info = i\<rparr>}"
proof (cases "int (length d) > maxEntryBytes c")
  case False
  let ?c1 = "fc_removeLocked c p"
  let ?c2 = "fc_evict (int (length d)) ?c1"
  have c1: "cache_ok ?c1" "fc_maxBytes ?c1 = fc_maxBytes c" "set (fc_order ?c1) = {e \<in> set (fc_order c). ce_path e \<noteq> p}"
    using fc_removeLocked_ok[OF assms] by auto
  then have "maxEntryBytes ?c1 = maxEntryBytes c" by (simp add: maxEntryBytes_def)
  with fc_evict_ok[OF c1(1), of "int (length d)"] False
  have c2: "cache_ok ?c2" "fc_maxBytes ?c2 = fc_maxBytes ?c1" "set (fc_order ?c2) \<subseteq> set (fc_order ?c1)"
    "fc_curBytes ?c2 + int (length d) \<le> fc_maxBytes ?c1" by auto
  have p: "p \<notin> ce_path ` set (fc_order ?c2)" using c2(3) c1(3) by auto
  show ?thesis
    using False c1 c2 p by (auto simp: fc_put_def Let_def cache_ok_def maxEntryBytes_def)
qed (use assms in \<open>auto simp: fc_put_def\<close>)


lemma fc_purge_ok:
  assumes "cache_ok c"
  shows "cache_ok (fc_PurgePrefix c prefix) \<and> fc_maxBytes (fc_PurgePrefix c prefix) = fc_maxBytes c \<and>
    set (fc_order (fc_PurgePrefix c prefix)) \<subseteq> set (fc_order c)"
proof -
  have "cache_ok c \<Longrightarrow> cache_ok (foldl fc_removeLocked c ps) \<and> fc_maxBytes (foldl fc_removeLocked c ps) = fc_maxBytes c \<and>
      set (fc_order (foldl fc_removeLocked c ps)) \<subseteq> set (fc_order c)" for ps
  proof (induction ps arbitrary: c)
    case (Cons p ps)
    show ?case using Cons.IH[of "fc_removeLocked c p"] fc_removeLocked_ok[OF Cons.prems, of p] by auto
  qed simp
  then show ?thesis using assms by (simp add: fc_PurgePrefix_def)
qed

lemma cachedOpen_ok:
  assumes "cache_ok (fst s)" "cachedOpen statFn openFn e s p = (r, c)"
  shows "cache_ok c \<and> fc_maxBytes c = fc_maxBytes (fst s)"
proof -
  obtain x c1 where g: "fc_get (fst s) p = (x, c1)" by fastforce
  note ok = fc_get_ok[OF assms(1) g]
  then show ?thesis
    using assms(2) g fc_put_ok[of c1 p] by (auto simp: cachedOpen_def split: option.splits sum.splits if_splits)
qed

lemma fc_write_ok: "cache_ok c \<Longrightarrow> fc_write res c p = (q, s') \<Longrightarrow> cache_ok (fst s') \<and> fc_maxBytes (fst s') = fc_maxBytes c"
  using fc_removeLocked_ok[of c p] by (auto simp: fc_write_def split: prod.splits if_splits)

lemma step_cached_ok:
  assumes "cache_ok (fst s)" "step_cached be x s = (r, s')"
  shows "cache_ok (fst s') \<and> fc_maxBytes (fst s') = fc_maxBytes (fst s)"
proof -
  obtain e op where x: "x = (e, op)" by (cases x)
  note g = fc_get_ok[OF assms(1)]
  show ?thesis
  proof (cases op)
    case (CExists p)
    then show ?thesis using assms x g[of p] by (auto simp: fc_Exists_def split: prod.splits option.splits)
  next
    case (CStat p)
    then show ?thesis using assms x g[of p] by (auto simp: fc_Stat_def split: prod.splits option.splits)
  next
    case (CStatPublished p)
    then show ?thesis using assms x g[of p] by (auto simp: fc_Stat_def split: prod.splits option.splits)
  next
    case (COpen p)
    then show ?thesis using assms x cachedOpen_ok[OF assms(1), of "be_Stat be" "be_Open be" e p] by (auto split: prod.splits)
  next
    case (COpenPublished p)
    then show ?thesis using assms x cachedOpen_ok[OF assms(1), of "be_StatPublished be" "be_OpenPublished be" e p] by (auto split: prod.splits)
  next
    case (CPurge p)
    then show ?thesis using assms x fc_purge_ok by auto
  qed (use assms x in \<open>auto split: prod.splits dest!: fc_write_ok[OF assms(1)]\<close>)
qed

lemma run_cached_ok:
  assumes "cache_ok (fst s)"
  shows "cache_ok (fst (snd (run_cached be xs s))) \<and> fc_maxBytes (fst (snd (run_cached be xs s))) = fc_maxBytes (fst s)"
  using assms
proof (induction xs arbitrary: s)
  case (Cons x xs)
  obtain r s1 where st: "step_cached be x s = (r, s1)" by (cases "step_cached be x s")
  from Cons.IH[of s1] step_cached_ok[OF Cons.prems st] show ?case by (cases "run_cached be xs s1") (simp add: st)
qed simp

text \<open>C20: the memory bound of the cache: after any sequence of calls on any backend, the bytes held are the sum of the
  entries, at most the configured size, and no entry exceeds a tenth of it or 64 MiB; no path is held twice.\<close>

theorem filecache_bounded:
  assumes "fc_Wrap maxBytes = Some c0" "run_cached be calls (c0, b) = (rs, c, b')"
  shows "bytes_of (fc_order c) = fc_curBytes c \<and> fc_curBytes c \<le> maxBytes \<and>
    list_all (\<lambda>e. int (length (ce_data e)) \<le> min (maxBytes div 10) (64 * 1024 * 1024)) (fc_order c) \<and>
    distinct (map ce_path (fc_order c))"
proof -
  have c0: "cache_ok c0" "fc_maxBytes c0 = maxBytes" using assms(1) by (auto simp: fc_Wrap_def cache_ok_def split: if_splits)
  have "cache_ok c" "fc_maxBytes c = maxBytes" using run_cached_ok[of "(c0, b)" be calls] c0 assms(2) by simp_all
  moreover have "maxEntryBytes c = min (maxBytes div 10) (64 * 1024 * 1024)"
    using \<open>fc_maxBytes c = maxBytes\<close> by (simp add: maxEntryBytes_def maxEntryFraction_def maxEntryAbsoluteBytes_def Let_def min_def)
  ultimately show ?thesis by (simp add: cache_ok_def)
qed


section \<open>Transparency\<close>

text \<open>The calls a client may make when \<open>pkey\<close> are the paths it uses with pool calls and \<open>qkey\<close> those it uses with
  published calls.\<close>

fun call_ok :: "(string \<Rightarrow> bool) \<Rightarrow> (string \<Rightarrow> bool) \<Rightarrow> cop \<Rightarrow> bool" where
  "call_ok pkey qkey (CExists p) = pkey p"
| "call_ok pkey qkey (CStat p) = pkey p"
| "call_ok pkey qkey (COpen p) = pkey p"
| "call_ok pkey qkey (CPutFile p _) = pkey p"
| "call_ok pkey qkey (CDelete p) = pkey p"
| "call_ok pkey qkey (CStatPublished p) = qkey p"
| "call_ok pkey qkey (COpenPublished p) = qkey p"
| "call_ok pkey qkey (CWriteFile p _) = qkey p"
| "call_ok pkey qkey (CDeletePublished p) = qkey p"
| "call_ok pkey qkey (CPurge _) = True"

fun is_read :: "cop \<Rightarrow> bool" where
  "is_read (CExists _) = True"
| "is_read (CStat _) = True"
| "is_read (COpen _) = True"
| "is_read (CStatPublished _) = True"
| "is_read (COpenPublished _) = True"
| "is_read _ = False"

text \<open>The behaviour the bare backend allows: every write answers and acts as the backend does, every read answers as
  the backend does or as it would without the failures of the moment.\<close>

fun allowed :: "('e, 'b) backend \<Rightarrow> 'e \<Rightarrow> ('e \<times> cop) list \<Rightarrow> 'b \<Rightarrow> cres list \<Rightarrow> 'b \<Rightarrow> bool" where
  "allowed be ideal [] b rs b' \<longleftrightarrow> rs = [] \<and> b' = b"
| "allowed be ideal (x # xs) b [] b' \<longleftrightarrow> False"
| "allowed be ideal (x # xs) b (r # rs) b' \<longleftrightarrow>
     (r = fst (step_bare be x b) \<or> is_read (snd x) \<and> r = fst (step_bare be (ideal, snd x) b)) \<and>
     allowed be ideal xs (snd (step_bare be x b)) rs b'"

text \<open>What the cache relies on: a backend whose files have a content (bytes and description) on the keys the client
  uses; a successful read returns it, a read in the ideal environment does not fail on a file, and a call changes at
  most the content at its own path, and nothing when it fails.\<close>

locale coherent_backend =
  fixes be :: "('e, 'b) backend" and ideal :: 'e and content :: "'b \<Rightarrow> string \<Rightarrow> (string \<times> FileInfo) option"
    and pkey qkey :: "string \<Rightarrow> bool"
  assumes Stat_content: "pkey p \<Longrightarrow> be_Stat be e b p = Inr i \<Longrightarrow> content b p = Some x \<Longrightarrow> snd x = i"
    and Open_content: "pkey p \<Longrightarrow> be_Open be e b p = Inr d \<Longrightarrow> \<exists>i. content b p = Some (d, i)"
    and StatPublished_content: "qkey p \<Longrightarrow> be_StatPublished be e b p = Inr i \<Longrightarrow> content b p = Some x \<Longrightarrow> snd x = i"
    and OpenPublished_content: "qkey p \<Longrightarrow> be_OpenPublished be e b p = Inr d \<Longrightarrow> \<exists>i. content b p = Some (d, i)"
    and ideal_pool: "pkey p \<Longrightarrow> content b p = Some (d, i) \<Longrightarrow>
      be_Exists be ideal b p = Inr True \<and> be_Stat be ideal b p = Inr i \<and> be_Open be ideal b p = Inr d"
    and ideal_published: "qkey p \<Longrightarrow> content b p = Some (d, i) \<Longrightarrow>
      be_StatPublished be ideal b p = Inr i \<and> be_OpenPublished be ideal b p = Inr d"
    and PutFile_frame: "pkey p \<Longrightarrow> pkey q \<or> qkey q \<Longrightarrow> be_PutFile be e b p d = (r, b') \<Longrightarrow> q \<noteq> p \<or> r \<noteq> None \<Longrightarrow>
      content b' q = content b q"
    and WriteFile_frame: "qkey p \<Longrightarrow> pkey q \<or> qkey q \<Longrightarrow> be_WriteFile be e b p d = (r, b') \<Longrightarrow> q \<noteq> p \<or> r \<noteq> None \<Longrightarrow>
      content b' q = content b q"
    and Delete_frame: "pkey p \<Longrightarrow> pkey q \<or> qkey q \<Longrightarrow> be_Delete be e b p = (r, b') \<Longrightarrow> q \<noteq> p \<or> r \<noteq> None \<Longrightarrow>
      content b' q = content b q"
    and DeletePublished_frame: "qkey p \<Longrightarrow> pkey q \<or> qkey q \<Longrightarrow> be_DeletePublished be e b p = (r, b') \<Longrightarrow> q \<noteq> p \<or> r \<noteq> None \<Longrightarrow>
      content b' q = content b q"
begin

definition coherent :: "fcache \<Rightarrow> 'b \<Rightarrow> bool" where
  "coherent c b \<longleftrightarrow> cache_ok c \<and> (\<forall>x\<in>set (fc_order c). (pkey (ce_path x) \<or> qkey (ce_path x)) \<and>
     content b (ce_path x) = Some (ce_data x, ce_info x))"

lemma coherent_subset: "coherent c b \<Longrightarrow> cache_ok c' \<Longrightarrow> set (fc_order c') \<subseteq> set (fc_order c) \<Longrightarrow> coherent c' b"
  by (auto simp: coherent_def)

lemma get_coherent:
  assumes "coherent c b" "fc_get c p = (r, c')"
  shows "coherent c' b" "r = Some x \<Longrightarrow> content b p = Some (ce_data x, ce_info x)"
proof -
  show "coherent c' b" using coherent_subset[OF assms(1)] fc_get_ok[OF _ assms(2)] assms(1) by (auto simp: coherent_def)
  show "content b p = Some (ce_data x, ce_info x)" if "r = Some x"
    using assms that by (auto simp: fc_get_def fc_find_def find_Some_iff coherent_def split: option.splits)
qed

lemma write_coherent:
  assumes "coherent c b" "fc_write (r, b') c p = (r', c', b'')"
    and frame: "\<And>q. pkey q \<or> qkey q \<Longrightarrow> q \<noteq> p \<or> r \<noteq> None \<Longrightarrow> content b' q = content b q"
  shows "coherent c' b'' \<and> b'' = b' \<and> r' = r"
proof -
  have "coherent c b' \<or> r = None" using assms(1) frame by (auto simp: coherent_def)
  moreover have "coherent (fc_removeLocked c p) b'"
    using assms(1) frame fc_removeLocked_ok[of c p] by (auto simp: coherent_def)
  ultimately show ?thesis using assms(2) by (auto simp: fc_write_def split: if_splits)
qed

lemma cachedOpen_coherent:
  assumes "coherent c b" "cachedOpen statFn openFn e (c, b) p = (r, c')" "pkey p \<or> qkey p"
    and stat: "\<And>i x. statFn e b p = Inr i \<Longrightarrow> content b p = Some x \<Longrightarrow> snd x = i"
    and opn: "\<And>d. openFn e b p = Inr d \<Longrightarrow> \<exists>i. content b p = Some (d, i)"
    and good: "\<And>d i. content b p = Some (d, i) \<Longrightarrow> openFn ideal b p = Inr d"
  shows "coherent c' b \<and> (r = openFn e b p \<or> r = openFn ideal b p)"
proof -
  obtain x c1 where g: "fc_get c p = (x, c1)" by fastforce
  note gc = get_coherent[OF assms(1) g]
  have put: "coherent (fc_put c1 p d i) b" if "statFn e b p = Inr i" "openFn e b p = Inr d" for d i
  proof -
    have "content b p = Some (d, i)" using opn[OF that(2)] stat[OF that(1)] by fastforce
    then show ?thesis using gc(1) fc_put_ok[of c1 p d i] assms(3) by (auto simp: coherent_def)
  qed
  show ?thesis
  proof (cases x)
    case (Some y)
    then show ?thesis using assms(2) g gc(1) good[OF gc(2)[OF Some]] by (auto simp: cachedOpen_def)
  next
    case None
    then show ?thesis using assms(2) g gc(1) put by (auto simp: cachedOpen_def split: sum.splits if_splits)
  qed
qed

lemma stat_coherent:
  assumes "coherent c b" "fc_Stat statFn e (c, b) p = (r, c')"
    and good: "\<And>d i. content b p = Some (d, i) \<Longrightarrow> statFn ideal b p = Inr i"
  shows "coherent c' b \<and> (r = statFn e b p \<or> r = statFn ideal b p)"
proof -
  obtain x c1 where g: "fc_get c p = (x, c1)" by fastforce
  note gc = get_coherent[OF assms(1) g]
  show ?thesis using assms(2) g gc good by (cases x) (auto simp: fc_Stat_def)
qed

lemma step_coherent:
  assumes "coherent c b" "call_ok pkey qkey op" "step_cached be (e, op) (c, b) = (r, c', b')"
  shows "coherent c' b' \<and> b' = snd (step_bare be (e, op) b) \<and>
    (r = fst (step_bare be (e, op) b) \<or> is_read op \<and> r = fst (step_bare be (ideal, op) b))"
proof (cases op)
  case (CExists p)
  obtain x c1 where g: "fc_get c p = (x, c1)" by fastforce
  note gc = get_coherent[OF assms(1) g]
  show ?thesis using assms g gc ideal_pool[of p b] CExists by (cases x) (auto simp: fc_Exists_def)
next
  case (CStat p)
  obtain q c1 where g: "fc_Stat (be_Stat be) e (c, b) p = (q, c1)" by fastforce
  then show ?thesis using stat_coherent[OF assms(1) g] ideal_pool[of p b] assms(2,3) CStat by auto
next
  case (CStatPublished p)
  obtain q c1 where g: "fc_Stat (be_StatPublished be) e (c, b) p = (q, c1)" by fastforce
  then show ?thesis using stat_coherent[OF assms(1) g] ideal_published[of p b] assms(2,3) CStatPublished by auto
next
  case (COpen p)
  obtain q c1 where g: "cachedOpen (be_Stat be) (be_Open be) e (c, b) p = (q, c1)" by fastforce
  have k: "pkey p" using assms(2) COpen by simp
  from cachedOpen_coherent[OF assms(1) g _ Stat_content[OF k] Open_content[OF k]] ideal_pool[OF k, of b] k g assms(3) COpen
  show ?thesis by auto
next
  case (COpenPublished p)
  obtain q c1 where g: "cachedOpen (be_StatPublished be) (be_OpenPublished be) e (c, b) p = (q, c1)" by fastforce
  have k: "qkey p" using assms(2) COpenPublished by simp
  from cachedOpen_coherent[OF assms(1) g _ StatPublished_content[OF k] OpenPublished_content[OF k]] ideal_published[OF k, of b] k g assms(3) COpenPublished
  show ?thesis by auto
next
  case (CPutFile p d)
  obtain q b1 where w: "be_PutFile be e b p d = (q, b1)" by fastforce
  with write_coherent[OF assms(1), of q b1 p] PutFile_frame[OF _ _ w] assms(2,3) CPutFile show ?thesis by (auto split: prod.splits)
next
  case (CWriteFile p d)
  obtain q b1 where w: "be_WriteFile be e b p d = (q, b1)" by fastforce
  with write_coherent[OF assms(1), of q b1 p] WriteFile_frame[OF _ _ w] assms(2,3) CWriteFile show ?thesis by (auto split: prod.splits)
next
  case (CDelete p)
  obtain q b1 where w: "be_Delete be e b p = (q, b1)" by fastforce
  with write_coherent[OF assms(1), of q b1 p] Delete_frame[OF _ _ w] assms(2,3) CDelete show ?thesis by (auto split: prod.splits)
next
  case (CDeletePublished p)
  obtain q b1 where w: "be_DeletePublished be e b p = (q, b1)" by fastforce
  with write_coherent[OF assms(1), of q b1 p] DeletePublished_frame[OF _ _ w] assms(2,3) CDeletePublished show ?thesis by (auto split: prod.splits)
next
  case (CPurge p)
  then show ?thesis using assms coherent_subset[OF assms(1)] fc_purge_ok[of c p] by (auto simp: coherent_def)
qed

lemma run_allowed:
  assumes "coherent c b" "list_all (\<lambda>x. call_ok pkey qkey (snd x)) calls" "run_cached be calls (c, b) = (rs, c', b')"
  shows "allowed be ideal calls b rs b'"
  using assms
proof (induction calls arbitrary: c b rs)
  case (Cons x calls)
  obtain e op where x: "x = (e, op)" by (cases x)
  obtain r c1 b1 where st: "step_cached be x (c, b) = (r, c1, b1)" by (metis prod.exhaust)
  obtain rs1 where run: "run_cached be calls (c1, b1) = (rs1, c', b')" "rs = r # rs1"
    using Cons.prems(3) st by (auto split: prod.splits)
  have s: "coherent c1 b1 \<and> b1 = snd (step_bare be (e, op) b) \<and>
      (r = fst (step_bare be (e, op) b) \<or> is_read op \<and> r = fst (step_bare be (ideal, op) b))"
    by (rule step_coherent[OF Cons.prems(1)]) (use Cons.prems(2) st x in simp_all)
  with Cons.IH[OF _ _ run(1)] Cons.prems(2) show ?case by (auto simp: x run(2))
qed simp

lemma run_allowed_empty:
  assumes "fc_Wrap maxBytes = Some c" "list_all (\<lambda>x. call_ok pkey qkey (snd x)) calls" "run_cached be calls (c, b) = (rs, c', b')"
  shows "allowed be ideal calls b rs b'"
  using run_allowed[OF _ assms(2,3)] assms(1) by (auto simp: fc_Wrap_def coherent_def cache_ok_def split: if_splits)

end


section \<open>The filesystem backend is coherent\<close>

definition fs_content :: "fs_Store \<Rightarrow> os_state \<Rightarrow> string \<Rightarrow> (string \<times> FileInfo) option" where
  "fs_content s st p =
     map_option (\<lambda>(d, t). (d, \<lparr>fi_Path = p, fi_Size = int (length d), fi_ModTime = t\<rparr>)) (file_at st (fs_root s @ ''/'' @ p))"

lemma content_cong:
  assumes "\<And>a. a \<noteq> fs_root s @ ''/'' @ p \<or> r \<noteq> None \<Longrightarrow> file_at st' a = file_at st a" "q \<noteq> p \<or> r \<noteq> None"
  shows "fs_content s st' q = fs_content s st q"
  using assms(1)[of "fs_root s @ ''/'' @ q"] assms(2) by (auto simp: fs_content_def)

lemma open_at_content: "open_at sys st (Some a) = Inr d \<Longrightarrow> \<exists>t. file_at st a = Some (d, t)"
  by (auto simp: open_at_def os_Open_def file_at_def split: if_splits option.splits node.splits)

lemma stat_at_content:
  "stat_at sys st p (Some a) = Inr i \<Longrightarrow> file_at st a = Some (d, t) \<Longrightarrow> i = \<lparr>fi_Path = p, fi_Size = int (length d), fi_ModTime = t\<rparr>"
  by (auto simp: stat_at_def os_Stat_def file_at_def split: if_splits option.splits node.splits)

lemma ideal_content:
  assumes "file_at st a = Some (d, t)"
  shows "stat_at (\<lambda>_ _. False) st p (Some a) = Inr \<lparr>fi_Path = p, fi_Size = int (length d), fi_ModTime = t\<rparr>"
    "open_at (\<lambda>_ _. False) st (Some a) = Inr d" "os_Stat (\<lambda>_ _. False) st a = Inr (File d t)"
  using assms by (auto simp: stat_at_def open_at_def os_Stat_def os_Open_def file_at_def split: option.splits node.splits)

lemma remove_at_frame:
  assumes "remove_at sys st (Some a) = (r, st')" "q \<noteq> a \<or> r \<noteq> None"
  shows "file_at st' q = file_at st q"
proof -
  have "st' = st \<or> os_Remove sys st a = (r, st')" using assms(1) by (auto simp: remove_at_def split: if_splits)
  then show ?thesis using os_Remove_result(2,3)[of sys st a r st'] assms(2) file_at_cong by metis
qed

lemma write_frame:
  assumes "absPublished s p = Some a" "fs_WriteFile sys now s st p d = (r, st')" "q \<noteq> a \<or> r \<noteq> None"
  shows "file_at st' q = file_at st q"
proof -
  obtain r1 st1 where m: "os_MkdirAll sys now st (path_dir a) = (r1, st1)" by fastforce
  have "file_at st1 q = file_at st q" by (rule os_MkdirAll_keeps(1)[OF m])
  moreover have "st' = st1 \<or> os_Rename sys now st1 d a = (r, st')"
    using assms(1,2) m by (auto simp: fs_WriteFile_def split: option.splits if_splits)
  ultimately show ?thesis using os_Rename_result(2,3)[of sys now st1 d a r st'] assms(3) file_at_cong by metis
qed

lemma put_frame:
  assumes "absPool s p = Some a" "fs_PutFile sys now s st p d = (r, st')" "q \<noteq> a \<or> r \<noteq> None"
  shows "file_at st' q = file_at st q"
  using fs_PutFile_cases[OF assms(2,1)]
proof (elim disjE exE conjE)
  fix st1 r1 assume m: "os_MkdirAll sys now st (path_dir a) = (r1, st1)" "r = None" "os_Rename sys now st1 d a = (None, st')"
  then show ?thesis using os_Rename_result(3)[OF m(3), of q] os_MkdirAll_keeps(1)[OF m(1), of q] assms(3) file_at_cong by metis
qed (use os_MkdirAll_keeps(1) in auto)

lemma fs_coherent:
  assumes "root_ok s"
  shows "coherent_backend (fs_backend s) ((\<lambda>_ _. False), 0) (fs_content s) pool_key published_key"
proof
  fix p q e b b' d i x r
  note pool = pool_abs[OF assms] and pub = published_abs[OF assms]
  have can: "canonical p" if "published_key p" for p using that by (simp add: published_key_def)
  {
    assume k: "pool_key p"
    show "be_Stat (fs_backend s) e b p = Inr i \<Longrightarrow> fs_content s b p = Some x \<Longrightarrow> snd x = i"
      using stat_at_content by (auto simp: fs_backend_def fs_Stat_def pool[OF k] fs_content_def)
    show "be_Open (fs_backend s) e b p = Inr d \<Longrightarrow> \<exists>i. fs_content s b p = Some (d, i)"
      using open_at_content by (fastforce simp: fs_backend_def fs_Open_def pool[OF k] fs_content_def)
    show "fs_content s b p = Some (d, i) \<Longrightarrow>
        be_Exists (fs_backend s) ((\<lambda>_ _. False), 0) b p = Inr True \<and> be_Stat (fs_backend s) ((\<lambda>_ _. False), 0) b p = Inr i \<and>
        be_Open (fs_backend s) ((\<lambda>_ _. False), 0) b p = Inr d"
      by (auto simp: fs_backend_def fs_Exists_def fs_Stat_def fs_Open_def pool[OF k] fs_content_def ideal_content)
    show "be_PutFile (fs_backend s) e b p d = (r, b') \<Longrightarrow> q \<noteq> p \<or> r \<noteq> None \<Longrightarrow> fs_content s b' q = fs_content s b q"
      using put_frame[OF pool[OF k], of "fst e" "snd e" b d r b'] by (intro content_cong) (auto simp: fs_backend_def)
    show "be_Delete (fs_backend s) e b p = (r, b') \<Longrightarrow> q \<noteq> p \<or> r \<noteq> None \<Longrightarrow> fs_content s b' q = fs_content s b q"
      using remove_at_frame[of "fst e" b _ r b'] by (intro content_cong) (auto simp: fs_backend_def fs_Delete_def pool[OF k])
  next
    assume k: "published_key p"
    show "be_StatPublished (fs_backend s) e b p = Inr i \<Longrightarrow> fs_content s b p = Some x \<Longrightarrow> snd x = i"
      using stat_at_content by (auto simp: fs_backend_def fs_StatPublished_def pub[OF can[OF k]] fs_content_def)
    show "be_OpenPublished (fs_backend s) e b p = Inr d \<Longrightarrow> \<exists>i. fs_content s b p = Some (d, i)"
      using open_at_content by (fastforce simp: fs_backend_def fs_OpenPublished_def pub[OF can[OF k]] fs_content_def)
    show "fs_content s b p = Some (d, i) \<Longrightarrow>
        be_StatPublished (fs_backend s) ((\<lambda>_ _. False), 0) b p = Inr i \<and> be_OpenPublished (fs_backend s) ((\<lambda>_ _. False), 0) b p = Inr d"
      by (auto simp: fs_backend_def fs_StatPublished_def fs_OpenPublished_def pub[OF can[OF k]] fs_content_def ideal_content)
    show "be_WriteFile (fs_backend s) e b p d = (r, b') \<Longrightarrow> q \<noteq> p \<or> r \<noteq> None \<Longrightarrow> fs_content s b' q = fs_content s b q"
      using write_frame[OF pub[OF can[OF k]], of "fst e" "snd e" b d r b'] by (intro content_cong) (auto simp: fs_backend_def)
    show "be_DeletePublished (fs_backend s) e b p = (r, b') \<Longrightarrow> q \<noteq> p \<or> r \<noteq> None \<Longrightarrow> fs_content s b' q = fs_content s b q"
      using remove_at_frame[of "fst e" b _ r b'] by (intro content_cong) (auto simp: fs_backend_def fs_DeletePublished_def pub[OF can[OF k]])
  }
qed


text \<open>The stores below a root of ordinary segments, as a total function of the segments.\<close>

definition rooted :: "string list \<Rightarrow> fs_Store" where
  "rooted segs = fs_New (abs_path (if segs \<noteq> [] \<and> list_all plain_seg segs then segs else [''srv'']))"

lemma root_ok_rooted: "root_ok (rooted segs)"
  by (auto simp: root_ok_def rooted_def plain_seg_def intro!: exI[of _ "if segs \<noteq> [] \<and> list_all plain_seg segs then segs else [''srv'']"])

lemma root_okD: "root_ok s \<Longrightarrow> \<exists>segs. s = rooted segs"
  by (auto simp: root_ok_def rooted_def)

interpretation fsb: coherent_backend "fs_backend (rooted segs)" "((\<lambda>_ _. False), 0)" "fs_content (rooted segs)" pool_key published_key
  for segs
  by (rule fs_coherent[OF root_ok_rooted])

text \<open>C13: the cache is transparent over the filesystem backend: for a client that uses cleaned paths, pool paths with
  the pool calls and other paths with the published calls, every answer is the backend's own or the one it gives when
  it is not failing at that moment, every write acts exactly as without the cache, and the files end up the same.\<close>

theorem filecache_transparent:
  assumes "root_ok s" "fc_Wrap maxBytes = Some c0" "list_all (\<lambda>x. call_ok pool_key published_key (snd x)) calls"
    "run_cached (fs_backend s) calls (c0, st) = (rs, c, st')"
  shows "allowed (fs_backend s) ((\<lambda>_ _. False), 0) calls st rs st'"
proof -
  obtain segs where "s = rooted segs" using root_okD[OF assms(1)] by blast
  with fsb.run_allowed_empty[OF assms(2,3)] assms(4) show ?thesis by simp
qed

definition wit_calls :: "((sys \<times> int) \<times> cop) list" where
  "wit_calls = [(((\<lambda>_ _. False), 5), CPutFile ''pool/a'' ''x''), (((\<lambda>_ _. False), 6), COpen ''pool/a''), (((\<lambda>_ _. True), 7), COpen ''pool/a'')]"

lemma wit_run:
  "fc_Wrap 100 = Some \<lparr>fc_order = [], fc_curBytes = 0, fc_maxBytes = 100\<rparr>"
  "fst (run_cached (fs_backend (fs_New ''/srv'')) wit_calls (\<lparr>fc_order = [], fc_curBytes = 0, fc_maxBytes = 100\<rparr>, [])) =
     [RErr None, RData (Inr ''x''), RData (Inr ''x'')]"
  "list_all (\<lambda>x. call_ok pool_key published_key (snd x)) wit_calls"
  by code_simp+

theorem filecache_bounded_witness:
  "\<exists>c b'. snd (run_cached (fs_backend (fs_New ''/srv'')) wit_calls (\<lparr>fc_order = [], fc_curBytes = 0, fc_maxBytes = 100\<rparr>, [])) = (c, b') \<and>
     fc_curBytes c \<le> 100"
proof -
  obtain rs c b' where r: "run_cached (fs_backend (fs_New ''/srv'')) wit_calls (\<lparr>fc_order = [], fc_curBytes = 0, fc_maxBytes = 100\<rparr>, []) = (rs, c, b')"
    by (metis prod.exhaust)
  from filecache_bounded[OF wit_run(1) r] r show ?thesis by simp
qed

theorem filecache_transparent_witness:
  "\<exists>st'. allowed (fs_backend (fs_New ''/srv'')) ((\<lambda>_ _. False), 0) wit_calls [] [RErr None, RData (Inr ''x''), RData (Inr ''x'')] st'"
proof -
  have ok: "root_ok (fs_New ''/srv'')"
    unfolding root_ok_def by (rule exI[of _ "[''srv'']"]) (simp add: plain_seg_def abs_path_def)
  obtain rs c b' where r: "run_cached (fs_backend (fs_New ''/srv'')) wit_calls (\<lparr>fc_order = [], fc_curBytes = 0, fc_maxBytes = 100\<rparr>, []) = (rs, c, b')"
    by (metis prod.exhaust)
  from filecache_transparent[OF ok wit_run(1,3) r] wit_run(2) r show ?thesis by auto
qed

end
