(* ===== verification/MetaStore.thy ===== *)
theory MetaStore
  imports DebVersion Deb822 FileCache
begin

text \<open>
  The metadata index that keeps the package and source records in memory and persists them as deb822 files
  (\<open>src/internal/metadata/deb822store/store.go\<close>), with the records of \<open>src/internal/model/model.go\<close>.  Maps that
  the code iterates are association lists.  A zero time is \<open>None\<close>.  The wrapped zstd codec and Go's RFC 3339
  printing and parsing of times are the parameters of the file layer.  \<open>sort.Slice\<close> is a stable insertion sort;
  it leaves open only the order of records that agree in name and version.
\<close>

section \<open>Definitions\<close>

record Selector =
  sel_OS :: string
  sel_Codename :: string
  sel_Component :: string
  sel_Arch :: string
  sel_Upstream :: string

record IndexEntry =
  ie_OS :: string
  ie_Codename :: string
  ie_Component :: string
  ie_Arch :: string
  ie_Package :: string
  ie_Version :: string
  ie_Upstream :: string
  ie_FromAutoUpdate :: bool
  ie_PoolPath :: string
  ie_SHA256 :: string
  ie_SHA512 :: string
  ie_Size :: int
  ie_Control :: string
  ie_FirstSeen :: "int option"

record UpstreamPackageState =
  ps_Upstream :: string
  ps_PackageName :: string
  ps_Arch :: string
  ps_UpstreamVersion :: string
  ps_LastChecked :: "int option"

record SourceFile =
  so_Filename :: string
  so_Size :: int
  so_SHA256 :: string

record SourceEntry =
  se_OS :: string
  se_Codename :: string
  se_Component :: string
  se_Package :: string
  se_Version :: string
  se_Upstream :: string
  se_LocalDir :: string
  se_UpstreamDir :: string
  se_Files :: "SourceFile list"
  se_Stanza :: string
  se_FirstSeen :: "int option"
  se_FilesDownloaded :: bool

record Store =
  ms_entries :: "(string \<times> IndexEntry list) list"
  ms_states :: "(string \<times> UpstreamPackageState list) list"
  ms_sources :: "(string \<times> SourceEntry list) list"
  ms_fileModTimes :: "(string \<times> int) list"
  ms_dirty :: "string list"
  ms_generation :: "string \<Rightarrow> nat"

text \<open>Keys and paths.  \<open>strings.SplitN(s, "/", n)\<close> splits off at most \<open>n - 1\<close> parts.\<close>

fun split_n :: "nat \<Rightarrow> string \<Rightarrow> string list" where
  "split_n 0 s = []"
| "split_n (Suc 0) s = [s]"
| "split_n (Suc (Suc n)) s = (case cut CHR ''/'' s of None \<Rightarrow> [s] | Some (a, b) \<Rightarrow> a # split_n (Suc n) b)"

definition entryKey :: "string \<Rightarrow> string \<Rightarrow> string \<Rightarrow> string \<Rightarrow> string" where
  "entryKey osName codename component arch = osName @ ''/'' @ codename @ ''/'' @ component @ ''/'' @ arch"

definition splitEntryKey :: "string \<Rightarrow> (string \<times> string \<times> string \<times> string) option" where
  "splitEntryKey key = (case split_n 4 key of [a, b, c, d] \<Rightarrow> Some (a, b, c, d) | _ \<Rightarrow> None)"

definition sourceKey :: "string \<Rightarrow> string \<Rightarrow> string \<Rightarrow> string" where
  "sourceKey osName codename component = osName @ ''/'' @ codename @ ''/'' @ component"

definition splitSourceKey :: "string \<Rightarrow> (string \<times> string \<times> string) option" where
  "splitSourceKey key = (case split_n 3 key of [a, b, c] \<Rightarrow> Some (a, b, c) | _ \<Rightarrow> None)"

definition indexPrefix :: string where "indexPrefix = ''metadata/index/''"
definition upstreamPrefix :: string where "upstreamPrefix = ''metadata/upstream/''"
definition sourcesSuffix :: string where "sourcesSuffix = ''/sources.zst''"

definition SourceRelPath :: "string \<Rightarrow> string \<Rightarrow> string \<Rightarrow> string" where
  "SourceRelPath osName codename component = path_join [indexPrefix, osName, codename, component] @ sourcesSuffix"

definition IndexRelPath :: "string \<Rightarrow> string \<Rightarrow> string \<Rightarrow> string \<Rightarrow> string" where
  "IndexRelPath osName codename component arch = path_join [indexPrefix, osName, codename, component, arch @ ''.packages.zst'']"

definition StateRelPath :: "string \<Rightarrow> string" where
  "StateRelPath upstream = upstreamPrefix @ upstream @ ''.state.zst''"

datatype meta_file = IndexFile string | SourcesFile string | StateFile string | OtherFile

definition file_kind :: "string \<Rightarrow> meta_file" where
  "file_kind p =
     (if has_prefix p indexPrefix \<and> has_suffix p ''.packages.zst''
      then IndexFile (trim_suffix (trim_prefix p indexPrefix) ''.packages.zst'')
      else if has_prefix p indexPrefix \<and> has_suffix p sourcesSuffix
      then SourcesFile (trim_suffix (trim_prefix p indexPrefix) sourcesSuffix)
      else if has_prefix p upstreamPrefix \<and> has_suffix p ''.state.zst''
      then StateFile (trim_suffix (trim_prefix p upstreamPrefix) ''.state.zst'')
      else OtherFile)"

text \<open>Reading a bucket, replacing the first matching record or appending, removing the first match.\<close>

definition bucket :: "(string \<times> 'a list) list \<Rightarrow> string \<Rightarrow> 'a list" where
  "bucket m k = (case map_of m k of None \<Rightarrow> [] | Some l \<Rightarrow> l)"

fun replace_first :: "('a \<Rightarrow> bool) \<Rightarrow> ('a \<Rightarrow> 'a) \<Rightarrow> 'a \<Rightarrow> 'a list \<Rightarrow> 'a list" where
  "replace_first same upd e [] = [e]"
| "replace_first same upd e (x # xs) = (if same x then upd x # xs else x # replace_first same upd e xs)"

fun remove_first :: "('a \<Rightarrow> bool) \<Rightarrow> 'a list \<Rightarrow> 'a list" where
  "remove_first same [] = []"
| "remove_first same (x # xs) = (if same x then xs else x # remove_first same xs)"

definition mark_dirty :: "string \<Rightarrow> Store \<Rightarrow> Store" where
  "mark_dirty p s = s\<lparr>ms_dirty := List.insert p (ms_dirty s), ms_generation := (ms_generation s)(p := Suc (ms_generation s p))\<rparr>"

definition ie_id :: "IndexEntry \<Rightarrow> string \<times> string \<times> string" where
  "ie_id e = (ie_Package e, ie_Version e, ie_Upstream e)"

definition se_id :: "SourceEntry \<Rightarrow> string \<times> string \<times> string" where
  "se_id e = (se_Package e, se_Version e, se_Upstream e)"

definition ps_id :: "UpstreamPackageState \<Rightarrow> string \<times> string" where
  "ps_id st = (ps_PackageName st, ps_Arch st)"

definition Reset :: "Store \<Rightarrow> Store" where
  "Reset s = s\<lparr>ms_entries := [], ms_states := [], ms_sources := [], ms_dirty := [], ms_fileModTimes := [], ms_generation := (\<lambda>_. 0)\<rparr>"

definition UpsertEntry :: "int \<Rightarrow> Store \<Rightarrow> IndexEntry \<Rightarrow> Store" where
  "UpsertEntry now s e0 =
     (let e = (if ie_FirstSeen e0 = None then e0\<lparr>ie_FirstSeen := Some now\<rparr> else e0);
          key = entryKey (ie_OS e) (ie_Codename e) (ie_Component e) (ie_Arch e);
          entries = replace_first (\<lambda>x. ie_id x = ie_id e) (\<lambda>_. e) e (bucket (ms_entries s) key)
      in mark_dirty (IndexRelPath (ie_OS e) (ie_Codename e) (ie_Component e) (ie_Arch e))
           (s\<lparr>ms_entries := AList.update key entries (ms_entries s)\<rparr>))"

definition RemoveEntry :: "Store \<Rightarrow> IndexEntry \<Rightarrow> Store" where
  "RemoveEntry s e =
     (let key = entryKey (ie_OS e) (ie_Codename e) (ie_Component e) (ie_Arch e);
          entries = bucket (ms_entries s) key
      in if list_ex (\<lambda>x. ie_id x = ie_id e) entries
         then mark_dirty (IndexRelPath (ie_OS e) (ie_Codename e) (ie_Component e) (ie_Arch e))
                (s\<lparr>ms_entries := AList.update key (remove_first (\<lambda>x. ie_id x = ie_id e) entries) (ms_entries s)\<rparr>)
         else s)"

definition sel_ok :: "string \<Rightarrow> string \<Rightarrow> bool" where
  "sel_ok want got \<longleftrightarrow> want = [] \<or> want = got"

definition matching_entries :: "Store \<Rightarrow> Selector \<Rightarrow> IndexEntry list" where
  "matching_entries s sel =
     concat (map (\<lambda>(key, entries).
         case splitEntryKey key of
           None \<Rightarrow> []
         | Some (osName, codename, component, arch) \<Rightarrow>
             if sel_ok (sel_OS sel) osName \<and> sel_ok (sel_Codename sel) codename \<and>
                sel_ok (sel_Component sel) component \<and> sel_ok (sel_Arch sel) arch
             then entries else []) (ms_entries s))"

fun insort_less :: "('a \<Rightarrow> 'a \<Rightarrow> bool) \<Rightarrow> 'a \<Rightarrow> 'a list \<Rightarrow> 'a list" where
  "insort_less lt x [] = [x]"
| "insort_less lt x (y # ys) = (if lt y x then y # insort_less lt x ys else x # y # ys)"

definition sort_less :: "('a \<Rightarrow> 'a \<Rightarrow> bool) \<Rightarrow> 'a list \<Rightarrow> 'a list" where
  "sort_less lt xs = foldr (insort_less lt) xs []"

definition name_version_less :: "string \<times> string \<Rightarrow> string \<times> string \<Rightarrow> bool" where
  "name_version_less a b = (if fst a \<noteq> fst b then fst a < fst b else Compare (snd a) (snd b) < 0)"

definition ListEntries :: "Store \<Rightarrow> Selector \<Rightarrow> IndexEntry list" where
  "ListEntries s sel =
     sort_less (\<lambda>a b. name_version_less (ie_Package a, ie_Version a) (ie_Package b, ie_Version b)) (matching_entries s sel)"

definition EntryByDigest :: "Store \<Rightarrow> string \<Rightarrow> IndexEntry option" where
  "EntryByDigest s digest = List.find (\<lambda>e. ie_SHA256 e = digest) (concat (map snd (ms_entries s)))"

text \<open>The search loop of \<open>FindEntry\<close> and \<open>FindSourceEntry\<close>: an exact version returns at once, otherwise the highest.\<close>

fun find_best :: "('a \<Rightarrow> string) \<Rightarrow> string \<Rightarrow> 'a option \<Rightarrow> 'a list \<Rightarrow> 'a option" where
  "find_best ver version best [] = best"
| "find_best ver version best (e # es) =
     (if version \<noteq> [] then (if ver e = version then Some e else find_best ver version best es)
      else find_best ver version
             (case best of None \<Rightarrow> Some e | Some b \<Rightarrow> if Compare (ver e) (ver b) > 0 then Some e else Some b) es)"

definition FindEntry :: "Store \<Rightarrow> Selector \<Rightarrow> string \<Rightarrow> string \<Rightarrow> IndexEntry option" where
  "FindEntry s sel pkg version =
     find_best ie_Version version None
       (filter (\<lambda>e. ie_Package e = pkg \<and> sel_ok (sel_Upstream sel) (ie_Upstream e)) (matching_entries s sel))"

definition UpsertUpstreamState :: "int \<Rightarrow> Store \<Rightarrow> UpstreamPackageState \<Rightarrow> Store" where
  "UpsertUpstreamState now s st0 =
     (let st = (if ps_LastChecked st0 = None then st0\<lparr>ps_LastChecked := Some now\<rparr> else st0);
          states = replace_first (\<lambda>x. ps_id x = ps_id st) (\<lambda>_. st) st (bucket (ms_states s) (ps_Upstream st))
      in mark_dirty (StateRelPath (ps_Upstream st)) (s\<lparr>ms_states := AList.update (ps_Upstream st) states (ms_states s)\<rparr>))"

definition GetUpstreamState :: "Store \<Rightarrow> string \<Rightarrow> string \<Rightarrow> string \<Rightarrow> UpstreamPackageState option" where
  "GetUpstreamState s upstream name arch = List.find (\<lambda>st. ps_id st = (name, arch)) (bucket (ms_states s) upstream)"

definition UpsertSourceEntry :: "int \<Rightarrow> Store \<Rightarrow> SourceEntry \<Rightarrow> Store" where
  "UpsertSourceEntry now s e0 =
     (let e = (if se_FirstSeen e0 = None then e0\<lparr>se_FirstSeen := Some now\<rparr> else e0);
          key = sourceKey (se_OS e) (se_Codename e) (se_Component e);
          srcs = replace_first (\<lambda>x. se_id x = se_id e)
                   (\<lambda>x. e\<lparr>se_FilesDownloaded := se_FilesDownloaded e \<or> se_FilesDownloaded x, se_FirstSeen := se_FirstSeen x\<rparr>)
                   e (bucket (ms_sources s) key)
      in mark_dirty (SourceRelPath (se_OS e) (se_Codename e) (se_Component e))
           (s\<lparr>ms_sources := AList.update key srcs (ms_sources s)\<rparr>))"

definition RemoveSourceEntry :: "Store \<Rightarrow> SourceEntry \<Rightarrow> Store" where
  "RemoveSourceEntry s e =
     (let key = sourceKey (se_OS e) (se_Codename e) (se_Component e);
          srcs = bucket (ms_sources s) key
      in if list_ex (\<lambda>x. se_id x = se_id e) srcs
         then mark_dirty (SourceRelPath (se_OS e) (se_Codename e) (se_Component e))
                (s\<lparr>ms_sources := AList.update key (remove_first (\<lambda>x. se_id x = se_id e) srcs) (ms_sources s)\<rparr>)
         else s)"

definition matching_sources :: "Store \<Rightarrow> Selector \<Rightarrow> SourceEntry list" where
  "matching_sources s sel =
     concat (map (\<lambda>(key, srcs).
         case splitSourceKey key of
           None \<Rightarrow> []
         | Some (osName, codename, component) \<Rightarrow>
             if sel_ok (sel_OS sel) osName \<and> sel_ok (sel_Codename sel) codename \<and> sel_ok (sel_Component sel) component
             then srcs else []) (ms_sources s))"

definition ListSourceEntries :: "Store \<Rightarrow> Selector \<Rightarrow> SourceEntry list" where
  "ListSourceEntries s sel =
     sort_less (\<lambda>a b. name_version_less (se_Package a, se_Version a) (se_Package b, se_Version b)) (matching_sources s sel)"

definition FindSourceEntry :: "Store \<Rightarrow> Selector \<Rightarrow> string \<Rightarrow> string \<Rightarrow> SourceEntry option" where
  "FindSourceEntry s sel pkg version =
     find_best se_Version version None
       (filter (\<lambda>e. se_Package e = pkg \<and> sel_ok (sel_Upstream sel) (se_Upstream e)) (matching_sources s sel))"

text \<open>Merging a file's records into memory: the memory record wins, in the file's order, new ones last.\<close>

definition merge_by :: "('a \<Rightarrow> 'k) \<Rightarrow> 'a list \<Rightarrow> 'a list \<Rightarrow> 'a list" where
  "merge_by key disk memory =
     (let mem = foldl (\<lambda>m e. AList.update (key e) e m) [] memory;
          (out, rest) = foldl (\<lambda>(out, mem) e.
              case map_of mem (key e) of
                Some x \<Rightarrow> (out @ [x], AList.delete (key e) mem)
              | None \<Rightarrow> (out @ [e], mem)) ([], mem) disk
      in out @ map snd rest)"

definition mergeIndexEntries :: "IndexEntry list \<Rightarrow> IndexEntry list \<Rightarrow> IndexEntry list" where
  "mergeIndexEntries = merge_by ie_id"

definition mergeUpstreamStates :: "UpstreamPackageState list \<Rightarrow> UpstreamPackageState list \<Rightarrow> UpstreamPackageState list" where
  "mergeUpstreamStates = merge_by ps_id"

definition mergeSourceEntries :: "SourceEntry list \<Rightarrow> SourceEntry list \<Rightarrow> SourceEntry list" where
  "mergeSourceEntries = merge_by se_id"

text \<open>The file layer: the rest of the storage interface, and the codec.\<close>

record ('e, 'b) storage = "('e, 'b) backend" +
  st_WalkPool :: "'e \<Rightarrow> 'b \<Rightarrow> os_error + FileInfo list"
  st_ListPublished :: "'e \<Rightarrow> 'b \<Rightarrow> string \<Rightarrow> os_error + string list"
  st_ListPublishedInfo :: "'e \<Rightarrow> 'b \<Rightarrow> string \<Rightarrow> os_error + FileInfo list"
  st_ListSnapshots :: "'e \<Rightarrow> 'b \<Rightarrow> string \<Rightarrow> os_error + SnapshotRef list"
  st_CleanupTempFiles :: "'e \<Rightarrow> 'b \<Rightarrow> int \<Rightarrow> (os_error + nat) \<times> 'b"

record codec =
  cd_zstd :: "string \<Rightarrow> string"
  cd_unzstd :: "string \<Rightarrow> string option"
  cd_fmtTime :: "int option \<Rightarrow> string"
  cd_parseTime :: "string \<Rightarrow> int option"

datatype meta_error = StorageError os_error | ZstdError | ParseError deb822_error | BadPath string

definition FormatBool :: "bool \<Rightarrow> string" where
  "FormatBool b = (if b then ''true'' else ''false'')"

text \<open>\<open>strconv.ParseBool\<close> with the error dropped.\<close>

definition ParseBool :: "string \<Rightarrow> bool" where
  "ParseBool s \<longleftrightarrow> s \<in> {''1'', ''t'', ''T'', ''TRUE'', ''true'', ''True''}"

text \<open>\<open>strconv.ParseInt\<close> with the error dropped: the bound it reports for a number out of range, zero otherwise.\<close>

definition parse_int_or_zero :: "string \<Rightarrow> int" where
  "parse_int_or_zero s =
     (case parse_int s of
        Some v \<Rightarrow> v
      | None \<Rightarrow>
          let neg = has_prefix s ''-''; ds = (if neg \<or> has_prefix s ''+'' then drop 1 s else s)
          in if ds = [] \<or> \<not> list_all is_digit ds then 0 else if neg then - (2 ^ 63) else 2 ^ 63 - 1)"

definition entryToParagraph :: "codec \<Rightarrow> IndexEntry \<Rightarrow> Paragraph" where
  "entryToParagraph cd e =
     (let p = (case ParseStanza (ie_Control e) of
                 Inr p \<Rightarrow> p
               | Inl _ \<Rightarrow> Set (Set (Set (Set (Set (Set NewParagraph ''Package'' (ie_Package e)) ''Version'' (ie_Version e))
                   ''Architecture'' (ie_Arch e)) ''Filename'' (ie_PoolPath e)) ''Size'' (format_int (ie_Size e))) ''SHA256'' (ie_SHA256 e));
          p = (if ie_SHA512 e \<noteq> [] \<and> \<not> Has p ''SHA512'' then Set p ''SHA512'' (ie_SHA512 e) else p);
          p = Set p ''X-Debproxy-Upstream'' (ie_Upstream e);
          p = Set p ''X-Debproxy-From-Auto-Update'' (FormatBool (ie_FromAutoUpdate e))
      in Set p ''X-Debproxy-First-Seen'' (cd_fmtTime cd (ie_FirstSeen e)))"

definition clean_paragraph :: "Paragraph \<Rightarrow> Paragraph" where
  "clean_paragraph p =
     foldl (\<lambda>clean k. if has_prefix (to_lower k) ''x-debproxy-'' then clean else Set clean k (Get p k)) NewParagraph (Keys p)"

definition entryFromParagraph :: "codec \<Rightarrow> string \<Rightarrow> string \<Rightarrow> string \<Rightarrow> string \<Rightarrow> Paragraph \<Rightarrow> IndexEntry" where
  "entryFromParagraph cd osName codename component arch p =
     \<lparr>ie_OS = osName, ie_Codename = codename, ie_Component = component, ie_Arch = arch,
      ie_Package = Get p ''Package'', ie_Version = Get p ''Version'', ie_Upstream = Get p ''X-Debproxy-Upstream'',
      ie_FromAutoUpdate = ParseBool (Get p ''X-Debproxy-From-Auto-Update''), ie_PoolPath = Get p ''Filename'',
      ie_SHA256 = Get p ''SHA256'', ie_SHA512 = Get p ''SHA512'', ie_Size = parse_int_or_zero (Get p ''Size''),
      ie_Control = StanzaString (clean_paragraph p), ie_FirstSeen = cd_parseTime cd (Get p ''X-Debproxy-First-Seen'')\<rparr>"

definition stateToParagraph :: "codec \<Rightarrow> UpstreamPackageState \<Rightarrow> Paragraph" where
  "stateToParagraph cd st =
     Set (Set (Set (Set NewParagraph ''Package'' (ps_PackageName st)) ''Architecture'' (ps_Arch st)) ''Version'' (ps_UpstreamVersion st))
       ''X-Debproxy-Last-Checked'' (cd_fmtTime cd (ps_LastChecked st))"

definition stateFromParagraph :: "codec \<Rightarrow> string \<Rightarrow> Paragraph \<Rightarrow> UpstreamPackageState" where
  "stateFromParagraph cd upstream p =
     \<lparr>ps_Upstream = upstream, ps_PackageName = Get p ''Package'', ps_Arch = Get p ''Architecture'',
      ps_UpstreamVersion = Get p ''Version'', ps_LastChecked = cd_parseTime cd (Get p ''X-Debproxy-Last-Checked'')\<rparr>"

definition file_field :: "nat \<Rightarrow> string" where
  "file_field i = ''X-Debproxy-File-'' @ nat_digits i"

definition sourceEntryToParagraph :: "codec \<Rightarrow> SourceEntry \<Rightarrow> Paragraph" where
  "sourceEntryToParagraph cd e =
     (let p = Set (Set (Set (Set (Set (Set (Set (Set NewParagraph ''Package'' (se_Package e)) ''Version'' (se_Version e))
                ''X-Debproxy-Upstream'' (se_Upstream e)) ''X-Debproxy-Local-Dir'' (se_LocalDir e))
                ''X-Debproxy-Upstream-Dir'' (se_UpstreamDir e)) ''X-Debproxy-First-Seen'' (cd_fmtTime cd (se_FirstSeen e)))
                ''X-Debproxy-Files-Downloaded'' (FormatBool (se_FilesDownloaded e))) ''X-Debproxy-Stanza'' (se_Stanza e)
      in foldl (\<lambda>p (i, f). Set p (file_field i) (so_Filename f @ '' '' @ format_int (so_Size f) @ '' '' @ so_SHA256 f)) p
           (zip [0..<length (se_Files e)] (se_Files e)))"

text \<open>The loop over the numbered file fields ends at the first missing one: at most one iteration per field.\<close>

fun read_files :: "Paragraph \<Rightarrow> nat \<Rightarrow> nat \<Rightarrow> SourceFile list" where
  "read_files p i 0 = []"
| "read_files p i (Suc n) =
     (case str_fields (Get p (file_field i)) of
        [a, b, c] \<Rightarrow> \<lparr>so_Filename = a, so_Size = parse_int_or_zero b, so_SHA256 = c\<rparr> # read_files p (Suc i) n
      | _ \<Rightarrow> [])"

definition sourceEntryFromParagraph :: "codec \<Rightarrow> string \<Rightarrow> string \<Rightarrow> string \<Rightarrow> Paragraph \<Rightarrow> SourceEntry" where
  "sourceEntryFromParagraph cd osName codename component p =
     \<lparr>se_OS = osName, se_Codename = codename, se_Component = component, se_Package = Get p ''Package'', se_Version = Get p ''Version'',
      se_Upstream = Get p ''X-Debproxy-Upstream'', se_LocalDir = Get p ''X-Debproxy-Local-Dir'',
      se_UpstreamDir = Get p ''X-Debproxy-Upstream-Dir'', se_Files = read_files p 0 (Suc (length (Keys p))),
      se_Stanza = trim_prefix (Get p ''X-Debproxy-Stanza'') [NL],
      se_FirstSeen = cd_parseTime cd (Get p ''X-Debproxy-First-Seen''),
      se_FilesDownloaded = ParseBool (Get p ''X-Debproxy-Files-Downloaded'')\<rparr>"

definition meta_compress :: "codec \<Rightarrow> Paragraph list \<Rightarrow> string" where
  "meta_compress cd paras = cd_zstd cd (WriteParagraphs paras)"

definition SerializeEntries :: "codec \<Rightarrow> IndexEntry list \<Rightarrow> string" where
  "SerializeEntries cd entries = meta_compress cd (map (entryToParagraph cd) entries)"

definition SerializeStates :: "codec \<Rightarrow> UpstreamPackageState list \<Rightarrow> string" where
  "SerializeStates cd states = meta_compress cd (map (stateToParagraph cd) states)"

definition SerializeSources :: "codec \<Rightarrow> SourceEntry list \<Rightarrow> string" where
  "SerializeSources cd srcs = meta_compress cd (map (sourceEntryToParagraph cd) srcs)"

definition read_paragraphs :: "codec \<Rightarrow> (os_error + string) \<Rightarrow> meta_error + Paragraph list" where
  "read_paragraphs cd rc =
     (case rc of
        Inl e \<Rightarrow> Inl (StorageError e)
      | Inr z \<Rightarrow> (case cd_unzstd cd z of
          None \<Rightarrow> Inl ZstdError
        | Some d \<Rightarrow> (case ParseParagraphs d of Inl e \<Rightarrow> Inl (ParseError e) | Inr ps \<Rightarrow> Inr ps)))"

definition readIndexEntries :: "codec \<Rightarrow> (os_error + string) \<Rightarrow> string \<Rightarrow> string \<Rightarrow> string \<Rightarrow> string \<Rightarrow> meta_error + IndexEntry list" where
  "readIndexEntries cd rc osName codename component arch =
     (case read_paragraphs cd rc of Inl e \<Rightarrow> Inl e | Inr ps \<Rightarrow> Inr (map (entryFromParagraph cd osName codename component arch) ps))"

definition readUpstreamStates :: "codec \<Rightarrow> (os_error + string) \<Rightarrow> string \<Rightarrow> meta_error + UpstreamPackageState list" where
  "readUpstreamStates cd rc upstreamName =
     (case read_paragraphs cd rc of Inl e \<Rightarrow> Inl e | Inr ps \<Rightarrow> Inr (map (stateFromParagraph cd upstreamName) ps))"

definition readSourceEntries :: "codec \<Rightarrow> (os_error + string) \<Rightarrow> string \<Rightarrow> string \<Rightarrow> string \<Rightarrow> meta_error + SourceEntry list" where
  "readSourceEntries cd rc osName codename component =
     (case read_paragraphs cd rc of Inl e \<Rightarrow> Inl e | Inr ps \<Rightarrow> Inr (map (sourceEntryFromParagraph cd osName codename component) ps))"

text \<open>Loading a file replaces the bucket; merging it combines the two.  \<open>comb\<close> distinguishes them.\<close>

definition absorb_file :: "codec \<Rightarrow> bool \<Rightarrow> (string \<Rightarrow> os_error + string) \<Rightarrow> Store \<Rightarrow> string \<Rightarrow> meta_error + Store" where
  "absorb_file cd merging openf s relPath =
     (case file_kind relPath of
        IndexFile inner \<Rightarrow>
          (case splitEntryKey inner of
             None \<Rightarrow> Inl (BadPath relPath)
           | Some (osName, codename, component, arch) \<Rightarrow>
               (case readIndexEntries cd (openf relPath) osName codename component arch of
                  Inl e \<Rightarrow> Inl e
                | Inr disk \<Rightarrow>
                    let key = entryKey osName codename component arch
                    in Inr (s\<lparr>ms_entries := AList.update key
                         (if merging then mergeIndexEntries disk (bucket (ms_entries s) key) else disk) (ms_entries s)\<rparr>)))
      | SourcesFile inner \<Rightarrow>
          (case splitSourceKey inner of
             None \<Rightarrow> Inl (BadPath relPath)
           | Some (osName, codename, component) \<Rightarrow>
               (case readSourceEntries cd (openf relPath) osName codename component of
                  Inl e \<Rightarrow> Inl e
                | Inr disk \<Rightarrow>
                    let key = sourceKey osName codename component
                    in Inr (s\<lparr>ms_sources := AList.update key
                         (if merging then mergeSourceEntries disk (bucket (ms_sources s) key) else disk) (ms_sources s)\<rparr>)))
      | StateFile up \<Rightarrow>
          (case readUpstreamStates cd (openf relPath) up of
             Inl e \<Rightarrow> Inl e
           | Inr disk \<Rightarrow> Inr (s\<lparr>ms_states := AList.update up
                  (if merging then mergeUpstreamStates disk (bucket (ms_states s) up) else disk) (ms_states s)\<rparr>))
      | OtherFile \<Rightarrow> Inr s)"

definition mergeFromDisk :: "codec \<Rightarrow> (string \<Rightarrow> os_error + string) \<Rightarrow> Store \<Rightarrow> string \<Rightarrow> meta_error + Store" where
  "mergeFromDisk cd openf s relPath = absorb_file cd True openf s relPath"

fun loadAll :: "codec \<Rightarrow> (string \<Rightarrow> os_error + string) \<Rightarrow> (string \<Rightarrow> os_error + FileInfo) \<Rightarrow> string list \<Rightarrow> Store \<Rightarrow> meta_error + Store" where
  "loadAll cd openf statf [] s = Inr s"
| "loadAll cd openf statf (p # ps) s =
     (if file_kind p = OtherFile then loadAll cd openf statf ps s
      else case absorb_file cd False openf s p of
             Inl e \<Rightarrow> Inl e
           | Inr s1 \<Rightarrow> (case statf p of
               Inl e \<Rightarrow> Inl (StorageError e)
             | Inr fi \<Rightarrow> loadAll cd openf statf ps (s1\<lparr>ms_fileModTimes := AList.update p (fi_ModTime fi) (ms_fileModTimes s1)\<rparr>)))"

definition evictFile :: "string \<Rightarrow> Store \<Rightarrow> Store" where
  "evictFile relPath s =
     (if relPath \<in> set (ms_dirty s) then s
      else case file_kind relPath of
             IndexFile key \<Rightarrow> s\<lparr>ms_entries := AList.delete key (ms_entries s)\<rparr>
           | SourcesFile key \<Rightarrow> s\<lparr>ms_sources := AList.delete key (ms_sources s)\<rparr>
           | StateFile up \<Rightarrow> s\<lparr>ms_states := AList.delete up (ms_states s)\<rparr>
           | OtherFile \<Rightarrow> s)"

definition newer :: "int \<Rightarrow> Store \<Rightarrow> string \<Rightarrow> bool" where
  "newer t s p \<longleftrightarrow> (case map_of (ms_fileModTimes s) p of None \<Rightarrow> True | Some known \<Rightarrow> known < t)"

fun stat_all :: "(string \<Rightarrow> os_error + FileInfo) \<Rightarrow> string list \<Rightarrow> meta_error + (string \<times> int) list" where
  "stat_all statf [] = Inr []"
| "stat_all statf (p # ps) =
     (case statf p of
        Inl e \<Rightarrow> Inl (StorageError e)
      | Inr fi \<Rightarrow> (case stat_all statf ps of Inl e \<Rightarrow> Inl e | Inr r \<Rightarrow> Inr ((p, fi_ModTime fi) # r)))"

fun merge_all_files :: "codec \<Rightarrow> (string \<Rightarrow> os_error + string) \<Rightarrow> (string \<times> int) list \<Rightarrow> Store \<Rightarrow> meta_error option \<times> Store" where
  "merge_all_files cd openf [] s = (None, s)"
| "merge_all_files cd openf ((p, t) # ps) s =
     (case mergeFromDisk cd openf s p of
        Inl e \<Rightarrow> (Some e, s)
      | Inr s1 \<Rightarrow> merge_all_files cd openf ps (s1\<lparr>ms_fileModTimes := AList.update p t (ms_fileModTimes s1)\<rparr>))"

definition Refresh :: "codec \<Rightarrow> (string \<Rightarrow> os_error + string) \<Rightarrow> (string \<Rightarrow> os_error + FileInfo) \<Rightarrow> (os_error + string list) \<Rightarrow>
    Store \<Rightarrow> meta_error option \<times> Store" where
  "Refresh cd openf statf listing s =
     (case listing of
        Inl e \<Rightarrow> (Some (StorageError e), s)
      | Inr paths \<Rightarrow>
          let seen = filter (\<lambda>p. file_kind p \<noteq> OtherFile) paths
          in (case stat_all statf seen of
                Inl e \<Rightarrow> (Some e, s)
              | Inr sts \<Rightarrow>
                  let toLoad = filter (\<lambda>(p, t). newer t s p) sts;
                      toEvict = filter (\<lambda>p. p \<notin> set seen) (map fst (ms_fileModTimes s))
                  in (case merge_all_files cd openf toLoad s of
                        (Some e, s1) \<Rightarrow> (Some e, s1)
                      | (None, s1) \<Rightarrow>
                          (None, foldl (\<lambda>s p. (evictFile p s)\<lparr>ms_fileModTimes := AList.delete p (ms_fileModTimes s)\<rparr>) s1 toEvict))))"

text \<open>What \<open>writeRelPath\<close> captures under the lock: the serialized bucket.  \<open>None\<close> is the invalid key.\<close>

definition captured :: "codec \<Rightarrow> Store \<Rightarrow> string \<Rightarrow> string option" where
  "captured cd s relPath =
     (case file_kind relPath of
        IndexFile key \<Rightarrow> (if splitEntryKey key = None then None else Some (SerializeEntries cd (bucket (ms_entries s) key)))
      | SourcesFile key \<Rightarrow> (if splitSourceKey key = None then None else Some (SerializeSources cd (bucket (ms_sources s) key)))
      | StateFile up \<Rightarrow> Some (SerializeStates cd (bucket (ms_states s) up))
      | OtherFile \<Rightarrow> None)"

text \<open>Flushing: the merge before the write, the write of the captured bytes, and the clearing of the dirty mark when
  nothing has touched the file since the capture.\<close>

definition pre_flush_merge :: "codec \<Rightarrow> (string \<Rightarrow> os_error + string) \<Rightarrow> (string \<Rightarrow> os_error + FileInfo) \<Rightarrow> Store \<Rightarrow> string \<Rightarrow> Store" where
  "pre_flush_merge cd openf statf s relPath =
     (case statf relPath of
        Inl _ \<Rightarrow> s
      | Inr fi \<Rightarrow> if newer (fi_ModTime fi) s relPath
                  then (case mergeFromDisk cd openf s relPath of Inl _ \<Rightarrow> s | Inr s1 \<Rightarrow> s1) else s)"

definition writeRelPath :: "codec \<Rightarrow> ('e, 'b, 'm) backend_scheme \<Rightarrow> 'e \<Rightarrow> 'b \<Rightarrow> Store \<Rightarrow> string \<Rightarrow> meta_error option \<times> 'b \<times> nat" where
  "writeRelPath cd be e b s relPath =
     (if file_kind relPath = OtherFile then (None, b, 0)
      else case captured cd s relPath of
             None \<Rightarrow> (Some (BadPath relPath), b, 0)
           | Some data \<Rightarrow> (case be_WriteFile be e b relPath data of
               (err, b') \<Rightarrow> (map_option StorageError err, b', ms_generation s relPath)))"

definition flushRelPath :: "codec \<Rightarrow> ('e, 'b, 'm) backend_scheme \<Rightarrow> 'e \<Rightarrow> 'b \<Rightarrow> Store \<Rightarrow> string \<Rightarrow> (meta_error + nat) \<times> 'b \<times> Store" where
  "flushRelPath cd be e b s relPath =
     (let s = pre_flush_merge cd (be_OpenPublished be e b) (be_StatPublished be e b) s relPath
      in case writeRelPath cd be e b s relPath of
           (Some err, b', _) \<Rightarrow> (Inl err, b', s)
         | (None, b', gen) \<Rightarrow>
             (Inr gen, b',
              case be_StatPublished be e b' relPath of
                Inl _ \<Rightarrow> s
              | Inr fi \<Rightarrow> s\<lparr>ms_fileModTimes := AList.update relPath (fi_ModTime fi) (ms_fileModTimes s)\<rparr>))"

definition clear_dirty :: "string \<Rightarrow> nat \<Rightarrow> Store \<Rightarrow> Store" where
  "clear_dirty p gen s = (if ms_generation s p = gen then s\<lparr>ms_dirty := removeAll p (ms_dirty s)\<rparr> else s)"

fun flush_loop :: "codec \<Rightarrow> ('e, 'b, 'm) backend_scheme \<Rightarrow> 'e \<Rightarrow> string list \<Rightarrow> 'b \<Rightarrow> Store \<Rightarrow> meta_error option \<times> 'b \<times> Store" where
  "flush_loop cd be e [] b s = (None, b, s)"
| "flush_loop cd be e (p # ps) b s =
     (case flushRelPath cd be e b s p of
        (Inl err, b', s') \<Rightarrow> (Some err, b', s')
      | (Inr gen, b', s') \<Rightarrow> flush_loop cd be e ps b' (clear_dirty p gen s'))"

definition Flush :: "codec \<Rightarrow> ('e, 'b, 'm) backend_scheme \<Rightarrow> 'e \<Rightarrow> 'b \<Rightarrow> Store \<Rightarrow> meta_error option \<times> 'b \<times> Store" where
  "Flush cd be e b s = flush_loop cd be e (ms_dirty s) b s"


section \<open>The records\<close>

lemma bucket_update: "bucket (AList.update k v m) k' = (if k' = k then v else bucket m k')"
  by (simp add: bucket_def update_conv')

lemma find_best_Some:
  assumes "newest_of Compare ver pre b"
  shows "\<exists>x. find_best ver [] (Some b) es = Some x \<and> newest_of Compare ver (pre @ es) x"
  using assms
proof (induction es arbitrary: b pre)
  case (Cons e es)
  have "newest_of Compare ver (pre @ [e]) (if Compare (ver e) (ver b) > 0 then e else b)"
    using deb.newest_of_snoc[OF Cons.prems, of e] .
  from Cons.IH[OF this] show ?case by (auto split: if_splits)
qed simp

lemma find_best_newest: "es \<noteq> [] \<Longrightarrow> \<exists>x. find_best ver [] None es = Some x \<and> newest_of Compare ver es x"
  using find_best_Some[OF newest_of_single, of ver "hd es" "tl es"] by (cases es) auto

lemma find_best_version: "version \<noteq> [] \<Longrightarrow> find_best ver version None es = List.find (\<lambda>e. ver e = version) es"
  by (induction es) auto

lemma splitEntryKey_entryKey:
  assumes "CHR ''/'' \<notin> set a" "CHR ''/'' \<notin> set b" "CHR ''/'' \<notin> set c"
  shows "splitEntryKey (entryKey a b c d) = Some (a, b, c, d)"
  using assms by (simp add: splitEntryKey_def entryKey_def eval_nat_numeral cut_append)

lemma splitSourceKey_sourceKey:
  "CHR ''/'' \<notin> set a \<Longrightarrow> CHR ''/'' \<notin> set b \<Longrightarrow> splitSourceKey (sourceKey a b c) = Some (a, b, c)"
  by (simp add: splitSourceKey_def sourceKey_def eval_nat_numeral cut_append)

text \<open>Merging.\<close>

lemma merge_mem:
  assumes "distinct (map key memory)"
  shows "foldl (\<lambda>m e. AList.update (key e) e m) [] memory = map (\<lambda>e. (key e, e)) memory"
  using assms
proof (induction memory rule: rev_induct)
  case (snoc x xs)
  have "AList.update (key x) x (map (\<lambda>e. (key e, e)) ys) = map (\<lambda>e. (key e, e)) ys @ [(key x, x)]" if "key x \<notin> key ` set ys" for ys
    using that by (induction ys) auto
  then show ?case using snoc by simp
qed simp

lemma merge_fold:
  assumes "distinct (map key disk)" "distinct (map fst mem)"
  shows "foldl (\<lambda>(out, mem) e. case map_of mem (key e) of
              Some x \<Rightarrow> (out @ [x], AList.delete (key e) mem) | None \<Rightarrow> (out @ [e], mem)) (out, mem) disk =
    (out @ map (\<lambda>e. case map_of mem (key e) of Some x \<Rightarrow> x | None \<Rightarrow> e) disk, filter (\<lambda>(k, _). k \<notin> key ` set disk) mem)"
  using assms
proof (induction disk arbitrary: out mem)
  case (Cons d disk)
  have same: "map (\<lambda>e. case map_of (AList.delete (key d) mem) (key e) of Some x \<Rightarrow> x | None \<Rightarrow> e) disk =
      map (\<lambda>e. case map_of mem (key e) of Some x \<Rightarrow> x | None \<Rightarrow> e) disk"
  proof (intro map_cong refl)
    fix x assume "x \<in> set disk"
    then have "key x \<noteq> key d" using Cons.prems(1) by (metis distinct.simps(2) image_eqI list.simps(9) set_map)
    then show "(case map_of (AList.delete (key d) mem) (key x) of Some y \<Rightarrow> y | None \<Rightarrow> x) = (case map_of mem (key x) of Some y \<Rightarrow> y | None \<Rightarrow> x)"
      by (simp add: delete_conv')
  qed
  have filt: "filter (\<lambda>(k, _). k \<notin> key ` set disk) (AList.delete (key d) mem) = filter (\<lambda>(k, _). k \<notin> key ` set (d # disk)) mem"
    by (auto simp: AList.delete_eq intro!: filter_cong)
  show ?case
  proof (cases "map_of mem (key d)")
    case None
    then have "filter (\<lambda>(k, _). k \<notin> key ` set disk) mem = filter (\<lambda>(k, _). k \<notin> key ` set (d # disk)) mem"
      by (intro filter_cong) (auto simp: map_of_eq_None_iff image_iff)
    with None Cons show ?thesis by simp
  next
    case (Some x)
    with Cons.IH[of "AList.delete (key d) mem" "out @ [x]"] Cons.prems same filt show ?thesis
      by (simp add: distinct_delete)
  qed
qed simp


lemma merge_by_eq:
  assumes "distinct (map key disk)" "distinct (map key memory)"
  shows "merge_by key disk memory =
    map (\<lambda>e. case List.find (\<lambda>m. key m = key e) memory of Some x \<Rightarrow> x | None \<Rightarrow> e) disk @
    filter (\<lambda>m. key m \<notin> key ` set disk) memory"
proof -
  have lk: "map_of (map (\<lambda>e. (key e, e)) ms) k = List.find (\<lambda>m. key m = k) ms" for k ms
    by (induction ms) auto
  have d: "distinct (map fst (map (\<lambda>e. (key e, e)) memory))" using assms(2) by (simp add: comp_def)
  have rest: "map snd (filter (\<lambda>(k, _). k \<notin> key ` set disk) (map (\<lambda>e. (key e, e)) memory)) = filter (\<lambda>m. key m \<notin> key ` set disk) memory"
    by (induction memory) auto
  show ?thesis
    unfolding merge_by_def merge_mem[OF assms(2)] Let_def merge_fold[OF assms(1) d] lk prod.case rest by simp
qed

lemma merge_by_union:
  assumes "distinct (map key disk)" "distinct (map key memory)"
  shows "distinct (map key (merge_by key disk memory)) \<and>
    set (merge_by key disk memory) = set memory \<union> {e \<in> set disk. key e \<notin> key ` set memory}"
proof
  let ?f = "\<lambda>e. case List.find (\<lambda>m. key m = key e) memory of Some x \<Rightarrow> x | None \<Rightarrow> e"
  have key: "key (?f e) = key e" for e by (auto simp: find_Some_iff split: option.splits)
  have keys: "map key (map ?f disk) = map key disk" using key by simp
  show "distinct (map key (merge_by key disk memory))"
    unfolding merge_by_eq[OF assms] map_append keys distinct_append
  proof (intro conjI)
    show "set (map key disk) \<inter> set (map key (filter (\<lambda>m. key m \<notin> key ` set disk) memory)) = {}"
    proof (rule equals0I, elim IntE)
      fix k assume "k \<in> set (map key disk)" "k \<in> set (map key (filter (\<lambda>m. key m \<notin> key ` set disk) memory))"
      then show False by (metis (mono_tags, lifting) image_iff list.set_map mem_Collect_eq set_filter)
    qed
  qed (rule assms(1), rule distinct_map_filter[OF assms(2)])
  have mem: "?f e = m" if mm: "m \<in> set memory" "key m = key e" for e m
  proof -
    obtain x where x: "List.find (\<lambda>m. key m = key e) memory = Some x"
      using mm by (cases "List.find (\<lambda>m. key m = key e) memory") (auto simp: find_None_iff)
    then have "x \<in> set memory" "key x = key m" using mm(2) by (auto simp: find_Some_iff)
    then have "x = m" using mm(1) assms(2) by (metis distinct_map inj_onD)
    with x show ?thesis by simp
  qed
  have none: "?f e = e" if "key e \<notin> key ` set memory" for e
    using that by (auto simp: find_Some_iff split: option.splits) (metis image_eqI nth_mem)
  show "set (merge_by key disk memory) = set memory \<union> {e \<in> set disk. key e \<notin> key ` set memory}"
  proof (intro set_eqI iffI)
    fix y assume "y \<in> set (merge_by key disk memory)"
    then consider e where "e \<in> set disk" "y = ?f e" | "y \<in> set memory" unfolding merge_by_eq[OF assms] by auto
    then show "y \<in> set memory \<union> {e \<in> set disk. key e \<notin> key ` set memory}"
    proof cases
      case 1
      show ?thesis
      proof (cases "key e \<in> key ` set memory")
        case True
        then obtain m where m: "m \<in> set memory" "key m = key e" by (auto simp: image_iff)
        then show ?thesis using mem[OF m] 1(2) by simp
      next
        case False
        then show ?thesis using none[OF False] 1 by simp
      qed
    qed simp
  next
    fix y assume y: "y \<in> set memory \<union> {e \<in> set disk. key e \<notin> key ` set memory}"
    show "y \<in> set (merge_by key disk memory)"
    proof (cases "key y \<in> key ` set disk")
      case True
      then obtain e where e: "e \<in> set disk" "key y = key e" by auto
      have "?f e = y"
      proof (cases "y \<in> set memory")
        case True
        then show ?thesis using mem e(2) by simp
      next
        case False
        then have "y = e" using y e assms(1) by (metis (no_types, lifting) UnE distinct_map inj_onD mem_Collect_eq)
        then show ?thesis using none False y by auto
      qed
      with e(1) show ?thesis unfolding merge_by_eq[OF assms] by force
    next
      case False
      then show ?thesis using y unfolding merge_by_eq[OF assms] by auto
    qed
  qed
qed

text \<open>merging a metadata file into memory loses nothing: with records identified by package, version and upstream,
  the result has every record in memory, every record of the file that memory does not have, nothing else, and no
  identity twice.\<close>

theorem mergeIndexEntries_union:
  assumes "distinct (map ie_id disk)" "distinct (map ie_id memory)"
  shows "distinct (map ie_id (mergeIndexEntries disk memory)) \<and>
    set (mergeIndexEntries disk memory) = set memory \<union> {e \<in> set disk. ie_id e \<notin> ie_id ` set memory}"
  unfolding mergeIndexEntries_def by (rule merge_by_union[OF assms])

definition wit_entry :: "string \<Rightarrow> string \<Rightarrow> IndexEntry" where
  "wit_entry v u = \<lparr>ie_OS = ''debian'', ie_Codename = ''trixie'', ie_Component = ''main'', ie_Arch = ''amd64'', ie_Package = ''a'',
     ie_Version = v, ie_Upstream = u, ie_FromAutoUpdate = False, ie_PoolPath = ''pool/a'', ie_SHA256 = [], ie_SHA512 = [],
     ie_Size = 0, ie_Control = [], ie_FirstSeen = None\<rparr>"

theorem mergeIndexEntries_union_witness:
  "set (mergeIndexEntries [wit_entry ''1'' ''x'', wit_entry ''1'' ''y''] [wit_entry ''1'' ''y'', wit_entry ''2'' ''x'']) =
     {wit_entry ''1'' ''y'', wit_entry ''2'' ''x'', wit_entry ''1'' ''x''}"
proof -
  have d: "distinct (map ie_id [wit_entry ''1'' ''x'', wit_entry ''1'' ''y''])" "distinct (map ie_id [wit_entry ''1'' ''y'', wit_entry ''2'' ''x''])"
    by code_simp+
  have k: "ie_id (wit_entry ''1'' ''x'') \<notin> ie_id ` set [wit_entry ''1'' ''y'', wit_entry ''2'' ''x'']" by code_simp
  show ?thesis using mergeIndexEntries_union[OF d] k by auto
qed



section \<open>Flushing beside concurrent changes\<close>

text \<open>One flusher beside mutating callers of a single instance.  The flusher captures a dirty file's records and its
  generation under the lock, writes the captured bytes without the lock, and then clears the dirty mark under the lock.\<close>

datatype flusher = Idle | Captured string string nat | Written string nat

definition plain_entry :: "IndexEntry \<Rightarrow> bool" where
  "plain_entry e \<longleftrightarrow> list_all plain_seg [ie_OS e, ie_Codename e, ie_Component e, ie_Arch e]"

definition plain_source :: "SourceEntry \<Rightarrow> bool" where
  "plain_source e \<longleftrightarrow> list_all plain_seg [se_OS e, se_Codename e, se_Component e]"

inductive mutates :: "Store \<Rightarrow> Store \<Rightarrow> bool" where
  upsert: "plain_entry e \<Longrightarrow> mutates s (UpsertEntry now s e)"
| remove: "plain_entry e \<Longrightarrow> mutates s (RemoveEntry s e)"
| upsert_source: "plain_source e \<Longrightarrow> mutates s (UpsertSourceEntry now s e)"
| remove_source: "plain_source e \<Longrightarrow> mutates s (RemoveSourceEntry s e)"
| upsert_state: "mutates s (UpsertUpstreamState now s st)"

inductive flush_step :: "codec \<Rightarrow> Store \<times> (string \<rightharpoonup> string) \<times> flusher \<Rightarrow> Store \<times> (string \<rightharpoonup> string) \<times> flusher \<Rightarrow> bool" for cd where
  mutate: "mutates s s' \<Longrightarrow> flush_step cd (s, d, f) (s', d, f)"
| capture: "p \<in> set (ms_dirty s) \<Longrightarrow> captured cd s p = Some c \<Longrightarrow> flush_step cd (s, d, Idle) (s, d, Captured p c (ms_generation s p))"
| write_ok: "flush_step cd (s, d, Captured p c g) (s, d(p \<mapsto> c), Written p g)"
| write_failed: "flush_step cd (s, d, Captured p c g) (s, d, Idle)"
| clear: "flush_step cd (s, d, Written p g) (clear_dirty p g s, d, Idle)"

inductive_cases flush_stepE: "flush_step cd x y"

definition empty_store :: Store where
  "empty_store = \<lparr>ms_entries = [], ms_states = [], ms_sources = [], ms_fileModTimes = [], ms_dirty = [], ms_generation = (\<lambda>_. 0)\<rparr>"

inductive reachable :: "codec \<Rightarrow> Store \<times> (string \<rightharpoonup> string) \<times> flusher \<Rightarrow> bool" for cd where
  start: "reachable cd (empty_store, Map.empty, Idle)"
| step: "reachable cd x \<Longrightarrow> flush_step cd x y \<Longrightarrow> reachable cd y"

text \<open>A file is persisted when the disk has exactly the bytes that would be written now; a file that was never written
  stands for no records.\<close>

definition persisted :: "codec \<Rightarrow> Store \<Rightarrow> (string \<rightharpoonup> string) \<Rightarrow> string \<Rightarrow> bool" where
  "persisted cd s d p \<longleftrightarrow>
     (case d p of
        Some c \<Rightarrow> captured cd s p = Some c
      | None \<Rightarrow> captured cd s p = None \<or> captured cd s p = captured cd empty_store p)"

text \<open>What every mutation does to the bookkeeping: it touches one file, marks it dirty and bumps its generation, and
  leaves the records of every other file.\<close>

definition touches :: "codec \<Rightarrow> string \<Rightarrow> Store \<Rightarrow> Store \<Rightarrow> bool" where
  "touches cd p s s' \<longleftrightarrow> set (ms_dirty s') = insert p (set (ms_dirty s)) \<and>
     ms_generation s' = (ms_generation s)(p := Suc (ms_generation s p)) \<and> (\<forall>q. q \<noteq> p \<longrightarrow> captured cd s' q = captured cd s q)"

lemma clean_segs_mixed:
  "list_all (\<lambda>x. x = [] \<or> plain_seg x) segs \<Longrightarrow> clean_segs r st segs = rev (filter (\<lambda>x. x \<noteq> []) segs) @ st"
  by (induction segs arbitrary: st) (auto simp: plain_seg_def)

lemma index_join:
  assumes "list_all plain_seg segs" "segs \<noteq> []"
  shows "path_join (''metadata/index/'' # segs) = ''metadata/index/'' @ join ''/'' segs"
proof -
  have plain: "\<And>x. x \<in> set segs \<Longrightarrow> plain_seg x" using assms(1) by (simp add: list_all_iff)
  have segs: "filter (\<lambda>x. x \<noteq> []) segs = segs" using plain by (force simp: filter_id_conv plain_seg_def)
  have ne: "filter (\<lambda>e. e \<noteq> []) (''metadata/index/'' # segs) = ''metadata/index/'' # segs" by (simp add: segs)
  let ?xs = "''metadata'' # ''index'' # [] # segs"
  have j: "join ''/'' (''metadata/index/'' # segs) = join ''/'' ?xs" using assms(2) by (simp add: join_Cons)
  have no: "\<And>x. x \<in> set ?xs \<Longrightarrow> CHR ''/'' \<notin> set x" using plain by (auto simp: plain_seg_def)
  have sp: "split_on CHR ''/'' (join ''/'' ?xs) = ?xs" by (rule split_on_join[OF _ no]) simp_all
  have "list_all (\<lambda>x. x = [] \<or> plain_seg x) segs" unfolding list_all_iff using plain by blast
  then have mixed: "list_all (\<lambda>x. x = [] \<or> plain_seg x) ?xs" by (simp add: plain_seg_def)
  have "path_clean (join ''/'' ?xs) = join ''/'' (''metadata'' # ''index'' # segs)"
    unfolding path_clean_def sp clean_segs_mixed[OF mixed] using assms(2) by (simp add: join_Cons segs Let_def)
  then show ?thesis unfolding path_join_def ne Let_def j using assms(2) by (simp add: join_Cons)
qed


lemma IndexRelPath_key:
  assumes "list_all plain_seg [a, b, c, d]"
  shows "IndexRelPath a b c d = indexPrefix @ entryKey a b c d @ ''.packages.zst''"
proof -
  have "plain_seg (d @ ''.packages.zst'')" using assms by (simp add: plain_seg_def)
  then have "list_all plain_seg [a, b, c, d @ ''.packages.zst'']" using assms by simp
  then show ?thesis using index_join[of "[a, b, c, d @ ''.packages.zst'']"] by (simp add: IndexRelPath_def indexPrefix_def entryKey_def)
qed

lemma SourceRelPath_key:
  assumes "list_all plain_seg [a, b, c]"
  shows "SourceRelPath a b c = indexPrefix @ sourceKey a b c @ sourcesSuffix"
  using index_join[OF assms] by (simp add: SourceRelPath_def indexPrefix_def sourceKey_def)

lemma strip_both:
  assumes "has_prefix p x" "has_suffix p y" "length x + length y \<le> length p"
  shows "p = x @ trim_suffix (trim_prefix p x) y @ y"
proof -
  obtain r where r: "p = x @ r" using assms(1) has_prefix_iff by blast
  then have "drop (length r - length y) r = y" "length y \<le> length r"
    using assms(2,3) by (auto simp: has_suffix_def)
  then have "has_suffix r y" by (simp add: has_suffix_def)
  then show ?thesis using r append_take_drop_id[of "length r - length y" r] \<open>drop (length r - length y) r = y\<close>
    by (simp add: trim_prefix_def has_prefix_def trim_suffix_def)
qed


lemma strip_cases:
  assumes "has_prefix p x" "has_suffix p y" "x \<noteq> []" "k = trim_suffix (trim_prefix p x) y"
  shows "p = x @ k @ y \<or> (\<exists>n. 0 < n \<and> n \<le> length y \<and> k = drop n y \<and> last x = y ! (n - 1))"
proof (cases "length x + length y \<le> length p")
  case True
  then show ?thesis using strip_both[OF assms(1,2)] assms(4) by blast
next
  case False
  obtain r q where r: "p = x @ r" "p = q @ y" using assms(1,2) has_prefix_iff has_suffix_iff by blast
  have len: "length r < length y" using False r(1) by simp
  then obtain us where us: "x = q @ us" "us @ r = y"
    using r by (auto simp: append_eq_append_conv2)
  have "us \<noteq> []" using len us(2) by auto
  then have "last x = y ! (length us - 1)" unfolding us(1) us(2)[symmetric] by (simp add: last_append last_conv_nth nth_append)
  moreover have "k = r" using len r(1) assms(4) by (simp add: trim_prefix_def has_prefix_def trim_suffix_def has_suffix_def)
  moreover have "r = drop (length us) y" using us(2) by auto
  moreover have "length us \<le> length y" using us(2) by (metis length_append le_add1)
  ultimately show ?thesis using \<open>us \<noteq> []\<close> by (intro disjI2 exI[of _ "length us"]) auto
qed

lemma file_kind_paths:
  "file_kind p = IndexFile k \<Longrightarrow> p = indexPrefix @ k @ ''.packages.zst''"
  "file_kind p = SourcesFile k \<Longrightarrow> CHR ''/'' \<in> set k \<Longrightarrow> p = indexPrefix @ k @ sourcesSuffix"
  "file_kind p = StateFile k \<Longrightarrow> p = StateRelPath k"
proof -
  have ne: "indexPrefix \<noteq> []" "upstreamPrefix \<noteq> []" "last indexPrefix = CHR ''/''" "last upstreamPrefix = CHR ''/''"
    by (simp_all add: indexPrefix_def upstreamPrefix_def)
  have nth: "n \<le> length y \<Longrightarrow> 0 < n \<Longrightarrow> y ! (n - 1) \<in> set y" for n and y :: string by simp
  have no: "CHR ''/'' \<notin> set ''.packages.zst''" "CHR ''/'' \<notin> set ''.state.zst''" by simp_all
  show "p = indexPrefix @ k @ ''.packages.zst''" if "file_kind p = IndexFile k"
  proof -
    have "has_prefix p indexPrefix" "has_suffix p ''.packages.zst''" "k = trim_suffix (trim_prefix p indexPrefix) ''.packages.zst''"
      using that by (auto simp: file_kind_def split: if_splits)
    from strip_cases[OF this(1,2) ne(1) this(3)] show ?thesis using nth no(1) ne(3) by metis
  qed
  show "p = StateRelPath k" if "file_kind p = StateFile k"
  proof -
    have "has_prefix p upstreamPrefix" "has_suffix p ''.state.zst''" "k = trim_suffix (trim_prefix p upstreamPrefix) ''.state.zst''"
      using that by (auto simp: file_kind_def split: if_splits)
    from strip_cases[OF this(1,2) ne(2) this(3)] show ?thesis using nth no(2) ne(4) unfolding StateRelPath_def by metis
  qed
  show "p = indexPrefix @ k @ sourcesSuffix" if "file_kind p = SourcesFile k" "CHR ''/'' \<in> set k"
  proof -
    have "has_prefix p indexPrefix" "has_suffix p sourcesSuffix" "k = trim_suffix (trim_prefix p indexPrefix) sourcesSuffix"
      using that by (auto simp: file_kind_def split: if_splits)
    moreover have "CHR ''/'' \<notin> set (drop n sourcesSuffix)" if "0 < n" for n
    proof -
      have "set (drop n sourcesSuffix) \<subseteq> set (drop 1 sourcesSuffix)" using that by (intro set_drop_subset_set_drop) simp
      moreover have "CHR ''/'' \<notin> set (drop 1 sourcesSuffix)" by (simp add: sourcesSuffix_def)
      ultimately show ?thesis by blast
    qed
    ultimately show ?thesis using strip_cases[of p indexPrefix sourcesSuffix k] ne(1) that(2) by metis
  qed
qed

lemma touches_entries:
  assumes "plain_entry e" "s' = mark_dirty (IndexRelPath (ie_OS e) (ie_Codename e) (ie_Component e) (ie_Arch e))
      (s\<lparr>ms_entries := AList.update (entryKey (ie_OS e) (ie_Codename e) (ie_Component e) (ie_Arch e)) es (ms_entries s)\<rparr>)"
  shows "touches cd (IndexRelPath (ie_OS e) (ie_Codename e) (ie_Component e) (ie_Arch e)) s s'"
proof -
  have "captured cd s' q = captured cd s q" if "q \<noteq> IndexRelPath (ie_OS e) (ie_Codename e) (ie_Component e) (ie_Arch e)" for q
    using that file_kind_paths(1)[of q] IndexRelPath_key[OF assms(1)[unfolded plain_entry_def]]
    by (cases "file_kind q") (auto simp: assms(2) captured_def mark_dirty_def bucket_update)
  then show ?thesis by (simp add: touches_def assms(2) mark_dirty_def)
qed

lemma touches_sources:
  assumes "plain_source e" "s' = mark_dirty (SourceRelPath (se_OS e) (se_Codename e) (se_Component e))
      (s\<lparr>ms_sources := AList.update (sourceKey (se_OS e) (se_Codename e) (se_Component e)) es (ms_sources s)\<rparr>)"
  shows "touches cd (SourceRelPath (se_OS e) (se_Codename e) (se_Component e)) s s'"
proof -
  have "captured cd s' q = captured cd s q" if "q \<noteq> SourceRelPath (se_OS e) (se_Codename e) (se_Component e)" for q
    using that file_kind_paths(2)[of q] SourceRelPath_key[OF assms(1)[unfolded plain_source_def]]
    by (cases "file_kind q") (auto simp: assms(2) captured_def mark_dirty_def bucket_update sourceKey_def)
  then show ?thesis by (simp add: touches_def assms(2) mark_dirty_def)
qed

lemma mutates_touches: "mutates s s' \<Longrightarrow> s' = s \<or> (\<exists>p. touches cd p s s')"
proof (induction rule: mutates.induct)
  case (upsert e s now)
  let ?e = "if ie_FirstSeen e = None then e\<lparr>ie_FirstSeen := Some now\<rparr> else e"
  have "plain_entry ?e" using upsert by (simp add: plain_entry_def)
  from touches_entries[OF this, where s' = "UpsertEntry now s e" and s = s and cd = cd] show ?case unfolding UpsertEntry_def Let_def by blast
next
  case (remove e s)
  from touches_entries[OF this refl, where s = s and cd = cd] show ?case unfolding RemoveEntry_def Let_def by auto
next
  case (upsert_source e s now)
  let ?e = "if se_FirstSeen e = None then e\<lparr>se_FirstSeen := Some now\<rparr> else e"
  have "plain_source ?e" using upsert_source by (simp add: plain_source_def)
  from touches_sources[OF this, where s' = "UpsertSourceEntry now s e" and s = s and cd = cd] show ?case unfolding UpsertSourceEntry_def Let_def by blast
next
  case (remove_source e s)
  from touches_sources[OF this refl, where s = s and cd = cd] show ?case unfolding RemoveSourceEntry_def Let_def by auto
next
  case (upsert_state s now st)
  let ?st = "if ps_LastChecked st = None then st\<lparr>ps_LastChecked := Some now\<rparr> else st"
  have "captured cd (UpsertUpstreamState now s st) q = captured cd s q" if "q \<noteq> StateRelPath (ps_Upstream ?st)" for q
    using that file_kind_paths(3)[of q]
    by (cases "file_kind q") (auto simp: UpsertUpstreamState_def Let_def captured_def mark_dirty_def bucket_update)
  then have "touches cd (StateRelPath (ps_Upstream ?st)) s (UpsertUpstreamState now s st)"
    by (simp add: touches_def UpsertUpstreamState_def Let_def mark_dirty_def)
  then show ?case by blast
qed


text \<open>The inductive invariant.\<close>

fun flusher_ok :: "codec \<Rightarrow> Store \<Rightarrow> (string \<rightharpoonup> string) \<Rightarrow> flusher \<Rightarrow> bool" where
  "flusher_ok cd s d Idle = True"
| "flusher_ok cd s d (Captured p c g) \<longleftrightarrow> p \<in> set (ms_dirty s) \<and> g \<le> ms_generation s p \<and>
     (g = ms_generation s p \<longrightarrow> captured cd s p = Some c)"
| "flusher_ok cd s d (Written p g) \<longleftrightarrow> p \<in> set (ms_dirty s) \<and> g \<le> ms_generation s p \<and>
     (g = ms_generation s p \<longrightarrow> persisted cd s d p)"

definition flush_inv :: "codec \<Rightarrow> Store \<times> (string \<rightharpoonup> string) \<times> flusher \<Rightarrow> bool" where
  "flush_inv cd x = (case x of (s, d, f) \<Rightarrow> (\<forall>p. p \<notin> set (ms_dirty s) \<longrightarrow> persisted cd s d p) \<and> flusher_ok cd s d f)"

lemma touches_keeps:
  assumes "touches cd p s s'" "flush_inv cd (s, d, f)"
  shows "flush_inv cd (s', d, f)"
proof -
  have "persisted cd s' d q = persisted cd s d q" if "q \<noteq> p" for q
    using assms(1) that by (simp add: persisted_def touches_def split: option.splits)
  then show ?thesis using assms by (cases f) (auto simp: flush_inv_def touches_def)
qed

lemma persisted_dirty [simp]: "persisted cd (s\<lparr>ms_dirty := x\<rparr>) d p = persisted cd s d p"
proof -
  have "captured cd (s\<lparr>ms_dirty := x\<rparr>) p = captured cd s p" by (cases "file_kind p") (simp_all add: captured_def)
  then show ?thesis by (cases "d p") (simp_all add: persisted_def)
qed

lemma flush_step_inv: "flush_step cd x y \<Longrightarrow> flush_inv cd x \<Longrightarrow> flush_inv cd y"
proof (induction rule: flush_step.induct)
  case (mutate s s' d f)
  then show ?case using mutates_touches[of s s' cd] touches_keeps by blast
next
  case (clear s d p g)
  then show ?case by (auto simp: flush_inv_def clear_dirty_def)
qed (auto simp: flush_inv_def persisted_def)

lemma reachable_inv: "reachable cd x \<Longrightarrow> flush_inv cd x"
proof (induction rule: reachable.induct)
  case start
  show ?case by (simp add: flush_inv_def persisted_def)
qed (rule flush_step_inv)

text \<open>C14: a flush never loses a concurrent change: whatever mutations run between capturing a metadata file, writing it
  and clearing its mark, every file that is not marked dirty is on disk with exactly the records in memory.\<close>

theorem Flush_no_lost_update:
  assumes "reachable cd (s, d, f)" "p \<notin> set (ms_dirty s)"
  shows "persisted cd s d p"
  using reachable_inv[OF assms(1)] assms(2) by (simp add: flush_inv_def)


definition wit_codec :: codec where
  "wit_codec = \<lparr>cd_zstd = id, cd_unzstd = Some, cd_fmtTime = (\<lambda>_. ''t''), cd_parseTime = (\<lambda>_. None)\<rparr>"

definition wit_state :: "string \<Rightarrow> UpstreamPackageState" where
  "wit_state v = \<lparr>ps_Upstream = ''u'', ps_PackageName = ''a'', ps_Arch = ''all'', ps_UpstreamVersion = v, ps_LastChecked = None\<rparr>"

definition wit_store :: "string \<Rightarrow> Store \<Rightarrow> Store" where
  "wit_store v s = UpsertUpstreamState 5 s (wit_state v)"

lemma wit_captured:
  "captured wit_codec (wit_store ''1'' empty_store) (StateRelPath ''u'') \<noteq> None"
  "captured wit_codec (wit_store ''2'' (wit_store ''1'' empty_store)) (StateRelPath ''u'') \<noteq> None"
  "captured wit_codec (wit_store ''2'' (wit_store ''1'' empty_store)) (StateRelPath ''u'') \<noteq> captured wit_codec (wit_store ''1'' empty_store) (StateRelPath ''u'')"
  "StateRelPath ''u'' \<in> set (ms_dirty (wit_store ''1'' empty_store))"
  "StateRelPath ''u'' \<in> set (ms_dirty (wit_store ''2'' (wit_store ''1'' empty_store)))"
  "ms_generation (wit_store ''2'' (wit_store ''1'' empty_store)) (StateRelPath ''u'') \<noteq> ms_generation (wit_store ''1'' empty_store) (StateRelPath ''u'')"
  by code_simp+

theorem Flush_no_lost_update_witness:
  "\<exists>d. reachable wit_codec (clear_dirty (StateRelPath ''u'') (ms_generation (wit_store ''1'' empty_store) (StateRelPath ''u''))
       (wit_store ''1'' empty_store), d, Idle) \<and>
     persisted wit_codec (clear_dirty (StateRelPath ''u'') (ms_generation (wit_store ''1'' empty_store) (StateRelPath ''u''))
       (wit_store ''1'' empty_store)) d (StateRelPath ''u'')"
proof -
  let ?s = "wit_store ''1'' empty_store" and ?p = "StateRelPath ''u''"
  obtain c where c: "captured wit_codec ?s ?p = Some c" using wit_captured(1) by auto
  have "reachable wit_codec (?s, Map.empty, Idle)"
    unfolding wit_store_def by (rule reachable.step[OF reachable.start flush_step.mutate[OF mutates.upsert_state]])
  then have "reachable wit_codec (?s, Map.empty, Captured ?p c (ms_generation ?s ?p))"
    using flush_step.capture[OF wit_captured(4) c] by (rule reachable.step)
  then have "reachable wit_codec (?s, Map.empty(?p \<mapsto> c), Written ?p (ms_generation ?s ?p))"
    using flush_step.write_ok by (rule reachable.step)
  then have r: "reachable wit_codec (clear_dirty ?p (ms_generation ?s ?p) ?s, Map.empty(?p \<mapsto> c), Idle)"
    using flush_step.clear by (rule reachable.step)
  moreover have "?p \<notin> set (ms_dirty (clear_dirty ?p (ms_generation ?s ?p) ?s))" by (simp add: clear_dirty_def)
  from Flush_no_lost_update[OF r this] r show ?thesis by blast
qed

text \<open>Two flushers at a time are not safe: the slower one can put back the older bytes after the faster one has cleared
  the mark.\<close>

inductive two_step :: "codec \<Rightarrow> Store \<times> (string \<rightharpoonup> string) \<times> flusher \<times> flusher \<Rightarrow> Store \<times> (string \<rightharpoonup> string) \<times> flusher \<times> flusher \<Rightarrow> bool" for cd where
  left: "flush_step cd (s, d, f) (s', d', f') \<Longrightarrow> two_step cd (s, d, f, g) (s', d', f', g)"
| right: "flush_step cd (s, d, g) (s', d', g') \<Longrightarrow> two_step cd (s, d, f, g) (s', d', f, g')"

lemma two_more: "(two_step cd)\<^sup>*\<^sup>* a b \<Longrightarrow> two_step cd b c \<Longrightarrow> (two_step cd)\<^sup>*\<^sup>* a c"
  by (rule rtranclp.rtrancl_into_rtrancl)

lemma two_flushers_lose_update:
  "\<exists>s d f. (two_step wit_codec)\<^sup>*\<^sup>* (empty_store, Map.empty, Idle, Idle) (s, d, f, Idle) \<and>
     StateRelPath ''u'' \<notin> set (ms_dirty s) \<and> \<not> persisted wit_codec s d (StateRelPath ''u'')"
proof -
  let ?s1 = "wit_store ''1'' empty_store" and ?p = "StateRelPath ''u''"
  let ?s2 = "wit_store ''2'' ?s1"
  let ?s3 = "clear_dirty ?p (ms_generation ?s2 ?p) ?s2"
  obtain c1 c2 where c: "captured wit_codec ?s1 ?p = Some c1" "captured wit_codec ?s2 ?p = Some c2"
    using wit_captured(1,2) by auto
  let ?f = "Captured ?p c1 (ms_generation ?s1 ?p)"
  note start = rtranclp.rtrancl_refl[of "two_step wit_codec" "(empty_store, Map.empty, Idle, Idle)"]
  from start have "(two_step wit_codec)\<^sup>*\<^sup>* (empty_store, Map.empty, Idle, Idle) (?s1, Map.empty, Idle, Idle)"
    unfolding wit_store_def by (rule two_more[OF _ two_step.left[OF flush_step.mutate[OF mutates.upsert_state]]])
  then have "(two_step wit_codec)\<^sup>*\<^sup>* (empty_store, Map.empty, Idle, Idle) (?s1, Map.empty, ?f, Idle)"
    by (rule two_more[OF _ two_step.left[OF flush_step.capture[OF wit_captured(4) c(1)]]])
  then have "(two_step wit_codec)\<^sup>*\<^sup>* (empty_store, Map.empty, Idle, Idle) (?s2, Map.empty, ?f, Idle)"
    unfolding wit_store_def[of "''2''"] by (rule two_more[OF _ two_step.right[OF flush_step.mutate[OF mutates.upsert_state]]])
  then have "(two_step wit_codec)\<^sup>*\<^sup>* (empty_store, Map.empty, Idle, Idle) (?s2, Map.empty, ?f, Captured ?p c2 (ms_generation ?s2 ?p))"
    by (rule two_more[OF _ two_step.right[OF flush_step.capture[OF wit_captured(5) c(2)]]])
  then have "(two_step wit_codec)\<^sup>*\<^sup>* (empty_store, Map.empty, Idle, Idle) (?s2, Map.empty(?p \<mapsto> c2), ?f, Written ?p (ms_generation ?s2 ?p))"
    by (rule two_more[OF _ two_step.right[OF flush_step.write_ok]])
  then have "(two_step wit_codec)\<^sup>*\<^sup>* (empty_store, Map.empty, Idle, Idle) (?s3, Map.empty(?p \<mapsto> c2), ?f, Idle)"
    by (rule two_more[OF _ two_step.right[OF flush_step.clear]])
  then have "(two_step wit_codec)\<^sup>*\<^sup>* (empty_store, Map.empty, Idle, Idle) (?s3, Map.empty(?p \<mapsto> c2, ?p \<mapsto> c1), Written ?p (ms_generation ?s1 ?p), Idle)"
    by (rule two_more[OF _ two_step.left[OF flush_step.write_ok]])
  moreover have "?p \<notin> set (ms_dirty ?s3)" "\<not> persisted wit_codec ?s3 (Map.empty(?p \<mapsto> c2, ?p \<mapsto> c1)) ?p"
    using c wit_captured(3) by (simp_all add: clear_dirty_def) (simp add: persisted_def)
  ultimately show ?thesis by blast
qed

end
