(* ===== verification/Ingest.thy ===== *)
theory Ingest
  imports Avail MetaStore
begin

text \<open>
  Ingestion (\<open>src/internal/ingest/ingest.go\<close>): a package or source file is downloaded, its SHA256 is verified while
  the bytes stream into storage (and to a waiting client), and the index entry is recorded.  Storage is the
  filesystem backend, the index the deb822 store.  An upstream response body is the chunks its reads return and how
  it ends; the client is the number of writes that still succeed and what it has received.  The hash is a parameter.
\<close>

section \<open>Definitions\<close>

datatype ending = Eof | ReadFailed

type_synonym body = "string list \<times> ending"

record client =
  cl_left :: nat
  cl_out :: string

definition cl_write :: "client \<Rightarrow> string \<Rightarrow> bool \<times> client" where
  "cl_write c chunk =
     (case cl_left c of 0 \<Rightarrow> (False, c) | Suc n \<Rightarrow> (True, c\<lparr>cl_left := n, cl_out := cl_out c @ chunk\<rparr>))"

text \<open>The digest-verifying reader.\<close>

record digestVerifyingReader =
  dv_client :: "client option"
  dv_clientOK :: bool
  dv_hash :: string
  dv_expectedSHA256 :: string
  dv_read :: int

definition newDigestVerifyingReader :: "client option \<Rightarrow> string \<Rightarrow> digestVerifyingReader" where
  "newDigestVerifyingReader client expected =
     \<lparr>dv_client = client, dv_clientOK = (client \<noteq> None), dv_hash = [], dv_expectedSHA256 = expected, dv_read = 0\<rparr>"

definition dvr_feed :: "digestVerifyingReader \<Rightarrow> string \<Rightarrow> digestVerifyingReader" where
  "dvr_feed d chunk =
     (if chunk = [] then d
      else let d = d\<lparr>dv_read := dv_read d + int (length chunk), dv_hash := dv_hash d @ chunk\<rparr>
           in case dv_client d of
                Some c \<Rightarrow>
                  if dv_clientOK d
                  then (case cl_write c chunk of (ok, c') \<Rightarrow> d\<lparr>dv_client := Some c', dv_clientOK := ok\<rparr>)
                  else d
              | None \<Rightarrow> d)"

text \<open>Reading it to the end: the reader's state, and the bytes or the error its consumer sees.\<close>

definition dvr_readAll :: "(string \<Rightarrow> string) \<Rightarrow> digestVerifyingReader \<Rightarrow> body \<Rightarrow> digestVerifyingReader \<times> (os_error + string)" where
  "dvr_readAll sha256hex d b =
     (case b of (chunks, e) \<Rightarrow>
        let d = foldl dvr_feed d chunks
        in (d, if e = Eof \<and> equal_fold (sha256hex (dv_hash d)) (dv_expectedSHA256 d) then Inr (dv_hash d) else Inl OsError))"

text \<open>\<open>PutFile\<close> from a reader: the copy fails when the reader fails.  It is consumed only when the file is missing and
  the temporary file could be created.\<close>

definition fs_PutReader :: "sys \<Rightarrow> int \<Rightarrow> fs_Store \<Rightarrow> os_state \<Rightarrow> string \<Rightarrow> os_error + string \<Rightarrow> os_error option \<times> os_state" where
  "fs_PutReader sys now s st p rd =
     (case rd of
        Inr d \<Rightarrow> fs_PutFile sys now s st p d
      | Inl _ \<Rightarrow> fs_PutFile (\<lambda>c q. c = ''copy'' \<or> sys c q) now s st p [])"

definition put_consumes :: "sys \<Rightarrow> int \<Rightarrow> fs_Store \<Rightarrow> os_state \<Rightarrow> string \<Rightarrow> bool" where
  "put_consumes sys now s st p \<longleftrightarrow>
     (case absPool s p of
        None \<Rightarrow> False
      | Some a \<Rightarrow> fs_Exists sys s st p = Inr False \<and> fst (os_MkdirAll sys now st (path_dir a)) = None \<and> \<not> sys ''createtemp'' (path_dir a))"

record Event =
  ev_Package :: string
  ev_Version :: string
  ev_Arch :: string
  ev_OS :: string
  ev_Codename :: string
  ev_Component :: string
  ev_Section :: string
  ev_Upstream :: string
  ev_PoolPath :: string
  ev_Size :: int

text \<open>What an ingestor works on: the files, the index, the exists cache (\<open>None\<close>: none configured) and the events fired.\<close>

record ingest_world =
  iw_files :: os_state
  iw_index :: Store
  iw_exists :: "string list option"
  iw_events :: "Event list"

datatype ingest_error = IngStorage os_error | IngFetch | IngClient | IngUnlisted

definition ex_Has :: "string list option \<Rightarrow> string \<Rightarrow> bool" where
  "ex_Has c path = (case c of None \<Rightarrow> False | Some m \<Rightarrow> path \<in> set m)"

definition ex_Add :: "string list option \<Rightarrow> string \<Rightarrow> string list option" where
  "ex_Add c path = map_option (List.insert path) c"

definition ex_Remove :: "string list option \<Rightarrow> string \<Rightarrow> string list option" where
  "ex_Remove c path = map_option (removeAll path) c"

definition onDownloaded :: "string \<Rightarrow> string \<Rightarrow> Pkg \<Rightarrow> bool \<Rightarrow> ingest_world \<Rightarrow> ingest_world" where
  "onDownloaded osName codename p notify w =
     (if notify
      then w\<lparr>iw_events := iw_events w @ [\<lparr>ev_Package = pk_Name p, ev_Version = pk_Version p, ev_Arch = pk_Arch p, ev_OS = osName,
             ev_Codename = codename, ev_Component = pk_Component p, ev_Section = pk_Section p, ev_Upstream = us_Name (pk_Upstream p),
             ev_PoolPath = pk_PoolPath p, ev_Size = pk_Size p\<rparr>]\<rparr>
      else w)"

definition entry_of :: "int \<Rightarrow> string \<Rightarrow> string \<Rightarrow> Pkg \<Rightarrow> IndexEntry" where
  "entry_of now osName codename p =
     \<lparr>ie_OS = osName, ie_Codename = codename, ie_Component = pk_Component p, ie_Arch = pk_Arch p, ie_Package = pk_Name p,
      ie_Version = pk_Version p, ie_Upstream = us_Name (pk_Upstream p), ie_FromAutoUpdate = us_AutoUpdate (pk_Upstream p),
      ie_PoolPath = pk_PoolPath p, ie_SHA256 = pk_SHA256 p, ie_SHA512 = pk_SHA512 p, ie_Size = pk_Size p,
      ie_Control = pk_StanzaStr p, ie_FirstSeen = Some now\<rparr>"

definition upsertEntry :: "int \<Rightarrow> string \<Rightarrow> string \<Rightarrow> Pkg \<Rightarrow> ingest_world \<Rightarrow> ingest_world" where
  "upsertEntry now osName codename p w = w\<lparr>iw_index := UpsertEntry now (iw_index w) (entry_of now osName codename p)\<rparr>"

definition serve_stored :: "sys \<Rightarrow> fs_Store \<Rightarrow> os_state \<Rightarrow> string \<Rightarrow> client \<Rightarrow> ingest_error option \<times> client" where
  "serve_stored sys s st path c =
     (case fs_Open sys s st path of
        Inl e \<Rightarrow> (Some (IngStorage e), c)
      | Inr d \<Rightarrow> if d = [] then (None, c) else (case cl_write c d of (ok, c') \<Rightarrow> (if ok then None else Some IngClient, c')))"

definition CacheStreamingBody :: "(string \<Rightarrow> string) \<Rightarrow> sys \<Rightarrow> int \<Rightarrow> fs_Store \<Rightarrow> string \<Rightarrow> string \<Rightarrow> Pkg \<Rightarrow> body \<Rightarrow> bool \<Rightarrow>
    client option \<Rightarrow> ingest_world \<Rightarrow> ingest_error option \<times> client option \<times> ingest_world" where
  "CacheStreamingBody sha256hex sys now s osName codename p b notify client w =
     (let consumed = put_consumes sys now s (iw_files w) (pk_PoolPath p);
          (dvr, rd) = dvr_readAll sha256hex (newDigestVerifyingReader client (pk_SHA256 p)) b;
          client = (if consumed then dv_client dvr else client)
      in case fs_PutReader sys now s (iw_files w) (pk_PoolPath p) rd of
           (Some e, st1) \<Rightarrow> (Some (IngStorage e), client, w\<lparr>iw_files := st1\<rparr>)
         | (None, st1) \<Rightarrow>
             let w = w\<lparr>iw_files := st1\<rparr>;
                 (err, client, w) =
                   (if consumed \<and> dv_read dvr \<noteq> 0 then (None, client, onDownloaded osName codename p notify w)
                    else case client of
                           None \<Rightarrow> (None, client, w)
                         | Some c \<Rightarrow> (case serve_stored sys s st1 (pk_PoolPath p) c of (err, c') \<Rightarrow> (err, Some c', w)))
             in case err of
                  Some e \<Rightarrow> (Some e, client, w)
                | None \<Rightarrow> (None, client, upsertEntry now osName codename p (w\<lparr>iw_exists := ex_Add (iw_exists w) (pk_PoolPath p)\<rparr>)))"

text \<open>\<open>fetch\<close> is the response of \<open>FetchDebStream\<close>, \<open>None\<close> its error.\<close>

definition CacheStreaming :: "(string \<Rightarrow> string) \<Rightarrow> sys \<Rightarrow> int \<Rightarrow> fs_Store \<Rightarrow> (UpstreamSource \<Rightarrow> string \<Rightarrow> body option) \<Rightarrow> string \<Rightarrow> string \<Rightarrow>
    Pkg \<Rightarrow> bool \<Rightarrow> client option \<Rightarrow> ingest_world \<Rightarrow> ingest_error option \<times> client option \<times> ingest_world" where
  "CacheStreaming sha256hex sys now s fetch osName codename p notify client w =
     (if ex_Has (iw_exists w) (pk_PoolPath p) then (None, client, upsertEntry now osName codename p w)
      else case fs_Exists sys s (iw_files w) (pk_PoolPath p) of
             Inl e \<Rightarrow> (Some (IngStorage e), client, w)
           | Inr True \<Rightarrow>
               (None, client, upsertEntry now osName codename p (w\<lparr>iw_exists := ex_Add (iw_exists w) (pk_PoolPath p)\<rparr>))
           | Inr False \<Rightarrow>
               (case fetch (pk_Upstream p) (pk_Filename p) of
                  None \<Rightarrow> (Some IngFetch, client, w)
                | Some b \<Rightarrow> CacheStreamingBody sha256hex sys now s osName codename p b notify client w))"

definition Cache :: "(string \<Rightarrow> string) \<Rightarrow> sys \<Rightarrow> int \<Rightarrow> fs_Store \<Rightarrow> (UpstreamSource \<Rightarrow> string \<Rightarrow> body option) \<Rightarrow> string \<Rightarrow> string \<Rightarrow>
    Pkg \<Rightarrow> bool \<Rightarrow> ingest_world \<Rightarrow> ingest_error option \<times> ingest_world" where
  "Cache sha256hex sys now s fetch osName codename p notify w =
     (case CacheStreaming sha256hex sys now s fetch osName codename p notify None w of (err, _, w') \<Rightarrow> (err, w'))"

definition CacheSourceFile :: "(string \<Rightarrow> string) \<Rightarrow> sys \<Rightarrow> int \<Rightarrow> fs_Store \<Rightarrow> (UpstreamSource \<Rightarrow> string \<Rightarrow> string \<Rightarrow> body option) \<Rightarrow>
    SourceEntry \<Rightarrow> UpstreamSource \<Rightarrow> string \<Rightarrow> ingest_world \<Rightarrow> ingest_error option \<times> ingest_world" where
  "CacheSourceFile sha256hex sys now s fetch entry us filename w =
     (case List.find (\<lambda>f. so_Filename f = filename) (se_Files entry) of
        None \<Rightarrow> (Some IngUnlisted, w)
      | Some srcFile \<Rightarrow>
          let filePath = SourceFilePath (se_OS entry) (se_Codename entry) (se_Upstream entry) (se_Component entry) (se_Package entry) filename
          in if ex_Has (iw_exists w) filePath then (None, w)
             else (case fs_Exists sys s (iw_files w) filePath of
                     Inl e \<Rightarrow> (Some (IngStorage e), w)
                   | Inr True \<Rightarrow> (None, w\<lparr>iw_exists := ex_Add (iw_exists w) filePath\<rparr>)
                   | Inr False \<Rightarrow>
                       (case fetch us (se_UpstreamDir entry) filename of
                          None \<Rightarrow> (Some IngFetch, w)
                        | Some b \<Rightarrow>
                            let (dvr, rd) = dvr_readAll sha256hex (newDigestVerifyingReader None (so_SHA256 srcFile)) b
                            in (case fs_PutReader sys now s (iw_files w) filePath rd of
                                  (Some e, st1) \<Rightarrow> (Some (IngStorage e), w\<lparr>iw_files := st1\<rparr>)
                                | (None, st1) \<Rightarrow> (None, w\<lparr>iw_files := st1, iw_exists := ex_Add (iw_exists w) filePath\<rparr>)))))"


section \<open>What enters the pool\<close>

text \<open>The files a step adds: at one path, where there was none, with verified content.\<close>

definition adds_verified :: "(string \<Rightarrow> string) \<Rightarrow> string \<Rightarrow> string \<Rightarrow> os_state \<Rightarrow> os_state \<Rightarrow> bool" where
  "adds_verified sha256hex a sha st st' \<longleftrightarrow>
     (\<forall>q. file_at st' q \<noteq> file_at st q \<longrightarrow>
        q = a \<and> map_of st a = None \<and> (\<exists>d t. file_at st' a = Some (d, t) \<and> equal_fold (sha256hex d) sha))"

lemma adds_verified_refl [simp]: "adds_verified h a sha st st"
  by (simp add: adds_verified_def)

lemma dvr_feed_fields:
  "dv_expectedSHA256 (foldl dvr_feed d chunks) = dv_expectedSHA256 d"
  by (induction chunks arbitrary: d) (auto simp: dvr_feed_def Let_def split: option.splits prod.splits)

lemma dvr_verifies:
  assumes "dvr_readAll h (newDigestVerifyingReader c sha) b = (dvr, Inr d)"
  shows "equal_fold (h d) sha"
  using assms by (auto simp: dvr_readAll_def Let_def dvr_feed_fields newDigestVerifyingReader_def split: prod.splits if_splits)

text \<open>With a failing copy a file is never put in place.\<close>

lemma put_failed_copy:
  assumes "absPool s p = Some a" "fs_PutFile (\<lambda>c q. c = ''copy'' \<or> sys c q) now s st p d = (r, st')"
  shows "file_at st' q = file_at st q"
proof -
  obtain r1 st1 where m: "os_MkdirAll (\<lambda>c q. c = ''copy'' \<or> sys c q) now st (path_dir a) = (r1, st1)" by fastforce
  have "st' = st \<or> st' = st1"
    using assms m by (auto simp: fs_PutFile_def temp_fails_def split: sum.splits bool.splits option.splits if_splits)
  then show ?thesis using os_MkdirAll_keeps(1)[OF m] by auto
qed


lemma put_reader_verified:
  assumes "absPool s p = Some a" "dvr_readAll h (newDigestVerifyingReader c sha) b = (dvr, rd)" "fs_PutReader sys now s st p rd = (r, st')"
  shows "adds_verified h a sha st st'"
proof (cases rd)
  case (Inl e)
  then show ?thesis using assms put_failed_copy[OF assms(1)] by (simp add: fs_PutReader_def adds_verified_def)
next
  case (Inr d)
  have ok: "equal_fold (h d) sha" using dvr_verifies assms(2) Inr by blast
  have put: "fs_PutFile sys now s st p d = (r, st')" using assms(3) Inr by (simp add: fs_PutReader_def)
  from fs_PutFile_cases[OF put assms(1)] show ?thesis
  proof (elim disjE exE conjE)
    fix st1 r1 assume m: "map_of st a = None" "os_MkdirAll sys now st (path_dir a) = (r1, st1)" "os_Rename sys now st1 d a = (None, st')"
    have "file_at st' q = file_at st q" if "q \<noteq> a" for q
      using os_Rename_result(3)[OF m(3) that] os_MkdirAll_keeps(1)[OF m(2)] file_at_cong by metis
    moreover have "file_at st' a = Some (d, now)" using os_Rename_result(1)[OF m(3)] by (simp add: file_at_def)
    ultimately show ?thesis using m(1) ok by (auto simp: adds_verified_def)
  next
    fix st1 r1 assume "os_MkdirAll sys now st (path_dir a) = (r1, st1)" "st' = st1"
    then show ?thesis using os_MkdirAll_keeps(1) by (simp add: adds_verified_def)
  qed simp
qed

lemma world_files [simp]:
  "iw_files (upsertEntry now osName codename p w) = iw_files w" "iw_files (onDownloaded osName codename p notify w) = iw_files w"
  "iw_index (onDownloaded osName codename p notify w) = iw_index w" "iw_exists (onDownloaded osName codename p notify w) = iw_exists w"
  by (simp_all add: upsertEntry_def onDownloaded_def)

lemma CacheStreamingBody_verified:
  assumes "absPool s (pk_PoolPath p) = Some a"
    "CacheStreamingBody h sys now s osName codename p b notify client w = (err, client', w')"
  shows "adds_verified h a (pk_SHA256 p) (iw_files w) (iw_files w')"
proof -
  obtain dvr rd where d: "dvr_readAll h (newDigestVerifyingReader client (pk_SHA256 p)) b = (dvr, rd)" by fastforce
  obtain r st1 where put: "fs_PutReader sys now s (iw_files w) (pk_PoolPath p) rd = (r, st1)" by fastforce
  have "iw_files w' = st1"
    using assms(2) by (auto simp: CacheStreamingBody_def d put Let_def split: prod.splits option.splits if_splits)
  then show ?thesis using put_reader_verified[OF assms(1) d put] by simp
qed

lemma CacheStreaming_verified:
  assumes "absPool s (pk_PoolPath p) = Some a"
    "CacheStreaming h sys now s fetch osName codename p notify client w = (err, client', w')"
  shows "adds_verified h a (pk_SHA256 p) (iw_files w) (iw_files w')"
proof -
  have "iw_files w' = iw_files w \<or> (\<exists>b. CacheStreamingBody h sys now s osName codename p b notify client w = (err, client', w'))"
    using assms(2) by (auto simp: CacheStreaming_def split: if_splits sum.splits bool.splits option.splits)
  then show ?thesis using CacheStreamingBody_verified[OF assms(1)] by auto
qed

text \<open>When a call succeeds, the pool has the file, provided the exists cache lists only files the pool has.\<close>

definition exists_sound :: "fs_Store \<Rightarrow> ingest_world \<Rightarrow> bool" where
  "exists_sound s w \<longleftrightarrow> (\<forall>p a. ex_Has (iw_exists w) p \<longrightarrow> absPool s p = Some a \<longrightarrow> map_of (iw_files w) a \<noteq> None)"

lemma put_reader_present:
  assumes "root_ok s" "absPool s p = Some a" "fs_PutReader sys now s st p rd = (None, st')"
  shows "map_of st' a \<noteq> None"
proof -
  obtain sys' d where put: "fs_PutFile sys' now s st p d = (None, st')"
    using assms(3) by (cases rd) (auto simp: fs_PutReader_def)
  from fs_PutFile_cases[OF put assms(2)] show ?thesis
    by (elim disjE exE conjE) (auto dest: os_Rename_result(1))
qed

lemma CacheStreaming_present:
  assumes "root_ok s" "absPool s (pk_PoolPath p) = Some a" "exists_sound s w"
    "CacheStreaming h sys now s fetch osName codename p notify client w = (None, client', w')"
  shows "map_of (iw_files w') a \<noteq> None"
proof -
  have ex: "fs_Exists sys s (iw_files w) (pk_PoolPath p) = Inr True \<Longrightarrow> map_of (iw_files w) a \<noteq> None"
    using assms(2) by (auto simp: fs_Exists_def os_Stat_def split: if_splits option.splits)
  consider "ex_Has (iw_exists w) (pk_PoolPath p)" "iw_files w' = iw_files w"
    | "fs_Exists sys s (iw_files w) (pk_PoolPath p) = Inr True" "iw_files w' = iw_files w"
    | b where "CacheStreamingBody h sys now s osName codename p b notify client w = (None, client', w')"
    using assms(4) by (auto simp: CacheStreaming_def split: if_splits sum.splits bool.splits option.splits)
  then show ?thesis
  proof cases
    case 1
    then show ?thesis using assms(2,3) by (auto simp: exists_sound_def)
  next
    case 2
    then show ?thesis using ex by simp
  next
    case (3 b)
    obtain dvr rd where d: "dvr_readAll h (newDigestVerifyingReader client (pk_SHA256 p)) b = (dvr, rd)" by fastforce
    obtain r st1 where put: "fs_PutReader sys now s (iw_files w) (pk_PoolPath p) rd = (r, st1)" by fastforce
    have "r = None \<and> iw_files w' = st1"
      using 3 by (auto simp: CacheStreamingBody_def d put Let_def split: prod.splits option.splits if_splits)
    then show ?thesis using put_reader_present[OF assms(1,2)] put by auto
  qed
qed


text \<open>The same for the files of source packages.\<close>

lemma CacheSourceFile_verified:
  assumes "CacheSourceFile h sys now s fetch entry us filename w = (err, w')" "f \<in> set (se_Files entry)" "so_Filename f = filename"
    "\<And>g. g \<in> set (se_Files entry) \<Longrightarrow> so_Filename g = filename \<Longrightarrow> g = f"
    "absPool s (SourceFilePath (se_OS entry) (se_Codename entry) (se_Upstream entry) (se_Component entry) (se_Package entry) filename) = Some a"
  shows "adds_verified h a (so_SHA256 f) (iw_files w) (iw_files w')"
proof -
  obtain g where g: "List.find (\<lambda>f. so_Filename f = filename) (se_Files entry) = Some g"
    using assms(2,3) by (cases "List.find (\<lambda>f. so_Filename f = filename) (se_Files entry)") (auto simp: find_None_iff)
  then have "g = f" using assms(4) by (auto simp: find_Some_iff)
  let ?p = "SourceFilePath (se_OS entry) (se_Codename entry) (se_Upstream entry) (se_Component entry) (se_Package entry) filename"
  have "iw_files w' = iw_files w \<or> (\<exists>b dvr rd r. dvr_readAll h (newDigestVerifyingReader None (so_SHA256 f)) b = (dvr, rd) \<and>
      fs_PutReader sys now s (iw_files w) ?p rd = (r, iw_files w'))"
    using assms(1) g \<open>g = f\<close>
    by (auto simp: CacheSourceFile_def Let_def split: if_splits sum.splits bool.splits option.splits prod.splits)
  then show ?thesis using put_reader_verified[OF assms(5)] by auto
qed

definition wit_pkg :: Pkg where
  "wit_pkg = the (buildPkg ''o'' ''c'' ''main'' ''amd64'' wit_src ((wit_raw ''a'' ''1'' [])\<lparr>rp_SHA256 := ''XX''\<rparr>))"

definition wit_world :: ingest_world where
  "wit_world = \<lparr>iw_files = [], iw_index = empty_store, iw_exists = Some [], iw_events = []\<rparr>"


end
