(* ===== verification/Syncer.thy ===== *)
theory Syncer
  imports Ingest
begin

text \<open>
  The syncer (\<open>src/internal/syncer/syncer.go\<close>): priming, the auto-update job, and what a snapshot publishes.  It
  works on the world of the ingestor.  What it takes from outside (the merge's upstreams and schedule, the download
  functions, the failing system calls, the clock, the codec of the index files) is a record, and \<open>sy_range\<close> is the
  order in which \<open>range\<close> visits a map of packages.
\<close>

section \<open>Definitions\<close>

record sync_env =
  sy_layouts :: "Layout list"
  sy_sha256 :: "string \<Rightarrow> string"
  sy_sys :: sys
  sy_now :: int
  sy_store :: fs_Store
  sy_fetchDeb :: "UpstreamSource \<Rightarrow> string \<Rightarrow> body option"
  sy_fetchSource :: "UpstreamSource \<Rightarrow> string \<Rightarrow> string \<Rightarrow> body option"
  sy_sched :: schedule
  sy_upstreams :: upstreams
  sy_comps :: "string \<Rightarrow> string list"
  sy_range :: "(string \<rightharpoonup> Pkg) \<Rightarrow> Pkg list"
  sy_codec :: codec

datatype sync_error = SyRefresh meta_error | SyCache string ingest_error | SyStorage os_error | SyBadID string | SyDiverges

definition any_sel :: Selector where
  "any_sel = \<lparr>sel_OS = [], sel_Codename = [], sel_Component = [], sel_Arch = [], sel_Upstream = []\<rparr>"

definition layout_sel :: "string \<Rightarrow> string \<Rightarrow> Selector" where
  "layout_sel osName codename = any_sel\<lparr>sel_OS := osName, sel_Codename := codename\<rparr>"

definition PreloadExistsCache :: "ingest_world \<Rightarrow> ingest_world" where
  "PreloadExistsCache w =
     w\<lparr>iw_exists := foldl (\<lambda>c e. ex_Add c (ie_PoolPath e)) (iw_exists w) (ListEntries (iw_index w) any_sel)\<rparr>"

definition layoutsByOSCodename :: "Layout list \<Rightarrow> ((string \<times> string) \<times> Layout list) list" where
  "layoutsByOSCodename layouts =
     foldl (\<lambda>m l. let k = (ly_OS l, ly_Codename l)
                   in AList.update k ((case map_of m k of None \<Rightarrow> [] | Some ls \<Rightarrow> ls) @ [l]) m) [] layouts"

definition sync_refresh :: "sync_env \<Rightarrow> ingest_world \<Rightarrow> meta_error option \<times> ingest_world" where
  "sync_refresh env w =
     (case Refresh (sy_codec env) (fs_OpenPublished (sy_sys env) (sy_store env) (iw_files w))
             (fs_StatPublished (sy_sys env) (sy_store env) (iw_files w))
             (fs_ListPublished (sy_sys env) (sy_store env) (iw_files w) ''metadata/'') (iw_index w) of
        (err, ix) \<Rightarrow> (err, w\<lparr>iw_index := ix\<rparr>))"

text \<open>Caching a list of packages, stopping at the first error; \<open>notify\<close> decides per package.\<close>

fun cache_all :: "sync_env \<Rightarrow> string \<Rightarrow> string \<Rightarrow> (Pkg \<Rightarrow> bool) \<Rightarrow> Pkg list \<Rightarrow> ingest_world \<Rightarrow> sync_error option \<times> ingest_world" where
  "cache_all env osName codename notify [] w = (None, w)"
| "cache_all env osName codename notify (p # ps) w =
     (case Cache (sy_sha256 env) (sy_sys env) (sy_now env) (sy_store env) (sy_fetchDeb env) osName codename p (notify p) w of
        (Some e, w1) \<Rightarrow> (Some (SyCache (pk_Name p) e), w1)
      | (None, w1) \<Rightarrow> cache_all env osName codename notify ps w1)"

definition sync_build :: "sync_env \<Rightarrow> string \<Rightarrow> string \<Rightarrow> Available" where
  "sync_build env osName codename = fst (Build (sy_sched env) (sy_upstreams env) (sy_layouts env) osName codename)"

fun prime_arches :: "sync_env \<Rightarrow> Available \<Rightarrow> string \<Rightarrow> string \<Rightarrow> string \<Rightarrow> string list \<Rightarrow> string list \<Rightarrow> ingest_world \<Rightarrow> sync_error option \<times> ingest_world" where
  "prime_arches env av osName codename component names [] w = (None, w)"
| "prime_arches env av osName codename component names (arch # rest) w =
     (case DepClosure av (sy_comps env) component arch names of
        None \<Rightarrow> (Some SyDiverges, w)
      | Some closure \<Rightarrow>
          (case cache_all env osName codename (\<lambda>_. True) (sy_range env closure) w of
             (Some e, w1) \<Rightarrow> (Some e, w1)
           | (None, w1) \<Rightarrow> prime_arches env av osName codename component names rest w1))"

definition Prime :: "sync_env \<Rightarrow> string \<Rightarrow> string \<Rightarrow> string \<Rightarrow> string list \<Rightarrow> ingest_world \<Rightarrow> sync_error option \<times> ingest_world" where
  "Prime env osName codename component names w =
     (case sync_refresh env w of
        (Some e, w1) \<Rightarrow> (Some (SyRefresh e), w1)
      | (None, w1) \<Rightarrow>
          let av = sync_build env osName codename
          in prime_arches env av osName codename component names (av_Arches av) w1)"

text \<open>The source half of the update job.\<close>

definition hasAutoUpdateSrc :: "Available \<Rightarrow> bool" where
  "hasAutoUpdateSrc av \<longleftrightarrow>
     list_ex (\<lambda>sp. us_AutoUpdate (sp_Upstream sp) \<and>
        (case av_Srcs av (sp_Component sp) of None \<Rightarrow> False | Some m \<Rightarrow> m (sp_Package sp) = Some sp)) (av_AllSrcs av)"

definition src_version_key :: "string \<Rightarrow> string \<Rightarrow> string \<Rightarrow> string" where
  "src_version_key component upstream package = component @ ''/'' @ upstream @ ''/'' @ package"

definition prevSrcVersion :: "SourceEntry list \<Rightarrow> (string \<rightharpoonup> string)" where
  "prevSrcVersion entries =
     foldl (\<lambda>m e. if se_FilesDownloaded e then m(src_version_key (se_Component e) (se_Upstream e) (se_Package e) \<mapsto> se_Version e) else m)
       Map.empty entries"

definition source_entry_of :: "string \<Rightarrow> string \<Rightarrow> SrcPkg \<Rightarrow> SourceEntry" where
  "source_entry_of osName codename sp =
     \<lparr>se_OS = osName, se_Codename = codename, se_Component = sp_Component sp, se_Package = sp_Package sp, se_Version = sp_Version sp,
      se_Upstream = us_Name (sp_Upstream sp), se_LocalDir = sp_LocalDir sp, se_UpstreamDir = sp_UpstreamDir sp,
      se_Files = map (\<lambda>f. \<lparr>so_Filename = sf_Filename f, so_Size = sf_Size f, so_SHA256 = sf_SHA256 f\<rparr>) (sp_Files sp),
      se_Stanza = sp_StanzaStr sp, se_FirstSeen = None, se_FilesDownloaded = False\<rparr>"

definition src_outdated :: "(string \<rightharpoonup> string) option \<Rightarrow> SrcPkg \<Rightarrow> bool" where
  "src_outdated prev sp \<longleftrightarrow> us_AutoUpdate (sp_Upstream sp) \<and>
     (case prev of
        None \<Rightarrow> False
      | Some m \<Rightarrow> (case m (src_version_key (sp_Component sp) (us_Name (sp_Upstream sp)) (sp_Package sp)) of
          None \<Rightarrow> False
        | Some prevVer \<Rightarrow> Compare (sp_Version sp) prevVer > 0))"

definition update_source :: "sync_env \<Rightarrow> string \<Rightarrow> string \<Rightarrow> (string \<rightharpoonup> string) option \<Rightarrow> ingest_world \<Rightarrow> SrcPkg \<Rightarrow> ingest_world" where
  "update_source env osName codename prev w sp =
     (let entry = source_entry_of osName codename sp;
          w = w\<lparr>iw_index := UpsertSourceEntry (sy_now env) (iw_index w) entry\<rparr>
      in if src_outdated prev sp
         then let w = foldl (\<lambda>w f. snd (CacheSourceFile (sy_sha256 env) (sy_sys env) (sy_now env) (sy_store env) (sy_fetchSource env)
                                         entry (sp_Upstream sp) (so_Filename f) w)) w (se_Files entry);
                  entry = entry\<lparr>se_FilesDownloaded := True\<rparr>
              in w\<lparr>iw_index := UpsertSourceEntry (sy_now env) (iw_index w) entry,
                   iw_events := iw_events w @ [\<lparr>ev_Package = sp_Package sp, ev_Version = sp_Version sp, ev_Arch = [], ev_OS = osName,
                     ev_Codename = codename, ev_Component = sp_Component sp, ev_Section = [], ev_Upstream = us_Name (sp_Upstream sp),
                     ev_PoolPath = sp_LocalDir sp, ev_Size = 0\<rparr>]\<rparr>
         else w)"

text \<open>The package half.  \<open>None\<close> of \<open>update_target\<close> is one of the \<open>continue\<close>s.\<close>

definition anyArchWithPkg :: "(string \<times> (string \<rightharpoonup> Pkg)) list \<Rightarrow> string \<Rightarrow> (string \<rightharpoonup> Pkg)" where
  "anyArchWithPkg compMap name =
     (case List.find (\<lambda>(_, m). m name \<noteq> None) compMap of None \<Rightarrow> Map.empty | Some (_, m) \<Rightarrow> m)"

definition update_target :: "Available \<Rightarrow> IndexEntry \<Rightarrow> Pkg option" where
  "update_target av e =
     (case av_Pkgs av (ie_Component e) of
        None \<Rightarrow> None
      | Some compMap \<Rightarrow>
          (case (case map_of compMap (ie_Arch e) of None \<Rightarrow> anyArchWithPkg compMap (ie_Package e) | Some m \<Rightarrow> m) (ie_Package e) of
             None \<Rightarrow> None
           | Some p \<Rightarrow> if us_AutoUpdate (pk_Upstream p) \<and> Compare (pk_Version p) (ie_Version e) > 0 then Some p else None))"

definition update_entry :: "sync_env \<Rightarrow> Available \<Rightarrow> string \<Rightarrow> string \<Rightarrow> IndexEntry \<Rightarrow> ingest_world \<Rightarrow> sync_error option \<times> ingest_world" where
  "update_entry env av osName codename e w =
     (case update_target av e of
        None \<Rightarrow> (None, w)
      | Some p \<Rightarrow>
          (case DepClosure av (sy_comps env) (ie_Component e) (ie_Arch e) [ie_Package e] of
             None \<Rightarrow> (Some SyDiverges, w)
           | Some closure \<Rightarrow>
               (case cache_all env osName codename (\<lambda>dep. pk_Name dep = ie_Package e) (sy_range env closure) w of
                  (Some err, w1) \<Rightarrow> (Some err, w1)
                | (None, w1) \<Rightarrow>
                    (None, w1\<lparr>iw_index := UpsertUpstreamState (sy_now env) (iw_index w1)
                       \<lparr>ps_Upstream = us_Name (pk_Upstream p), ps_PackageName = pk_Name p, ps_Arch = pk_Arch p,
                        ps_UpstreamVersion = pk_Version p, ps_LastChecked = Some (sy_now env)\<rparr>\<rparr>))))"

fun update_entries :: "sync_env \<Rightarrow> Available \<Rightarrow> string \<Rightarrow> string \<Rightarrow> IndexEntry list \<Rightarrow> ingest_world \<Rightarrow> sync_error option \<times> ingest_world" where
  "update_entries env av osName codename [] w = (None, w)"
| "update_entries env av osName codename (e # es) w =
     (case update_entry env av osName codename e w of
        (Some err, w1) \<Rightarrow> (Some err, w1)
      | (None, w1) \<Rightarrow> update_entries env av osName codename es w1)"

definition update_layout :: "sync_env \<Rightarrow> string \<times> string \<Rightarrow> ingest_world \<Rightarrow> sync_error option \<times> ingest_world" where
  "update_layout env k w =
     (case k of (osName, codename) \<Rightarrow>
        let av = sync_build env osName codename;
            prev = (if hasAutoUpdateSrc av
                    then Some (prevSrcVersion (ListSourceEntries (iw_index w) (layout_sel osName codename))) else None);
            w = foldl (update_source env osName codename prev) w (av_AllSrcs av)
        in update_entries env av osName codename (ListEntries (iw_index w) (layout_sel osName codename)) w)"

fun update_layouts :: "sync_env \<Rightarrow> (string \<times> string) option \<Rightarrow> (string \<times> string) list \<Rightarrow> ingest_world \<Rightarrow> sync_error option \<times> ingest_world" where
  "update_layouts env only [] w = (None, w)"
| "update_layouts env only (k # ks) w =
     (if only \<noteq> None \<and> only \<noteq> Some k then update_layouts env only ks w
      else case update_layout env k w of
             (Some err, w1) \<Rightarrow> (Some err, w1)
           | (None, w1) \<Rightarrow> update_layouts env only ks w1)"

definition runUpdate :: "sync_env \<Rightarrow> (string \<times> string) option \<Rightarrow> ingest_world \<Rightarrow> sync_error option \<times> ingest_world" where
  "runUpdate env only w =
     (case sync_refresh env w of
        (Some e, w1) \<Rightarrow> (Some (SyRefresh e), w1)
      | (None, w1) \<Rightarrow> update_layouts env only (map fst (layoutsByOSCodename (sy_layouts env))) w1)"

text \<open>What a snapshot publishes.\<close>

definition highestVersionByKey :: "('a \<Rightarrow> 'k) \<Rightarrow> ('a \<Rightarrow> string) \<Rightarrow> 'a list \<Rightarrow> ('k \<times> 'a) list" where
  "highestVersionByKey keyOf versionOf items =
     foldl (\<lambda>best item.
         case map_of best (keyOf item) of
           None \<Rightarrow> AList.update (keyOf item) item best
         | Some existing \<Rightarrow>
             if Compare (versionOf item) (versionOf existing) > 0 then AList.update (keyOf item) item best else best) [] items"

definition stanza_key :: "IndexEntry \<Rightarrow> string \<times> string \<times> string" where
  "stanza_key e = (ie_Component e, ie_Arch e, ie_Package e)"

text \<open>The outer maps of \<open>groupStanzas\<close> are total on the configured components and architectures; \<open>visit\<close> is the order
  in which the chosen records are visited.\<close>

definition groupStanzas :: "(((string \<times> string \<times> string) \<times> IndexEntry) list \<Rightarrow> ((string \<times> string \<times> string) \<times> IndexEntry) list) \<Rightarrow>
    IndexEntry list \<Rightarrow> string list \<Rightarrow> string list \<Rightarrow> string \<Rightarrow> string \<Rightarrow> string list option" where
  "groupStanzas visit entries components arches component arch =
     (if component \<notin> set components \<or> arch \<notin> set arches then None
      else Some (map (\<lambda>(k, e). ie_Control e)
             (filter (\<lambda>((c, a, _), _). c = component \<and> (a = ''all'' \<or> a = arch)) (visit (highestVersionByKey stanza_key ie_Version entries)))))"

definition src_stanza_key :: "SourceEntry \<Rightarrow> string \<times> string" where
  "src_stanza_key e = (se_Component e, se_Package e)"

definition groupSourceStanzas :: "(((string \<times> string) \<times> SourceEntry) list \<Rightarrow> ((string \<times> string) \<times> SourceEntry) list) \<Rightarrow>
    SourceEntry list \<Rightarrow> string list \<Rightarrow> string \<Rightarrow> string list option" where
  "groupSourceStanzas visit entries components component =
     (if entries = [] \<or> component \<notin> set components then None
      else Some (map (\<lambda>(k, e). se_Stanza e)
             (filter (\<lambda>((c, _), _). c = component) (visit (highestVersionByKey src_stanza_key se_Version entries)))))"

definition osNames :: "Layout list \<Rightarrow> string list" where
  "osNames layouts = sort (remdups (map ly_OS layouts))"

definition currentSnapshotNamePath :: string where
  "currentSnapshotNamePath = ''current/snapshot-name''"

definition CurrentSnapshotName :: "(string \<Rightarrow> os_error + string) \<Rightarrow> os_error + string" where
  "CurrentSnapshotName openf = (case openf currentSnapshotNamePath of Inl e \<Rightarrow> Inl e | Inr b \<Rightarrow> Inr (trim_space b))"

text \<open>The age of the current snapshot; the inner \<open>None\<close> is \<open>ok = false\<close>.\<close>

definition CurrentSnapshotAge :: "(string \<Rightarrow> os_error + string) \<Rightarrow> int \<Rightarrow> sync_error + int option" where
  "CurrentSnapshotAge openf now =
     (case CurrentSnapshotName openf of
        Inl e \<Rightarrow> if e = NotExist then Inr None else Inl (SyStorage e)
      | Inr name \<Rightarrow>
          (case parse_date name of
             None \<Rightarrow> Inl (SyBadID name)
           | Some (day, rest) \<Rightarrow>
               (case eat CHR ''T'' rest of
                  None \<Rightarrow> Inl (SyBadID name)
                | Some clock \<Rightarrow>
                    (case parse_clock clock of
                       None \<Rightarrow> Inl (SyBadID name)
                     | Some c \<Rightarrow> Inr (Some (now - (day * 86400 * 10 ^ 9 + c)))))))"

text \<open>The publish bases whose pool paths the backend has to route.\<close>

definition pool_route_bases :: "(string \<Rightarrow> os_error + SnapshotRef list) \<Rightarrow> Layout list \<Rightarrow> string list" where
  "pool_route_bases listSnapshots layouts =
     concat (map (\<lambda>osName. (''current/'' @ osName) #
         (case listSnapshots osName of Inl _ \<Rightarrow> [] | Inr refs \<Rightarrow> map (\<lambda>r. sr_ID r @ ''/'' @ osName) refs)) (osNames layouts))"



section \<open>What is published\<close>

lemma highestVersionByKey_newest: "map_of (highestVersionByKey keyOf versionOf items) = newest_by Compare keyOf versionOf items"
proof -
  let ?step = "\<lambda>best item. case map_of best (keyOf item) of None \<Rightarrow> AList.update (keyOf item) item best
         | Some existing \<Rightarrow> if Compare (versionOf item) (versionOf existing) > 0 then AList.update (keyOf item) item best else best"
  have "map_of (foldl ?step best items) = foldl (keep_newest Compare keyOf versionOf) (map_of best) items" for best
    by (induction items arbitrary: best) (auto simp: keep_newest_def update_conv' split: option.splits)
  from this[of "[]"] show ?thesis by (simp add: highestVersionByKey_def newest_by_def)
qed

lemma highestVersionByKey_distinct: "distinct (map fst (highestVersionByKey keyOf versionOf items))"
proof -
  let ?step = "\<lambda>best item. case map_of best (keyOf item) of None \<Rightarrow> AList.update (keyOf item) item best
         | Some existing \<Rightarrow> if Compare (versionOf item) (versionOf existing) > 0 then AList.update (keyOf item) item best else best"
  have "distinct (map fst best) \<Longrightarrow> distinct (map fst (foldl ?step best items))" for best
    by (induction items arbitrary: best) (auto simp: distinct_update split: option.splits)
  then show ?thesis by (simp add: highestVersionByKey_def)
qed

lemma highestVersionByKey_set:
  "(k, e) \<in> set (highestVersionByKey keyOf versionOf items) \<longleftrightarrow> newest_by Compare keyOf versionOf items k = Some e"
  using highestVersionByKey_newest[of keyOf versionOf items] highestVersionByKey_distinct[of keyOf versionOf items]
  by (metis Some_eq_map_of_iff)

lemma groupStanzas_set:
  assumes "\<And>xs. set (visit xs) = set xs" "component \<in> set components" "arch \<in> set arches"
  shows "\<exists>stanzas. groupStanzas visit entries components arches component arch = Some stanzas \<and>
    set stanzas = {ie_Control e | e a pkg. a \<in> {''all'', arch} \<and>
      newest_of Compare ie_Version (filter (\<lambda>x. stanza_key x = (component, a, pkg)) entries) e}"
proof -
  have "set (map (\<lambda>(k, e). ie_Control e) (filter (\<lambda>((c, a, _), _). c = component \<and> (a = ''all'' \<or> a = arch))
        (visit (highestVersionByKey stanza_key ie_Version entries)))) =
      {ie_Control e | e a pkg. a \<in> {''all'', arch} \<and> newest_by Compare stanza_key ie_Version entries (component, a, pkg) = Some e}"
    (is "?L = ?R")
  proof (intro set_eqI iffI)
    fix x assume "x \<in> ?L"
    then obtain a pkg e where e: "((component, a, pkg), e) \<in> set (highestVersionByKey stanza_key ie_Version entries)"
        "a \<in> {''all'', arch}" "x = ie_Control e"
      unfolding set_map set_filter assms(1) by auto
    then show "x \<in> ?R" unfolding highestVersionByKey_set by blast
  next
    fix x assume "x \<in> ?R"
    then obtain e a pkg where e: "a \<in> {''all'', arch}" "((component, a, pkg), e) \<in> set (highestVersionByKey stanza_key ie_Version entries)"
        "x = ie_Control e" unfolding highestVersionByKey_set by blast
    then have "((component, a, pkg), e) \<in> {x \<in> set (highestVersionByKey stanza_key ie_Version entries).
        (\<lambda>((c, a, _), _). c = component \<and> (a = ''all'' \<or> a = arch)) x}" by auto
    then show "x \<in> ?L" unfolding set_map set_filter assms(1) e(3) by (rule rev_image_eqI) simp
  qed
  then show ?thesis using assms(2,3) by (simp add: groupStanzas_def deb.newest_by_Some_iff)
qed

text \<open>C31: a snapshot lists for every configured component and architecture exactly the newest recorded version of each
  package of that architecture or of all architectures, one stanza per package and record architecture, whatever the
  order in which the records are visited.\<close>

theorem groupStanzas_newest:
  assumes "\<And>xs. set (visit xs) = set xs" "component \<in> set components" "arch \<in> set arches"
  shows "\<exists>stanzas. groupStanzas visit entries components arches component arch = Some stanzas \<and>
    set stanzas = {ie_Control e | e a pkg. a \<in> {''all'', arch} \<and>
      newest_of Compare ie_Version (filter (\<lambda>x. stanza_key x = (component, a, pkg)) entries) e}"
  using assms by (rule groupStanzas_set)


section \<open>Architecture-independent packages and auto-update\<close>

definition no_all :: "Available \<Rightarrow> bool" where
  "no_all av \<longleftrightarrow> (\<forall>c. map_of (component_arches av c) ''all'' = None)"

lemma no_all_binary: "no_all av \<Longrightarrow> no_all (merge_binary sch av e)"
  by (auto simp: no_all_def merge_binary_def Let_def component_arches_def update_conv' split: option.splits)

lemma map_of_map_snd: "map_of (map (\<lambda>(a, d). (a, f d)) xs) k = map_option f (map_of xs k)"
  by (induction xs) auto

lemma no_all_all: "no_all av \<Longrightarrow> no_all (merge_all sch av e)"
  by (auto simp: no_all_def merge_all_def Let_def component_arches_def map_of_map_snd split: option.splits if_splits)

lemma no_all_Build: "no_all (fst (Build sch env layouts osName codename))"
proof -
  have b: "no_all av \<Longrightarrow> no_all (foldl (merge_binary sch) av es)" for av es by (induction es arbitrary: av) (simp_all add: no_all_binary)
  have a: "no_all av \<Longrightarrow> no_all (foldl (merge_all sch) av es)" for av es by (induction es arbitrary: av) (simp_all add: no_all_all)
  have "no_all (init_available osName codename ls)" for ls
    by (simp add: no_all_def init_available_def component_arches_def)
  then have m: "no_all (merge_entries sch (init_available osName codename ls) es)" for ls es
    unfolding merge_entries_def by (intro a b)
  have src: "av_Pkgs (foldl (merge_src_job osName codename env) av js) = av_Pkgs av" for av js
    using merge_src_jobs_keep by blast
  show ?thesis using m by (simp add: Build_def Let_def no_all_def component_arches_def src)
qed

lemma DepClosure_loop_none: "(\<And>n. lookup n = None) \<Longrightarrow> DepClosure_loop lookup queue resolved = Some resolved"
  by (induction queue) (simp_all add: DepClosure_loop.simps)

lemma DepClosure_all_empty:
  assumes "no_all av"
  shows "DepClosure av comps component ''all'' seeds = Some Map.empty"
proof -
  have "arch_lookup av ''all'' n c = None" for n c using assms by (simp add: arch_lookup_def no_all_def)
  then have "dep_lookup av comps component ''all'' n = None" for n by (simp add: dep_lookup_def List.map_filter_def)
  then show ?thesis unfolding DepClosure_def by (rule DepClosure_loop_none)
qed

text \<open>C32: the update job never downloads an architecture-independent package: for an index entry of architecture
  \<open>all\<close> the closure it caches is empty, because the merged view has no such architecture, so no file and no package
  record changes; when a newer version exists only the upstream state is recorded as if it had been fetched.\<close>

theorem update_entry_skips_all:
  assumes "ie_Arch e = ''all''" "sy_range env Map.empty = []"
    "update_entry env (sync_build env osName codename) osName codename e w = (err, w')"
  shows "err = None \<and> iw_files w' = iw_files w \<and> ms_entries (iw_index w') = ms_entries (iw_index w) \<and> iw_events w' = iw_events w \<and>
    (\<forall>p. update_target (sync_build env osName codename) e = Some p \<longrightarrow>
       map_option ps_UpstreamVersion (GetUpstreamState (iw_index w') (us_Name (pk_Upstream p)) (pk_Name p) (pk_Arch p)) = Some (pk_Version p))"
proof (cases "update_target (sync_build env osName codename) e")
  case None
  then show ?thesis using assms(3) by (simp add: update_entry_def)
next
  case (Some p)
  have "no_all (sync_build env osName codename)" unfolding sync_build_def by (rule no_all_Build)
  from DepClosure_all_empty[OF this] have c: "DepClosure (sync_build env osName codename) (sy_comps env) (ie_Component e) ''all'' seeds = Some Map.empty" for seeds .
  let ?st = "\<lparr>ps_Upstream = us_Name (pk_Upstream p), ps_PackageName = pk_Name p, ps_Arch = pk_Arch p,
      ps_UpstreamVersion = pk_Version p, ps_LastChecked = Some (sy_now env)\<rparr>"
  have w': "err = None" "w' = w\<lparr>iw_index := UpsertUpstreamState (sy_now env) (iw_index w) ?st\<rparr>"
    using assms(3) by (simp_all add: update_entry_def Some assms(1,2) c)
  have "List.find (\<lambda>x. ps_id x = ps_id st) (replace_first (\<lambda>x. ps_id x = ps_id st) (\<lambda>_. st) st xs) = Some st" for st xs
    by (induction xs) auto
  from this[of ?st "bucket (ms_states (iw_index w)) (us_Name (pk_Upstream p))"]
  have "GetUpstreamState (iw_index w') (us_Name (pk_Upstream p)) (pk_Name p) (pk_Arch p) = Some ?st"
    by (simp add: w'(2) GetUpstreamState_def UpsertUpstreamState_def mark_dirty_def bucket_update ps_id_def Let_def)
  then show ?thesis using w' Some by (simp add: UpsertUpstreamState_def mark_dirty_def Let_def)
qed



section \<open>Instances\<close>

theorem groupStanzas_newest_witness:
  "\<exists>stanzas. groupStanzas id [wit_entry ''1'' ''x'', wit_entry ''2'' ''y''] [''main''] [''amd64''] ''main'' ''amd64'' = Some stanzas \<and>
     set stanzas = {ie_Control e | e a pkg. a \<in> {''all'', ''amd64''} \<and>
       newest_of Compare ie_Version (filter (\<lambda>x. stanza_key x = (''main'', a, pkg)) [wit_entry ''1'' ''x'', wit_entry ''2'' ''y'']) e}"
  by (rule groupStanzas_newest) simp_all

definition wit_sync :: sync_env where
  "wit_sync = \<lparr>sy_layouts = map (\<lambda>l. l\<lparr>ly_Upstreams := [wit_src\<lparr>us_AutoUpdate := True\<rparr>]\<rparr>) wit_layouts, sy_sha256 = id, sy_sys = (\<lambda>_ _. False),
     sy_now = 3, sy_store = fs_New ''/srv'', sy_fetchDeb = (\<lambda>_ _. None), sy_fetchSource = (\<lambda>_ _ _. None), sy_sched = wit_sch,
     sy_upstreams = wit_env, sy_comps = (\<lambda>_. [''main'']), sy_range = (\<lambda>_. []), sy_codec = wit_codec\<rparr>"

theorem update_entry_skips_all_witness:
  "\<exists>w'. update_entry wit_sync (sync_build wit_sync ''o'' ''c'') ''o'' ''c'' ((wit_entry ''1'' ''deb'')\<lparr>ie_Arch := ''all''\<rparr>) wit_world = (None, w') \<and>
     iw_files w' = [] \<and> map_option ps_UpstreamVersion (GetUpstreamState (iw_index w') ''deb'' ''a'' ''amd64'') = Some ''2''"
proof -
  let ?e = "(wit_entry ''1'' ''deb'')\<lparr>ie_Arch := ''all''\<rparr>" and ?av = "sync_build wit_sync ''o'' ''c''"
  have "(case update_target ?av ?e of None \<Rightarrow> False
      | Some p \<Rightarrow> us_Name (pk_Upstream p) = ''deb'' \<and> pk_Name p = ''a'' \<and> pk_Arch p = ''amd64'' \<and> pk_Version p = ''2'')" by code_simp
  then obtain p where p: "update_target ?av ?e = Some p" "us_Name (pk_Upstream p) = ''deb''" "pk_Name p = ''a''" "pk_Arch p = ''amd64''" "pk_Version p = ''2''"
    by (auto split: option.splits)
  obtain err w' where u: "update_entry wit_sync ?av ''o'' ''c'' ?e wit_world = (err, w')" by fastforce
  have a: "ie_Arch ?e = ''all''" by simp
  have r: "sy_range wit_sync Map.empty = []" by (simp add: wit_sync_def)
  from update_entry_skips_all[OF a r u] p u show ?thesis by (auto simp: wit_world_def)
qed

end
