(* ===== verification/Cleanup.thy ===== *)
theory Cleanup
  imports Syncer
begin

text \<open>
  Snapshot pruning and garbage collection (\<open>src/internal/syncer/cleanup.go\<close>) over an arbitrary storage backend (the
  interface record \<open>storage\<close>) and the deb822 index.  A reference set is the list of the paths put into it.  Times and
  durations are nanoseconds.  \<open>time.ParseDuration\<close> is a parameter.  The test of the orphan ratio is exact: for
  counts below \<open>2^52\<close> the floating-point quotient exceeds one half exactly when the rational one does.  \<open>cl_range\<close> is
  the order in which \<open>range\<close> visits the map of snapshots, and \<open>cl_SyncPoolRoutes\<close> is the operation of
  \<open>storage.PoolRouter\<close> where the backend implements it.
\<close>

section \<open>Definitions\<close>

record ('e, 'b) clean_env =
  cl_store :: "('e, 'b) storage"
  cl_env :: 'e
  cl_decoders :: decoders
  cl_layouts :: "Layout list"
  cl_now :: int
  cl_gcGrace :: string
  cl_parseDuration :: "string \<Rightarrow> int option"
  cl_range :: "(string \<times> int) list \<Rightarrow> (string \<times> int) list"
  cl_SyncPoolRoutes :: "('e \<Rightarrow> 'b \<Rightarrow> string list \<Rightarrow> 'b) option"

record 'b clean_world =
  cw_files :: 'b
  cw_index :: Store
  cw_exists :: "string list option"

datatype clean_error = ClStorage os_error | ClScan string

definition defaultGCGracePeriod :: int where
  "defaultGCGracePeriod = 3600 * 10 ^ 9"

definition gcGracePeriod :: "(string \<Rightarrow> int option) \<Rightarrow> string \<Rightarrow> int" where
  "gcGracePeriod parseDuration raw =
     (if raw = [] \<or> raw = ''0'' then defaultGCGracePeriod
      else case parseDuration raw of None \<Rightarrow> defaultGCGracePeriod | Some d \<Rightarrow> d)"

definition cl_grace :: "('e, 'b) clean_env \<Rightarrow> int" where
  "cl_grace env = gcGracePeriod (cl_parseDuration env) (cl_gcGrace env)"

text \<open>Pruning snapshots.\<close>

definition collect_snapshots :: "('e, 'b) clean_env \<Rightarrow> 'b \<Rightarrow> os_error + (string \<times> int) list" where
  "collect_snapshots env b =
     foldl (\<lambda>acc osName. case acc of
         Inl e \<Rightarrow> Inl e
       | Inr seen \<Rightarrow> (case st_ListSnapshots (cl_store env) (cl_env env) b osName of
           Inl e \<Rightarrow> Inl e
         | Inr refs \<Rightarrow> Inr (foldl (\<lambda>seen r. if map_of seen (sr_ID r) = None then seen @ [(sr_ID r, sr_CreatedAt r)] else seen) seen refs)))
       (Inr []) (osNames (cl_layouts env))"

definition snapshots_to_delete :: "int \<Rightarrow> int \<Rightarrow> int \<Rightarrow> (string \<times> int) list \<Rightarrow> string list" where
  "snapshots_to_delete maxSnapshots maxSnapshotAge now seen =
     (let snaps = sort_key (\<lambda>(_, t). - t) seen
      in map (fst \<circ> snd) (filter (\<lambda>(i, (_, t)).
           (maxSnapshots = 0 \<or> int i \<ge> maxSnapshots) \<and> (maxSnapshotAge = 0 \<or> now - t > maxSnapshotAge))
         (zip [0..<length snaps] snaps)))"

definition deleteSnapshotTree :: "('e, 'b) clean_env \<Rightarrow> 'b \<Rightarrow> string \<Rightarrow> 'b" where
  "deleteSnapshotTree env b snapshotID =
     (case st_ListPublished (cl_store env) (cl_env env) b snapshotID of
        Inl _ \<Rightarrow> b
      | Inr files \<Rightarrow> foldl (\<lambda>b f. snd (be_DeletePublished (cl_store env) (cl_env env) b f)) b files)"

definition pruneSnapshots :: "('e, 'b) clean_env \<Rightarrow> int \<Rightarrow> int \<Rightarrow> 'b \<Rightarrow> (os_error + nat) \<times> 'b" where
  "pruneSnapshots env maxSnapshots maxSnapshotAge b =
     (if maxSnapshots = 0 \<and> maxSnapshotAge = 0 then (Inr 0, b)
      else case collect_snapshots env b of
             Inl e \<Rightarrow> (Inl e, b)
           | Inr seen \<Rightarrow>
               let toDelete = snapshots_to_delete maxSnapshots maxSnapshotAge (cl_now env) (cl_range env seen)
               in (Inr (length toDelete), foldl (deleteSnapshotTree env) b toDelete))"

definition syncPoolRoutes :: "('e, 'b) clean_env \<Rightarrow> 'b \<Rightarrow> 'b" where
  "syncPoolRoutes env b =
     (case cl_SyncPoolRoutes env of
        None \<Rightarrow> b
      | Some f \<Rightarrow> f (cl_env env) b (pool_route_bases (st_ListSnapshots (cl_store env) (cl_env env) b) (cl_layouts env)))"

text \<open>Deleting orphans, with the grace period.\<close>

definition delete_orphan :: "('e, 'b) clean_env \<Rightarrow> ('e \<Rightarrow> 'b \<Rightarrow> string \<Rightarrow> os_error option \<times> 'b) \<Rightarrow>
    nat \<times> 'b clean_world \<Rightarrow> FileInfo \<Rightarrow> nat \<times> 'b clean_world" where
  "delete_orphan env deleteFn acc fi =
     (case acc of (n, w) \<Rightarrow>
        if cl_now env - fi_ModTime fi < cl_grace env then (n, w)
        else case deleteFn (cl_env env) (cw_files w) (fi_Path fi) of
               (Some _, b) \<Rightarrow> (n, w\<lparr>cw_files := b\<rparr>)
             | (None, b) \<Rightarrow> (Suc n, w\<lparr>cw_files := b, cw_exists := ex_Remove (cw_exists w) (fi_Path fi)\<rparr>))"

definition deleteOrphans :: "('e, 'b) clean_env \<Rightarrow> ('e \<Rightarrow> 'b \<Rightarrow> string \<Rightarrow> os_error option \<times> 'b) \<Rightarrow> FileInfo list \<Rightarrow>
    'b clean_world \<Rightarrow> nat \<times> 'b clean_world" where
  "deleteOrphans env deleteFn cands w = foldl (delete_orphan env deleteFn) (0, w) cands"

definition minFilesForRatioCheck :: nat where "minFilesForRatioCheck = 50"

definition checkOrphanRatio :: "nat \<Rightarrow> nat \<Rightarrow> bool" where
  "checkOrphanRatio scanned orphaned \<longleftrightarrow> \<not> scanned < minFilesForRatioCheck \<and> 2 * orphaned > scanned"

text \<open>Removing records whose files are gone.\<close>

definition too_young :: "('e, 'b) clean_env \<Rightarrow> int option \<Rightarrow> bool" where
  "too_young env firstSeen = (case firstSeen of None \<Rightarrow> False | Some t \<Rightarrow> cl_now env - t < cl_grace env)"

fun missing_entries :: "('e, 'b) clean_env \<Rightarrow> 'b \<Rightarrow> IndexEntry list \<Rightarrow> os_error + IndexEntry list" where
  "missing_entries env b [] = Inr []"
| "missing_entries env b (e # es) =
     (case be_Exists (cl_store env) (cl_env env) b (ie_PoolPath e) of
        Inl err \<Rightarrow> Inl err
      | Inr there \<Rightarrow> (case missing_entries env b es of
          Inl err \<Rightarrow> Inl err
        | Inr m \<Rightarrow> Inr (if there then m else e # m)))"

definition pruneMissingEntries :: "('e, 'b) clean_env \<Rightarrow> 'b clean_world \<Rightarrow> (os_error + nat) \<times> 'b clean_world" where
  "pruneMissingEntries env w =
     (let checked = filter (\<lambda>e. \<not> too_young env (ie_FirstSeen e)) (ListEntries (cw_index w) any_sel)
      in case missing_entries env (cw_files w) checked of
           Inl e \<Rightarrow> (Inl e, w)
         | Inr missing \<Rightarrow>
             if checkOrphanRatio (length checked) (length missing) then (Inr 0, w)
             else (Inr (length missing),
                   foldl (\<lambda>w e. w\<lparr>cw_index := RemoveEntry (cw_index w) e, cw_exists := ex_Remove (cw_exists w) (ie_PoolPath e)\<rparr>) w missing))"

fun all_present :: "('e, 'b) clean_env \<Rightarrow> 'b \<Rightarrow> string \<Rightarrow> SourceFile list \<Rightarrow> os_error + bool" where
  "all_present env b dir [] = Inr True"
| "all_present env b dir (f # fs) =
     (case be_Exists (cl_store env) (cl_env env) b (dir @ ''/'' @ so_Filename f) of
        Inl err \<Rightarrow> Inl err
      | Inr there \<Rightarrow> if there then all_present env b dir fs else Inr False)"

fun missing_sources :: "('e, 'b) clean_env \<Rightarrow> 'b \<Rightarrow> SourceEntry list \<Rightarrow> os_error + SourceEntry list" where
  "missing_sources env b [] = Inr []"
| "missing_sources env b (e # es) =
     (case all_present env b (se_LocalDir e) (se_Files e) of
        Inl err \<Rightarrow> Inl err
      | Inr there \<Rightarrow> (case missing_sources env b es of
          Inl err \<Rightarrow> Inl err
        | Inr m \<Rightarrow> Inr (if there then m else e # m)))"

definition pruneMissingSrcEntries :: "('e, 'b) clean_env \<Rightarrow> 'b clean_world \<Rightarrow> (os_error + nat) \<times> 'b clean_world" where
  "pruneMissingSrcEntries env w =
     (let checked = filter (\<lambda>e. se_FilesDownloaded e \<and> \<not> too_young env (se_FirstSeen e)) (ListSourceEntries (cw_index w) any_sel)
      in case missing_sources env (cw_files w) checked of
           Inl e \<Rightarrow> (Inl e, w)
         | Inr missing \<Rightarrow>
             if checkOrphanRatio (length checked) (length missing) then (Inr 0, w)
             else (Inr (length missing), foldl (\<lambda>w e. w\<lparr>cw_index := RemoveSourceEntry (cw_index w) e\<rparr>) w missing))"

text \<open>Reference sets.  \<open>path.Split\<close> and the choice of one variant of an index per directory.\<close>

definition path_split :: "string \<Rightarrow> string \<times> string" where
  "path_split f = (case cut_last CHR ''/'' f of None \<Rightarrow> ([], f) | Some (d, n) \<Rightarrow> (d @ ''/'', n))"

definition indexSuffixRank :: "string \<Rightarrow> nat option" where
  "indexSuffixRank suffix = map_option fst (List.find (\<lambda>(_, s). s = suffix) (zip [0..<length IndexSuffixes] IndexSuffixes))"

definition pick_variant :: "string \<Rightarrow> (string \<times> nat \<times> string) list \<Rightarrow> string \<Rightarrow> (string \<times> nat \<times> string) list" where
  "pick_variant base best f =
     (case path_split f of (dir, name) \<Rightarrow>
        if StripIndexSuffix name \<noteq> base then best
        else case indexSuffixRank (trim_prefix name base) of
               None \<Rightarrow> best
             | Some r \<Rightarrow> (case map_of best dir of
                 None \<Rightarrow> AList.update dir (r, f) best
               | Some (cur, _) \<Rightarrow> if r < cur then AList.update dir (r, f) best else best))"

definition pickIndexVariants :: "string list \<Rightarrow> string \<Rightarrow> string list" where
  "pickIndexVariants files base = sort (map (\<lambda>(_, _, f). f) (foldl (pick_variant base) [] files))"

definition max_scan_token :: nat where "max_scan_token = 1024 * 1024"

definition open_index :: "('e, 'b) clean_env \<Rightarrow> 'b \<Rightarrow> string \<Rightarrow> clean_error + string" where
  "open_index env b relPath =
     (case be_OpenPublished (cl_store env) (cl_env env) b relPath of
        Inl e \<Rightarrow> Inl (ClStorage e)
      | Inr raw \<Rightarrow> (case OpenCompressed (cl_decoders env) relPath raw of None \<Rightarrow> Inl (ClScan relPath) | Some d \<Rightarrow> Inr d))"

definition scanPackagesRefs :: "('e, 'b) clean_env \<Rightarrow> 'b \<Rightarrow> string \<Rightarrow> clean_error + string list" where
  "scanPackagesRefs env b relPath =
     (case open_index env b relPath of
        Inl e \<Rightarrow> Inl e
      | Inr d \<Rightarrow> (case scan_lines max_scan_token d of
          (lines, too_long) \<Rightarrow>
            if too_long then Inl (ClScan relPath) else Inr (List.map_filter (\<lambda>l. cut_prefix l ''Filename: '') lines)))"

record src_scan =
  ss_dir :: string
  ss_files :: "string list"
  ss_inFiles :: bool
  ss_ref :: "string list"

definition src_flush :: "src_scan \<Rightarrow> src_scan" where
  "src_flush st =
     st\<lparr>ss_ref := (if ss_dir st \<noteq> [] then ss_ref st @ map (\<lambda>fn. ss_dir st @ ''/'' @ fn) (ss_files st) else ss_ref st),
        ss_dir := [], ss_files := [], ss_inFiles := False\<rparr>"

definition src_scan_line :: "src_scan \<Rightarrow> string \<Rightarrow> src_scan" where
  "src_scan_line st line =
     (if line = [] then src_flush st
      else case cut_prefix line ''Directory: '' of
             Some d \<Rightarrow> st\<lparr>ss_dir := d, ss_inFiles := False\<rparr>
           | None \<Rightarrow>
               if has_prefix line ''Files:'' \<or> has_prefix line ''Checksums-Sha256:'' \<or> has_prefix line ''Checksums-Sha1:''
               then st\<lparr>ss_inFiles := True\<rparr>
               else if ss_inFiles st \<and> hd line = CHR '' ''
               then (case str_fields line of [_, _, fn] \<Rightarrow> st\<lparr>ss_files := ss_files st @ [fn]\<rparr> | _ \<Rightarrow> st)
               else st\<lparr>ss_inFiles := False\<rparr>)"

definition scanSourcesRefs :: "('e, 'b) clean_env \<Rightarrow> 'b \<Rightarrow> string \<Rightarrow> clean_error + string list" where
  "scanSourcesRefs env b relPath =
     (case open_index env b relPath of
        Inl e \<Rightarrow> Inl e
      | Inr d \<Rightarrow> (case scan_lines max_scan_token d of
          (lines, too_long) \<Rightarrow>
            if too_long then Inl (ClScan relPath)
            else Inr (ss_ref (src_flush (foldl src_scan_line \<lparr>ss_dir = [], ss_files = [], ss_inFiles = False, ss_ref = []\<rparr> lines)))))"

fun concat_results :: "('a \<Rightarrow> 'x + 'c list) \<Rightarrow> 'a list \<Rightarrow> 'x + 'c list" where
  "concat_results f [] = Inr []"
| "concat_results f (x # xs) =
     (case f x of Inl e \<Rightarrow> Inl e | Inr r \<Rightarrow> (case concat_results f xs of Inl e \<Rightarrow> Inl e | Inr rs \<Rightarrow> Inr (r @ rs)))"

definition ref_prefixes :: "('e, 'b) clean_env \<Rightarrow> 'b \<Rightarrow> clean_error + string list" where
  "ref_prefixes env b =
     (case concat_results (\<lambda>osName. case st_ListSnapshots (cl_store env) (cl_env env) b osName of
                Inl e \<Rightarrow> Inl (ClStorage e) | Inr refs \<Rightarrow> Inr (map sr_ID refs)) (osNames (cl_layouts env)) of
        Inl e \<Rightarrow> Inl e
      | Inr ids \<Rightarrow> Inr (''current'' # rev (remdups (rev ids))))"

definition scan_prefix :: "('e, 'b) clean_env \<Rightarrow> 'b \<Rightarrow> (string list \<Rightarrow> string list) \<Rightarrow> (string \<Rightarrow> clean_error + string list) \<Rightarrow> string \<Rightarrow>
    clean_error + string list" where
  "scan_prefix env b pick scan prefix =
     (case st_ListPublished (cl_store env) (cl_env env) b prefix of
        Inl e \<Rightarrow> Inl (ClStorage e)
      | Inr files \<Rightarrow> concat_results scan (pick files))"

definition pool_entry_key :: "IndexEntry \<Rightarrow> string \<times> string \<times> string \<times> string \<times> string \<times> string" where
  "pool_entry_key e = (ie_OS e, ie_Codename e, ie_Component e, ie_Arch e, ie_Upstream e, ie_Package e)"

definition src_entry_key :: "SourceEntry \<Rightarrow> string \<times> string \<times> string \<times> string \<times> string" where
  "src_entry_key e = (se_OS e, se_Codename e, se_Component e, se_Upstream e, se_Package e)"

definition index_pool_refs :: "Store \<Rightarrow> string list" where
  "index_pool_refs ix = map (\<lambda>(_, e). ie_PoolPath e) (highestVersionByKey pool_entry_key ie_Version (ListEntries ix any_sel))"

definition buildPoolRefSet :: "('e, 'b) clean_env \<Rightarrow> 'b clean_world \<Rightarrow> clean_error + string list" where
  "buildPoolRefSet env w =
     (case ref_prefixes env (cw_files w) of
        Inl e \<Rightarrow> Inl e
      | Inr prefixes \<Rightarrow>
          (case concat_results (scan_prefix env (cw_files w) (\<lambda>files. pickIndexVariants files ''Packages'')
                  (scanPackagesRefs env (cw_files w))) prefixes of
             Inl e \<Rightarrow> Inl e
           | Inr ref \<Rightarrow> Inr (ref @ index_pool_refs (cw_index w))))"

definition index_src_refs :: "Store \<Rightarrow> string list" where
  "index_src_refs ix =
     concat (map (\<lambda>(_, e). map (\<lambda>f. se_LocalDir e @ ''/'' @ so_Filename f) (se_Files e))
       (highestVersionByKey src_entry_key se_Version (ListSourceEntries ix any_sel)))"

definition buildSrcRefSet :: "('e, 'b) clean_env \<Rightarrow> 'b clean_world \<Rightarrow> clean_error + string list" where
  "buildSrcRefSet env w =
     (case ref_prefixes env (cw_files w) of
        Inl e \<Rightarrow> Inl e
      | Inr prefixes \<Rightarrow>
          (case concat_results (scan_prefix env (cw_files w)
                  (\<lambda>files. pickIndexVariants (filter (\<lambda>f. contains_sub f ''/source/'') files) ''Sources'')
                  (scanSourcesRefs env (cw_files w))) prefixes of
             Inl e \<Rightarrow> Inl e
           | Inr ref \<Rightarrow> Inr (ref @ index_src_refs (cw_index w))))"

text \<open>The collectors.\<close>

definition collect :: "('e, 'b) clean_env \<Rightarrow> ('e \<Rightarrow> 'b \<Rightarrow> string \<Rightarrow> os_error option \<times> 'b) \<Rightarrow> string list \<Rightarrow> FileInfo list \<Rightarrow>
    'b clean_world \<Rightarrow> (clean_error + nat) \<times> 'b clean_world" where
  "collect env deleteFn ref files w =
     (let cands = filter (\<lambda>fi. fi_Path fi \<notin> set ref) files
      in if checkOrphanRatio (length files) (length cands) then (Inr 0, w)
         else (case deleteOrphans env deleteFn cands w of (n, w') \<Rightarrow> (Inr n, w')))"

definition gcPool :: "('e, 'b) clean_env \<Rightarrow> 'b clean_world \<Rightarrow> (clean_error + nat) \<times> 'b clean_world" where
  "gcPool env w =
     (case buildPoolRefSet env w of
        Inl e \<Rightarrow> (Inl e, w)
      | Inr ref \<Rightarrow>
          (case st_WalkPool (cl_store env) (cl_env env) (cw_files w) of
             Inl e \<Rightarrow> (Inl (ClStorage e), w)
           | Inr files \<Rightarrow> collect env (be_Delete (cl_store env)) ref files w))"

definition gcSrc :: "('e, 'b) clean_env \<Rightarrow> 'b clean_world \<Rightarrow> (clean_error + nat) \<times> 'b clean_world" where
  "gcSrc env w =
     (case buildSrcRefSet env w of
        Inl e \<Rightarrow> (Inl e, w)
      | Inr ref \<Rightarrow>
          (case st_ListPublishedInfo (cl_store env) (cl_env env) (cw_files w) ''src'' of
             Inl e \<Rightarrow> (Inl (ClStorage e), w)
           | Inr files \<Rightarrow> collect env (be_Delete (cl_store env)) ref files w))"

definition isByHashPath :: "string \<Rightarrow> bool" where
  "isByHashPath relPath \<longleftrightarrow> contains_sub relPath ''/by-hash/SHA256/''"

text \<open>The by-hash paths a Release file declares.  The map of its files is read through their names, given by the lines of
  the hash sections.\<close>

definition release_files :: "Release \<Rightarrow> FileEntry list" where
  "release_files rel =
     List.map_filter (rel_Files rel) (remdups (map (\<lambda>(_, _, p). p) (hash_rows (Release_Get rel ''SHA256'') @ hash_rows (Release_Get rel ''SHA512''))))"

definition addByHashRefsFromRelease :: "('e, 'b) clean_env \<Rightarrow> 'b \<Rightarrow> string \<Rightarrow> string list" where
  "addByHashRefsFromRelease env b relPath =
     (case be_OpenPublished (cl_store env) (cl_env env) b relPath of
        Inl _ \<Rightarrow> []
      | Inr d \<Rightarrow> (case ParseRelease d of
          Inl _ \<Rightarrow> []
        | Inr rel \<Rightarrow>
            map (\<lambda>f. path_join [path_dir relPath, path_dir (fe_Path f), ''by-hash'', ''SHA256'', fe_SHA256 f])
              (filter (\<lambda>f. fe_SHA256 f \<noteq> []) (release_files rel))))"

definition buildByHashRefSet :: "('e, 'b) clean_env \<Rightarrow> 'b \<Rightarrow> clean_error + string list" where
  "buildByHashRefSet env b =
     (case st_ListPublished (cl_store env) (cl_env env) b ''current'' of
        Inl e \<Rightarrow> Inl (ClStorage e)
      | Inr files \<Rightarrow> Inr (concat (map (addByHashRefsFromRelease env b) (filter (\<lambda>f. path_base f = ''Release'') files))))"

definition gcByHash :: "('e, 'b) clean_env \<Rightarrow> 'b clean_world \<Rightarrow> (clean_error + nat) \<times> 'b clean_world" where
  "gcByHash env w =
     (case buildByHashRefSet env (cw_files w) of
        Inl e \<Rightarrow> (Inl e, w)
      | Inr ref \<Rightarrow>
          (case st_ListPublishedInfo (cl_store env) (cl_env env) (cw_files w) ''current'' of
             Inl e \<Rightarrow> (Inl (ClStorage e), w)
           | Inr files \<Rightarrow> collect env (be_DeletePublished (cl_store env)) ref (filter (\<lambda>fi. isByHashPath (fi_Path fi)) files) w))"

definition Cleanup :: "('e, 'b) clean_env \<Rightarrow> int \<Rightarrow> int \<Rightarrow> 'b clean_world \<Rightarrow> clean_error option \<times> 'b clean_world" where
  "Cleanup env maxSnapshots maxSnapshotAge w =
     (case pruneSnapshots env maxSnapshots maxSnapshotAge (cw_files w) of
        (Inl e, b) \<Rightarrow> (Some (ClStorage e), w\<lparr>cw_files := b\<rparr>)
      | (Inr n, b) \<Rightarrow>
      (case pruneMissingEntries env (w\<lparr>cw_files := (if n > 0 then syncPoolRoutes env b else b)\<rparr>) of
        (Inl e, w) \<Rightarrow> (Some (ClStorage e), w)
      | (Inr _, w) \<Rightarrow>
      (case pruneMissingSrcEntries env w of
        (Inl e, w) \<Rightarrow> (Some (ClStorage e), w)
      | (Inr _, w) \<Rightarrow>
      (case gcPool env w of
        (Inl e, w) \<Rightarrow> (Some e, w)
      | (Inr _, w) \<Rightarrow>
      (case gcSrc env w of
        (Inl e, w) \<Rightarrow> (Some e, w)
      | (Inr _, w) \<Rightarrow>
      (case gcByHash env w of
        (Inl e, w) \<Rightarrow> (Some e, w)
      | (Inr _, w) \<Rightarrow>
      (case st_CleanupTempFiles (cl_store env) (cl_env env) (cw_files w) (cl_now env - cl_grace env) of
        (Inl e, b) \<Rightarrow> (Some (ClStorage e), w\<lparr>cw_files := b\<rparr>)
      | (Inr _, b) \<Rightarrow> (None, w\<lparr>cw_files := b\<rparr>))))))))"


section \<open>The records of the index\<close>

text \<open>Every record lies in the bucket of its own key.\<close>

definition index_keyed :: "Store \<Rightarrow> bool" where
  "index_keyed ix \<longleftrightarrow> list_all (\<lambda>(key, es). list_all (\<lambda>e.
     splitEntryKey key = Some (ie_OS e, ie_Codename e, ie_Component e, ie_Arch e)) es) (ms_entries ix)"

lemma set_insort_less: "set (insort_less lt x xs) = insert x (set xs)"
  by (induction xs) auto

lemma set_sort_less [simp]: "set (sort_less lt xs) = set xs"
  by (induction xs) (simp_all add: sort_less_def set_insort_less)

lemma matching_entries_iff:
  assumes "index_keyed ix"
  shows "e \<in> set (matching_entries ix sel) \<longleftrightarrow> e \<in> set (concat (map snd (ms_entries ix))) \<and>
    sel_ok (sel_OS sel) (ie_OS e) \<and> sel_ok (sel_Codename sel) (ie_Codename e) \<and>
    sel_ok (sel_Component sel) (ie_Component e) \<and> sel_ok (sel_Arch sel) (ie_Arch e)"
proof -
  have "list_all (\<lambda>(key, es). list_all (\<lambda>e. splitEntryKey key = Some (ie_OS e, ie_Codename e, ie_Component e, ie_Arch e)) es) m \<Longrightarrow>
      e \<in> set (matching_entries (ix\<lparr>ms_entries := m\<rparr>) sel) \<longleftrightarrow> e \<in> set (concat (map snd m)) \<and>
        sel_ok (sel_OS sel) (ie_OS e) \<and> sel_ok (sel_Codename sel) (ie_Codename e) \<and>
        sel_ok (sel_Component sel) (ie_Component e) \<and> sel_ok (sel_Arch sel) (ie_Arch e)" for m
  proof (induction m)
    case (Cons p m)
    obtain key es where p: "p = (key, es)" by fastforce
    have "e \<in> set (matching_entries (ix\<lparr>ms_entries := p # m\<rparr>) sel) \<longleftrightarrow>
        (e \<in> set es \<and> sel_ok (sel_OS sel) (ie_OS e) \<and> sel_ok (sel_Codename sel) (ie_Codename e) \<and>
          sel_ok (sel_Component sel) (ie_Component e) \<and> sel_ok (sel_Arch sel) (ie_Arch e)) \<or>
        e \<in> set (matching_entries (ix\<lparr>ms_entries := m\<rparr>) sel)"
      using Cons.prems p by (cases es) (auto simp: matching_entries_def list_all_iff split: option.splits)
    then show ?case using Cons p by auto
  qed (simp add: matching_entries_def)
  from this[of "ms_entries ix"] assms show ?thesis by (simp add: index_keyed_def)
qed

lemma ListEntries_iff:
  assumes "index_keyed ix"
  shows "e \<in> set (ListEntries ix (layout_sel osName codename)) \<longleftrightarrow>
    e \<in> set (ListEntries ix any_sel) \<and> sel_ok osName (ie_OS e) \<and> sel_ok codename (ie_Codename e)"
  by (auto simp: ListEntries_def matching_entries_iff[OF assms] layout_sel_def any_sel_def sel_ok_def)

lemma newest_of_greatest: "newest_of Compare ver xs x \<Longrightarrow> y \<in> set xs \<Longrightarrow> Compare (ver y) (ver x) \<le> 0"
  by (force simp: newest_of_def deb.cmp_self)

text \<open>What a snapshot of any suite publishes is in the reference set: a record that is the newest of its component,
  architecture and package is also a newest one of its upstream.\<close>

lemma published_is_referenced:
  assumes "index_keyed ix"
    and same: "\<And>x y. x \<in> set (ListEntries ix any_sel) \<Longrightarrow> y \<in> set (ListEntries ix any_sel) \<Longrightarrow> pool_entry_key x = pool_entry_key y \<Longrightarrow>
      Compare (ie_Version x) (ie_Version y) = 0 \<Longrightarrow> ie_PoolPath x = ie_PoolPath y"
    and "newest_of Compare ie_Version (filter (\<lambda>x. stanza_key x = k) (ListEntries ix (layout_sel osName codename))) e"
  shows "ie_PoolPath e \<in> set (index_pool_refs ix)"
proof -
  let ?all = "ListEntries ix any_sel"
  from newest_of_member[OF assms(3)] have e: "e \<in> set (ListEntries ix (layout_sel osName codename))" "stanza_key e = k" by auto
  then have ea: "e \<in> set ?all" "sel_ok osName (ie_OS e)" "sel_ok codename (ie_Codename e)" using ListEntries_iff[OF assms(1)] by auto
  obtain f where f: "newest_by Compare pool_entry_key ie_Version ?all (pool_entry_key e) = Some f"
    using deb.newest_by_char[where key = pool_entry_key and ver = ie_Version and xs = ?all and k = "pool_entry_key e"] ea(1)
    by (auto simp: filter_empty_conv split: option.splits)
  then have nf: "newest_of Compare ie_Version (filter (\<lambda>y. pool_entry_key y = pool_entry_key e) ?all) f"
    by (simp add: deb.newest_by_Some_iff)
  from newest_of_member[OF nf] have fa: "f \<in> set ?all" "pool_entry_key f = pool_entry_key e" by auto
  then have "f \<in> set (filter (\<lambda>x. stanza_key x = k) (ListEntries ix (layout_sel osName codename)))"
    using ListEntries_iff[OF assms(1), of f osName codename] ea e(2) by (auto simp: pool_entry_key_def stanza_key_def)
  from newest_of_greatest[OF assms(3) this] have "Compare (ie_Version f) (ie_Version e) \<le> 0" .
  moreover have "Compare (ie_Version e) (ie_Version f) \<le> 0" using newest_of_greatest[OF nf, of e] ea(1) by simp
  ultimately have "Compare (ie_Version f) (ie_Version e) = 0" using deb.cmp_flip[of "ie_Version f" "ie_Version e"] by linarith
  from same[OF fa(1) ea(1) fa(2) this] have "ie_PoolPath e = ie_PoolPath f" by simp
  then show ?thesis using f unfolding highestVersionByKey_set[symmetric] index_pool_refs_def by force
qed

lemma index_keyed_upsert:
  assumes "index_keyed ix" "splitEntryKey (entryKey (ie_OS e) (ie_Codename e) (ie_Component e) (ie_Arch e)) =
      Some (ie_OS e, ie_Codename e, ie_Component e, ie_Arch e)"
  shows "index_keyed (UpsertEntry now ix e)"
proof -
  have rf: "P e' \<Longrightarrow> list_all P xs \<Longrightarrow> list_all P (replace_first same (\<lambda>_. e') e' xs)" for P same and e' :: IndexEntry and xs
    by (induction xs) auto
  have up: "list_all Q m \<Longrightarrow> Q (k, v) \<Longrightarrow> list_all Q (AList.update k v m)" for Q :: "string \<times> IndexEntry list \<Rightarrow> bool" and k v m
    by (induction m) auto
  have b: "list_all (\<lambda>e. splitEntryKey key = Some (ie_OS e, ie_Codename e, ie_Component e, ie_Arch e)) (bucket (ms_entries ix) key)" for key
    using assms(1) unfolding index_keyed_def bucket_def by (cases "map_of (ms_entries ix) key") (auto simp: list_all_iff dest!: map_of_SomeD)
  show ?thesis using assms unfolding UpsertEntry_def Let_def mark_dirty_def index_keyed_def
    by (auto intro!: up rf b)
qed


section \<open>What a collection deletes\<close>

lemma deleteOrphans_acts:
  "deleteOrphans env deleteFn cands w = (n, w') \<Longrightarrow>
     cw_files w' = foldl (\<lambda>b p. snd (deleteFn (cl_env env) b p)) (cw_files w)
       (map fi_Path (filter (\<lambda>fi. \<not> cl_now env - fi_ModTime fi < cl_grace env) cands)) \<and>
     cw_index w' = cw_index w"
proof -
  have "foldl (delete_orphan env deleteFn) (m, w) cands = (n, w') \<Longrightarrow>
     cw_files w' = foldl (\<lambda>b p. snd (deleteFn (cl_env env) b p)) (cw_files w)
       (map fi_Path (filter (\<lambda>fi. \<not> cl_now env - fi_ModTime fi < cl_grace env) cands)) \<and> cw_index w' = cw_index w" for m
  proof (induction cands arbitrary: m w)
    case (Cons fi cands)
    obtain k w1 where w1: "delete_orphan env deleteFn (m, w) fi = (k, w1)" by fastforce
    from Cons.IH[of k w1] Cons.prems w1 show ?case
      by (auto simp: delete_orphan_def split: if_splits prod.splits option.splits)
  qed simp
  then show "deleteOrphans env deleteFn cands w = (n, w') \<Longrightarrow> ?thesis" unfolding deleteOrphans_def .
qed

lemma collect_acts:
  assumes "collect env deleteFn ref files w = (res, w')"
  shows "\<exists>victims. set victims \<subseteq> {fi \<in> set files. fi_Path fi \<notin> set ref \<and> cl_now env - fi_ModTime fi \<ge> cl_grace env} \<and>
    (length files \<ge> 50 \<longrightarrow> 2 * length victims \<le> length files) \<and>
    cw_files w' = foldl (\<lambda>b p. snd (deleteFn (cl_env env) b p)) (cw_files w) (map fi_Path victims) \<and> cw_index w' = cw_index w"
proof (cases "checkOrphanRatio (length files) (length (filter (\<lambda>fi. fi_Path fi \<notin> set ref) files))")
  case True
  then have "w' = w" using assms by (simp add: collect_def)
  then show ?thesis by (intro exI[of _ "[]"]) simp
next
  case False
  let ?c = "filter (\<lambda>fi. fi_Path fi \<notin> set ref) files" and ?old = "\<lambda>fi. \<not> cl_now env - fi_ModTime fi < cl_grace env"
  obtain n where d: "deleteOrphans env deleteFn ?c w = (n, w')"
    using assms False by (auto simp: collect_def Let_def split: prod.splits)
  have "length files \<ge> 50 \<longrightarrow> 2 * length (filter ?old ?c) \<le> length files"
    using False length_filter_le[of ?old ?c] by (auto simp: checkOrphanRatio_def minFilesForRatioCheck_def)
  with deleteOrphans_acts[OF d] show ?thesis by (intro exI[of _ "filter ?old ?c"]) auto
qed

lemma concat_results_Inr:
  "concat_results f xs = Inr r \<Longrightarrow> x \<in> set xs \<Longrightarrow> \<exists>y. f x = Inr y \<and> set y \<subseteq> set r"
  by (induction xs arbitrary: r) (fastforce split: sum.splits)+

lemma ref_prefixes_Inr:
  assumes "ref_prefixes env b = Inr prefixes"
  shows "''current'' \<in> set prefixes"
    "osName \<in> set (osNames (cl_layouts env)) \<Longrightarrow>
       \<exists>refs. st_ListSnapshots (cl_store env) (cl_env env) b osName = Inr refs \<and> sr_ID ` set refs \<subseteq> set prefixes"
  using assms concat_results_Inr[where x = osName]
  by (auto simp: ref_prefixes_def split: sum.splits) (fastforce split: sum.splits)

text \<open>The tree of a name is kept when it is the current one or a snapshot of a configured operating system.\<close>

definition live_prefix :: "('e, 'b) clean_env \<Rightarrow> 'b \<Rightarrow> string \<Rightarrow> bool" where
  "live_prefix env b prefix \<longleftrightarrow> prefix = ''current'' \<or>
     list_ex (\<lambda>osName. case st_ListSnapshots (cl_store env) (cl_env env) b osName of
       Inl _ \<Rightarrow> False | Inr refs \<Rightarrow> list_ex (\<lambda>r. sr_ID r = prefix) refs) (osNames (cl_layouts env))"

lemma buildPoolRefSet_covers:
  assumes "buildPoolRefSet env w = Inr ref" "live_prefix env (cw_files w) prefix"
  shows "\<exists>files. st_ListPublished (cl_store env) (cl_env env) (cw_files w) prefix = Inr files \<and>
    (\<forall>f\<in>set (pickIndexVariants files ''Packages''). \<exists>names. scanPackagesRefs env (cw_files w) f = Inr names \<and> set names \<subseteq> set ref)"
proof -
  obtain prefixes r where p: "ref_prefixes env (cw_files w) = Inr prefixes" "ref = r @ index_pool_refs (cw_index w)"
    "concat_results (scan_prefix env (cw_files w) (\<lambda>files. pickIndexVariants files ''Packages'') (scanPackagesRefs env (cw_files w))) prefixes = Inr r"
    using assms(1) by (auto simp: buildPoolRefSet_def split: sum.splits)
  have "prefix \<in> set prefixes"
    using assms(2) ref_prefixes_Inr[OF p(1)] by (fastforce simp: live_prefix_def list_ex_iff split: sum.splits)
  from concat_results_Inr[OF p(3) this] obtain y where
    y: "scan_prefix env (cw_files w) (\<lambda>files. pickIndexVariants files ''Packages'') (scanPackagesRefs env (cw_files w)) prefix = Inr y"
      "set y \<subseteq> set r" by blast
  then obtain files where "st_ListPublished (cl_store env) (cl_env env) (cw_files w) prefix = Inr files"
      "concat_results (scanPackagesRefs env (cw_files w)) (pickIndexVariants files ''Packages'') = Inr y"
    by (auto simp: scan_prefix_def split: sum.splits)
  then show ?thesis using concat_results_Inr[of "scanPackagesRefs env (cw_files w)"] y(2) p(2) by fastforce
qed


text \<open>C33: a pool collection deletes only orphans: every path it asks the backend to delete was found by walking the pool,
  is at least as old as the grace period, is not the pool path of the newest record of its package in the index, and is
  named by no chosen Packages index of the current tree or of any snapshot that is left (all of which were read without
  an error); above fifty files it deletes at most half of what it found, and the index stays as it is.\<close>

theorem gcPool_deletes_only_orphans:
  assumes "gcPool env w = (res, w')"
  shows "\<exists>victims. cw_files w' = foldl (\<lambda>b p. snd (be_Delete (cl_store env) (cl_env env) b p)) (cw_files w) victims \<and>
    cw_index w' = cw_index w \<and>
    (victims \<noteq> [] \<longrightarrow> (\<exists>files. st_WalkPool (cl_store env) (cl_env env) (cw_files w) = Inr files \<and>
       (length files \<ge> 50 \<longrightarrow> 2 * length victims \<le> length files) \<and>
       (\<forall>p\<in>set victims. p \<notin> set (index_pool_refs (cw_index w)) \<and>
          (\<exists>fi\<in>set files. fi_Path fi = p \<and> cl_now env - fi_ModTime fi \<ge> cl_grace env) \<and>
          (\<forall>prefix. live_prefix env (cw_files w) prefix \<longrightarrow>
             (\<exists>published. st_ListPublished (cl_store env) (cl_env env) (cw_files w) prefix = Inr published \<and>
               (\<forall>f\<in>set (pickIndexVariants published ''Packages''). \<exists>names. scanPackagesRefs env (cw_files w) f = Inr names \<and> p \<notin> set names))))))"
proof (cases "\<exists>ref files. buildPoolRefSet env w = Inr ref \<and> st_WalkPool (cl_store env) (cl_env env) (cw_files w) = Inr files")
  case False
  then have "w' = w" using assms by (auto simp: gcPool_def split: sum.splits)
  then show ?thesis by (intro exI[of _ "[]"]) simp
next
  case True
  then obtain ref files where rf: "buildPoolRefSet env w = Inr ref" "st_WalkPool (cl_store env) (cl_env env) (cw_files w) = Inr files" by blast
  then have "collect env (be_Delete (cl_store env)) ref files w = (res, w')" using assms by (simp add: gcPool_def)
  from collect_acts[OF this] obtain victims where
    v: "set victims \<subseteq> {fi \<in> set files. fi_Path fi \<notin> set ref \<and> cl_now env - fi_ModTime fi \<ge> cl_grace env}"
      "length files \<ge> 50 \<longrightarrow> 2 * length victims \<le> length files"
      "cw_files w' = foldl (\<lambda>b p. snd (be_Delete (cl_store env) (cl_env env) b p)) (cw_files w) (map fi_Path victims)" "cw_index w' = cw_index w"
    by blast
  have ix: "set (index_pool_refs (cw_index w)) \<subseteq> set ref" using rf(1) by (auto simp: buildPoolRefSet_def split: sum.splits)
  have ps: "p \<notin> set ref" "\<exists>fi\<in>set files. fi_Path fi = p \<and> cl_now env - fi_ModTime fi \<ge> cl_grace env" if "p \<in> set (map fi_Path victims)" for p
    using v(1) that by auto
  have live: "\<exists>published. st_ListPublished (cl_store env) (cl_env env) (cw_files w) prefix = Inr published \<and>
      (\<forall>f\<in>set (pickIndexVariants published ''Packages''). \<exists>names. scanPackagesRefs env (cw_files w) f = Inr names \<and> p \<notin> set names)"
    if "p \<in> set (map fi_Path victims)" "live_prefix env (cw_files w) prefix" for p prefix
    using buildPoolRefSet_covers[OF rf(1) that(2)] ps(1)[OF that(1)] by blast
  show ?thesis
    by (rule exI[of _ "map fi_Path victims"]) (use v(2-4) rf(2) ix ps live in \<open>simp; blast\<close>)
qed


section \<open>Pruning snapshots\<close>

lemma size_mset_filter_cong: "mset xs = mset ys \<Longrightarrow> length (filter P xs) = length (filter P ys)"
  unfolding size_mset[symmetric] mset_filter by simp

lemma newer_before:
  assumes "sorted (map f snaps)" "i < length snaps" "distinct (map fst snaps)"
  shows "i \<le> length (filter (\<lambda>x. fst x \<noteq> fst (snaps ! i) \<and> f x \<le> f (snaps ! i)) snaps)"
proof -
  have "filter (\<lambda>x. fst x \<noteq> fst (snaps ! i) \<and> f x \<le> f (snaps ! i)) (take i snaps) = take i snaps"
  proof (rule filter_True, rule ballI)
    fix x assume "x \<in> set (take i snaps)"
    then obtain j where j: "j < i" "x = snaps ! j" by (auto simp: in_set_conv_nth)
    then have "fst x \<noteq> fst (snaps ! i)" using assms(2,3) nth_eq_iff_index_eq[OF assms(3), of j i] by simp
    moreover have "f x \<le> f (snaps ! i)" using assms(1,2) j sorted_nth_mono[of "map f snaps" j i] by simp
    ultimately show "fst x \<noteq> fst (snaps ! i) \<and> f x \<le> f (snaps ! i)" by simp
  qed
  then have "i = length (filter (\<lambda>x. fst x \<noteq> fst (snaps ! i) \<and> f x \<le> f (snaps ! i)) (take i snaps))" using assms(2) by simp
  also have "\<dots> \<le> length (filter (\<lambda>x. fst x \<noteq> fst (snaps ! i) \<and> f x \<le> f (snaps ! i)) (take i snaps @ drop i snaps))"
    by (simp only: filter_append length_append le_add1)
  finally show ?thesis by simp
qed

lemma snapshots_to_delete_old:
  assumes "distinct (map fst seen)" "d \<in> set (snapshots_to_delete n age now seen)"
  shows "\<exists>t. (d, t) \<in> set seen \<and> (age = 0 \<or> now - t > age) \<and>
    (n = 0 \<or> n \<le> int (length (filter (\<lambda>(j, u). j \<noteq> d \<and> t \<le> u) seen)))"
proof -
  let ?f = "\<lambda>(_ :: string, t). - t :: int"
  define snaps where "snaps = sort_key ?f seen"
  obtain i where i: "i < length snaps" "d = fst (snaps ! i)" "n = 0 \<or> int i \<ge> n" "age = 0 \<or> now - snd (snaps ! i) > age"
  proof -
    have "d \<in> fst ` snd ` {x \<in> set (zip [0..<length snaps] snaps). (n = 0 \<or> int (fst x) \<ge> n) \<and> (age = 0 \<or> now - snd (snd x) > age)}"
      using assms(2) unfolding snapshots_to_delete_def snaps_def[symmetric] Let_def by (force simp: case_prod_beta)
    then show ?thesis using that by (auto simp: in_set_zip)
  qed
  have m: "mset snaps = mset seen" by (simp add: snaps_def)
  then have "distinct (map fst snaps)" using assms(1) by (metis mset_eq_imp_distinct_iff mset_map)
  from newer_before[OF _ i(1) this, of ?f] have
    "i \<le> length (filter (\<lambda>x. fst x \<noteq> d \<and> ?f x \<le> ?f (snaps ! i)) snaps)" using i(2) by (simp add: snaps_def)
  also have "\<dots> = length (filter (\<lambda>x. fst x \<noteq> d \<and> ?f x \<le> ?f (snaps ! i)) seen)"
    by (rule size_mset_filter_cong[OF m])
  also have "\<dots> = length (filter (\<lambda>(j, u). j \<noteq> d \<and> snd (snaps ! i) \<le> u) seen)"
    by (rule arg_cong[where f = length], rule filter_cong) (auto split: prod.splits)
  finally have "int i \<le> int (length (filter (\<lambda>(j, u). j \<noteq> d \<and> snd (snaps ! i) \<le> u) seen))" by simp
  moreover have "snaps ! i \<in> set seen" using i(1) m by (metis mset_eq_setD nth_mem)
  ultimately show ?thesis using i(2-4) by (intro exI[of _ "snd (snaps ! i)"]) auto
qed

lemma collect_snapshots_distinct:
  "collect_snapshots env b = Inr seen \<Longrightarrow> distinct (map fst seen)"
proof -
  let ?add = "\<lambda>seen r. if map_of seen (sr_ID r) = None then seen @ [(sr_ID r, sr_CreatedAt r)] else seen"
  let ?step = "\<lambda>acc osName. case acc of Inl e \<Rightarrow> Inl e
       | Inr seen \<Rightarrow> (case st_ListSnapshots (cl_store env) (cl_env env) b osName of Inl e \<Rightarrow> Inl e | Inr refs \<Rightarrow> Inr (foldl ?add seen refs))"
  have add: "distinct (map fst s) \<Longrightarrow> distinct (map fst (foldl ?add s refs))" for s refs
    by (induction refs arbitrary: s) (auto simp: map_of_eq_None_iff)
  have "(\<forall>s. acc = Inr s \<longrightarrow> distinct (map fst s)) \<Longrightarrow> foldl ?step acc names = Inr seen \<Longrightarrow> distinct (map fst seen)" for acc names
  proof (induction names arbitrary: acc)
    case (Cons a names)
    show ?case by (rule Cons.IH[OF _ Cons.prems(2)[unfolded foldl.simps]]) (use Cons.prems(1) add in \<open>auto split: sum.splits\<close>)
  qed auto
  from this[of "Inr []" "osNames (cl_layouts env)"] show "collect_snapshots env b = Inr seen \<Longrightarrow> ?thesis"
    by (simp add: collect_snapshots_def)
qed

text \<open>pruning never touches a snapshot that is young enough or among the newest: the backend is changed by removing
  whole snapshot trees only, each older than the maximal age when one is set, and with at least the configured number
  of other snapshots as new as it when a number is set; with neither limit nothing is removed.\<close>

theorem pruneSnapshots_keeps_newest:
  assumes "\<And>xs. mset (cl_range env xs) = mset xs" "pruneSnapshots env maxSnapshots maxSnapshotAge b = (Inr k, b')"
  shows "\<exists>ids. b' = foldl (deleteSnapshotTree env) b ids \<and> length ids = k \<and>
    (maxSnapshots = 0 \<and> maxSnapshotAge = 0 \<longrightarrow> ids = []) \<and>
    (\<forall>d\<in>set ids. \<exists>seen t. collect_snapshots env b = Inr seen \<and> (d, t) \<in> set seen \<and>
       (maxSnapshotAge = 0 \<or> cl_now env - t > maxSnapshotAge) \<and>
       (maxSnapshots = 0 \<or> maxSnapshots \<le> int (length (filter (\<lambda>(j, u). j \<noteq> d \<and> t \<le> u) seen))))"
proof (cases "maxSnapshots = 0 \<and> maxSnapshotAge = 0")
  case True
  then show ?thesis using assms(2) by (simp add: pruneSnapshots_def)
next
  case False
  then obtain seen where s: "collect_snapshots env b = Inr seen" using assms(2) by (auto simp: pruneSnapshots_def split: sum.splits)
  let ?ids = "snapshots_to_delete maxSnapshots maxSnapshotAge (cl_now env) (cl_range env seen)"
  have "distinct (map fst (cl_range env seen))"
    using collect_snapshots_distinct[OF s] assms(1)[of seen] by (metis mset_eq_imp_distinct_iff mset_map)
  from snapshots_to_delete_old[OF this]
  have "\<exists>t. (d, t) \<in> set seen \<and> (maxSnapshotAge = 0 \<or> cl_now env - t > maxSnapshotAge) \<and>
      (maxSnapshots = 0 \<or> maxSnapshots \<le> int (length (filter (\<lambda>(j, u). j \<noteq> d \<and> t \<le> u) seen)))" if "d \<in> set ?ids" for d
    using that size_mset_filter_cong[OF assms(1)[of seen]] mset_eq_setD[OF assms(1)[of seen]] by metis
  then show ?thesis using assms(2) s False by (intro exI[of _ ?ids]) (auto simp: pruneSnapshots_def Let_def)
qed



section \<open>The pool files of published packages\<close>

definition fs_storage :: "fs_Store \<Rightarrow> (sys \<times> int, os_state) storage" where
  "fs_storage s =
     \<lparr>be_Exists = (\<lambda>e b. fs_Exists (fst e) s b), be_Stat = (\<lambda>e b. fs_Stat (fst e) s b), be_Open = (\<lambda>e b. fs_Open (fst e) s b),
      be_StatPublished = (\<lambda>e b. fs_StatPublished (fst e) s b), be_OpenPublished = (\<lambda>e b. fs_OpenPublished (fst e) s b),
      be_PutFile = (\<lambda>e b. fs_PutFile (fst e) (snd e) s b), be_WriteFile = (\<lambda>e b. fs_WriteFile (fst e) (snd e) s b),
      be_Delete = (\<lambda>e b. fs_Delete (fst e) s b), be_DeletePublished = (\<lambda>e b. fs_DeletePublished (fst e) s b),
      st_WalkPool = (\<lambda>e b. fs_WalkPool (fst e) s b), st_ListPublished = (\<lambda>e b. fs_ListPublished (fst e) s b),
      st_ListPublishedInfo = (\<lambda>e b. fs_ListPublishedInfo (fst e) s b), st_ListSnapshots = (\<lambda>e b. fs_ListSnapshots (fst e) s b),
      st_CleanupTempFiles = (\<lambda>e b. fs_CleanupTempFiles (fst e) s b)\<rparr>"

context coherent_backend
begin

lemma deletes_frame:
  assumes "list_all pkey ps" "pkey q" "q \<notin> set ps"
  shows "content (foldl (\<lambda>b p. snd (be_Delete be e b p)) b ps) q = content b q"
  using assms
proof (induction ps arbitrary: b)
  case (Cons p ps)
  have "content (snd (be_Delete be e b p)) q = content b q"
    using Delete_frame[of p q e b] Cons.prems by (cases "be_Delete be e b p") auto
  then show ?case using Cons by simp
qed simp

end

text \<open>The paths below the pool root name files of the pool.\<close>

definition tree_ok :: "fs_Store \<Rightarrow> os_state \<Rightarrow> bool" where
  "tree_ok s st \<longleftrightarrow> list_all (\<lambda>(p, _). beneath (fs_poolRoot s) p \<longrightarrow> pool_key (path_rel (fs_root s) p)) st"

lemma canonical_clean: "canonical p \<Longrightarrow> path_clean p = p"
proof -
  assume "canonical p"
  then have "inside p" "p \<noteq> []" by (auto simp: canonical_inside canonical_def)
  then show ?thesis using path_clean_plain(1)[of "split_on CHR ''/'' p"] by (simp add: inside_def)
qed

lemma WalkPool_keys:
  assumes "root_ok s" "tree_ok s st" "fs_WalkPool sys s st = Inr files" "fi \<in> set files"
  shows "pool_key (fi_Path fi)"
proof -
  obtain segs where g: "segs \<noteq> []" "list_all plain_seg segs" "fs_root s = abs_path segs" "fs_poolRoot s = abs_path (segs @ [''pool''])"
    using root_okE[OF assms(1)] .
  have pr: "fs_poolRoot s = fs_root s @ ''/pool''" "fs_root s \<noteq> ''/''" "fs_poolRoot s \<noteq> ''/''"
    using g by (auto simp: abs_path_append abs_path_def neq_Nil_conv plain_seg_def)
  obtain p n where p: "(p, n) \<in> set (os_Walk st (fs_poolRoot s))" "has_suffix (to_lower (path_base p)) ''.deb''"
      "fi_Path fi = path_join [''pool'', path_rel (fs_poolRoot s) p]"
    using assms(3,4) by (auto simp: fs_WalkPool_def split: if_splits)
  have "p \<noteq> fs_poolRoot s"
  proof
    assume "p = fs_poolRoot s"
    moreover have "path_base (fs_root s @ ''/pool'') = ''pool''"
      using cut_last_append[of "CHR ''/''" "''pool''" "fs_root s"] by (simp add: path_base_def Let_def trim_right_def)
    ultimately show False using p(2) pr by (simp add: has_suffix_def to_lower_def) code_simp
  qed
  then have b: "beneath (fs_poolRoot s) p" "(p, n) \<in> set st" using p(1) by (auto simp: os_Walk_def)
  then obtain x where x: "p = fs_root s @ ''/pool/'' @ x" using pr by (auto simp: beneath_def has_prefix_iff)
  have rel: "path_rel (fs_root s) p = ''pool/'' @ x" "path_rel (fs_poolRoot s) p = x"
    using x pr by (auto simp: path_rel_def trim_prefix_def has_prefix_def)
  have k: "pool_key (''pool/'' @ x)" using assms(2) b rel(1) by (auto simp: tree_ok_def list_all_iff)
  then have "x \<noteq> []" "path_clean (''pool/'' @ x) = ''pool/'' @ x" using canonical_clean by (auto simp: pool_key_def)
  then show ?thesis using p(3) rel(2) k by (simp add: path_join_def)
qed




section \<open>Instances\<close>

definition wit_clean :: "(sys \<times> int, os_state) clean_env" where
  "wit_clean = \<lparr>cl_store = fs_storage (fs_New ''/srv''), cl_env = ((\<lambda>_ _. False), 0), cl_decoders = \<lparr>dec_zstd = Some, dec_gzip = Some, dec_xz = Some, dec_bzip2 = id\<rparr>, cl_layouts = wit_layouts,
     cl_now = 10 ^ 18, cl_gcGrace = [], cl_parseDuration = (\<lambda>_. None), cl_range = id, cl_SyncPoolRoutes = None\<rparr>"

definition wit_tree :: os_state where
  "wit_tree = [(''/srv'', Dir 0 0), (''/srv/2020-01-01'', Dir 0 0), (''/srv/2020-01-01/o'', Dir 0 0), (''/srv/2020-01-01/o/x'', File ''y'' 0),
     (''/srv/2021-01-01'', Dir 0 0), (''/srv/2021-01-01/o'', Dir 0 0), (''/srv/pool'', Dir 0 0),
     (''/srv/pool/a.deb'', File ''new'' 0), (''/srv/pool/old.deb'', File ''old'' 0)]"

definition wit_clean_world :: "os_state clean_world" where
  "wit_clean_world = \<lparr>cw_files = wit_tree,
     cw_index = UpsertEntry 0 (UpsertEntry 0 empty_store ((wit_entry ''1'' ''deb'')\<lparr>ie_PoolPath := ''pool/old.deb''\<rparr>))
       ((wit_entry ''2'' ''deb'')\<lparr>ie_PoolPath := ''pool/a.deb''\<rparr>),
     cw_exists = None\<rparr>"

lemma wit_gc:
  "fst (gcPool wit_clean wit_clean_world) = Inr 1"
  "map fst (cw_files (snd (gcPool wit_clean wit_clean_world))) = [''/srv'', ''/srv/2020-01-01'', ''/srv/2020-01-01/o'', ''/srv/2020-01-01/o/x'',
     ''/srv/2021-01-01'', ''/srv/2021-01-01/o'', ''/srv/pool'', ''/srv/pool/a.deb'']"
  by code_simp+

theorem gcPool_deletes_only_orphans_witness:
  "\<exists>victims. victims \<noteq> [] \<and>
     cw_files (snd (gcPool wit_clean wit_clean_world)) =
       foldl (\<lambda>b p. snd (be_Delete (cl_store wit_clean) (cl_env wit_clean) b p)) wit_tree victims \<and>
     (\<forall>p\<in>set victims. p \<notin> set (index_pool_refs (cw_index wit_clean_world)))"
proof -
  obtain res w' where g: "gcPool wit_clean wit_clean_world = (res, w')" by fastforce
  from gcPool_deletes_only_orphans[OF g] obtain victims where
    v: "cw_files w' = foldl (\<lambda>b p. snd (be_Delete (cl_store wit_clean) (cl_env wit_clean) b p)) wit_tree victims"
      "victims \<noteq> [] \<longrightarrow> (\<forall>p\<in>set victims. p \<notin> set (index_pool_refs (cw_index wit_clean_world)))"
    by (auto simp: wit_clean_world_def)
  have "victims \<noteq> []"
  proof
    assume "victims = []"
    then have "map fst (cw_files w') = map fst wit_tree" using v(1) by simp
    then show False using wit_gc(2) g by (simp add: wit_tree_def)
  qed
  then show ?thesis using v g by auto
qed

theorem pruneSnapshots_keeps_newest_witness:
  "fst (pruneSnapshots wit_clean 1 0 wit_tree) = Inr 1 \<and>
   (\<exists>ids. snd (pruneSnapshots wit_clean 1 0 wit_tree) = foldl (deleteSnapshotTree wit_clean) wit_tree ids \<and> length ids = 1 \<and>
     (\<forall>d\<in>set ids. \<exists>seen t. collect_snapshots wit_clean wit_tree = Inr seen \<and> (d, t) \<in> set seen \<and>
        1 \<le> length (filter (\<lambda>(j, u). j \<noteq> d \<and> t \<le> u) seen)))"
proof -
  have p: "fst (pruneSnapshots wit_clean 1 0 wit_tree) = Inr 1" by code_simp
  then obtain b' where b: "pruneSnapshots wit_clean 1 0 wit_tree = (Inr 1, b')" by (metis prod.collapse)
  have r: "mset (cl_range wit_clean xs) = mset xs" for xs by (simp add: wit_clean_def)
  from pruneSnapshots_keeps_newest[OF r b] obtain ids where i: "b' = foldl (deleteSnapshotTree wit_clean) wit_tree ids" "length ids = 1"
      "\<forall>d\<in>set ids. \<exists>seen t. collect_snapshots wit_clean wit_tree = Inr seen \<and> (d, t) \<in> set seen \<and>
        (0 = (0::int) \<or> cl_now wit_clean - t > 0) \<and> (1 = (0::int) \<or> 1 \<le> int (length (filter (\<lambda>(j, u). j \<noteq> d \<and> t \<le> u) seen)))"
    by blast
  have "\<forall>d\<in>set ids. \<exists>seen t. collect_snapshots wit_clean wit_tree = Inr seen \<and> (d, t) \<in> set seen \<and>
        1 \<le> length (filter (\<lambda>(j, u). j \<noteq> d \<and> t \<le> u) seen)"
    using i(3) by fastforce
  then show ?thesis using p b i(1,2) by auto
qed


end
