(* ===== verification/Publish.thy ===== *)
theory Publish
  imports AptMeta FileCache
begin

text \<open>
  Publication of a suite (\<open>src/internal/publish/publish.go\<close>): the Packages and Sources indexes of every component in
  every enabled compression, their by-hash copies, and the Release file that lists them, signed.  A sink is a function
  from its state, a path and the bytes to an error or success and the new state.  The digests, the encoders (\<open>None\<close>:
  opening, writing or closing failed), the signatures, the clock and the rendering of the date are parameters; the
  batches of goroutines that compress are followed by their writes in the order of the jobs, so only that order is
  observable.
\<close>

section \<open>Definitions\<close>

record Compression =
  cm_GZip :: int
  cm_ZStd :: int
  cm_XZ :: bool
  cm_Plain :: bool

definition DefaultSnapshotCompression :: Compression where
  "DefaultSnapshotCompression = \<lparr>cm_GZip = 9, cm_ZStd = 11, cm_XZ = True, cm_Plain = True\<rparr>"

definition DefaultLiveCompression :: Compression where
  "DefaultLiveCompression = \<lparr>cm_GZip = 3, cm_ZStd = 3, cm_XZ = False, cm_Plain = False\<rparr>"

text \<open>\<open>in_SourceStanzas\<close> lists the map in the order in which \<open>range\<close> visits it.  The zero time is \<open>None\<close>.\<close>

record SuiteInput =
  in_OS :: string
  in_Codename :: string
  in_Suite :: string
  in_Origin :: string
  in_Label :: string
  in_Description :: string
  in_Architectures :: "string list"
  in_Components :: "string list"
  in_Stanzas :: "string \<Rightarrow> string \<Rightarrow> string list"
  in_SourceStanzas :: "(string \<times> string list) list"
  in_Date :: "int option"
  in_Compression :: Compression
  in_HashTypes :: "string list"
  in_SkipByHash :: bool

record hashedFile =
  hf_rel :: string
  hf_size :: int
  hf_sha256 :: string
  hf_sha512 :: string
  hf_sha1 :: string
  hf_md5sum :: string

record publish_env =
  pe_md5 :: "string \<Rightarrow> string"
  pe_sha1 :: "string \<Rightarrow> string"
  pe_sha256 :: "string \<Rightarrow> string"
  pe_sha512 :: "string \<Rightarrow> string"
  pe_xz :: "string \<Rightarrow> string option"
  pe_gzip :: "int \<Rightarrow> string \<Rightarrow> string option"
  pe_zstd :: "int \<Rightarrow> string \<Rightarrow> string option"
  pe_now :: int
  pe_fmtDate :: "int \<Rightarrow> string"
  pe_key :: "((string \<Rightarrow> string option) \<times> (string \<Rightarrow> string option)) option"

datatype publish_error = PubEncode | PubSink os_error | PubSign

type_synonym 'b sink = "'b \<Rightarrow> string \<Rightarrow> string \<Rightarrow> os_error option \<times> 'b"

definition activeHashTypes :: "string list \<Rightarrow> string list" where
  "activeHashTypes types = (if types = [] then [''sha256''] else types)"

definition hashTypesForHashing :: "string list \<Rightarrow> string list" where
  "hashTypesForHashing configured =
     (let types = activeHashTypes configured in if ''sha256'' \<in> set types then types else types @ [''sha256''])"

definition byHashPath :: "string \<Rightarrow> string \<Rightarrow> string" where
  "byHashPath rel sha256 = path_join [path_dir rel, ''by-hash'', ''SHA256'', sha256]"

definition hashBytes :: "publish_env \<Rightarrow> string list \<Rightarrow> string \<Rightarrow> hashedFile" where
  "hashBytes env types data =
     \<lparr>hf_rel = [], hf_size = int (length data),
      hf_sha256 = (if ''sha256'' \<in> set types then pe_sha256 env data else []),
      hf_sha512 = (if ''sha512'' \<in> set types then pe_sha512 env data else []),
      hf_sha1 = (if ''sha1'' \<in> set types then pe_sha1 env data else []),
      hf_md5sum = (if ''md5sum'' \<in> set types then pe_md5 env data else [])\<rparr>"

definition variants :: "publish_env \<Rightarrow> Compression \<Rightarrow> (string \<times> (string \<Rightarrow> string option)) list" where
  "variants env c =
     (if cm_Plain c then [([], Some)] else []) @
     (if cm_XZ c then [(''.xz'', pe_xz env)] else []) @
     (if cm_GZip c > 0 then [(''.gz'', pe_gzip env (cm_GZip c))] else []) @
     (if cm_ZStd c > 0 then [(''.zst'', pe_zstd env (cm_ZStd c))] else [])"

text \<open>What \<open>streamStanzas\<close> sends to the hashers and encoders.\<close>

definition stanza_text :: "string list \<Rightarrow> string" where
  "stanza_text stanzas =
     join [NL] stanzas @ (if stanzas \<noteq> [] \<and> (last stanzas = [] \<or> last (last stanzas) \<noteq> NL) then [NL] else [])"

fun encode_all :: "string \<Rightarrow> (string \<times> (string \<Rightarrow> string option)) list \<Rightarrow> (string \<times> string) list option" where
  "encode_all text [] = Some []"
| "encode_all text ((suffix, enc) # vs) =
     (case enc text of
        None \<Rightarrow> None
      | Some data \<Rightarrow> map_option (\<lambda>r. (suffix, data) # r) (encode_all text vs))"

text \<open>One index: its plain digest line and the encoded files with theirs.\<close>

definition index_job :: "publish_env \<Rightarrow> SuiteInput \<Rightarrow> string \<Rightarrow> string list \<Rightarrow> (hashedFile \<times> (string \<times> hashedFile) list) option" where
  "index_job env inp rel stanzas =
     (let hashTypes = hashTypesForHashing (in_HashTypes inp); text = stanza_text stanzas
      in case encode_all text (variants env (in_Compression inp)) of
           None \<Rightarrow> None
         | Some encoded \<Rightarrow>
             Some ((hashBytes env hashTypes text)\<lparr>hf_rel := rel\<rparr>,
                   map (\<lambda>(suffix, data). (data, (hashBytes env hashTypes data)\<lparr>hf_rel := rel @ suffix\<rparr>)) encoded))"

fun write_variants :: "'b sink \<Rightarrow> string \<Rightarrow> bool \<Rightarrow> (string \<times> hashedFile) list \<Rightarrow> hashedFile list \<Rightarrow> 'b \<Rightarrow>
    publish_error option \<times> hashedFile list \<times> 'b" where
  "write_variants sink distRoot skip [] files b = (None, files, b)"
| "write_variants sink distRoot skip ((data, hf) # cfs) files b =
     (case sink b (path_join [distRoot, hf_rel hf]) data of
        (Some e, b1) \<Rightarrow> (Some (PubSink e), files, b1)
      | (None, b1) \<Rightarrow>
          if hf_sha256 hf \<noteq> [] \<and> \<not> skip
          then (case sink b1 (path_join [distRoot, byHashPath (hf_rel hf) (hf_sha256 hf)]) data of
                  (Some e, b2) \<Rightarrow> (Some (PubSink e), files @ [hf], b2)
                | (None, b2) \<Rightarrow> write_variants sink distRoot skip cfs (files @ [hf]) b2)
          else write_variants sink distRoot skip cfs (files @ [hf]) b1)"

fun write_indexes :: "publish_env \<Rightarrow> 'b sink \<Rightarrow> string \<Rightarrow> SuiteInput \<Rightarrow> (string \<times> string list) list \<Rightarrow> hashedFile list \<Rightarrow> 'b \<Rightarrow>
    publish_error option \<times> hashedFile list \<times> 'b" where
  "write_indexes env sink distRoot inp [] files b = (None, files, b)"
| "write_indexes env sink distRoot inp ((rel, stanzas) # jobs) files b =
     (case index_job env inp rel stanzas of
        None \<Rightarrow> (Some PubEncode, files, b)
      | Some (plain, cfs) \<Rightarrow>
          (case write_variants sink distRoot (in_SkipByHash inp) cfs
                  (if cm_Plain (in_Compression inp) then files else files @ [plain]) b of
             (Some e, files1, b1) \<Rightarrow> (Some e, files1, b1)
           | (None, files1, b1) \<Rightarrow> write_indexes env sink distRoot inp jobs files1 b1))"

definition combos :: "SuiteInput \<Rightarrow> (string \<times> string) list" where
  "combos inp = concat (map (\<lambda>comp. map (Pair comp) (sort (in_Architectures inp))) (sort (in_Components inp)))"

definition binary_jobs :: "SuiteInput \<Rightarrow> (string \<times> string list) list" where
  "binary_jobs inp = map (\<lambda>(comp, arch). (comp @ ''/binary-'' @ arch @ ''/Packages'', in_Stanzas inp comp arch)) (combos inp)"

definition sources_jobs :: "SuiteInput \<Rightarrow> (string \<times> string list) list" where
  "sources_jobs inp =
     map (\<lambda>(comp, stanzas). (comp @ ''/source/Sources'', stanzas)) (filter (\<lambda>(_, stanzas). stanzas \<noteq> []) (in_SourceStanzas inp))"

text \<open>The Release file.\<close>

definition set_nonempty :: "string \<Rightarrow> string \<Rightarrow> Paragraph \<Rightarrow> Paragraph" where
  "set_nonempty k v p = (if v \<noteq> [] then Set p k v else p)"

definition section_text :: "(hashedFile \<Rightarrow> string) \<Rightarrow> hashedFile list \<Rightarrow> string" where
  "section_text get files =
     concat (map (\<lambda>f. if get f = [] then [] else [NL] @ '' '' @ get f @ '' '' @ format_int (hf_size f) @ '' '' @ hf_rel f) files)"

definition hash_sections :: "(string \<times> string \<times> (hashedFile \<Rightarrow> string)) list" where
  "hash_sections = [(''md5sum'', ''MD5Sum'', hf_md5sum), (''sha1'', ''SHA1'', hf_sha1), (''sha256'', ''SHA256'', hf_sha256),
     (''sha512'', ''SHA512'', hf_sha512)]"

definition add_section :: "string list \<Rightarrow> hashedFile list \<Rightarrow> Paragraph \<Rightarrow> string \<times> string \<times> (hashedFile \<Rightarrow> string) \<Rightarrow> Paragraph" where
  "add_section enabled files p sect =
     (case sect of (key, field, get) \<Rightarrow>
        if key \<notin> set enabled \<or> section_text get files = [] then p
        else Set p field (trim_prefix (section_text get files) [NL]))"

definition release_para :: "publish_env \<Rightarrow> SuiteInput \<Rightarrow> hashedFile list \<Rightarrow> Paragraph" where
  "release_para env inp files =
     (let p = set_nonempty ''Label'' (in_Label inp) (set_nonempty ''Origin'' (in_Origin inp) NewParagraph);
          p = Set p ''Suite'' (if in_Suite inp = [] then in_Codename inp else in_Suite inp);
          p = Set p ''Codename'' (in_Codename inp);
          p = Set p ''Date'' (pe_fmtDate env (case in_Date inp of None \<Rightarrow> pe_now env | Some t \<Rightarrow> t));
          p = Set p ''Architectures'' (join '' '' (in_Architectures inp));
          p = Set p ''Components'' (join '' '' (in_Components inp));
          p = set_nonempty ''Description'' (in_Description inp) p;
          p = Set p ''Acquire-By-Hash'' ''yes''
      in foldl (add_section (activeHashTypes (in_HashTypes inp)) (sort_key hf_rel files)) p hash_sections)"

definition buildRelease :: "publish_env \<Rightarrow> SuiteInput \<Rightarrow> hashedFile list \<Rightarrow> string" where
  "buildRelease env inp files = StanzaString (release_para env inp files)"

text \<open>Writing a list of files until the first error.\<close>

fun write_all :: "'b sink \<Rightarrow> (string \<times> string) list \<Rightarrow> 'b \<Rightarrow> publish_error option \<times> 'b" where
  "write_all sink [] b = (None, b)"
| "write_all sink ((p, data) # ws) b =
     (case sink b p data of (Some e, b1) \<Rightarrow> (Some (PubSink e), b1) | (None, b1) \<Rightarrow> write_all sink ws b1)"

definition write_release :: "publish_env \<Rightarrow> 'b sink \<Rightarrow> string \<Rightarrow> string \<Rightarrow> 'b \<Rightarrow> publish_error option \<times> 'b" where
  "write_release env sink distRoot release b =
     (case write_all sink [(path_join [distRoot, ''Release''], release)] b of
        (Some e, b1) \<Rightarrow> (Some e, b1)
      | (None, b1) \<Rightarrow>
          (case pe_key env of
             None \<Rightarrow> (None, b1)
           | Some (SignInline, SignDetached) \<Rightarrow>
               (case (SignInline release, SignDetached release) of
                  (Some inRelease, Some releaseGpg) \<Rightarrow>
                    write_all sink [(path_join [distRoot, ''InRelease''], inRelease), (path_join [distRoot, ''Release.gpg''], releaseGpg)] b1
                | _ \<Rightarrow> (Some PubSign, b1))))"

definition GenerateSuite :: "publish_env \<Rightarrow> 'b sink \<Rightarrow> string \<Rightarrow> SuiteInput \<Rightarrow> 'b \<Rightarrow> publish_error option \<times> 'b" where
  "GenerateSuite env sink prefix inp b =
     (let distRoot = path_join [prefix, ''dists'', in_Codename inp]
      in case write_indexes env sink distRoot inp (binary_jobs inp @ sources_jobs inp) [] b of
           (Some e, _, b1) \<Rightarrow> (Some e, b1)
         | (None, files, b1) \<Rightarrow> write_release env sink distRoot (buildRelease env inp files) b1)"


section \<open>The Release file lists what was hashed\<close>

lemma nat_digits_ok: "nat_digits n \<noteq> [] \<and> list_all is_digit (nat_digits n) \<and> digits_val (nat_digits n) = int n"
proof (induction n rule: nat_digits.induct)
  case (1 n)
  have d: "is_digit (char_of (48 + k)) \<and> digits_val [char_of (48 + k)] = int k" if "k < 10" for k :: nat
    using that by (auto simp: is_digit_def digits_val_def byte_val_def less_eq_char_def)
  show ?case
  proof (cases "n < 10")
    case True
    then show ?thesis using d[OF True] by (simp add: nat_digits.simps[of n])
  next
    case False
    have "digits_val (xs @ [c]) = 10 * digits_val xs + digits_val [c]" for xs c by (simp add: digits_val_def)
    moreover have "10 * int (n div 10) + int (n mod 10) = int n" by presburger
    ultimately show ?thesis using 1[OF False] d[of "n mod 10"] False by (simp add: nat_digits.simps[of n])
  qed
qed


lemma digit_not_space: "is_digit c \<Longrightarrow> \<not> is_space c"
  by (auto simp: is_digit_def is_space_def less_eq_char_def)

lemma format_int_ok:
  assumes "0 \<le> n" "n < 2 ^ 63"
  shows "format_int n \<noteq> []" "list_all (\<lambda>c. \<not> is_space c) (format_int n)" "parse_int (format_int n) = Some n"
proof -
  have f: "format_int n = nat_digits (nat n)" using assms by (simp add: format_int_def)
  note d = nat_digits_ok[of "nat n"]
  show "format_int n \<noteq> []" "list_all (\<lambda>c. \<not> is_space c) (format_int n)"
    using d by (auto simp: f list_all_iff digit_not_space)
  have "\<not> has_prefix (nat_digits (nat n)) ''-''" "\<not> has_prefix (nat_digits (nat n)) ''+''"
    using d by (cases "nat_digits (nat n)"; auto simp: has_prefix_def is_digit_def less_eq_char_def)+
  then show "parse_int (format_int n) = Some n" using d assms by (simp add: f parse_int_def Let_def)
qed

lemma str_fields_blank [simp]: "str_fields [] = []" "str_fields (CHR '' '' # s) = str_fields s"
proof -
  show "str_fields [] = []" by (simp add: str_fields.simps)
  have "dropWhile is_space (CHR '' '' # s) = dropWhile is_space s" by (simp add: is_space_def)
  then show "str_fields (CHR '' '' # s) = str_fields s" by (simp add: str_fields.simps[of "CHR '' '' # s"] str_fields.simps[of s])
qed

definition is_word :: "string \<Rightarrow> bool" where
  "is_word w \<longleftrightarrow> w \<noteq> [] \<and> list_all (\<lambda>c. \<not> is_space c) w"

lemma str_fields_word:
  assumes "is_word w" "r = [] \<or> is_space (hd r)"
  shows "str_fields (w @ r) = w # str_fields r"
proof -
  have w: "dropWhile is_space (w @ r) = w @ r" "w \<noteq> []" "\<forall>c\<in>set w. \<not> is_space c"
    using assms(1) by (cases w; auto simp: is_word_def list_all_iff)+
  then have "takeWhile (\<lambda>c. \<not> is_space c) (w @ r) = w" "dropWhile (\<lambda>c. \<not> is_space c) (w @ r) = r"
    using assms(2) by (cases r; auto simp: takeWhile_append dropWhile_append)+
  then show ?thesis using w by (simp add: str_fields.simps[of "w @ r"])
qed

lemma trim_space_words:
  assumes "is_word a" "is_word c"
  shows "trim_space (CHR '' '' # a @ m @ c) = a @ m @ c" "trim_space (a @ m @ c) = a @ m @ c"
proof -
  have "\<not> is_space (hd a)" "a \<noteq> []" "\<not> is_space (last c)" "c \<noteq> []" using assms by (auto simp: is_word_def list_all_iff)
  then show "trim_space (a @ m @ c) = a @ m @ c" unfolding trim_space_def by (intro trim_id) auto
  then show "trim_space (CHR '' '' # a @ m @ c) = a @ m @ c" by (simp add: trim_space_cons_space is_space_def)
qed

lemma hash_row_line:
  assumes "is_word h" "is_word f" "0 \<le> n" "n < 2 ^ 63"
  shows "hash_row (CHR '' '' # h @ '' '' @ format_int n @ '' '' @ f) = Some (h, n, f)"
    "hash_row (h @ '' '' @ format_int n @ '' '' @ f) = Some (h, n, f)"
proof -
  let ?l = "h @ '' '' @ format_int n @ '' '' @ f"
  have t: "trim_space (CHR '' '' # ?l) = ?l" "trim_space ?l = ?l"
    using trim_space_words[OF assms(1,2), of "'' '' @ format_int n @ '' ''"] by simp_all
  have n: "is_word (format_int n)" "parse_int (format_int n) = Some n" using format_int_ok[OF assms(3,4)] by (auto simp: is_word_def)
  have "str_fields ?l = [h, format_int n, f]"
    using str_fields_word[OF assms(1), of "'' '' @ format_int n @ '' '' @ f"] str_fields_word[OF n(1), of "'' '' @ f"]
      str_fields_word[OF assms(2), of "[]"] by (simp add: is_space_def)
  moreover have "?l \<noteq> []" by simp
  ultimately show "hash_row (CHR '' '' # ?l) = Some (h, n, f)" "hash_row ?l = Some (h, n, f)"
    using t n by (simp_all add: hash_row_def)
qed


text \<open>A digest section reads back as the rows it was written from.\<close>

definition file_ok :: "hashedFile \<Rightarrow> bool" where
  "file_ok f \<longleftrightarrow> is_word (hf_rel f) \<and> 0 \<le> hf_size f \<and> hf_size f < 2 ^ 63"

lemma word_no_NL: "is_word w \<Longrightarrow> NL \<notin> set w"
  by (auto simp: is_word_def list_all_iff is_space_def)

lemma section_rows:
  assumes "list_all file_ok files" "\<And>f. f \<in> set files \<Longrightarrow> get f \<noteq> [] \<Longrightarrow> is_word (get f)" "section_text get files \<noteq> []"
  shows "hash_rows (reread (\<lambda>v. v) (trim_prefix (section_text get files) [NL])) =
    map (\<lambda>f. (get f, hf_size f, hf_rel f)) (filter (\<lambda>f. get f \<noteq> []) files)"
proof -
  let ?rows = "filter (\<lambda>f. get f \<noteq> []) files"
  let ?line = "\<lambda>f. get f @ '' '' @ format_int (hf_size f) @ '' '' @ hf_rel f"
  let ?lines = "map (\<lambda>f. CHR '' '' # ?line f) ?rows"
  have ok: "is_word (get f)" "is_word (hf_rel f)" "0 \<le> hf_size f" "hf_size f < 2 ^ 63" if "f \<in> set ?rows" for f
    using that assms(1,2) by (auto simp: list_all_iff file_ok_def)
  have st: "section_text get files = concat (map (\<lambda>l. NL # l) ?lines)"
    unfolding section_text_def by (induction files) auto
  have ne: "?rows \<noteq> []"
  proof
    assume "?rows = []"
    then have "section_text get files = []" unfolding st by (simp only: list.map concat.simps)
    then show False using assms(3) by simp
  qed
  have "section_text get files = NL # join [NL] ?lines"
    unfolding st by (rule concat_NL_join) (use ne in simp)
  then have v: "trim_prefix (section_text get files) [NL] = join [NL] ?lines" by (simp add: trim_prefix_def has_prefix_def)
  have nl: "NL \<notin> set (CHR '' '' # ?line f)" if "f \<in> set ?rows" for f
    using ok[OF that] word_no_NL format_int_ok[OF ok(3,4)[OF that]] by (auto simp: is_word_def)
  have row: "hash_row (CHR '' '' # ?line f) = Some (get f, hf_size f, hf_rel f)"
      "hash_row (?line f) = Some (get f, hf_size f, hf_rel f)" if "f \<in> set ?rows" for f
    using hash_row_line ok[OF that] by auto
  have rows: "List.map_filter hash_row ?lines = map (\<lambda>f. (get f, hf_size f, hf_rel f)) ?rows"
    using row(1) by (simp add: List.map_filter_def comp_def)
  show ?thesis
  proof (cases "NL \<in> set (join [NL] ?lines)")
    case True
    have "split_on NL (join [NL] ?lines) = ?lines" by (rule split_on_join) (use ne nl in auto)
    then show ?thesis using True rows
      by (simp add: v reread_def hash_rows_def List.map_filter_simps hash_row_def)
  next
    case False
    then obtain f where f: "?rows = [f]" using ne by (cases ?rows rule: remdups_adj.cases) auto
    then have m: "f \<in> set ?rows" by simp
    have "trim_space (CHR '' '' # ?line f) = ?line f"
      using trim_space_words(1)[OF ok(1,2)[OF m], of "'' '' @ format_int (hf_size f) @ '' ''"] by simp
    moreover have "split_on NL (?line f) = [?line f]" using nl[OF m] by (intro split_on_no_sep) simp
    ultimately show ?thesis using False row(2)[OF m] f
      by (simp add: v reread_def hash_rows_def List.map_filter_simps)
  qed
qed


lemma lower_fields [simp]:
  "to_lower ''Label'' = ''label''" "to_lower ''Origin'' = ''origin''" "to_lower ''Suite'' = ''suite''" "to_lower ''Codename'' = ''codename''"
  "to_lower ''Date'' = ''date''" "to_lower ''Architectures'' = ''architectures''" "to_lower ''Components'' = ''components''"
  "to_lower ''Description'' = ''description''" "to_lower ''Acquire-By-Hash'' = ''acquire-by-hash''" "to_lower ''MD5Sum'' = ''md5sum''"
  "to_lower ''SHA1'' = ''sha1''" "to_lower ''SHA256'' = ''sha256''" "to_lower ''SHA512'' = ''sha512''"
  "to_lower ''sha256'' = ''sha256''" "to_lower ''sha512'' = ''sha512''"
  by code_simp+

lemma release_para_ok: "para_ok (release_para env inp files)" "pkeys (release_para env inp files) \<noteq> []"
proof -
  have sec: "para_ok p \<and> pkeys p \<noteq> [] \<Longrightarrow> para_ok (add_section en fs p sect) \<and> pkeys (add_section en fs p sect) \<noteq> []" for en fs p sect
    using Set_adds_key by (auto simp: add_section_def split: prod.splits)
  have "para_ok p \<and> pkeys p \<noteq> [] \<Longrightarrow>
      para_ok (foldl (add_section en fs) p sects) \<and> pkeys (foldl (add_section en fs) p sects) \<noteq> []" for en fs p sects
    by (induction sects arbitrary: p) (simp_all add: sec)
  moreover have "para_ok p \<Longrightarrow> para_ok (set_nonempty k v p)" for k v p by (simp add: set_nonempty_def)
  ultimately show "para_ok (release_para env inp files)" "pkeys (release_para env inp files) \<noteq> []"
    unfolding release_para_def Let_def by (simp_all add: Set_adds_key)
qed

lemma add_section_lookup:
  "pvalues (add_section en fs p (key, field, get)) lk =
     (if lk = to_lower field \<and> key \<in> set en \<and> section_text get fs \<noteq> [] then Some (trim_prefix (section_text get fs) [NL]) else pvalues p lk)"
  by (simp add: add_section_def Set_lookup)

lemma set_nonempty_lookup: "pvalues (set_nonempty k v p) lk = (if lk = to_lower k \<and> v \<noteq> [] then Some v else pvalues p lk)"
  by (simp add: set_nonempty_def Set_lookup)

lemma release_section:
  "pvalues (release_para env inp files) ''sha256'' =
     (if ''sha256'' \<in> set (activeHashTypes (in_HashTypes inp)) \<and> section_text hf_sha256 (sort_key hf_rel files) \<noteq> []
      then Some (trim_prefix (section_text hf_sha256 (sort_key hf_rel files)) [NL]) else None)"
  "pvalues (release_para env inp files) ''sha512'' =
     (if ''sha512'' \<in> set (activeHashTypes (in_HashTypes inp)) \<and> section_text hf_sha512 (sort_key hf_rel files) \<noteq> []
      then Some (trim_prefix (section_text hf_sha512 (sort_key hf_rel files)) [NL]) else None)"
  unfolding release_para_def Let_def hash_sections_def foldl.simps
  by (simp_all add: add_section_lookup set_nonempty_lookup Set_lookup NewParagraph_def)

text \<open>The values a Release file may hold: no carriage return, and within the parser's limit.\<close>

definition release_fits :: "publish_env \<Rightarrow> SuiteInput \<Rightarrow> hashedFile list \<Rightarrow> bool" where
  "release_fits env inp files \<longleftrightarrow> list_all (\<lambda>(k, v). CR \<notin> set v \<and> length k + length v + 3 < max_index_token)
     (paragraphFields (release_para env inp files))"

lemma release_keys:
  "set (pkeys (release_para env inp files)) \<subseteq> {''Label'', ''Origin'', ''Suite'', ''Codename'', ''Date'', ''Architectures'', ''Components'',
     ''Description'', ''Acquire-By-Hash'', ''MD5Sum'', ''SHA1'', ''SHA256'', ''SHA512''}"
proof -
  have "set (pkeys (Set p k v)) \<subseteq> insert k (set (pkeys p))" for p k v by (auto simp: Set_def Let_def)
  then have "set (pkeys p) \<subseteq> K \<Longrightarrow> k \<in> K \<Longrightarrow> set (pkeys (Set p k v)) \<subseteq> K" for p k v K by blast
  then show ?thesis unfolding release_para_def Let_def hash_sections_def foldl.simps add_section_def set_nonempty_def prod.case
    by (simp add: NewParagraph_def)
qed

lemma release_canonical:
  assumes "release_fits env inp files"
  shows "para_canonical (release_para env inp files)"
proof -
  have names: "list_all (\<lambda>k. k \<noteq> [] \<and> trim_space k = k \<and> CHR '':'' \<notin> set k \<and> NL \<notin> set k \<and> CR \<notin> set k)
      [''Label'', ''Origin'', ''Suite'', ''Codename'', ''Date'', ''Architectures'', ''Components'',
       ''Description'', ''Acquire-By-Hash'', ''MD5Sum'', ''SHA1'', ''SHA256'', ''SHA512'']" by code_simp
  have "field_ok (k, v)" if kv: "(k, v) \<in> set (paragraphFields (release_para env inp files))" for k v
  proof -
    have "k \<in> set (pkeys (release_para env inp files))" using kv by (auto simp: paragraphFields_def dest: set_zip_leftD)
    then have "k \<noteq> [] \<and> trim_space k = k \<and> CHR '':'' \<notin> set k \<and> NL \<notin> set k \<and> CR \<notin> set k"
      using release_keys[of env inp files] names unfolding list_all_iff by auto
    then show ?thesis using assms kv by (auto simp: field_ok_def release_fits_def list_all_iff)
  qed
  then show ?thesis using release_para_ok by (auto simp: para_canonical_def list_all_iff)
qed


lemma last_row_files:
  assumes "distinct (map hf_rel files)" "f \<in> set files"
  shows "last_row (map (\<lambda>f. (get f, hf_size f, hf_rel f)) (filter (\<lambda>f. get f \<noteq> []) (sort_key hf_rel files))) (hf_rel f) =
    (if get f \<noteq> [] then Some (get f, hf_size f) else None)"
proof -
  let ?rows = "rev (map (\<lambda>f. (hf_rel f, get f, hf_size f)) (filter (\<lambda>f. get f \<noteq> []) (sort_key hf_rel files)))"
  have ds: "distinct (map hf_rel (sort_key hf_rel files))" using assms(1) by (simp add: distinct_map)
  then have d: "distinct (map fst ?rows)" by (simp add: rev_map[symmetric] comp_def distinct_map_filter)
  have inj: "g = f" if "g \<in> set files" "hf_rel g = hf_rel f" for g
    using assms that by (simp add: distinct_map inj_on_def)
  have eq: "last_row (map (\<lambda>f. (get f, hf_size f, hf_rel f)) (filter (\<lambda>f. get f \<noteq> []) (sort_key hf_rel files))) (hf_rel f) = map_of ?rows (hf_rel f)"
    by (simp add: last_row_def comp_def)
  show ?thesis
  proof (cases "get f = []")
    case True
    have "hf_rel f \<notin> fst ` set ?rows" using inj True by auto
    then show ?thesis unfolding eq using True by (simp add: map_of_eq_None_iff)
  next
    case False
    have "(hf_rel f, get f, hf_size f) \<in> set ?rows" using assms(2) False by auto
    from map_of_is_SomeI[OF d this] show ?thesis unfolding eq using False by simp
  qed
qed

lemma section_empty: "section_text get files = [] \<Longrightarrow> filter (\<lambda>f. get f \<noteq> []) files = []"
proof -
  assume e: "section_text get files = []"
  have "get f = []" if "f \<in> set files" for f
  proof (rule ccontr)
    assume g: "get f \<noteq> []"
    have "(if get f = [] then [] else [NL] @ '' '' @ get f @ '' '' @ format_int (hf_size f) @ '' '' @ hf_rel f) = []"
      using e that unfolding section_text_def concat_eq_Nil_conv set_map by blast
    then show False unfolding if_not_P[OF g] by simp
  qed
  then show ?thesis by (simp add: filter_empty_conv)
qed

lemma release_rows:
  assumes "list_all file_ok files" "\<And>f. f \<in> set files \<Longrightarrow> get f \<noteq> [] \<Longrightarrow> is_word (get f)"
    and "(lk, get) \<in> {(''sha256'', hf_sha256), (''sha512'', hf_sha512)}"
  shows "hash_rows (Get (map_values (reread (\<lambda>v. v)) (release_para env inp files)) lk) =
    (if lk \<in> set (activeHashTypes (in_HashTypes inp))
     then map (\<lambda>f. (get f, hf_size f, hf_rel f)) (filter (\<lambda>f. get f \<noteq> []) (sort_key hf_rel files)) else [])"
proof -
  let ?t = "section_text get (sort_key hf_rel files)"
  have lk: "to_lower lk = lk" using assms(3) by auto
  have p: "pvalues (release_para env inp files) lk =
      (if lk \<in> set (activeHashTypes (in_HashTypes inp)) \<and> ?t \<noteq> [] then Some (trim_prefix ?t [NL]) else None)"
  proof -
    from assms(3) consider "lk = ''sha256''" "get = hf_sha256" | "lk = ''sha512''" "get = hf_sha512" by auto
    then show ?thesis by cases (simp_all only: release_section)
  qed
  have empty: "hash_rows [] = []" by (simp add: hash_rows_def List.map_filter_simps hash_row_def)
  have none: "filter (\<lambda>f. get f \<noteq> []) (sort_key hf_rel files) = []" if "?t = []"
    by (rule section_empty[OF that])
  have rows: "hash_rows (reread (\<lambda>v. v) (trim_prefix ?t [NL])) =
      map (\<lambda>f. (get f, hf_size f, hf_rel f)) (filter (\<lambda>f. get f \<noteq> []) (sort_key hf_rel files))" if "?t \<noteq> []"
    by (rule section_rows) (use assms(1,2) that in \<open>auto simp: list_all_iff\<close>)
  show ?thesis
  proof (cases "lk \<in> set (activeHashTypes (in_HashTypes inp)) \<and> ?t \<noteq> []")
    case True
    then show ?thesis using rows by (simp add: Get_def map_values_def lk p)
  next
    case False
    then have "pvalues (release_para env inp files) lk = None" unfolding p by (rule if_not_P)
    then have "Get (map_values (reread (\<lambda>v. v)) (release_para env inp files)) lk = []" by (simp add: Get_def map_values_def lk)
    then show ?thesis using False none by (auto simp: empty)
  qed
qed

lemma release_lists:
  assumes "release_fits env inp files" "list_all file_ok files" "distinct (map hf_rel files)"
    and "\<And>f. f \<in> set files \<Longrightarrow> hf_sha256 f \<noteq> [] \<Longrightarrow> is_word (hf_sha256 f)" "\<And>f. f \<in> set files \<Longrightarrow> hf_sha512 f \<noteq> [] \<Longrightarrow> is_word (hf_sha512 f)"
    and "''sha256'' \<in> set (activeHashTypes (in_HashTypes inp))"
  shows "\<exists>rel. ParseRelease (buildRelease env inp files) = Inr rel \<and>
    (\<forall>f\<in>set files. hf_sha256 f \<noteq> [] \<longrightarrow> (\<exists>fe. rel_Files rel (hf_rel f) = Some fe \<and> fe_Path fe = hf_rel f \<and> fe_Size fe = hf_size f \<and> fe_SHA256 fe = hf_sha256 f))"
proof -
  let ?p = "map_values (reread (\<lambda>v. v)) (release_para env inp files)"
  have low: "Get ?p ''SHA256'' = Get ?p ''sha256''" "Get ?p ''SHA512'' = Get ?p ''sha512''"
    by (simp_all add: Get_def)
  note r256 = release_rows[OF assms(2), of hf_sha256 "''sha256''" env inp, OF assms(4)]
  note r512 = release_rows[OF assms(2), of hf_sha512 "''sha512''" env inp, OF assms(5)]
  show ?thesis
    unfolding ParseRelease_def buildRelease_def StanzaString_parses[OF release_canonical[OF assms(1)]]
    using assms(6) by (auto simp: Let_def parseHashSection_rows low r256 r512 rows512 rows256 last_row_files[OF assms(3)] zero_FileEntry_def
        last_row_def[of "[]"])
qed



section \<open>The files a suite writes\<close>

text \<open>A successful publication is a sequence of writes.\<close>

definition variant_writes :: "string \<Rightarrow> bool \<Rightarrow> (string \<times> hashedFile) list \<Rightarrow> (string \<times> string) list" where
  "variant_writes distRoot skip cfs = concat (map (\<lambda>(data, hf).
     (path_join [distRoot, hf_rel hf], data) #
     (if hf_sha256 hf \<noteq> [] \<and> \<not> skip then [(path_join [distRoot, byHashPath (hf_rel hf) (hf_sha256 hf)], data)] else [])) cfs)"

lemma write_all_append:
  "write_all sink (ws @ vs) b = (case write_all sink ws b of (Some e, b1) \<Rightarrow> (Some e, b1) | (None, b1) \<Rightarrow> write_all sink vs b1)"
  by (induction ws arbitrary: b) (auto split: prod.splits option.splits)

lemma write_variants_all:
  "write_variants sink distRoot skip cfs files b = (None, files', b') \<Longrightarrow>
     write_all sink (variant_writes distRoot skip cfs) b = (None, b') \<and> files' = files @ map snd cfs"
proof (induction cfs arbitrary: files b)
  case (Cons cf cfs)
  obtain data hf where cf: "cf = (data, hf)" by fastforce
  show ?case
    using Cons.prems Cons.IH[of "files @ [hf]"] unfolding cf
    by (auto simp: variant_writes_def split: prod.splits option.splits if_splits)
qed (simp add: variant_writes_def)

definition index_files :: "publish_env \<Rightarrow> SuiteInput \<Rightarrow> (string \<times> string list) list \<Rightarrow> hashedFile list" where
  "index_files env inp jobs = concat (map (\<lambda>(rel, stanzas). case index_job env inp rel stanzas of
     None \<Rightarrow> [] | Some (plain, cfs) \<Rightarrow> (if cm_Plain (in_Compression inp) then [] else [plain]) @ map snd cfs) jobs)"

definition index_writes :: "publish_env \<Rightarrow> string \<Rightarrow> SuiteInput \<Rightarrow> (string \<times> string list) list \<Rightarrow> (string \<times> string) list" where
  "index_writes env distRoot inp jobs = concat (map (\<lambda>(rel, stanzas). case index_job env inp rel stanzas of
     None \<Rightarrow> [] | Some (_, cfs) \<Rightarrow> variant_writes distRoot (in_SkipByHash inp) cfs) jobs)"

lemma write_indexes_all:
  "write_indexes env sink distRoot inp jobs files b = (None, files', b') \<Longrightarrow>
     write_all sink (index_writes env distRoot inp jobs) b = (None, b') \<and> files' = files @ index_files env inp jobs \<and>
     (\<forall>(rel, stanzas)\<in>set jobs. index_job env inp rel stanzas \<noteq> None)"
proof (induction jobs arbitrary: files b)
  case (Cons job jobs)
  obtain rel stanzas where job: "job = (rel, stanzas)" by fastforce
  obtain plain cfs where j: "index_job env inp rel stanzas = Some (plain, cfs)"
    using Cons.prems by (auto simp: job split: option.splits)
  let ?files = "if cm_Plain (in_Compression inp) then files else files @ [plain]"
  obtain files1 b1 where w: "write_variants sink distRoot (in_SkipByHash inp) cfs ?files b = (None, files1, b1)"
      "write_indexes env sink distRoot inp jobs files1 b1 = (None, files', b')"
    using Cons.prems by (auto simp: job j split: prod.splits option.splits)
  from write_variants_all[OF w(1)] Cons.IH[OF w(2)] j show ?case
    by (auto simp: job index_files_def index_writes_def write_all_append)
qed (simp add: index_files_def index_writes_def)

definition release_writes :: "publish_env \<Rightarrow> string \<Rightarrow> string \<Rightarrow> (string \<times> string) list" where
  "release_writes env distRoot release = (path_join [distRoot, ''Release''], release) #
     (case pe_key env of None \<Rightarrow> [] | Some (inl, det) \<Rightarrow>
        [(path_join [distRoot, ''InRelease''], the (inl release)), (path_join [distRoot, ''Release.gpg''], the (det release))])"

lemma write_release_all:
  "write_release env sink distRoot release b = (None, b') \<Longrightarrow> write_all sink (release_writes env distRoot release) b = (None, b')"
  unfolding write_release_def release_writes_def by (auto split: prod.splits option.splits)

lemma GenerateSuite_writes:
  assumes "GenerateSuite env sink prefix inp b = (None, b')"
  defines "distRoot \<equiv> path_join [prefix, ''dists'', in_Codename inp]" and "jobs \<equiv> binary_jobs inp @ sources_jobs inp"
  shows "write_all sink (index_writes env distRoot inp jobs @ release_writes env distRoot (buildRelease env inp (index_files env inp jobs))) b = (None, b')"
    "\<forall>(rel, stanzas)\<in>set jobs. index_job env inp rel stanzas \<noteq> None"
proof -
  obtain files b1 where w: "write_indexes env sink distRoot inp jobs [] b = (None, files, b1)"
      "write_release env sink distRoot (buildRelease env inp files) b1 = (None, b')"
    using assms(1) unfolding GenerateSuite_def Let_def distRoot_def jobs_def by (auto split: prod.splits option.splits)
  from write_indexes_all[OF w(1)] write_release_all[OF w(2)] show
    "write_all sink (index_writes env distRoot inp jobs @ release_writes env distRoot (buildRelease env inp (index_files env inp jobs))) b = (None, b')"
    "\<forall>(rel, stanzas)\<in>set jobs. index_job env inp rel stanzas \<noteq> None"
    by (auto simp: write_all_append)
qed


subsection \<open>A sink keeps what was written last\<close>

locale file_sink =
  fixes wr :: "'b sink" and content :: "'b \<Rightarrow> string \<Rightarrow> string option" and key :: "string \<Rightarrow> bool"
  assumes write_ok: "key p \<Longrightarrow> wr b p d = (None, b') \<Longrightarrow> content b' p = Some d"
    and write_other: "key p \<Longrightarrow> key q \<Longrightarrow> q \<noteq> p \<Longrightarrow> wr b p d = (r, b') \<Longrightarrow> content b' q = content b q"
begin

lemma write_all_content:
  "write_all wr ws b = (None, b') \<Longrightarrow> list_all (\<lambda>(p, _). key p) ws \<Longrightarrow> key q \<Longrightarrow>
     content b' q = (case map_of (rev ws) q of None \<Rightarrow> content b q | Some d \<Rightarrow> Some d)"
proof (induction ws arbitrary: b)
  case (Cons w ws)
  obtain p d where w: "w = (p, d)" by fastforce
  obtain b1 where b1: "wr b p d = (None, b1)" "write_all wr ws b1 = (None, b')"
    using Cons.prems(1) by (auto simp: w split: prod.splits option.splits)
  have k: "key p" "list_all (\<lambda>(p, _). key p) ws" using Cons.prems(2) by (auto simp: w)
  have "content b1 q = (if q = p then Some d else content b q)"
    using write_ok[OF k(1) b1(1)] write_other[OF k(1) Cons.prems(3) _ b1(1)] by simp
  then show ?case using Cons.IH[OF b1(2) k(2) Cons.prems(3)] by (auto simp: w map_add_def split: option.splits)
qed simp

text \<open>A file all of whose writes satisfy \<open>P\<close>, and that was written, satisfies \<open>P\<close>.\<close>

lemma written:
  assumes "write_all wr ws b = (None, b')" "list_all (\<lambda>(p, _). key p) ws" "(q, d) \<in> set ws"
    and "\<And>d'. (q, d') \<in> set ws \<Longrightarrow> P d'"
  shows "\<exists>d'. content b' q = Some d' \<and> P d'"
proof -
  have "key q" using assms(2,3) by (auto simp: list_all_iff)
  from write_all_content[OF assms(1,2) this] have c: "content b' q = (case map_of (rev ws) q of None \<Rightarrow> content b q | Some d \<Rightarrow> Some d)" .
  have "q \<in> fst ` set (rev ws)" using assms(3) by force
  then have "map_of (rev ws) q \<noteq> None" unfolding map_of_eq_None_iff by simp
  then obtain d' where "map_of (rev ws) q = Some d'" by blast
  then show ?thesis using c assms(4) map_of_SomeD by fastforce
qed

end



subsection \<open>The paths of a suite\<close>

lemma join_sep_append: "xs \<noteq> [] \<Longrightarrow> ys \<noteq> [] \<Longrightarrow> join sep (xs @ ys) = join sep xs @ sep @ join sep ys"
proof (induction xs)
  case (Cons x xs)
  then show ?case by (cases "xs = []") (simp_all add: join_Cons)
qed simp

lemma path_join_segs:
  assumes "xs \<noteq> []" "list_all plain_seg xs" "ys \<noteq> []" "list_all plain_seg ys"
  shows "path_join [join ''/'' xs, join ''/'' ys] = join ''/'' (xs @ ys)"
proof -
  have "join ''/'' xs \<noteq> []" "join ''/'' ys \<noteq> []" using assms join_slash_ne by (auto simp: plain_seg_def neq_Nil_conv)
  then have "path_join [join ''/'' xs, join ''/'' ys] = path_clean (join ''/'' (xs @ ys))"
    using assms by (simp add: path_join_def join_sep_append)
  also have "\<dots> = join ''/'' (xs @ ys)" by (rule path_clean_plain(1)) (use assms in auto)
  finally show ?thesis .
qed

lemma join_segs_inj:
  assumes "list_all plain_seg xs" "list_all plain_seg ys" "xs \<noteq> []" "ys \<noteq> []" "join ''/'' xs = join ''/'' ys"
  shows "xs = ys"
proof -
  have "split_on CHR ''/'' (join ''/'' zs) = zs" if "list_all plain_seg zs" "zs \<noteq> []" for zs
    using split_on_join[of zs "CHR ''/''"] that by (auto simp: list_all_iff plain_seg_def)
  then show ?thesis using assms by metis
qed

lemma join_split_segs: "p \<noteq> [] \<Longrightarrow> inside p \<Longrightarrow> list_all plain_seg (split_on CHR ''/'' p)"
  by (simp add: inside_def)

lemma canonical_join:
  assumes "segs \<noteq> []" "list_all plain_seg segs" "NUL \<notin> set (join ''/'' segs)" "\<not> is_space (hd (join ''/'' segs))" "\<not> is_space (last (join ''/'' segs))"
  shows "canonical (join ''/'' segs)"
proof -
  let ?p = "join ''/'' segs"
  have split: "split_on CHR ''/'' ?p = segs" using split_on_join[of segs "CHR ''/''"] assms(1,2) by (auto simp: list_all_iff plain_seg_def)
  have ne: "?p \<noteq> []" "hd ?p = hd (hd segs)" using join_slash_ne[of segs] assms(1,2) by (auto simp: plain_seg_def neq_Nil_conv)
  have h: "hd ?p \<noteq> CHR ''/''" using ne(2) assms(1,2) by (cases segs; cases "hd segs") (auto simp: plain_seg_def)
  have t: "trim_left (\<lambda>c. c = CHR ''/'') (trim_space ?p) = ?p"
    using assms(4,5) h trim_id[of ?p is_space] trim_left_id[of ?p "\<lambda>c. c = CHR ''/''"] by (simp add: trim_space_def)
  have c: "path_clean ?p = ?p" by (rule path_clean_plain(1)[OF assms(1,2)])
  have dots: "?p \<noteq> ''.''" "?p \<noteq> ''..''" using split assms(2) by (auto simp: plain_seg_def)
  have up: "\<not> has_prefix ?p ''../''"
  proof
    assume "has_prefix ?p ''../''"
    then obtain q where "?p = ''..'' @ CHR ''/'' # q" by (auto simp: has_prefix_iff)
    then have "''..'' \<in> set segs" using split split_on_append[of "CHR ''/''" "''..''" q] by force
    then show False using assms(2) by (auto simp: list_all_iff plain_seg_def)
  qed
  show ?thesis using assms(3) ne dots up by (simp add: canonical_def CleanRelPath_def t c Let_def)
qed

lemma byHashPath_segs:
  assumes "plain_seg c" "plain_seg d" "plain_seg n" "plain_seg h"
  shows "byHashPath (join ''/'' [c, d, n]) h = join ''/'' [c, d, ''by-hash'', ''SHA256'', h]"
proof -
  have sl: "CHR ''/'' \<notin> set c" "CHR ''/'' \<notin> set d" "CHR ''/'' \<notin> set n" using assms by (auto simp: plain_seg_def)
  have "cut_last CHR ''/'' ((c @ CHR ''/'' # d) @ CHR ''/'' # n) = Some (c @ CHR ''/'' # d, n)" by (rule cut_last_append[OF sl(3)])
  moreover have "path_clean ((c @ CHR ''/'' # d) @ ''/'') = join ''/'' [c, d]"
  proof -
    have "split_on CHR ''/'' (c @ CHR ''/'' # d @ ''/'') = [c, d, []]" using sl by (simp add: split_on_append)
    moreover have "c \<noteq> []" "hd c \<noteq> CHR ''/''" using assms(1) sl by (cases c; auto simp: plain_seg_def)+
    ultimately show ?thesis using assms by (simp add: path_clean_def plain_seg_def Let_def)
  qed
  ultimately have "path_dir (join ''/'' [c, d, n]) = join ''/'' [c, d]" by (simp add: path_dir_def)
  moreover have "path_join [join ''/'' [c, d], join ''/'' [''by-hash'', ''SHA256'', h]] = join ''/'' ([c, d] @ [''by-hash'', ''SHA256'', h])"
    by (rule path_join_segs) (use assms in \<open>auto simp: plain_seg_def\<close>)
  ultimately show ?thesis
    using assms by (simp add: byHashPath_def path_join_def plain_seg_def)
qed


text \<open>The names a suite may be made of.\<close>

definition name_ok :: "string \<Rightarrow> bool" where
  "name_ok w \<longleftrightarrow> plain_seg w \<and> is_word w \<and> NUL \<notin> set w"

definition suite_ok :: "string \<Rightarrow> SuiteInput \<Rightarrow> bool" where
  "suite_ok prefix inp \<longleftrightarrow>
     (prefix = [] \<or> inside prefix \<and> NUL \<notin> set prefix \<and> \<not> is_space (hd prefix) \<and> hd (split_on CHR ''/'' prefix) \<noteq> ''pool'') \<and>
     in_Codename inp \<noteq> [] \<and> inside (in_Codename inp) \<and> NUL \<notin> set (in_Codename inp) \<and>
     list_all name_ok (in_Components inp) \<and> distinct (in_Components inp) \<and>
     list_all name_ok (in_Architectures inp) \<and> distinct (in_Architectures inp) \<and>
     list_all (\<lambda>(c, _). name_ok c) (in_SourceStanzas inp) \<and> distinct (map fst (in_SourceStanzas inp))"

definition suite_segs :: "string \<Rightarrow> SuiteInput \<Rightarrow> string list" where
  "suite_segs prefix inp = (if prefix = [] then [] else split_on CHR ''/'' prefix) @ ''dists'' # split_on CHR ''/'' (in_Codename inp)"

lemma suite_segs_plain:
  assumes "suite_ok prefix inp"
  shows "list_all plain_seg (suite_segs prefix inp)" "path_join [prefix, ''dists'', in_Codename inp] = join ''/'' (suite_segs prefix inp)"
proof -
  let ?a = "if prefix = [] then [] else split_on CHR ''/'' prefix" and ?c = "split_on CHR ''/'' (in_Codename inp)"
  have plain: "list_all plain_seg ?a" "list_all plain_seg ?c" "list_all plain_seg [''dists'']"
    using assms by (auto simp: suite_ok_def inside_def plain_seg_def)
  then show "list_all plain_seg (suite_segs prefix inp)" by (simp add: suite_segs_def)
  then have "path_clean (join ''/'' (suite_segs prefix inp)) = join ''/'' (suite_segs prefix inp)"
    by (intro path_clean_plain(1)) (simp_all add: suite_segs_def)
  moreover have "join ''/'' (suite_segs prefix inp) = (if prefix = [] then [] else prefix @ ''/'') @ ''dists/'' @ in_Codename inp"
    by (simp add: suite_segs_def join_sep_append join_Cons)
  ultimately show "path_join [prefix, ''dists'', in_Codename inp] = join ''/'' (suite_segs prefix inp)"
    using assms by (simp add: path_join_def suite_ok_def split: if_splits)
qed

lemma name_ok_binary: "name_ok a \<Longrightarrow> name_ok (''binary-'' @ a)"
  by (auto simp: name_ok_def plain_seg_def is_word_def is_space_def list_all_iff)

lemma job_shape:
  assumes "suite_ok prefix inp" "(rel, stanzas) \<in> set (binary_jobs inp @ sources_jobs inp)"
  shows "\<exists>c d n. rel = join ''/'' [c, d, n] \<and> name_ok c \<and> name_ok d \<and> n \<in> {''Packages'', ''Sources''}"
proof -
  from assms(2) consider (bin) c a where "c \<in> set (in_Components inp)" "a \<in> set (in_Architectures inp)" "rel = c @ ''/binary-'' @ a @ ''/Packages''"
    | (src) c where "(c, stanzas) \<in> set (in_SourceStanzas inp)" "rel = c @ ''/source/Sources''"
    by (auto simp: binary_jobs_def sources_jobs_def combos_def)
  then show ?thesis
  proof cases
    case bin
    then show ?thesis using assms(1) name_ok_binary
      by (intro exI[of _ c] exI[of _ "''binary-'' @ a"] exI[of _ "''Packages''"]) (auto simp: suite_ok_def list_all_iff)
  next
    case src
    have "name_ok ''source''" by code_simp
    then show ?thesis using assms(1) src
      by (intro exI[of _ c] exI[of _ "''source''"] exI[of _ "''Sources''"]) (auto simp: suite_ok_def list_all_iff)
  qed
qed

lemma jobs_distinct:
  assumes "suite_ok prefix inp"
  shows "distinct (map fst (binary_jobs inp @ sources_jobs inp))"
proof -
  note ok = assms[unfolded suite_ok_def]
  have plain: "plain_seg c" "CHR ''/'' \<notin> set c" if "name_ok c" for c using that by (auto simp: name_ok_def plain_seg_def)
  have cb: "set (combos inp) = set (in_Components inp) \<times> set (in_Architectures inp)" by (auto simp: combos_def)
  have "combos inp = List.product (sort (in_Components inp)) (sort (in_Architectures inp))"
    by (simp add: combos_def product_concat_map)
  then have dc: "distinct (combos inp)" using ok by (simp add: distinct_product)
  have "inj_on (\<lambda>(c, a). c @ ''/binary-'' @ a @ ''/Packages'') (set (combos inp))"
  proof (rule inj_onI)
    fix x y assume xy: "x \<in> set (combos inp)" "y \<in> set (combos inp)"
      "(\<lambda>(c, a). c @ ''/binary-'' @ a @ ''/Packages'') x = (\<lambda>(c, a). c @ ''/binary-'' @ a @ ''/Packages'') y"
    obtain c a c' a' where x: "x = (c, a)" "y = (c', a')" by fastforce
    have names: "name_ok c" "name_ok a" "name_ok c'" "name_ok a'" using ok xy(1,2) by (auto simp: x cb list_all_iff)
    have "join ''/'' [c, ''binary-'' @ a, ''Packages''] = join ''/'' [c', ''binary-'' @ a', ''Packages'']" using xy(3) by (simp add: x)
    from join_segs_inj[OF _ _ _ _ this] show "x = y"
      using plain(1) names name_ok_binary by (simp add: x plain_seg_def)
  qed
  then have b: "distinct (map fst (binary_jobs inp))" using dc by (auto simp: binary_jobs_def distinct_map inj_on_def case_prod_beta)
  define names where "names = map fst (filter (\<lambda>(_, stanzas). stanzas \<noteq> []) (in_SourceStanzas inp))"
  have "distinct names" using ok by (simp add: names_def distinct_map_filter)
  moreover have "map fst (sources_jobs inp) = map (\<lambda>c. c @ ''/source/Sources'') names"
    by (simp add: sources_jobs_def names_def case_prod_beta)
  ultimately have s: "distinct (map fst (sources_jobs inp))" by (simp add: distinct_map inj_on_def)
  have "x \<noteq> y" if xb: "x \<in> set (map fst (binary_jobs inp))" and ys: "y \<in> set (map fst (sources_jobs inp))" for x y
  proof
    assume eq: "x = y"
    obtain c a where x: "c \<in> set (in_Components inp)" "a \<in> set (in_Architectures inp)" "x = join ''/'' [c, ''binary-'' @ a, ''Packages'']"
      using xb by (auto simp: binary_jobs_def cb)
    obtain c' where y: "c' \<in> fst ` set (in_SourceStanzas inp)" "y = join ''/'' [c', ''source'', ''Sources'']"
      using ys by (force simp: sources_jobs_def)
    have "name_ok c" "name_ok a" "name_ok c'" using ok x y by (auto simp: list_all_iff)
    with join_segs_inj[of "[c, ''binary-'' @ a, ''Packages'']" "[c', ''source'', ''Sources'']"] eq x(3) y(2)
    show False using plain(1) name_ok_binary by (auto simp: plain_seg_def)
  qed
  then show ?thesis using b s by (fastforce simp: disjoint_iff)
qed


lemma variants_suffixes:
  "distinct ((if cm_Plain c then [] else [[]]) @ map fst (variants env c))"
  "set (map fst (variants env c)) \<subseteq> {[], ''.xz'', ''.gz'', ''.zst''}"
  by (auto simp: variants_def)

lemma encode_all_Some:
  "encode_all text vs = Some encoded \<Longrightarrow> map fst encoded = map fst vs \<and>
     (\<forall>suf data. (suf, data) \<in> set encoded \<longleftrightarrow> (\<exists>enc. (suf, enc) \<in> set vs \<and> enc text = Some data))" if "distinct (map fst vs)"
  using that
proof (induction vs arbitrary: encoded)
  case (Cons v vs)
  obtain suf enc where v: "v = (suf, enc)" by fastforce
  obtain data r where d: "enc text = Some data" "encode_all text vs = Some r" "encoded = (suf, data) # r"
    using Cons.prems(1) by (auto simp: v split: option.splits)
  then show ?case using Cons.IH[OF d(2)] Cons.prems(2) v by fastforce
qed simp

text \<open>What is known of a job that succeeded.\<close>

lemma index_job_Some:
  assumes "index_job env inp rel stanzas = Some (plain, cfs)"
  shows "hf_rel plain = rel" "map (hf_rel \<circ> snd) cfs = map (\<lambda>s. rel @ s) (map fst (variants env (in_Compression inp)))"
    "(data, hf) \<in> set cfs \<longleftrightarrow> (\<exists>suf enc. (suf, enc) \<in> set (variants env (in_Compression inp)) \<and> enc (stanza_text stanzas) = Some data \<and>
       hf = (hashBytes env (hashTypesForHashing (in_HashTypes inp)) data)\<lparr>hf_rel := rel @ suf\<rparr>)"
proof -
  have dv: "distinct (map fst (variants env (in_Compression inp)))" using variants_suffixes(1)[of "in_Compression inp" env] by simp
  obtain encoded where e: "encode_all (stanza_text stanzas) (variants env (in_Compression inp)) = Some encoded"
      "plain = (hashBytes env (hashTypesForHashing (in_HashTypes inp)) (stanza_text stanzas))\<lparr>hf_rel := rel\<rparr>"
      "cfs = map (\<lambda>(suffix, data). (data, (hashBytes env (hashTypesForHashing (in_HashTypes inp)) data)\<lparr>hf_rel := rel @ suffix\<rparr>)) encoded"
    using assms by (auto simp: index_job_def Let_def split: option.splits)
  note ea = encode_all_Some[OF dv e(1)]
  show "hf_rel plain = rel" by (simp add: e(2))
  have "map (hf_rel \<circ> snd) cfs = map (\<lambda>s. rel @ s) (map fst encoded)" by (simp add: e(3) case_prod_beta)
  then show "map (hf_rel \<circ> snd) cfs = map (\<lambda>s. rel @ s) (map fst (variants env (in_Compression inp)))" using ea by simp
  have "(data, hf) \<in> set cfs \<longleftrightarrow> (\<exists>suf. (suf, data) \<in> set encoded \<and> hf = (hashBytes env (hashTypesForHashing (in_HashTypes inp)) data)\<lparr>hf_rel := rel @ suf\<rparr>)"
    by (auto simp: e(3))
  then show "(data, hf) \<in> set cfs \<longleftrightarrow> (\<exists>suf enc. (suf, enc) \<in> set (variants env (in_Compression inp)) \<and> enc (stanza_text stanzas) = Some data \<and>
       hf = (hashBytes env (hashTypesForHashing (in_HashTypes inp)) data)\<lparr>hf_rel := rel @ suf\<rparr>)" using ea by blast
qed

lemma sha256_always: "hf_sha256 (hashBytes env (hashTypesForHashing types) data) = pe_sha256 env data"
  by (simp add: hashBytes_def hashTypesForHashing_def Let_def)

lemma index_write_cases:
  assumes "(p, d) \<in> set (index_writes env distRoot inp jobs)"
  obtains rel stanzas suf enc where "(rel, stanzas) \<in> set jobs" "(suf, enc) \<in> set (variants env (in_Compression inp))"
    "enc (stanza_text stanzas) = Some d"
    "p = path_join [distRoot, rel @ suf] \<or> p = path_join [distRoot, byHashPath (rel @ suf) (pe_sha256 env d)]"
proof -
  obtain rel stanzas plain cfs where j: "(rel, stanzas) \<in> set jobs" "index_job env inp rel stanzas = Some (plain, cfs)"
      "(p, d) \<in> set (variant_writes distRoot (in_SkipByHash inp) cfs)"
    using assms by (auto simp: index_writes_def split: option.splits) metis
  obtain hf where hf: "(d, hf) \<in> set cfs" "p = path_join [distRoot, hf_rel hf] \<or> p = path_join [distRoot, byHashPath (hf_rel hf) (hf_sha256 hf)]"
    using j(3) by (auto simp: variant_writes_def split: if_splits)
  from index_job_Some(3)[OF j(2), of d hf] hf(1) obtain suf enc where
    "(suf, enc) \<in> set (variants env (in_Compression inp))" "enc (stanza_text stanzas) = Some d" "hf_rel hf = rel @ suf" "hf_sha256 hf = pe_sha256 env d"
    using sha256_always by auto
  then show ?thesis using that[OF j(1)] hf(2) by simp
qed

lemma job_included:
  assumes "(rel, stanzas) \<in> set jobs" "index_job env inp rel stanzas = Some (plain, cfs)"
  shows "set (variant_writes distRoot (in_SkipByHash inp) cfs) \<subseteq> set (index_writes env distRoot inp jobs)"
    "set (map snd cfs) \<subseteq> set (index_files env inp jobs)"
proof -
  obtain xs ys where jobs: "jobs = xs @ (rel, stanzas) # ys" using assms(1) by (meson split_list)
  show "set (variant_writes distRoot (in_SkipByHash inp) cfs) \<subseteq> set (index_writes env distRoot inp jobs)"
    "set (map snd cfs) \<subseteq> set (index_files env inp jobs)"
    unfolding jobs index_writes_def index_files_def map_append list.map concat_append concat.simps set_append prod.case assms(2) option.case
    by blast+
qed

lemma index_write_in:
  assumes "(rel, stanzas) \<in> set jobs" "index_job env inp rel stanzas \<noteq> None" "(suf, enc) \<in> set (variants env (in_Compression inp))"
  obtains d where "enc (stanza_text stanzas) = Some d" "(path_join [distRoot, rel @ suf], d) \<in> set (index_writes env distRoot inp jobs)"
    "\<not> in_SkipByHash inp \<Longrightarrow> pe_sha256 env d \<noteq> [] \<Longrightarrow>
       (path_join [distRoot, byHashPath (rel @ suf) (pe_sha256 env d)], d) \<in> set (index_writes env distRoot inp jobs)"
    "(hashBytes env (hashTypesForHashing (in_HashTypes inp)) d)\<lparr>hf_rel := rel @ suf\<rparr> \<in> set (index_files env inp jobs)"
proof -
  obtain plain cfs where j: "index_job env inp rel stanzas = Some (plain, cfs)" using assms(2) by auto
  have "suf \<in> set (map fst (variants env (in_Compression inp)))" using assms(3) by force
  then have "rel @ suf \<in> set (map (hf_rel \<circ> snd) cfs)" unfolding index_job_Some(2)[OF j] by auto
  then obtain d hf where c: "(d, hf) \<in> set cfs" "hf_rel hf = rel @ suf" by auto
  from index_job_Some(3)[OF j, of d hf] c obtain enc' where e: "(suf, enc') \<in> set (variants env (in_Compression inp))" "enc' (stanza_text stanzas) = Some d"
      "hf = (hashBytes env (hashTypesForHashing (in_HashTypes inp)) d)\<lparr>hf_rel := rel @ suf\<rparr>" by auto
  have "distinct (map fst (variants env (in_Compression inp)))" using variants_suffixes(1)[of "in_Compression inp" env] by simp
  then have "enc' = enc" using e(1) assms(3) by (metis map_of_is_SomeI option.inject)
  have w: "x \<in> set (variant_writes distRoot (in_SkipByHash inp) cfs) \<Longrightarrow> x \<in> set (index_writes env distRoot inp jobs)" for x
    using job_included(1)[OF assms(1) j] by blast
  show ?thesis
  proof (rule that)
    show "enc (stanza_text stanzas) = Some d" using e(2) \<open>enc' = enc\<close> by simp
    show "(path_join [distRoot, rel @ suf], d) \<in> set (index_writes env distRoot inp jobs)"
      by (rule w) (use c in \<open>force simp: variant_writes_def\<close>)
    show "(path_join [distRoot, byHashPath (rel @ suf) (pe_sha256 env d)], d) \<in> set (index_writes env distRoot inp jobs)"
      if "\<not> in_SkipByHash inp" "pe_sha256 env d \<noteq> []"
    proof (rule w)
      have "hf_sha256 hf = pe_sha256 env d" by (simp add: e(3) sha256_always)
      then show "(path_join [distRoot, byHashPath (rel @ suf) (pe_sha256 env d)], d) \<in> set (variant_writes distRoot (in_SkipByHash inp) cfs)"
        using c that by (force simp: variant_writes_def)
    qed
    show "(hashBytes env (hashTypesForHashing (in_HashTypes inp)) d)\<lparr>hf_rel := rel @ suf\<rparr> \<in> set (index_files env inp jobs)"
      using job_included(2)[OF assms(1) j] c(1) e(3) by force
  qed
qed


definition hex_digest :: "string \<Rightarrow> bool" where
  "hex_digest h \<longleftrightarrow> h \<noteq> [] \<and> list_all (\<lambda>c. is_digit c \<or> c \<in> set ''abcdef'') h"

lemma hex_name: "hex_digest h \<Longrightarrow> name_ok h"
proof -
  assume h: "hex_digest h"
  have c: "c \<noteq> CHR ''.'' \<and> c \<noteq> CHR ''/'' \<and> c \<noteq> NUL \<and> \<not> is_space c" if "is_digit c \<or> c \<in> set ''abcdef''" for c
    using that by (auto simp: is_digit_def is_space_def less_eq_char_def)
  show "name_ok h" using h c unfolding name_ok_def plain_seg_def is_word_def hex_digest_def list_all_iff by fastforce
qed

lemma name_suffix:
  assumes "n \<in> {''Packages'', ''Sources''}" "suf \<in> {[], ''.xz'', ''.gz'', ''.zst''}"
  shows "name_ok (n @ suf)"
proof -
  have "list_all name_ok [''Packages'', ''Packages.xz'', ''Packages.gz'', ''Packages.zst'', ''Sources'', ''Sources.xz'', ''Sources.gz'', ''Sources.zst'']"
    by code_simp
  then show ?thesis using assms by auto
qed

lemma name_suffix_inj:
  assumes "n \<in> {''Packages'', ''Sources''}" "suf \<in> {[], ''.xz'', ''.gz'', ''.zst''}" "n' \<in> {''Packages'', ''Sources''}" "suf' \<in> {[], ''.xz'', ''.gz'', ''.zst''}"
    "n @ suf = n' @ suf'"
  shows "n = n' \<and> suf = suf'"
  using assms by auto

text \<open>The two paths of an encoded index, as segments below the suite's directory.\<close>

definition index_at :: "publish_env \<Rightarrow> SuiteInput \<Rightarrow> string list \<Rightarrow> string \<Rightarrow> string \<Rightarrow> bool" where
  "index_at env inp segs path data \<longleftrightarrow> (\<exists>c dir n stanzas suf enc. segs = [c, dir, n @ suf] \<and> path = join ''/'' [c, dir, n] @ suf \<and>
     (join ''/'' [c, dir, n], stanzas) \<in> set (binary_jobs inp @ sources_jobs inp) \<and> (suf, enc) \<in> set (variants env (in_Compression inp)) \<and>
     enc (stanza_text stanzas) = Some data \<and> name_ok c \<and> name_ok dir \<and> n \<in> {''Packages'', ''Sources''})"

definition by_hash_segs :: "string list \<Rightarrow> string \<Rightarrow> string list" where
  "by_hash_segs segs h = butlast segs @ [''by-hash'', ''SHA256'', h]"

lemma index_at_segs:
  assumes "index_at env inp segs path data" "hex_digest h"
  shows "list_all name_ok segs" "length segs = 3" "path = join ''/'' segs" "list_all name_ok (by_hash_segs segs h)" "length (by_hash_segs segs h) = 5"
    "byHashPath path h = join ''/'' (by_hash_segs segs h)"
proof -
  obtain c dir n suf enc where s: "segs = [c, dir, n @ suf]" "path = join ''/'' [c, dir, n] @ suf" "name_ok c" "name_ok dir"
      "n \<in> {''Packages'', ''Sources''}" "(suf, enc) \<in> set (variants env (in_Compression inp))"
    using assms(1) unfolding index_at_def by blast
  have "suf \<in> set (map fst (variants env (in_Compression inp)))" using s(6) by force
  then have n: "name_ok (n @ suf)" using name_suffix s(5) variants_suffixes(2)[of env "in_Compression inp"] by blast
  then show "list_all name_ok segs" "length segs = 3" "path = join ''/'' segs" using s by simp_all
  have "list_all name_ok [''by-hash'', ''SHA256'']" by code_simp
  then show "list_all name_ok (by_hash_segs segs h)" "length (by_hash_segs segs h) = 5"
    using s(1,3,4) hex_name[OF assms(2)] by (simp_all add: by_hash_segs_def)
  have "join ''/'' [c, dir, n] @ suf = join ''/'' [c, dir, n @ suf]" by simp
  then show "byHashPath path h = join ''/'' (by_hash_segs segs h)"
    using byHashPath_segs[of c dir "n @ suf" h] s n hex_name[OF assms(2)] by (simp add: name_ok_def by_hash_segs_def)
qed

lemma index_at_unique:
  assumes "suite_ok prefix inp" "index_at env inp segs path data" "index_at env inp segs path' data'"
  shows "data' = data \<and> path' = path"
proof -
  obtain c dir n stanzas suf enc where a: "segs = [c, dir, n @ suf]" "path = join ''/'' [c, dir, n] @ suf"
      "(join ''/'' [c, dir, n], stanzas) \<in> set (binary_jobs inp @ sources_jobs inp)" "(suf, enc) \<in> set (variants env (in_Compression inp))"
      "enc (stanza_text stanzas) = Some data" "n \<in> {''Packages'', ''Sources''}" using assms(2) unfolding index_at_def by blast
  obtain c' dir' n' stanzas' suf' enc' where b: "segs = [c', dir', n' @ suf']" "path' = join ''/'' [c', dir', n'] @ suf'"
      "(join ''/'' [c', dir', n'], stanzas') \<in> set (binary_jobs inp @ sources_jobs inp)" "(suf', enc') \<in> set (variants env (in_Compression inp))"
      "enc' (stanza_text stanzas') = Some data'" "n' \<in> {''Packages'', ''Sources''}" using assms(3) unfolding index_at_def by blast
  have sufs: "suf \<in> {[], ''.xz'', ''.gz'', ''.zst''}" "suf' \<in> {[], ''.xz'', ''.gz'', ''.zst''}"
    using variants_suffixes(2)[of env "in_Compression inp"] a(4) b(4) by force+
  have eq: "c' = c" "dir' = dir" "n' = n" "suf' = suf" using a(1) b(1) name_suffix_inj[OF a(6) sufs(1) b(6) sufs(2)] by auto
  have "stanzas' = stanzas" using jobs_distinct[OF assms(1)] a(3) b(3) unfolding eq by (metis map_of_is_SomeI option.inject)
  moreover have "enc' = enc"
    using variants_suffixes(1)[of "in_Compression inp" env] a(4) b(4) unfolding eq by (metis distinct_append map_of_is_SomeI option.inject)
  ultimately show ?thesis using a(2,5) b(2,5) eq by simp
qed


lemma name_plain: "list_all name_ok segs \<Longrightarrow> list_all plain_seg segs"
  by (auto simp: list_all_iff name_ok_def)

lemma below_suite:
  assumes "suite_ok prefix inp" "list_all name_ok segs" "segs \<noteq> []"
  shows "path_join [path_join [prefix, ''dists'', in_Codename inp], join ''/'' segs] = join ''/'' (suite_segs prefix inp @ segs)"
    "list_all name_ok segs' \<Longrightarrow> segs' \<noteq> [] \<Longrightarrow>
      join ''/'' (suite_segs prefix inp @ segs) = join ''/'' (suite_segs prefix inp @ segs') \<Longrightarrow> segs = segs'"
proof -
  note p = suite_segs_plain[OF assms(1)]
  show "path_join [path_join [prefix, ''dists'', in_Codename inp], join ''/'' segs] = join ''/'' (suite_segs prefix inp @ segs)"
    unfolding p(2) by (rule path_join_segs) (use p assms name_plain in \<open>auto simp: suite_segs_def\<close>)
  assume a: "list_all name_ok segs'" "segs' \<noteq> []" "join ''/'' (suite_segs prefix inp @ segs) = join ''/'' (suite_segs prefix inp @ segs')"
  have "suite_segs prefix inp @ segs = suite_segs prefix inp @ segs'"
    by (rule join_segs_inj[OF _ _ _ _ a(3)]) (use p(1) name_plain assms(2) a(1) in \<open>auto simp: suite_segs_def\<close>)
  then show "segs = segs'" by simp
qed

text \<open>Every write of a suite, as segments below its directory.\<close>

lemma suite_write_cases:
  assumes "suite_ok prefix inp" "\<And>d. hex_digest (pe_sha256 env d)"
    and "(p, d) \<in> set (index_writes env (path_join [prefix, ''dists'', in_Codename inp]) inp (binary_jobs inp @ sources_jobs inp) @
       release_writes env (path_join [prefix, ''dists'', in_Codename inp]) release)"
  obtains (plain) segs path where "index_at env inp segs path d" "p = join ''/'' (suite_segs prefix inp @ segs)"
    | (hash) segs path where "index_at env inp segs path d" "p = join ''/'' (suite_segs prefix inp @ by_hash_segs segs (pe_sha256 env d))"
    | (release) "d = release" "p = join ''/'' (suite_segs prefix inp @ [''Release''])"
    | (signature) n where "n \<in> {''InRelease'', ''Release.gpg''}" "p = join ''/'' (suite_segs prefix inp @ [n])"
proof -
  let ?d = "path_join [prefix, ''dists'', in_Codename inp]" and ?jobs = "binary_jobs inp @ sources_jobs inp"
  have one: "path_join [?d, n] = join ''/'' (suite_segs prefix inp @ [n])" if "n \<in> {''Release'', ''InRelease'', ''Release.gpg''}" for n
  proof -
    have "list_all name_ok [''Release'', ''InRelease'', ''Release.gpg'']" by code_simp
    then show ?thesis using below_suite(1)[OF assms(1), of "[n]"] that by auto
  qed
  from assms(3) consider "(p, d) \<in> set (index_writes env ?d inp ?jobs)" | "(p, d) \<in> set (release_writes env ?d release)" by auto
  then show ?thesis
  proof cases
    case 1
    then obtain rel stanzas suf enc where w: "(rel, stanzas) \<in> set ?jobs" "(suf, enc) \<in> set (variants env (in_Compression inp))"
        "enc (stanza_text stanzas) = Some d" "p = path_join [?d, rel @ suf] \<or> p = path_join [?d, byHashPath (rel @ suf) (pe_sha256 env d)]"
      by (rule index_write_cases)
    obtain c dir n where r: "rel = join ''/'' [c, dir, n]" "name_ok c" "name_ok dir" "n \<in> {''Packages'', ''Sources''}"
      using job_shape[OF assms(1) w(1)] by blast
    have at: "index_at env inp [c, dir, n @ suf] (rel @ suf) d" using w(1-3) r unfolding index_at_def by blast
    note s = index_at_segs[OF at assms(2)[of d]]
    from w(4) show ?thesis
    proof
      assume "p = path_join [?d, rel @ suf]"
      then show ?thesis using plain[OF at] below_suite(1)[OF assms(1) s(1)] s(2,3) by simp
    next
      assume "p = path_join [?d, byHashPath (rel @ suf) (pe_sha256 env d)]"
      then show ?thesis using hash[OF at] below_suite(1)[OF assms(1) s(4)] s(5,6) by fastforce
    qed
  next
    case 2
    then show ?thesis using release signature one by (auto simp: release_writes_def split: option.splits)
  qed
qed


lemma index_files_rels:
  assumes "\<forall>(rel, stanzas)\<in>set jobs. index_job env inp rel stanzas \<noteq> None"
  shows "map hf_rel (index_files env inp jobs) = map (\<lambda>(r, s). r @ s) (List.product (map fst jobs)
    ((if cm_Plain (in_Compression inp) then [] else [[]]) @ map fst (variants env (in_Compression inp))))"
  using assms
proof (induction jobs)
  case (Cons job jobs)
  obtain rel stanzas where job: "job = (rel, stanzas)" by fastforce
  obtain plain cfs where j: "index_job env inp rel stanzas = Some (plain, cfs)" using Cons.prems by (auto simp: job)
  have "map hf_rel (map snd cfs) = map (\<lambda>s. rel @ s) (map fst (variants env (in_Compression inp)))" using index_job_Some(2)[OF j] by simp
  then show ?case using Cons index_job_Some(1)[OF j] by (simp add: job index_files_def j)
qed (simp add: index_files_def)

lemma index_file_hashed:
  "f \<in> set (index_files env inp jobs) \<Longrightarrow> \<exists>d r. f = (hashBytes env (hashTypesForHashing (in_HashTypes inp)) d)\<lparr>hf_rel := r\<rparr>"
proof (induction jobs)
  case (Cons job jobs)
  obtain rel stanzas where job: "job = (rel, stanzas)" by fastforce
  show ?case
  proof (cases "f \<in> set (index_files env inp jobs)")
    case False
    then have f: "f \<in> set (case index_job env inp rel stanzas of None \<Rightarrow> []
        | Some (plain, cfs) \<Rightarrow> (if cm_Plain (in_Compression inp) then [] else [plain]) @ map snd cfs)"
      using Cons.prems unfolding job index_files_def list.map concat.simps set_append prod.case by blast
    then obtain plain cfs where j: "index_job env inp rel stanzas = Some (plain, cfs)" by (cases "index_job env inp rel stanzas") auto
    have p: "plain = (hashBytes env (hashTypesForHashing (in_HashTypes inp)) (stanza_text stanzas))\<lparr>hf_rel := rel\<rparr>"
      using j by (auto simp: index_job_def Let_def split: option.splits)
    have "f = plain \<or> (\<exists>d. (d, f) \<in> set cfs)" using f j by (auto split: if_splits)
    then show ?thesis using index_job_Some(3)[OF j] p by blast
  qed (use Cons.IH in blast)
qed (simp add: index_files_def)

lemma index_files_distinct:
  assumes "suite_ok prefix inp" "\<forall>(rel, stanzas)\<in>set (binary_jobs inp @ sources_jobs inp). index_job env inp rel stanzas \<noteq> None"
  shows "distinct (map hf_rel (index_files env inp (binary_jobs inp @ sources_jobs inp)))"
    "f \<in> set (index_files env inp (binary_jobs inp @ sources_jobs inp)) \<Longrightarrow> is_word (hf_rel f)"
proof -
  let ?jobs = "binary_jobs inp @ sources_jobs inp"
  let ?sufs = "(if cm_Plain (in_Compression inp) then [] else [[]]) @ map fst (variants env (in_Compression inp))"
  have shape: "\<exists>c d n. r = join ''/'' [c, d, n] \<and> name_ok c \<and> name_ok d \<and> n \<in> {''Packages'', ''Sources''}" if "r \<in> set (map fst ?jobs)" for r
    using that job_shape[OF assms(1)] by fastforce
  have sufs: "s \<in> {[], ''.xz'', ''.gz'', ''.zst''}" if "s \<in> set ?sufs" for s
    using that variants_suffixes(2)[of env "in_Compression inp"] by (auto split: if_splits)
  have eq: "r = r' \<and> s = s'" if r: "r \<in> set (map fst ?jobs)" "s \<in> set ?sufs" "r' \<in> set (map fst ?jobs)" "s' \<in> set ?sufs" "r @ s = r' @ s'" for r s r' s'
  proof -
    obtain c d n where x: "r = join ''/'' [c, d, n]" "name_ok c" "name_ok d" "n \<in> {''Packages'', ''Sources''}" using shape[OF r(1)] by blast
    obtain c' d' n' where y: "r' = join ''/'' [c', d', n']" "name_ok c'" "name_ok d'" "n' \<in> {''Packages'', ''Sources''}" using shape[OF r(3)] by blast
    have "join ''/'' [c, d, n @ s] = join ''/'' [c', d', n' @ s']" using r(5) x(1) y(1) by simp
    from join_segs_inj[OF _ _ _ _ this] have e: "c = c'" "d = d'" "n @ s = n' @ s'"
      using x y name_suffix[OF x(4) sufs[OF r(2)]] name_suffix[OF y(4) sufs[OF r(4)]] by (auto simp: name_ok_def)
    then show ?thesis using name_suffix_inj[OF x(4) sufs[OF r(2)] y(4) sufs[OF r(4)] e(3)] x(1) y(1) by simp
  qed
  have "inj_on (\<lambda>(r, s). r @ s) (set (List.product (map fst ?jobs) ?sufs))"
  proof (rule inj_onI)
    fix x y assume xy: "x \<in> set (List.product (map fst ?jobs) ?sufs)" "y \<in> set (List.product (map fst ?jobs) ?sufs)"
      "(\<lambda>(r, s). r @ s) x = (\<lambda>(r, s). r @ s) y"
    obtain r s r' s' where d: "x = (r, s)" "y = (r', s')" by fastforce
    show "x = y" using eq[of r s r' s'] xy unfolding d set_product by simp
  qed
  moreover have "distinct (List.product (map fst ?jobs) ?sufs)"
    by (rule distinct_product[OF jobs_distinct[OF assms(1)] variants_suffixes(1)])
  ultimately show "distinct (map hf_rel (index_files env inp ?jobs))"
    unfolding index_files_rels[OF assms(2)] distinct_map by blast
  assume "f \<in> set (index_files env inp ?jobs)"
  then have "hf_rel f \<in> set (map hf_rel (index_files env inp ?jobs))" by simp
  then obtain r s where rs: "r \<in> set (map fst ?jobs)" "s \<in> set ?sufs" "hf_rel f = r @ s"
    unfolding index_files_rels[OF assms(2)] by (auto simp del: set_append)
  obtain c d n where x: "r = join ''/'' [c, d, n]" "name_ok c" "name_ok d" "n \<in> {''Packages'', ''Sources''}" using shape[OF rs(1)] by blast
  then show "is_word (hf_rel f)" using name_suffix[OF x(4) sufs[OF rs(2)]] rs(3) by (auto simp: name_ok_def is_word_def is_space_def)
qed

text \<open>Two writes to one file of a suite agree: on the bytes for the Release file and for an index, on the digest for a
  by-hash copy.\<close>

abbreviation suite_writes :: "publish_env \<Rightarrow> string \<Rightarrow> SuiteInput \<Rightarrow> string \<Rightarrow> (string \<times> string) list" where
  "suite_writes env prefix inp release \<equiv>
     index_writes env (path_join [prefix, ''dists'', in_Codename inp]) inp (binary_jobs inp @ sources_jobs inp) @
     release_writes env (path_join [prefix, ''dists'', in_Codename inp]) release"

lemma top_names: "name_ok ''Release''" "name_ok ''InRelease''" "name_ok ''Release.gpg''"
  by code_simp+

lemma write_shape:
  assumes "suite_ok prefix inp" "\<And>d. hex_digest (pe_sha256 env d)" "(p, d) \<in> set (suite_writes env prefix inp release)"
  shows "\<exists>segs. list_all name_ok segs \<and> segs \<noteq> [] \<and> p = join ''/'' (suite_segs prefix inp @ segs) \<and>
    (length segs = 1 \<and> (segs = [''Release''] \<longrightarrow> d = release) \<or> length segs = 3 \<and> (\<exists>path. index_at env inp segs path d) \<or>
     length segs = 5 \<and> last segs = pe_sha256 env d)"
proof (rule suite_write_cases[OF assms])
  fix segs path assume a: "index_at env inp segs path d" "p = join ''/'' (suite_segs prefix inp @ segs)"
  note s = index_at_segs(1,2)[OF a(1) assms(2)[of d]]
  show ?thesis by (rule exI[of _ segs]) (use a s in auto)
next
  fix segs path assume a: "index_at env inp segs path d" "p = join ''/'' (suite_segs prefix inp @ by_hash_segs segs (pe_sha256 env d))"
  note s = index_at_segs(4,5)[OF a(1) assms(2)[of d]]
  show ?thesis by (rule exI[of _ "by_hash_segs segs (pe_sha256 env d)"]) (use a s in \<open>auto simp: by_hash_segs_def\<close>)
next
  assume "d = release" "p = join ''/'' (suite_segs prefix inp @ [''Release''])"
  then show ?thesis by (intro exI[of _ "[''Release'']"]) (simp add: top_names)
next
  fix n assume "n \<in> {''InRelease'', ''Release.gpg''}" "p = join ''/'' (suite_segs prefix inp @ [n])"
  then show ?thesis by (intro exI[of _ "[n]"]) (auto simp: top_names)
qed

lemma write_agree:
  assumes "suite_ok prefix inp" "\<And>d. hex_digest (pe_sha256 env d)" "list_all name_ok segs" "segs \<noteq> []"
    and "(join ''/'' (suite_segs prefix inp @ segs), d') \<in> set (suite_writes env prefix inp release)"
  shows "segs = [''Release''] \<Longrightarrow> d' = release" "index_at env inp segs path d \<Longrightarrow> d' = d" "length segs = 5 \<Longrightarrow> pe_sha256 env d' = last segs"
proof -
  obtain segs' where s: "list_all name_ok segs'" "segs' \<noteq> []" "join ''/'' (suite_segs prefix inp @ segs) = join ''/'' (suite_segs prefix inp @ segs')"
      "length segs' = 1 \<and> (segs' = [''Release''] \<longrightarrow> d' = release) \<or> length segs' = 3 \<and> (\<exists>path. index_at env inp segs' path d') \<or>
       length segs' = 5 \<and> last segs' = pe_sha256 env d'"
    using write_shape[OF assms(1,2,5)] by blast
  have eq: "segs' = segs" using below_suite(2)[OF assms(1,3,4) s(1-3)] by simp
  show "segs = [''Release''] \<Longrightarrow> d' = release" using s(4) eq by auto
  show "length segs = 5 \<Longrightarrow> pe_sha256 env d' = last segs" using s(4) eq by auto
  show "index_at env inp segs path d \<Longrightarrow> d' = d"
  proof -
    assume at: "index_at env inp segs path d"
    have "length segs = 3" by (rule index_at_segs(2)[OF at assms(2)])
    then obtain path' where "index_at env inp segs path' d'" using s(4) eq by auto
    from index_at_unique[OF assms(1) at this] show "d' = d" by simp
  qed
qed

lemma Release_written:
  assumes "suite_ok prefix inp"
  shows "(join ''/'' (suite_segs prefix inp @ [''Release'']), release) \<in> set (suite_writes env prefix inp release)"
  using below_suite(1)[OF assms, of "[''Release'']"] top_names by (simp add: release_writes_def)

context file_sink
begin

text \<open>Publishing touches only files of the suite, so what it left stays until one of those is written again.\<close>

lemma suite_frame:
  assumes "suite_ok prefix inp" "\<And>d. hex_digest (pe_sha256 env d)" "GenerateSuite env wr prefix inp b = (None, b')"
    and keys: "\<forall>segs. list_all name_ok segs \<and> segs \<noteq> [] \<longrightarrow> key (join ''/'' (suite_segs prefix inp @ segs))"
    and q: "key q" "\<forall>segs. list_all name_ok segs \<and> segs \<noteq> [] \<longrightarrow> q \<noteq> join ''/'' (suite_segs prefix inp @ segs)"
  shows "content b' q = content b q"
proof -
  let ?ws = "suite_writes env prefix inp (buildRelease env inp (index_files env inp (binary_jobs inp @ sources_jobs inp)))"
  have k: "list_all (\<lambda>(p, _). key p) ?ws" using write_shape[OF assms(1,2)] keys unfolding list_all_iff by blast
  have none: "(q, d) \<notin> set ?ws" for d using write_shape[OF assms(1,2), of q d] q(2) by blast
  have "map_of (rev ?ws) q = None"
  proof (cases "map_of (rev ?ws) q")
    case (Some d)
    have "(q, d) \<in> set ?ws" using map_of_SomeD[OF Some] unfolding set_rev .
    then show ?thesis using none by blast
  qed
  then show ?thesis using write_all_content[OF GenerateSuite_writes(1)[OF assms(3)] k q(1)] by (simp only: option.case)
qed

lemma suite_published:
  assumes "suite_ok prefix inp" "\<And>d. hex_digest (pe_sha256 env d)" "GenerateSuite env wr prefix inp b = (None, b1)"
    and keys: "\<forall>segs. list_all name_ok segs \<and> segs \<noteq> [] \<longrightarrow> key (join ''/'' (suite_segs prefix inp @ segs))"
    and later: "\<forall>segs. list_all name_ok segs \<and> segs \<noteq> [] \<longrightarrow> content b' (join ''/'' (suite_segs prefix inp @ segs)) = content b1 (join ''/'' (suite_segs prefix inp @ segs))"
  defines "dist \<equiv> path_join [prefix, ''dists'', in_Codename inp]" and "files \<equiv> index_files env inp (binary_jobs inp @ sources_jobs inp)"
  shows "content b' (join ''/'' (suite_segs prefix inp @ [''Release''])) = Some (buildRelease env inp files)"
    and "(rel, stanzas) \<in> set (binary_jobs inp @ sources_jobs inp) \<Longrightarrow> (suf, enc) \<in> set (variants env (in_Compression inp)) \<Longrightarrow>
      \<exists>d. enc (stanza_text stanzas) = Some d \<and> content b' (path_join [dist, rel @ suf]) = Some d \<and>
        (\<not> in_SkipByHash inp \<longrightarrow> (\<exists>d'. content b' (path_join [dist, byHashPath (rel @ suf) (pe_sha256 env d)]) = Some d' \<and> pe_sha256 env d' = pe_sha256 env d)) \<and>
        (hashBytes env (hashTypesForHashing (in_HashTypes inp)) d)\<lparr>hf_rel := rel @ suf\<rparr> \<in> set files"
proof -
  let ?jobs = "binary_jobs inp @ sources_jobs inp" and ?release = "buildRelease env inp files"
  let ?ws = "suite_writes env prefix inp ?release" and ?at = "\<lambda>segs. join ''/'' (suite_segs prefix inp @ segs)"
  note W = GenerateSuite_writes[OF assms(3), folded dist_def files_def]
  have k: "list_all (\<lambda>(p, _). key p) ?ws" using write_shape[OF assms(1,2)] keys unfolding list_all_iff by blast
  note agree = write_agree[OF assms(1,2), where release = ?release]
  have rel: "content b1 (?at [''Release'']) = Some ?release"
    using written[OF W(1)[unfolded dist_def] k Release_written[OF assms(1)], of "\<lambda>d. d = ?release"] agree(1)[of "[''Release'']"] top_names by auto
  show "content b' (?at [''Release'']) = Some ?release" using rel later[rule_format, of "[''Release'']"] top_names by simp
  assume job: "(rel, stanzas) \<in> set ?jobs" and var: "(suf, enc) \<in> set (variants env (in_Compression inp))"
  have "index_job env inp rel stanzas \<noteq> None" using bspec[OF W(2) job] by simp
  from index_write_in[OF job this var, where distRoot = dist] obtain d where d: "enc (stanza_text stanzas) = Some d"
      "(path_join [dist, rel @ suf], d) \<in> set (index_writes env dist inp ?jobs)"
      "\<not> in_SkipByHash inp \<Longrightarrow> pe_sha256 env d \<noteq> [] \<Longrightarrow> (path_join [dist, byHashPath (rel @ suf) (pe_sha256 env d)], d) \<in> set (index_writes env dist inp ?jobs)"
      "(hashBytes env (hashTypesForHashing (in_HashTypes inp)) d)\<lparr>hf_rel := rel @ suf\<rparr> \<in> set files" unfolding files_def by metis
  obtain c dir n where r: "rel = join ''/'' [c, dir, n]" "name_ok c" "name_ok dir" "n \<in> {''Packages'', ''Sources''}"
    using job_shape[OF assms(1) job] by blast
  let ?segs = "[c, dir, n @ suf]" and ?h = "pe_sha256 env d"
  have at: "index_at env inp ?segs (rel @ suf) d" using job var d(1) r unfolding index_at_def by blast
  note s = index_at_segs[OF at assms(2)[of d]]
  have p: "path_join [dist, rel @ suf] = ?at ?segs" "path_join [dist, byHashPath (rel @ suf) ?h] = ?at (by_hash_segs ?segs ?h)"
    using below_suite(1)[OF assms(1) s(1)] below_suite(1)[OF assms(1) s(4)] s(2,3,5,6) unfolding dist_def by fastforce+
  have ag1: "x = d" if "(path_join [dist, rel @ suf], x) \<in> set ?ws" for x
    by (rule agree(2)[OF s(1) _ that[unfolded p(1)] at]) simp
  have lt: "content b' (?at ?segs) = content b1 (?at ?segs)" "content b' (?at (by_hash_segs ?segs ?h)) = content b1 (?at (by_hash_segs ?segs ?h))"
    using later s(1,4) by (simp_all add: by_hash_segs_def)
  have "\<exists>d'. content b1 (path_join [dist, rel @ suf]) = Some d' \<and> d' = d"
    by (rule written[OF W(1)[unfolded dist_def] k _ ag1]) (use d(2) in \<open>auto simp: dist_def\<close>)
  then have c1: "content b' (path_join [dist, rel @ suf]) = Some d" using lt(1) unfolding p(1) by simp
  have h: "?h \<noteq> []" using assms(2)[of d] by (simp add: hex_digest_def)
  have ag: "pe_sha256 env x = ?h" if "(path_join [dist, byHashPath (rel @ suf) ?h], x) \<in> set ?ws" for x
    using agree(3)[OF s(4), of x] that s(5) unfolding p(2) by (auto simp: by_hash_segs_def)
  have "\<exists>d'. content b1 (path_join [dist, byHashPath (rel @ suf) ?h]) = Some d' \<and> pe_sha256 env d' = ?h" if "\<not> in_SkipByHash inp"
    by (rule written[OF W(1)[unfolded dist_def] k _ ag]) (use d(3)[OF that h] in \<open>auto simp: dist_def\<close>)
  then have "\<exists>d'. content b' (path_join [dist, byHashPath (rel @ suf) ?h]) = Some d' \<and> pe_sha256 env d' = ?h" if "\<not> in_SkipByHash inp"
    using that lt(2) unfolding p(2) by simp
  then show "\<exists>d. enc (stanza_text stanzas) = Some d \<and> content b' (path_join [dist, rel @ suf]) = Some d \<and>
        (\<not> in_SkipByHash inp \<longrightarrow> (\<exists>d'. content b' (path_join [dist, byHashPath (rel @ suf) (pe_sha256 env d)]) = Some d' \<and> pe_sha256 env d' = pe_sha256 env d)) \<and>
        (hashBytes env (hashTypesForHashing (in_HashTypes inp)) d)\<lparr>hf_rel := rel @ suf\<rparr> \<in> set files"
    using c1 d(1,4) by blast
qed

end


section \<open>Publication to the filesystem\<close>

definition fs_sink :: "sys \<Rightarrow> int \<Rightarrow> fs_Store \<Rightarrow> os_state sink" where
  "fs_sink sys now s b p d = fs_WriteFile sys now s b p d"

definition fs_bytes :: "fs_Store \<Rightarrow> os_state \<Rightarrow> string \<Rightarrow> string option" where
  "fs_bytes s st p = map_option fst (fs_content s st p)"

lemma fs_file_sink: "root_ok s \<Longrightarrow> file_sink (fs_sink sys now s) (fs_bytes s) published_key"
proof
  fix p q b d b' r
  assume root: "root_ok s" and k: "published_key p"
  have a: "absPublished s p = Some (fs_root s @ ''/'' @ p)" using published_abs[OF root] k by (simp add: published_key_def)
  {
    assume w: "fs_sink sys now s b p d = (None, b')"
    obtain r1 st1 where m: "os_MkdirAll sys now b (path_dir (fs_root s @ ''/'' @ p)) = (r1, st1)" by fastforce
    have "os_Rename sys now st1 d (fs_root s @ ''/'' @ p) = (None, b')"
      using w a m by (auto simp: fs_sink_def fs_WriteFile_def split: option.splits if_splits)
    from os_Rename_result(1)[OF this] show "fs_bytes s b' p = Some d" by (simp add: fs_bytes_def fs_content_def file_at_def)
  next
    assume "published_key q" "q \<noteq> p" "fs_sink sys now s b p d = (r, b')"
    then show "fs_bytes s b' q = fs_bytes s b q"
      using write_frame[OF a, of sys now b d r b' "fs_root s @ ''/'' @ q"] by (simp add: fs_bytes_def fs_content_def fs_sink_def)
  }
qed

interpretation fsw: file_sink "fs_sink sys now (rooted segs)" "fs_bytes (rooted segs)" published_key for sys now segs
  by (rule fs_file_sink[OF root_ok_rooted])

lemma suite_path_key:
  assumes "suite_ok prefix inp" "list_all name_ok segs" "segs \<noteq> []"
  shows "published_key (join ''/'' (suite_segs prefix inp @ segs))"
proof -
  let ?p = "join ''/'' (suite_segs prefix inp @ segs)"
  note ok = assms(1)[unfolded suite_ok_def]
  have plain: "list_all plain_seg (suite_segs prefix inp @ segs)" using suite_segs_plain(1)[OF assms(1)] name_plain[OF assms(2)] by simp
  have form: "?p = (if prefix = [] then [] else prefix @ ''/'') @ ''dists/'' @ in_Codename inp @ ''/'' @ join ''/'' segs"
    using assms(3) by (simp add: suite_segs_def join_sep_append join_Cons)
  have sub: "c \<in> set (join ''/'' xs) \<Longrightarrow> c = CHR ''/'' \<or> (\<exists>x\<in>set xs. c \<in> set x)" for c xs
  proof (induction xs)
    case (Cons x xs)
    then show ?case by (cases "xs = []") (auto simp: join_Cons)
  qed simp
  have nul: "NUL \<notin> set ?p" using ok sub[of NUL segs] assms(2) by (auto simp: form list_all_iff name_ok_def split: if_splits)
  have lst: "last (join ''/'' xs) = last (last xs)" if "xs \<noteq> []" "list_all plain_seg xs" for xs
    using that
  proof (induction xs)
    case (Cons x xs)
    then show ?case using join_slash_ne[of xs] by (cases "xs = []") (auto simp: join_Cons plain_seg_def neq_Nil_conv)
  qed simp
  have "name_ok (last segs)" using assms(2,3) by (auto simp: list_all_iff)
  then have "\<not> is_space (last (last segs))" by (auto simp: name_ok_def is_word_def list_all_iff)
  then have l: "\<not> is_space (last ?p)" using lst[OF _ plain] assms(3) by simp
  have h: "\<not> is_space (hd ?p)" using ok by (auto simp: form is_space_def)
  have "canonical ?p" by (rule canonical_join[OF _ plain nul h l]) (use assms(3) in simp)
  moreover have "\<not> has_prefix ?p ''pool/''"
  proof
    assume "has_prefix ?p ''pool/''"
    then obtain q where "?p = ''pool'' @ CHR ''/'' # q" by (auto simp: has_prefix_iff)
    then have "split_on CHR ''/'' ?p = ''pool'' # split_on CHR ''/'' q" using split_on_append[of "CHR ''/''" "''pool''" q] by simp
    moreover have "split_on CHR ''/'' ?p = suite_segs prefix inp @ segs"
      using split_on_join[of "suite_segs prefix inp @ segs" "CHR ''/''"] plain assms(3) by (auto simp: list_all_iff plain_seg_def)
    ultimately have "hd (suite_segs prefix inp @ segs) = ''pool''" by simp
    then show False using ok by (simp add: suite_segs_def split: if_splits)
  qed
  ultimately show ?thesis by (simp add: published_key_def)
qed

text \<open>A suite that apt can verify: the Release file parses, and for every index in every enabled compression the stored
  file is the encoding of the stanzas and Release lists its size and digest.\<close>

definition suite_served :: "publish_env \<Rightarrow> (string \<Rightarrow> string option) \<Rightarrow> string \<Rightarrow> SuiteInput \<Rightarrow> bool" where
  "suite_served env bytes prefix inp \<longleftrightarrow>
     (\<exists>release rel. bytes (path_join [path_join [prefix, ''dists'', in_Codename inp], ''Release'']) = Some release \<and> ParseRelease release = Inr rel \<and>
    (\<forall>(path, stanzas)\<in>set (binary_jobs inp @ sources_jobs inp). \<forall>(suffix, enc)\<in>set (variants env (in_Compression inp)).
       \<exists>data fe. enc (stanza_text stanzas) = Some data \<and> bytes (path_join [path_join [prefix, ''dists'', in_Codename inp], path @ suffix]) = Some data \<and>
         rel_Files rel (path @ suffix) = Some fe \<and> fe_Size fe = int (length data) \<and> fe_SHA256 fe = pe_sha256 env data \<and>
         (\<not> in_SkipByHash inp \<longrightarrow> (\<exists>copy. bytes (path_join [path_join [prefix, ''dists'', in_Codename inp], byHashPath (path @ suffix) (fe_SHA256 fe)]) = Some copy \<and>
            pe_sha256 env copy = fe_SHA256 fe))))"

text \<open>What the theorems on publication assume of one suite: usable names, SHA256 among the digests, hexadecimal digests, and
  a Release file within the limits of the reader.\<close>

definition suite_fits :: "publish_env \<Rightarrow> string \<Rightarrow> SuiteInput \<Rightarrow> bool" where
  "suite_fits env prefix inp \<longleftrightarrow>
     suite_ok prefix inp \<and> ''sha256'' \<in> set (activeHashTypes (in_HashTypes inp)) \<and>
     release_fits env inp (index_files env inp (binary_jobs inp @ sources_jobs inp)) \<and>
     list_all (\<lambda>f. hf_size f < 2 ^ 63) (index_files env inp (binary_jobs inp @ sources_jobs inp))"

lemma GenerateSuite_served:
  assumes "root_ok s" "suite_fits env prefix inp" "GenerateSuite env (fs_sink sys now s) prefix inp st = (None, st1)"
    and "\<And>d. hex_digest (pe_sha256 env d)" "\<And>d. hex_digest (pe_sha512 env d)"
    and later: "\<forall>segs. list_all name_ok segs \<and> segs \<noteq> [] \<longrightarrow> fs_bytes s st' (join ''/'' (suite_segs prefix inp @ segs)) = fs_bytes s st1 (join ''/'' (suite_segs prefix inp @ segs))"
  shows "suite_served env (fs_bytes s st') prefix inp"
proof -
  define dist where "dist = path_join [prefix, ''dists'', in_Codename inp]"
  note fits = assms(2)[unfolded suite_fits_def]
  have ok: "suite_ok prefix inp" and h256: "''sha256'' \<in> set (activeHashTypes (in_HashTypes inp))"
    and rf: "release_fits env inp (index_files env inp (binary_jobs inp @ sources_jobs inp))"
    and small: "list_all (\<lambda>f. hf_size f < 2 ^ 63) (index_files env inp (binary_jobs inp @ sources_jobs inp))" using fits by blast+
  let ?jobs = "binary_jobs inp @ sources_jobs inp" and ?files = "index_files env inp (binary_jobs inp @ sources_jobs inp)"
  obtain segs where s: "s = rooted segs" using root_okD[OF assms(1)] by blast
  have keys: "\<forall>segs. list_all name_ok segs \<and> segs \<noteq> [] \<longrightarrow> published_key (join ''/'' (suite_segs prefix inp @ segs))"
    using suite_path_key[OF ok] by blast
  note pub = fsw.suite_published[OF ok assms(4) assms(3)[unfolded s] keys later[unfolded s], folded dist_def s]
  note dist = index_files_distinct[OF ok GenerateSuite_writes(2)[OF assms(3)]]
  have word: "hex_digest h \<Longrightarrow> is_word h" for h using hex_name by (simp add: name_ok_def)
  have types: "\<exists>d r. f = (hashBytes env (hashTypesForHashing (in_HashTypes inp)) d)\<lparr>hf_rel := r\<rparr>" if "f \<in> set ?files" for f
    using index_file_hashed[OF that] .
  have w256: "is_word (hf_sha256 f)" and w512: "hf_sha512 f \<noteq> [] \<Longrightarrow> is_word (hf_sha512 f)" and sz: "0 \<le> hf_size f" if "f \<in> set ?files" for f
    using types[OF that] sha256_always word assms(4,5) by (auto simp: hashBytes_def split: if_splits)
  have "list_all file_ok ?files" using dist(2) sz small by (auto simp: list_all_iff file_ok_def)
  from release_lists[OF rf this dist(1) _ _ h256] w256 w512 obtain rel where rel: "ParseRelease (buildRelease env inp ?files) = Inr rel"
      "\<forall>f\<in>set ?files. hf_sha256 f \<noteq> [] \<longrightarrow> (\<exists>fe. rel_Files rel (hf_rel f) = Some fe \<and> fe_Path fe = hf_rel f \<and> fe_Size fe = hf_size f \<and> fe_SHA256 fe = hf_sha256 f)"
    by blast
  have "path_join [dist, ''Release''] = join ''/'' (suite_segs prefix inp @ [''Release''])"
    using below_suite(1)[OF ok, of "[''Release'']"] top_names unfolding dist_def by simp
  then have r1: "fs_bytes s st' (path_join [dist, ''Release'']) = Some (buildRelease env inp ?files)" using pub(1) by simp
  have "\<exists>data fe. enc (stanza_text stanzas) = Some data \<and> fs_bytes s st' (path_join [dist, path @ suffix]) = Some data \<and>
         rel_Files rel (path @ suffix) = Some fe \<and> fe_Size fe = int (length data) \<and> fe_SHA256 fe = pe_sha256 env data \<and>
         (\<not> in_SkipByHash inp \<longrightarrow> (\<exists>copy. fs_bytes s st' (path_join [dist, byHashPath (path @ suffix) (fe_SHA256 fe)]) = Some copy \<and>
            pe_sha256 env copy = fe_SHA256 fe))"
    if j: "(path, stanzas) \<in> set ?jobs" and v: "(suffix, enc) \<in> set (variants env (in_Compression inp))" for path stanzas suffix enc
  proof -
    from pub(2)[OF j v] obtain d where d: "enc (stanza_text stanzas) = Some d" "fs_bytes s st' (path_join [dist, path @ suffix]) = Some d"
        "\<not> in_SkipByHash inp \<longrightarrow> (\<exists>d'. fs_bytes s st' (path_join [dist, byHashPath (path @ suffix) (pe_sha256 env d)]) = Some d' \<and> pe_sha256 env d' = pe_sha256 env d)"
        "(hashBytes env (hashTypesForHashing (in_HashTypes inp)) d)\<lparr>hf_rel := path @ suffix\<rparr> \<in> set ?files" by blast
    let ?f = "(hashBytes env (hashTypesForHashing (in_HashTypes inp)) d)\<lparr>hf_rel := path @ suffix\<rparr>"
    have f: "hf_sha256 ?f = pe_sha256 env d" "hf_rel ?f = path @ suffix" "hf_size ?f = int (length d)" using sha256_always by (auto simp: hashBytes_def)
    have "pe_sha256 env d \<noteq> []" using assms(4)[of d] by (simp add: hex_digest_def)
    with rel(2) d(4) f obtain fe where "rel_Files rel (path @ suffix) = Some fe" "fe_Size fe = int (length d)" "fe_SHA256 fe = pe_sha256 env d" by metis
    then show ?thesis using d(1-3) by auto
  qed
  then show ?thesis unfolding suite_served_def dist_def[symmetric] using r1 rel(1) by blast
qed



section \<open>Instances\<close>

definition wit_pub :: publish_env where
  "wit_pub = \<lparr>pe_md5 = (\<lambda>_. ''0''), pe_sha1 = (\<lambda>_. ''0''), pe_sha256 = (\<lambda>d. if length d < 20 then ''a'' else ''b''), pe_sha512 = (\<lambda>_. ''c''),
     pe_xz = Some, pe_gzip = (\<lambda>_ d. Some (rev d)), pe_zstd = (\<lambda>_. Some), pe_now = 0, pe_fmtDate = (\<lambda>_. ''d''), pe_key = Some (Some, Some)\<rparr>"

definition wit_suite :: SuiteInput where
  "wit_suite = \<lparr>in_OS = ''o'', in_Codename = ''c'', in_Suite = [], in_Origin = ''x'', in_Label = [], in_Description = [], in_Architectures = [''amd64''],
     in_Components = [''main''], in_Stanzas = (\<lambda>_ _. [''Package: a'']), in_SourceStanzas = [(''main'', [''Package: s''])], in_Date = None,
     in_Compression = \<lparr>cm_GZip = 9, cm_ZStd = 0, cm_XZ = False, cm_Plain = True\<rparr>, in_HashTypes = [], in_SkipByHash = False\<rparr>"


end
