(* ===== verification/Config.thy ===== *)
theory Config
  imports Avail Publish
begin

text \<open>
  Configuration (\<open>src/internal/config/config.go\<close>): the checks on a decoded configuration file, the resolution of its
  layouts against its upstream definitions, and the resolved settings the other components read.  The YAML decoder, the
  environment, the file system and the OpenPGP keyring reader are parameters; a Go map is listed in the order in which
  \<open>range\<close> visits it.
\<close>

section \<open>Definitions\<close>

record UpstreamDef =
  ud_URL :: string
  ud_Suite :: string
  ud_Component :: string
  ud_Architectures :: "string list"
  ud_AutoUpdate :: bool
  ud_Keys :: "string list"
  ud_Username :: string
  ud_Password :: string
  ud_UpstreamNetwork :: string

record ComponentLayout =
  co_Component :: string
  co_Architectures :: "string list"
  co_Upstreams :: "string list"
  co_Sources :: bool

record CodenameLayout =
  cn_Codename :: string
  cn_Architectures :: "string list"
  cn_HashTypes :: "string list"
  cn_Components :: "ComponentLayout list"

record OSLayout =
  ol_OS :: string
  ol_Architectures :: "string list"
  ol_HashTypes :: "string list"
  ol_Codenames :: "CodenameLayout list"

text \<open>A compression level: \<open>-1\<close> is disabled, \<open>0\<close> the default; an absent key is \<open>None\<close>.\<close>

record CompressionFormatConfig =
  fc_GZip :: "int option"
  fc_ZStd :: "int option"
  fc_XZ :: "int option"

record Config =
  cf_UpstreamNetwork :: string
  cf_Upstreams :: "(string \<times> UpstreamDef) list"
  cf_Layouts :: "OSLayout list"
  cf_Backend :: string
  cf_FilesystemRoot :: string
  cf_ValkeyEnabled :: bool
  cf_ValkeyURL :: string
  cf_Snapshot :: CompressionFormatConfig
  cf_Live :: CompressionFormatConfig
  cf_ResolvedLayouts :: "Layout list"

text \<open>What surrounds the process: its environment, the files it can read, the YAML decoder and the keyring reader.  An
  OpenPGP entity is known by its serialised form.\<close>

record config_env =
  ce_Getenv :: "string \<Rightarrow> string"
  ce_ReadFile :: "string \<Rightarrow> string option"
  ce_Unmarshal :: "string \<Rightarrow> Config option"
  ce_ReadKeyring :: "string \<Rightarrow> string list option"

datatype config_error = CfgRead | CfgParse | CfgInvalid string

text \<open>Durations and compression levels.\<close>

definition day_ns :: int where "day_ns = 24 * 3600 * 10 ^ 9"

text \<open>The product of the number of days is taken in 64 bits.\<close>

definition ParseDuration :: "(string \<Rightarrow> int option) \<Rightarrow> string \<Rightarrow> int option" where
  "ParseDuration time_ParseDuration s =
     (if s = [] \<or> s = ''0'' then Some 0
      else if has_suffix s ''d''
      then (case parse_int (trim_suffix s ''d'') of
              None \<Rightarrow> None
            | Some n \<Rightarrow> if n < 0 then None else Some (wrap64 (n * day_ns)))
      else time_ParseDuration s)"

definition RefreshInterval :: "(string \<Rightarrow> int option) \<Rightarrow> string \<Rightarrow> int" where
  "RefreshInterval time_ParseDuration s =
     (if s = [] \<or> s = ''0'' then 0 else case time_ParseDuration s of None \<Rightarrow> 0 | Some d \<Rightarrow> d)"

definition ResolveLevel :: "int \<Rightarrow> int \<Rightarrow> int" where
  "ResolveLevel c def = (if c < 0 then 0 else if c = 0 then def else c)"

definition resolveLevelPtr :: "int option \<Rightarrow> int \<Rightarrow> int" where
  "resolveLevelPtr c def = (case c of None \<Rightarrow> def | Some c \<Rightarrow> ResolveLevel c def)"

definition xzEnabled :: "int option \<Rightarrow> bool \<Rightarrow> bool" where
  "xzEnabled c enabledByDefault = (case c of None \<Rightarrow> enabledByDefault | Some c \<Rightarrow> c \<noteq> - 1)"

definition ResolveSnapshot :: "CompressionFormatConfig \<Rightarrow> Compression" where
  "ResolveSnapshot fc =
     (let def = DefaultSnapshotCompression
      in \<lparr>cm_GZip = resolveLevelPtr (fc_GZip fc) (cm_GZip def), cm_ZStd = resolveLevelPtr (fc_ZStd fc) (cm_ZStd def),
          cm_XZ = xzEnabled (fc_XZ fc) (cm_XZ def), cm_Plain = False\<rparr>)"

definition ResolveLive :: "CompressionFormatConfig \<Rightarrow> Compression" where
  "ResolveLive fc =
     (let def = DefaultLiveCompression
      in \<lparr>cm_GZip = resolveLevelPtr (fc_GZip fc) (cm_GZip def), cm_ZStd = resolveLevelPtr (fc_ZStd fc) (cm_ZStd def),
          cm_XZ = xzEnabled (fc_XZ fc) (cm_XZ def), cm_Plain = False\<rparr>)"

text \<open>Placeholders.  \<open>strings.NewReplacer\<close> tries its pairs in order at every position and does not look at what it
  has put in.\<close>

function replacer :: "(string \<times> string) list \<Rightarrow> string \<Rightarrow> string" where
  "replacer pairs s =
     (case s of
        [] \<Rightarrow> []
      | c # cs \<Rightarrow>
          (case List.find (\<lambda>(old, _). old \<noteq> [] \<and> has_prefix s old) pairs of
             None \<Rightarrow> c # replacer pairs cs
           | Some (old, new) \<Rightarrow> new @ replacer pairs (drop (length old) s)))"
  by pat_completeness auto
termination
  by (relation "measure (length \<circ> snd)") (auto dest!: find_Some_iff[THEN iffD1] simp: has_prefix_def)

definition expandPlaceholders :: "string \<Rightarrow> string \<Rightarrow> string \<Rightarrow> string \<Rightarrow> string" where
  "expandPlaceholders s osName codename component =
     replacer [(''{codename}'', codename), (''{component}'', component), (''{os}'', osName)] s"

definition expandEnvRef :: "(string \<Rightarrow> string) \<Rightarrow> string \<Rightarrow> string" where
  "expandEnvRef getenv s = (if has_prefix s ''$'' then getenv (trim_prefix s ''$'') else s)"

text \<open>References inside a value: \<open>os.Expand\<close> with its shell names, and the escape for a dollar sign around it.\<close>

definition isShellSpecialVar :: "char \<Rightarrow> bool" where
  "isShellSpecialVar c = (c \<in> set ''*#$@!?-0123456789'')"

definition isAlphaNum :: "char \<Rightarrow> bool" where
  "isAlphaNum c = (c = CHR ''_'' \<or> isDigit c \<or> isAlpha c)"

text \<open>The name after a dollar sign and the number of bytes it takes.\<close>

definition getShellName :: "string \<Rightarrow> string \<times> nat" where
  "getShellName s =
     (if hd s = CHR ''{''
      then (if length s > 2 \<and> isShellSpecialVar (s ! 1) \<and> s ! 2 = CHR ''}'' then ([s ! 1], 3)
            else let name = takeWhile (\<lambda>c. c \<noteq> CHR ''}'') (tl s)
                 in if length name = length (tl s) then ([], 1)
                    else if name = [] then ([], 2) else (name, length name + 2))
      else if isShellSpecialVar (hd s) then ([hd s], 1)
      else let name = takeWhile isAlphaNum s in (name, length name))"

function os_Expand :: "(string \<Rightarrow> string) \<Rightarrow> string \<Rightarrow> string" where
  "os_Expand mapping [] = []"
| "os_Expand mapping (c # s) =
     (if c = CHR ''$'' \<and> s \<noteq> []
      then (let (name, w) = getShellName s
            in (if name = [] \<and> w > 0 then [] else if name = [] then [c] else mapping name) @ os_Expand mapping (drop w s))
      else c # os_Expand mapping s)"
  by pat_completeness auto
termination
  by (relation "measure (length \<circ> snd)") (auto simp: less_Suc_eq_le)

definition dollar_sentinel :: string where
  "dollar_sentinel = [CHR 0x00] @ ''dollar'' @ [CHR 0x00]"

definition expandURLEnvRefs :: "(string \<Rightarrow> string) \<Rightarrow> string \<Rightarrow> string" where
  "expandURLEnvRefs getenv s =
     (let escaped = replacer [(''$$'', dollar_sentinel)] s;
          expanded = os_Expand getenv escaped
      in replacer [(dollar_sentinel, ''$'')] expanded)"

text \<open>Keyrings.\<close>

definition readKeyFile :: "config_env \<Rightarrow> string \<Rightarrow> string list option" where
  "readKeyFile env path =
     (case ce_ReadFile env path of
        None \<Rightarrow> None
      | Some data \<Rightarrow> if trim_space data = [] then Some [] else ce_ReadKeyring env data)"

fun read_keys :: "config_env \<Rightarrow> string list \<Rightarrow> string list option" where
  "read_keys env [] = Some []"
| "read_keys env (p # ps) =
     (case readKeyFile env p of
        None \<Rightarrow> None
      | Some keys \<Rightarrow> map_option (\<lambda>rest. keys @ rest) (read_keys env ps))"

definition loadKeyring :: "config_env \<Rightarrow> string list \<Rightarrow> string list option" where
  "loadKeyring env paths =
     (case read_keys env paths of None \<Rightarrow> None | Some entities \<Rightarrow> if entities = [] then None else Some entities)"

definition keyring :: "config_env \<Rightarrow> string list \<Rightarrow> string list" where
  "keyring env paths = (case loadKeyring env paths of None \<Rightarrow> [] | Some entities \<Rightarrow> entities)"

text \<open>Validation.\<close>

definition known_networks :: "string list" where
  "known_networks = [[], ''ipv4'', ''ipv6'']"

definition applyEnvOverrides :: "config_env \<Rightarrow> Config \<Rightarrow> Config" where
  "applyEnvOverrides env c =
     (let root = ce_Getenv env ''DEBPROXY_STORAGE_FILESYSTEM_ROOT'';
          c = (if root \<noteq> [] then c\<lparr>cf_FilesystemRoot := root\<rparr> else c);
          backend = ce_Getenv env ''DEBPROXY_STORAGE_BACKEND''
      in if backend \<noteq> [] then c\<lparr>cf_Backend := backend\<rparr> else c)"

definition validate :: "Config \<Rightarrow> config_error option" where
  "validate c =
     (if cf_Backend c \<noteq> ''filesystem'' \<and> cf_Backend c \<noteq> ''s3'' then Some (CfgInvalid ''storage.backend'')
      else if cf_Backend c = ''filesystem'' \<and> cf_FilesystemRoot c = [] then Some (CfgInvalid ''storage.filesystem.root'')
      else if cf_UpstreamNetwork c \<notin> set known_networks then Some (CfgInvalid ''upstream_network'')
      else if cf_Upstreams c = [] then Some (CfgInvalid ''upstreams'')
      else if cf_Layouts c = [] then Some (CfgInvalid ''layouts'')
      else if cf_ValkeyEnabled c \<and> cf_ValkeyURL c = [] then Some (CfgInvalid ''valkey.url'')
      else None)"

definition filterAll :: "string list \<Rightarrow> string list" where
  "filterAll archs = filter (\<lambda>a. a \<noteq> ''all'') archs"

definition mergeArchs :: "string list list \<Rightarrow> string list" where
  "mergeArchs layers = (case List.find (\<lambda>l. l \<noteq> []) (rev layers) of None \<Rightarrow> [] | Some l \<Rightarrow> l)"

definition check_upstream :: "config_env \<Rightarrow> string \<times> UpstreamDef \<Rightarrow> config_error option" where
  "check_upstream env u =
     (case u of (name, def) \<Rightarrow>
        if ud_URL def = [] then Some (CfgInvalid name)
        else if ud_Keys def = [] then Some (CfgInvalid name)
        else if ud_UpstreamNetwork def \<notin> set known_networks then Some (CfgInvalid name)
        else if loadKeyring env (ud_Keys def) = None then Some (CfgInvalid name)
        else None)"

definition resolve_upstream :: "config_env \<Rightarrow> Config \<Rightarrow> string \<Rightarrow> string \<Rightarrow> ComponentLayout \<Rightarrow> string list \<Rightarrow> string \<Rightarrow> UpstreamDef \<Rightarrow> UpstreamSource" where
  "resolve_upstream env c osName codename cmpt archs upName def =
     (let expand = (\<lambda>s. expandPlaceholders s osName codename (co_Component cmpt));
          upArchs = filterAll (ud_Architectures def)
      in \<lparr>us_Name = upName, us_URL = expand (ud_URL def),
          us_Suite = expand (if ud_Suite def = [] then ''{codename}'' else ud_Suite def),
          us_Component = str_fields (expand (if ud_Component def = [] then co_Component cmpt else ud_Component def)),
          us_Archs = (if upArchs = [] then archs else upArchs),
          us_AutoUpdate = ud_AutoUpdate def, us_FetchSources = co_Sources cmpt,
          us_VerifyKeys = keyring env (ud_Keys def), us_Username = ud_Username def, us_Password = expandEnvRef (ce_Getenv env) (ud_Password def),
          us_Network = (if ud_UpstreamNetwork def = [] then cf_UpstreamNetwork c else ud_UpstreamNetwork def)\<rparr>)"

definition resolve_component :: "config_env \<Rightarrow> Config \<Rightarrow> OSLayout \<Rightarrow> CodenameLayout \<Rightarrow> ComponentLayout \<Rightarrow> config_error + Layout" where
  "resolve_component env c ol cn cmpt =
     (let archs = filterAll (mergeArchs [ol_Architectures ol, cn_Architectures cn, co_Architectures cmpt]);
          hashTypes = mergeArchs [ol_HashTypes ol, cn_HashTypes cn];
          hashTypes = (if hashTypes = [] then [''sha256''] else hashTypes)
      in if co_Component cmpt = [] then Inl (CfgInvalid ''component'')
         else if co_Upstreams cmpt = [] then Inl (CfgInvalid ''upstreams'')
         else if archs = [] then Inl (CfgInvalid ''architectures'')
         else if list_ex (\<lambda>ht. ht \<notin> set [''sha256'', ''sha512'', ''sha1'', ''md5sum'']) hashTypes then Inl (CfgInvalid ''hash_type'')
         else case List.find (\<lambda>n. map_of (cf_Upstreams c) n = None) (co_Upstreams cmpt) of
                Some n \<Rightarrow> Inl (CfgInvalid n)
              | None \<Rightarrow>
                  Inr \<lparr>ly_OS = ol_OS ol, ly_Codename = cn_Codename cn, ly_Component = co_Component cmpt, ly_Archs = archs,
                       ly_HashTypes = hashTypes,
                       ly_Upstreams = map (\<lambda>n. resolve_upstream env c (ol_OS ol) (cn_Codename cn) cmpt archs n (the (map_of (cf_Upstreams c) n))) (co_Upstreams cmpt)\<rparr>)"

fun first_error :: "('a \<Rightarrow> 'x + 'c list) \<Rightarrow> 'a list \<Rightarrow> 'x + 'c list" where
  "first_error f [] = Inr []"
| "first_error f (x # xs) =
     (case f x of Inl e \<Rightarrow> Inl e | Inr ys \<Rightarrow> (case first_error f xs of Inl e \<Rightarrow> Inl e | Inr zs \<Rightarrow> Inr (ys @ zs)))"

definition resolveLayouts :: "config_env \<Rightarrow> Config \<Rightarrow> config_error + Layout list" where
  "resolveLayouts env c =
     (case List.map_filter (check_upstream env) (cf_Upstreams c) of
        e # _ \<Rightarrow> Inl e
      | [] \<Rightarrow>
          first_error (\<lambda>ol. if ol_OS ol = [] then Inl (CfgInvalid ''os'')
            else first_error (\<lambda>cn. if cn_Codename cn = [] then Inl (CfgInvalid ''codename'')
              else first_error (\<lambda>cmpt. case resolve_component env c ol cn cmpt of Inl e \<Rightarrow> Inl e | Inr l \<Rightarrow> Inr [l]) (cn_Components cn))
            (ol_Codenames ol)) (cf_Layouts c))"

definition Load :: "config_env \<Rightarrow> string \<Rightarrow> config_error + Config" where
  "Load env path =
     (case ce_ReadFile env path of
        None \<Rightarrow> Inl CfgRead
      | Some data \<Rightarrow>
          (case ce_Unmarshal env data of
             None \<Rightarrow> Inl CfgParse
           | Some c \<Rightarrow>
               let c = applyEnvOverrides env c;
                   c = c\<lparr>cf_ValkeyURL := expandURLEnvRefs (ce_Getenv env) (cf_ValkeyURL c)\<rparr>
               in case validate c of
                    Some e \<Rightarrow> Inl e
                  | None \<Rightarrow>
                      (case resolveLayouts env c of
                         Inl e \<Rightarrow> Inl e
                       | Inr layouts \<Rightarrow> Inr (c\<lparr>cf_ResolvedLayouts := layouts\<rparr>))))"

definition ComponentsAndArches :: "Layout list \<Rightarrow> string \<Rightarrow> string \<Rightarrow> string list \<times> string list" where
  "ComponentsAndArches layouts osName codename =
     (let ls = filter (\<lambda>l. ly_OS l = osName \<and> ly_Codename l = codename) layouts
      in (sort (remdups (map ly_Component ls)), sort (remdups (concat (map ly_Archs ls)))))"

definition HashTypesFor :: "Layout list \<Rightarrow> string \<Rightarrow> string \<Rightarrow> string list" where
  "HashTypesFor layouts osName codename =
     (case List.find (\<lambda>l. ly_OS l = osName \<and> ly_Codename l = codename) layouts of None \<Rightarrow> [''sha256''] | Some l \<Rightarrow> ly_HashTypes l)"

section \<open>Substitution\<close>

declare replacer.simps [simp del]

lemma replacer_nonempty:
  assumes "s \<noteq> []" "\<forall>(old, new) \<in> set pairs. new \<noteq> []"
  shows "replacer pairs s \<noteq> []"
proof (cases s)
  case (Cons c cs)
  show ?thesis
  proof (cases "List.find (\<lambda>(old, _). old \<noteq> [] \<and> has_prefix s old) pairs")
    case None
    then show ?thesis using Cons by (subst replacer.simps) simp
  next
    case (Some p)
    then have "p \<in> set pairs"
      by (metis (no_types, lifting) find_Some_iff nth_mem)
    then have "snd p \<noteq> []" using assms(2) by (cases p) auto
    then show ?thesis using Some Cons by (subst replacer.simps) (cases p, simp)
  qed
qed (use assms in simp)

lemma expandPlaceholders_nonempty:
  "s \<noteq> [] \<Longrightarrow> osName \<noteq> [] \<Longrightarrow> codename \<noteq> [] \<Longrightarrow> component \<noteq> [] \<Longrightarrow> expandPlaceholders s osName codename component \<noteq> []"
  unfolding expandPlaceholders_def by (rule replacer_nonempty) simp_all

lemma os_Expand_plain: "CHR ''$'' \<notin> set s \<Longrightarrow> os_Expand mapping s = s"
  by (induction s) auto

text \<open>A single substitution, position by position.\<close>

lemma replacer_single_nil [simp]: "replacer [(old, new)] [] = []"
  by (subst replacer.simps) simp

lemma replacer_single_hit:
  "old \<noteq> [] \<Longrightarrow> replacer [(old, new)] (old @ s) = new @ replacer [(old, new)] s"
  by (cases old) (simp_all add: replacer.simps[of _ "_ # _"] has_prefix_def)

lemma replacer_single_miss:
  "\<not> has_prefix (c # s) old \<Longrightarrow> replacer [(old, new)] (c # s) = c # replacer [(old, new)] s"
  by (subst replacer.simps) simp

text \<open>Writing every dollar sign twice.\<close>

fun escape_dollar :: "string \<Rightarrow> string" where
  "escape_dollar [] = []"
| "escape_dollar (c # s) = (if c = CHR ''$'' then ''$$'' @ escape_dollar s else c # escape_dollar s)"

fun mask_dollar :: "string \<Rightarrow> string" where
  "mask_dollar [] = []"
| "mask_dollar (c # s) = (if c = CHR ''$'' then dollar_sentinel @ mask_dollar s else c # mask_dollar s)"

lemma replacer_escape_dollar: "replacer [(''$$'', dollar_sentinel)] (escape_dollar s) = mask_dollar s"
proof (induction s)
  case (Cons c s)
  show ?case
  proof (cases "c = CHR ''$''")
    case True
    then show ?thesis using Cons replacer_single_hit[of "''$$''" dollar_sentinel "escape_dollar s"] by simp
  next
    case False
    then have "\<not> has_prefix (c # escape_dollar s) ''$$''" by (simp add: has_prefix_def)
    then show ?thesis using False Cons by (simp add: replacer_single_miss)
  qed
qed simp

lemma mask_dollar_plain: "CHR ''$'' \<notin> set (mask_dollar s)"
  by (induction s) (simp_all add: dollar_sentinel_def)

lemma unmask_dollar: "CHR 0x00 \<notin> set s \<Longrightarrow> replacer [(dollar_sentinel, ''$'')] (mask_dollar s) = s"
proof (induction s)
  case (Cons c s)
  show ?case
  proof (cases "c = CHR ''$''")
    case True
    have "dollar_sentinel \<noteq> []" by (simp add: dollar_sentinel_def)
    then show ?thesis using True Cons replacer_single_hit[of dollar_sentinel "''$''" "mask_dollar s"] by simp
  next
    case False
    then have "\<not> has_prefix (c # mask_dollar s) dollar_sentinel"
      using Cons.prems by (auto simp: has_prefix_def dollar_sentinel_def)
    then show ?thesis using False Cons by (simp add: replacer_single_miss)
  qed
qed simp

lemma expandURLEnvRefs_escape_dollar:
  "CHR 0x00 \<notin> set s \<Longrightarrow> expandURLEnvRefs getenv (escape_dollar s) = s"
  by (simp add: expandURLEnvRefs_def replacer_escape_dollar os_Expand_plain mask_dollar_plain unmask_dollar)

section \<open>Resolution\<close>

text \<open>Where each element resolves exactly under a condition, the whole list does.\<close>

lemma first_error_spec:
  assumes "\<And>x ys. f x = Inr ys \<longleftrightarrow> P x \<and> ys = g x"
  shows "first_error f xs = Inr zs \<longleftrightarrow> (\<forall>x \<in> set xs. P x) \<and> zs = concat (map g xs)"
proof (induction xs arbitrary: zs)
  case (Cons x xs)
  have all: "(\<exists>ys. first_error f xs = Inr ys) \<longleftrightarrow> (\<forall>x \<in> set xs. P x)"
    using Cons by blast
  have hd: "(\<exists>ys. f x = Inr ys) \<longleftrightarrow> P x" "f x = Inr ys \<Longrightarrow> ys = g x" for ys
    using assms by blast+
  show ?case
  proof (cases "first_error f xs")
    case (Inl e)
    then show ?thesis using all hd by (cases "f x") auto
  next
    case (Inr ys)
    then have "ys = concat (map g xs)" using Cons by blast
    then show ?thesis using Inr all hd by (cases "f x") auto
  qed
qed auto

lemma guarded_first_error_spec:
  assumes "\<And>x ys. f x = Inr ys \<longleftrightarrow> P x \<and> ys = g x"
  shows "(if b then Inl e else first_error f xs) = Inr zs \<longleftrightarrow> (\<not> b \<and> (\<forall>x \<in> set xs. P x)) \<and> zs = concat (map g xs)"
  using first_error_spec[of f P g, OF assms] by simp

text \<open>What a configuration must satisfy.\<close>

definition hash_type_names :: "string list" where
  "hash_type_names = [''sha256'', ''sha512'', ''sha1'', ''md5sum'']"

definition upstream_valid :: "config_env \<Rightarrow> UpstreamDef \<Rightarrow> bool" where
  "upstream_valid env def \<longleftrightarrow> ud_URL def \<noteq> [] \<and> ud_Keys def \<noteq> [] \<and> ud_UpstreamNetwork def \<in> set known_networks \<and> keyring env (ud_Keys def) \<noteq> []"

definition layout_archs :: "OSLayout \<Rightarrow> CodenameLayout \<Rightarrow> ComponentLayout \<Rightarrow> string list" where
  "layout_archs ol cn cmpt = filterAll (mergeArchs [ol_Architectures ol, cn_Architectures cn, co_Architectures cmpt])"

definition layout_hashes :: "OSLayout \<Rightarrow> CodenameLayout \<Rightarrow> string list" where
  "layout_hashes ol cn =
     (if mergeArchs [ol_HashTypes ol, cn_HashTypes cn] = [] then [''sha256''] else mergeArchs [ol_HashTypes ol, cn_HashTypes cn])"

definition component_valid :: "Config \<Rightarrow> OSLayout \<Rightarrow> CodenameLayout \<Rightarrow> ComponentLayout \<Rightarrow> bool" where
  "component_valid c ol cn cmpt \<longleftrightarrow>
     co_Component cmpt \<noteq> [] \<and> co_Upstreams cmpt \<noteq> [] \<and> set (co_Upstreams cmpt) \<subseteq> fst ` set (cf_Upstreams c) \<and>
     layout_archs ol cn cmpt \<noteq> [] \<and> set (layout_hashes ol cn) \<subseteq> set hash_type_names"

definition layouts_valid :: "config_env \<Rightarrow> Config \<Rightarrow> bool" where
  "layouts_valid env c \<longleftrightarrow>
     (\<forall>(name, def) \<in> set (cf_Upstreams c). upstream_valid env def) \<and>
     (\<forall>ol \<in> set (cf_Layouts c). ol_OS ol \<noteq> [] \<and>
        (\<forall>cn \<in> set (ol_Codenames ol). cn_Codename cn \<noteq> [] \<and> (\<forall>cmpt \<in> set (cn_Components cn). component_valid c ol cn cmpt)))"

definition resolved_component :: "config_env \<Rightarrow> Config \<Rightarrow> OSLayout \<Rightarrow> CodenameLayout \<Rightarrow> ComponentLayout \<Rightarrow> Layout" where
  "resolved_component env c ol cn cmpt =
     \<lparr>ly_OS = ol_OS ol, ly_Codename = cn_Codename cn, ly_Component = co_Component cmpt, ly_Archs = layout_archs ol cn cmpt,
      ly_HashTypes = layout_hashes ol cn,
      ly_Upstreams = map (\<lambda>n. resolve_upstream env c (ol_OS ol) (cn_Codename cn) cmpt (layout_archs ol cn cmpt) n (the (map_of (cf_Upstreams c) n))) (co_Upstreams cmpt)\<rparr>"

definition resolved_layouts :: "config_env \<Rightarrow> Config \<Rightarrow> Layout list" where
  "resolved_layouts env c =
     [resolved_component env c ol cn cmpt. ol \<leftarrow> cf_Layouts c, cn \<leftarrow> ol_Codenames ol, cmpt \<leftarrow> cn_Components cn]"

lemma check_upstream_None: "check_upstream env (name, def) = None \<longleftrightarrow> upstream_valid env def"
proof (cases "loadKeyring env (ud_Keys def)")
  case (Some ks)
  then have "ks \<noteq> []" by (auto simp: loadKeyring_def split: option.splits if_splits)
  then show ?thesis using Some by (simp add: check_upstream_def upstream_valid_def keyring_def)
qed (simp add: check_upstream_def upstream_valid_def keyring_def)

lemma find_unknown_None:
  "List.find (\<lambda>n. map_of us n = None) ns = None \<longleftrightarrow> set ns \<subseteq> fst ` set us"
  by (auto simp: find_None_iff map_of_eq_None_iff)

lemma resolve_component_Inr:
  "resolve_component env c ol cn cmpt = Inr l \<longleftrightarrow> component_valid c ol cn cmpt \<and> l = resolved_component env c ol cn cmpt"
proof (cases "List.find (\<lambda>n. map_of (cf_Upstreams c) n = None) (co_Upstreams cmpt)")
  case None
  then have "set (co_Upstreams cmpt) \<subseteq> fst ` set (cf_Upstreams c)" by (simp add: find_unknown_None)
  moreover have "list_ex (\<lambda>ht. ht \<notin> set hash_type_names) (layout_hashes ol cn) \<longleftrightarrow> \<not> set (layout_hashes ol cn) \<subseteq> set hash_type_names"
    by (auto simp: list_ex_iff)
  ultimately show ?thesis
    unfolding resolve_component_def Let_def layout_archs_def[symmetric] layout_hashes_def[symmetric] hash_type_names_def[symmetric]
    by (auto simp: None component_valid_def resolved_component_def)
next
  case (Some n)
  then have "\<not> set (co_Upstreams cmpt) \<subseteq> fst ` set (cf_Upstreams c)"
    using find_unknown_None[of "cf_Upstreams c" "co_Upstreams cmpt"] by simp
  then show ?thesis using Some by (simp add: resolve_component_def Let_def component_valid_def)
qed

lemma resolve_component_list_Inr:
  "(case resolve_component env c ol cn cmpt of Inl e \<Rightarrow> Inl e | Inr l \<Rightarrow> Inr [l]) = Inr ls \<longleftrightarrow>
   component_valid c ol cn cmpt \<and> ls = [resolved_component env c ol cn cmpt]"
proof (cases "resolve_component env c ol cn cmpt")
  case (Inl e)
  then show ?thesis using resolve_component_Inr[of env c ol cn cmpt "resolved_component env c ol cn cmpt"] by simp
next
  case (Inr l)
  then show ?thesis using resolve_component_Inr[of env c ol cn cmpt l] by auto
qed

lemma map_filter_Nil_iff: "List.map_filter f xs = [] \<longleftrightarrow> (\<forall>x \<in> set xs. f x = None)"
  by (induction xs) (auto simp: List.map_filter_simps split: option.splits)

lemma resolveLayouts_Inr:
  "resolveLayouts env c = Inr ls \<longleftrightarrow> layouts_valid env c \<and> ls = resolved_layouts env c"
proof -
  have up: "List.map_filter (check_upstream env) (cf_Upstreams c) = [] \<longleftrightarrow> (\<forall>(name, def) \<in> set (cf_Upstreams c). upstream_valid env def)"
    by (auto simp: map_filter_Nil_iff check_upstream_None)
  have components: "first_error (\<lambda>cmpt. case resolve_component env c ol cn cmpt of Inl e \<Rightarrow> Inl e | Inr l \<Rightarrow> Inr [l]) cs = Inr zs \<longleftrightarrow>
      (\<forall>cmpt \<in> set cs. component_valid c ol cn cmpt) \<and> zs = map (resolved_component env c ol cn) cs" for ol cn cs zs
    by (subst first_error_spec[where P = "component_valid c ol cn" and g = "\<lambda>cmpt. [resolved_component env c ol cn cmpt]"])
      (simp_all add: resolve_component_list_Inr)
  have "first_error (\<lambda>ol. if ol_OS ol = [] then Inl (CfgInvalid ''os'')
            else first_error (\<lambda>cn. if cn_Codename cn = [] then Inl (CfgInvalid ''codename'')
              else first_error (\<lambda>cmpt. case resolve_component env c ol cn cmpt of Inl e \<Rightarrow> Inl e | Inr l \<Rightarrow> Inr [l]) (cn_Components cn))
            (ol_Codenames ol)) (cf_Layouts c) = Inr ls \<longleftrightarrow>
        (\<forall>ol \<in> set (cf_Layouts c). ol_OS ol \<noteq> [] \<and>
          (\<forall>cn \<in> set (ol_Codenames ol). cn_Codename cn \<noteq> [] \<and> (\<forall>cmpt \<in> set (cn_Components cn). component_valid c ol cn cmpt))) \<and>
        ls = resolved_layouts env c"
    unfolding resolved_layouts_def
    by (rule first_error_spec, rule guarded_first_error_spec) (simp add: components)
  then show ?thesis
    unfolding resolveLayouts_def layouts_valid_def up[symmetric]
    by (cases "List.map_filter (check_upstream env) (cf_Upstreams c)") simp_all
qed

text \<open>A well-formed resolved layout.\<close>

definition upstream_ok :: "UpstreamSource \<Rightarrow> bool" where
  "upstream_ok u \<longleftrightarrow> us_URL u \<noteq> [] \<and> us_Suite u \<noteq> [] \<and> us_Archs u \<noteq> [] \<and> ''all'' \<notin> set (us_Archs u) \<and>
     us_VerifyKeys u \<noteq> [] \<and> us_Network u \<in> set known_networks"

definition layout_ok :: "Layout \<Rightarrow> bool" where
  "layout_ok l \<longleftrightarrow> ly_OS l \<noteq> [] \<and> ly_Codename l \<noteq> [] \<and> ly_Component l \<noteq> [] \<and> ly_Archs l \<noteq> [] \<and> ''all'' \<notin> set (ly_Archs l) \<and>
     ly_HashTypes l \<noteq> [] \<and> set (ly_HashTypes l) \<subseteq> set hash_type_names \<and> ly_Upstreams l \<noteq> [] \<and> list_all upstream_ok (ly_Upstreams l)"

lemma filterAll_no_all [simp]: "''all'' \<notin> set (filterAll archs)"
  by (simp add: filterAll_def)

lemma resolve_upstream_ok:
  assumes "upstream_valid env def" "cf_UpstreamNetwork c \<in> set known_networks" "osName \<noteq> []" "codename \<noteq> []"
    and "co_Component cmpt \<noteq> []" "archs \<noteq> []" "''all'' \<notin> set archs"
  shows "upstream_ok (resolve_upstream env c osName codename cmpt archs n def)"
  using assms by (simp add: upstream_ok_def resolve_upstream_def Let_def upstream_valid_def expandPlaceholders_nonempty)

lemma resolved_component_ok:
  assumes "component_valid c ol cn cmpt" "\<forall>(name, def) \<in> set (cf_Upstreams c). upstream_valid env def"
    and "cf_UpstreamNetwork c \<in> set known_networks" "ol_OS ol \<noteq> []" "cn_Codename cn \<noteq> []"
  shows "layout_ok (resolved_component env c ol cn cmpt)"
proof -
  have "upstream_valid env (the (map_of (cf_Upstreams c) n))" if "n \<in> set (co_Upstreams cmpt)" for n
  proof -
    have "n \<in> fst ` set (cf_Upstreams c)" using that assms(1) by (auto simp: component_valid_def)
    then obtain def where "map_of (cf_Upstreams c) n = Some def" by (metis map_of_eq_None_iff not_None_eq)
    then show ?thesis using assms(2) map_of_SomeD by fastforce
  qed
  moreover have "''all'' \<notin> set (layout_archs ol cn cmpt)" by (simp add: layout_archs_def)
  ultimately have "list_all upstream_ok (ly_Upstreams (resolved_component env c ol cn cmpt))"
    using assms by (simp add: resolved_component_def list_all_iff component_valid_def resolve_upstream_ok)
  then show ?thesis
    using assms by (simp add: layout_ok_def component_valid_def resolved_component_def layout_archs_def layout_hashes_def)
qed

text \<open>What \<open>Load\<close> works on: the decoded file with the environment applied.\<close>

definition effective :: "config_env \<Rightarrow> Config \<Rightarrow> Config" where
  "effective env c = (let c = applyEnvOverrides env c in c\<lparr>cf_ValkeyURL := expandURLEnvRefs (ce_Getenv env) (cf_ValkeyURL c)\<rparr>)"

definition settings_valid :: "Config \<Rightarrow> bool" where
  "settings_valid c \<longleftrightarrow>
     cf_Backend c \<in> {''filesystem'', ''s3''} \<and> (cf_Backend c = ''filesystem'' \<longrightarrow> cf_FilesystemRoot c \<noteq> []) \<and>
     cf_UpstreamNetwork c \<in> set known_networks \<and> cf_Upstreams c \<noteq> [] \<and> cf_Layouts c \<noteq> [] \<and>
     (cf_ValkeyEnabled c \<longrightarrow> cf_ValkeyURL c \<noteq> [])"

lemma validate_None: "validate c = None \<longleftrightarrow> settings_valid c"
  unfolding validate_def settings_valid_def by simp

lemma resolved_case:
  "(case resolveLayouts env e of Inl x \<Rightarrow> Inl x | Inr ls \<Rightarrow> Inr (h ls)) = Inr c \<longleftrightarrow> layouts_valid env e \<and> c = h (resolved_layouts env e)"
proof (cases "resolveLayouts env e")
  case (Inl x)
  then show ?thesis using resolveLayouts_Inr[of env e "resolved_layouts env e"] by simp
next
  case (Inr ls)
  then show ?thesis using resolveLayouts_Inr[of env e ls] by auto
qed

lemma Load_Inr:
  "Load env path = Inr c \<longleftrightarrow>
   (\<exists>data c0. ce_ReadFile env path = Some data \<and> ce_Unmarshal env data = Some c0 \<and> settings_valid (effective env c0) \<and>
      layouts_valid env (effective env c0) \<and> c = (effective env c0)\<lparr>cf_ResolvedLayouts := resolved_layouts env (effective env c0)\<rparr>)"
proof (cases "ce_ReadFile env path")
  case (Some data)
  show ?thesis
  proof (cases "ce_Unmarshal env data")
    case (Some c0)
    define e where "e = effective env c0"
    have e: "Load env path = (case validate e of Some x \<Rightarrow> Inl x | None \<Rightarrow>
        (case resolveLayouts env e of Inl x \<Rightarrow> Inl x | Inr ls \<Rightarrow> Inr (e\<lparr>cf_ResolvedLayouts := ls\<rparr>)))"
      unfolding Load_def e_def effective_def Let_def using Some \<open>ce_ReadFile env path = Some data\<close> by simp
    have "Load env path = Inr c \<longleftrightarrow> settings_valid e \<and> layouts_valid env e \<and> c = e\<lparr>cf_ResolvedLayouts := resolved_layouts env e\<rparr>"
    proof (cases "validate e")
      case None
      then have "settings_valid e" by (simp add: validate_None)
      moreover have "Load env path = (case resolveLayouts env e of Inl x \<Rightarrow> Inl x | Inr ls \<Rightarrow> Inr (e\<lparr>cf_ResolvedLayouts := ls\<rparr>))"
        unfolding e None by (simp only: option.case)
      moreover have "\<dots> = Inr c \<longleftrightarrow> layouts_valid env e \<and> c = e\<lparr>cf_ResolvedLayouts := resolved_layouts env e\<rparr>"
        by (rule resolved_case)
      ultimately show ?thesis by simp
    next
      case (Some x)
      then show ?thesis using validate_None[of e] unfolding e by simp
    qed
    then show ?thesis unfolding \<open>ce_ReadFile env path = Some data\<close> e_def by (simp add: Some)
  qed (simp add: Load_def Some)
qed (simp add: Load_def)

section \<open>Properties\<close>

text \<open>C34: Whatever configuration file is loaded, every layout of the result is well formed: its operating system, codename
  and component are named, it has architectures (never the pseudo-architecture \<open>all\<close>), hash types out of the four known
  ones and upstreams, and each of those has an address, a suite, architectures, a known address family and at least one
  key to verify its Release file with.\<close>

theorem Load_layouts_ok:
  assumes "Load env path = Inr c" "l \<in> set (cf_ResolvedLayouts c)"
  shows "layout_ok l"
proof -
  obtain c0 where c0: "settings_valid (effective env c0)" "layouts_valid env (effective env c0)"
      "c = (effective env c0)\<lparr>cf_ResolvedLayouts := resolved_layouts env (effective env c0)\<rparr>"
    using assms(1) unfolding Load_Inr by blast
  then obtain ol cn cmpt where "ol \<in> set (cf_Layouts (effective env c0))" "cn \<in> set (ol_Codenames ol)" "cmpt \<in> set (cn_Components cn)"
      "l = resolved_component env (effective env c0) ol cn cmpt"
    using assms(2) by (auto simp: resolved_layouts_def)
  then show ?thesis
    using c0(1,2) resolved_component_ok unfolding layouts_valid_def settings_valid_def by blast
qed

text \<open>A configuration with one upstream and one layout.\<close>

definition ex_config :: Config where
  "ex_config = \<lparr>cf_UpstreamNetwork = ''ipv4'',
     cf_Upstreams = [(''debian'', \<lparr>ud_URL = ''http://m/{os}'', ud_Suite = [], ud_Component = [], ud_Architectures = [], ud_AutoUpdate = True,
        ud_Keys = [''k''], ud_Username = [], ud_Password = [], ud_UpstreamNetwork = []\<rparr>)],
     cf_Layouts = [\<lparr>ol_OS = ''debian'', ol_Architectures = [''amd64'', ''all''], ol_HashTypes = [],
        ol_Codenames = [\<lparr>cn_Codename = ''sid'', cn_Architectures = [], cn_HashTypes = [],
          cn_Components = [\<lparr>co_Component = ''main'', co_Architectures = [], co_Upstreams = [''debian''], co_Sources = False\<rparr>]\<rparr>]\<rparr>],
     cf_Backend = ''s3'', cf_FilesystemRoot = [], cf_ValkeyEnabled = False, cf_ValkeyURL = [],
     cf_Snapshot = \<lparr>fc_GZip = None, fc_ZStd = None, fc_XZ = None\<rparr>, cf_Live = \<lparr>fc_GZip = None, fc_ZStd = None, fc_XZ = None\<rparr>,
     cf_ResolvedLayouts = []\<rparr>"

definition ex_config_env :: config_env where
  "ex_config_env = \<lparr>ce_Getenv = (\<lambda>_. []), ce_ReadFile = (\<lambda>p. if p = ''c'' then Some ''x'' else if p = ''k'' then Some ''y'' else None),
     ce_Unmarshal = (\<lambda>_. Some ex_config), ce_ReadKeyring = (\<lambda>_. Some [''key''])\<rparr>"

definition ex_layout :: Layout where
  "ex_layout = \<lparr>ly_OS = ''debian'', ly_Codename = ''sid'', ly_Component = ''main'', ly_Archs = [''amd64''], ly_HashTypes = [''sha256''],
     ly_Upstreams = [\<lparr>us_Name = ''debian'', us_URL = ''http://m/debian'', us_Suite = ''sid'', us_Component = [''main''], us_Archs = [''amd64''],
       us_AutoUpdate = True, us_FetchSources = False, us_VerifyKeys = [''key''], us_Username = [], us_Password = [], us_Network = ''ipv4''\<rparr>]\<rparr>"

lemma ex_config_loads: "Load ex_config_env ''c'' = Inr (ex_config\<lparr>cf_ResolvedLayouts := [ex_layout]\<rparr>)"
  by code_simp

theorem Load_layouts_ok_witness: "layout_ok ex_layout"
  using Load_layouts_ok[OF ex_config_loads, of ex_layout] by simp

text \<open>Loading succeeds exactly when the file can be read and decoded, the settings are valid and every upstream and every
  layout component is valid; the result is then the decoded file with the environment applied and one layout per
  component, in the order of the file.  Every other input is an error.\<close>

theorem Load_exact:
  "Load env path = Inr c \<longleftrightarrow>
   (\<exists>data c0. ce_ReadFile env path = Some data \<and> ce_Unmarshal env data = Some c0 \<and> settings_valid (effective env c0) \<and>
      layouts_valid env (effective env c0) \<and> c = (effective env c0)\<lparr>cf_ResolvedLayouts := resolved_layouts env (effective env c0)\<rparr>)"
  by (rule Load_Inr)

text \<open>In the cache server's address a dollar sign written twice stands for itself: an address without NUL bytes whose
  dollar signs are all doubled expands to itself, whatever the environment holds.\<close>

theorem expandURLEnvRefs_literal:
  "CHR 0x00 \<notin> set s \<Longrightarrow> expandURLEnvRefs getenv (escape_dollar s) = s"
  by (rule expandURLEnvRefs_escape_dollar)

theorem expandURLEnvRefs_literal_witness:
  "expandURLEnvRefs (\<lambda>_. ''v'') ''valkey://u:p$$w@h'' = ''valkey://u:p$w@h''"
  using expandURLEnvRefs_literal[of "''valkey://u:p$w@h''" "\<lambda>_. ''v''"] by simp

end
