(* ===== verification/Snapshot.thy ===== *)
theory Snapshot
  imports Cleanup Config
begin

text \<open>
  Publication of snapshots (\<open>src/internal/syncer/syncer.go\<close>): the suite of one layout built from the metadata index, the
  snapshot tree and the \<open>current\<close> tree, and the file that names the current snapshot.  The clock is in nanoseconds since
  the first day of year 1, in UTC; the orders in which \<open>range\<close> visits the maps are parameters.
\<close>

section \<open>Definitions\<close>

text \<open>\<open>Time.Format\<close> for the layout \<open>SnapshotIDFormat\<close>: the date is found by stepping through the years and months.\<close>

definition pad :: "nat \<Rightarrow> nat \<Rightarrow> string" where
  "pad w n = replicate (w - length (nat_digits n)) CHR ''0'' @ nat_digits n"

lemma div_step: "0 < n \<Longrightarrow> y div n = (y - 1) div n + (if y mod n = 0 then 1 else 0)" for y n :: int
proof -
  assume n: "0 < n"
  have y: "y = n * (y div n) + y mod n" "0 \<le> y mod n" "y mod n < n" using n by simp_all
  show ?thesis
  proof (cases "y mod n = 0")
    case True
    then have "y - 1 = n * (y div n - 1) + (n - 1)" using y(1) by (simp add: algebra_simps)
    then have "(y - 1) div n = y div n - 1" by (rule int_div_pos_eq) (use n in simp_all)
    then show ?thesis using True by simp
  next
    case False
    then have "y - 1 = n * (y div n) + (y mod n - 1)" using y(1) by simp
    then have "(y - 1) div n = y div n" by (rule int_div_pos_eq) (use False y(2,3) in linarith)+
    then show ?thesis using False by simp
  qed
qed

lemma next_year: "civil_day (y + 1) 1 1 = civil_day y 1 1 + (if leap y then 366 else 365)"
proof -
  have a: "civil_day (z + 1) 1 1 = 365 * z + z div 4 - z div 100 + z div 400" for z by (simp add: civil_day_def)
  have b: "civil_day y 1 1 = 365 * (y - 1) + (y - 1) div 4 - (y - 1) div 100 + (y - 1) div 400" using a[of "y - 1"] by simp
  have m: "y mod 400 = 0 \<Longrightarrow> y mod 100 = 0" "y mod 100 = 0 \<Longrightarrow> y mod 4 = 0"
    using mod_mod_cancel[of 100 400 y] mod_mod_cancel[of 4 100 y] by simp_all
  have st: "y div 4 = (y - 1) div 4 + (if y mod 4 = 0 then 1 else 0)" "y div 100 = (y - 1) div 100 + (if y mod 100 = 0 then 1 else 0)"
    "y div 400 = (y - 1) div 400 + (if y mod 400 = 0 then 1 else 0)" by (rule div_step, simp)+
  define p q r a4 a100 a400 where pq: "p \<longleftrightarrow> y mod 4 = 0" "q \<longleftrightarrow> y mod 100 = 0" "r \<longleftrightarrow> y mod 400 = 0"
    and as: "a4 = (y - 1) div 4" "a100 = (y - 1) div 100" "a400 = (y - 1) div 400"
  have "r \<Longrightarrow> q" "q \<Longrightarrow> p" unfolding pq by (fact m)+
  then have "365 * y + (a4 + (if p then 1 else 0)) - (a100 + (if q then 1 else 0)) + (a400 + (if r then 1 else 0)) =
      365 * (y - 1) + a4 - a100 + a400 + (if p \<and> (\<not> q \<or> r) then 366 else 365)" by auto
  then show ?thesis unfolding pq as a b leap_def st .
qed

function year_from :: "int \<Rightarrow> int \<Rightarrow> int" where
  "year_from day y = (if civil_day (y + 1) 1 1 \<le> day then year_from day (y + 1) else y)"
  by pat_completeness auto
termination
  by (relation "measure (\<lambda>(day, y). nat (day + 366 - civil_day y 1 1))") (auto simp: next_year split: if_splits)

declare year_from.simps [simp del]

function month_from :: "int \<Rightarrow> int \<Rightarrow> int \<Rightarrow> int" where
  "month_from day y m = (if m < 12 \<and> civil_day y (m + 1) 1 \<le> day then month_from day y (m + 1) else m)"
  by pat_completeness auto
termination
  by (relation "measure (\<lambda>(day, y, m). nat (12 - m))") auto

declare month_from.simps [simp del]

definition civil_of :: "int \<Rightarrow> int \<times> int \<times> int" where
  "civil_of day =
     (let y = year_from day (day div 366 + 1); m = month_from day y 1 in (y, m, day - civil_day y m 1 + 1))"

definition snapshot_id :: "int \<Rightarrow> string" where
  "snapshot_id now =
     (let secs = now div 10 ^ 9; t = secs mod 86400
      in case civil_of (secs div 86400) of
           (y, m, d) \<Rightarrow> pad 4 (nat y) @ ''-'' @ pad 2 (nat m) @ ''-'' @ pad 2 (nat d) @ ''T'' @
             pad 2 (nat (t div 3600)) @ ''-'' @ pad 2 (nat (t div 60 mod 60)) @ ''-'' @ pad 2 (nat (t mod 60)))"

record snap_env = sync_env +
  sn_publish :: publish_env
  sn_compression :: CompressionFormatConfig
  sn_visit :: "((string \<times> string \<times> string) \<times> IndexEntry) list \<Rightarrow> ((string \<times> string \<times> string) \<times> IndexEntry) list"
  sn_visitSrc :: "((string \<times> string) \<times> SourceEntry) list \<Rightarrow> ((string \<times> string) \<times> SourceEntry) list"
  sn_rangeSrc :: "string list \<Rightarrow> string list"
  sn_rangeKeys :: "(string \<times> string) list \<Rightarrow> (string \<times> string) list"
  sn_rangeOS :: "string list \<Rightarrow> string list"
  sn_SyncPoolRoutes :: "(os_state \<Rightarrow> string list \<Rightarrow> os_state) option"

datatype snapshot_error = SnRefresh meta_error | SnPublish publish_error | SnName os_error

text \<open>The arguments of \<open>publish.GenerateSuite\<close> for one layout.\<close>

definition suite_input :: "snap_env \<Rightarrow> Store \<Rightarrow> string \<Rightarrow> string \<Rightarrow> int \<Rightarrow> SuiteInput" where
  "suite_input env index osName codename now =
     (let entries = ListEntries index (layout_sel osName codename);
          (components, arches) = ComponentsAndArches (sy_layouts env) osName codename;
          srcEntries = ListSourceEntries index (layout_sel osName codename)
      in \<lparr>in_OS = osName, in_Codename = codename, in_Suite = codename, in_Origin = ''debproxy'', in_Label = ''debproxy'',
          in_Description = ''debproxy cache of '' @ osName @ ''/'' @ codename, in_Architectures = arches, in_Components = components,
          in_Stanzas = (\<lambda>c a. case groupStanzas (sn_visit env) entries components arches c a of None \<Rightarrow> [] | Some stanzas \<Rightarrow> stanzas),
          in_SourceStanzas = List.map_filter (\<lambda>c. map_option (Pair c) (groupSourceStanzas (sn_visitSrc env) srcEntries components c))
            (sn_rangeSrc env components),
          in_Date = Some now, in_Compression = ResolveSnapshot (sn_compression env),
          in_HashTypes = HashTypesFor (sy_layouts env) osName codename, in_SkipByHash = False\<rparr>)"

definition publishSuite :: "snap_env \<Rightarrow> string \<Rightarrow> string \<Rightarrow> string \<Rightarrow> int \<Rightarrow> Store \<Rightarrow> os_state \<Rightarrow> publish_error option \<times> os_state" where
  "publishSuite env prefix osName codename now index st =
     GenerateSuite (sn_publish env) (fs_sink (sy_sys env) (sy_now env) (sy_store env)) prefix (suite_input env index osName codename now) st"

text \<open>Each layout goes into the snapshot and into \<open>current\<close>, one operating system after the other.\<close>

definition publications :: "snap_env \<Rightarrow> int \<Rightarrow> (string \<times> string \<times> string) list" where
  "publications env now =
     (let keys = sn_rangeKeys env (map fst (layoutsByOSCodename (sy_layouts env)))
      in concat (map (\<lambda>osName. concat (map (\<lambda>(_, codename).
             [(snapshot_id now @ ''/'' @ osName, osName, codename), (''current/'' @ osName, osName, codename)])
           (filter (\<lambda>k. fst k = osName) keys))) (sn_rangeOS env (remdups (map fst keys)))))"

fun publish_all :: "snap_env \<Rightarrow> int \<Rightarrow> Store \<Rightarrow> (string \<times> string \<times> string) list \<Rightarrow> os_state \<Rightarrow> publish_error option \<times> os_state" where
  "publish_all env now index [] st = (None, st)"
| "publish_all env now index ((prefix, osName, codename) # ps) st =
     (case publishSuite env prefix osName codename now index st of
        (Some e, st1) \<Rightarrow> (Some e, st1)
      | (None, st1) \<Rightarrow> publish_all env now index ps st1)"

definition snapshot_routes :: "snap_env \<Rightarrow> os_state \<Rightarrow> os_state" where
  "snapshot_routes env st =
     (case sn_SyncPoolRoutes env of
        None \<Rightarrow> st
      | Some f \<Rightarrow> f st (pool_route_bases (fs_ListSnapshots (sy_sys env) (sy_store env) st) (sy_layouts env)))"

definition Snapshot :: "snap_env \<Rightarrow> int \<Rightarrow> ingest_world \<Rightarrow> snapshot_error option \<times> ingest_world" where
  "Snapshot env now w =
     (case sync_refresh (sync_env.truncate env) w of
        (Some e, w1) \<Rightarrow> (Some (SnRefresh e), w1)
      | (None, w1) \<Rightarrow>
          (case publish_all env now (iw_index w1) (publications env now) (iw_files w1) of
             (Some e, st1) \<Rightarrow> (Some (SnPublish e), w1\<lparr>iw_files := st1\<rparr>)
           | (None, st1) \<Rightarrow>
               (case fs_WriteFile (sy_sys env) (sy_now env) (sy_store env) st1 currentSnapshotNamePath (snapshot_id now) of
                  (Some e, st2) \<Rightarrow> (Some (SnName e), w1\<lparr>iw_files := st2\<rparr>)
                | (None, st2) \<Rightarrow> (None, w1\<lparr>iw_files := snapshot_routes env st2\<rparr>))))"

section \<open>Snapshot names read back\<close>

lemma nat_digits_length: "n < 10 ^ w \<Longrightarrow> 0 < w \<Longrightarrow> length (nat_digits n) \<le> w"
proof (induction w arbitrary: n)
  case (Suc w)
  show ?case
  proof (cases "n < 10")
    case True
    then show ?thesis by (simp add: nat_digits.simps[of n])
  next
    case False
    then have "w > 0" using Suc.prems by (cases w) auto
    moreover have "n div 10 < 10 ^ w" using Suc.prems by (simp add: less_mult_imp_div_less mult.commute)
    ultimately show ?thesis using Suc.IH[of "n div 10"] False by (simp add: nat_digits.simps[of n])
  qed
qed simp

lemma digits_val_zeros: "digits_val (replicate k CHR ''0'' @ ds) = digits_val ds"
  by (induction k) (simp_all add: digits_val_def byte_val_def)

lemma pad_ok:
  assumes "n < 10 ^ w" "0 < w"
  shows "length (pad w n) = w" "list_all is_digit (pad w n)" "digits_val (pad w n) = int n"
  using nat_digits_length[OF assms] nat_digits_ok[of n] by (auto simp: pad_def digits_val_zeros list_all_iff is_digit_def less_eq_char_def)

lemma get_num_pad: "n < 10 ^ w \<Longrightarrow> 0 < w \<Longrightarrow> get_num w (pad w n @ r) = Some (int n, r)"
  using pad_ok[of n w] by (simp add: get_num_def)

lemma civil_day_month: "1 \<le> m \<Longrightarrow> civil_day y (m + 1) 1 = civil_day y m 1 + days_in y m"
proof -
  assume "1 \<le> m"
  then have "[1..<nat (m + 1)] = [1..<nat m] @ [nat m]" by (simp add: nat_add_distrib upt_Suc_append)
  then show ?thesis using \<open>1 \<le> m\<close> by (simp add: civil_day_def)
qed

lemma civil_day_day: "civil_day y m d = civil_day y m 1 + (d - 1)"
  by (simp add: civil_day_def)

lemma december: "civil_day (y + 1) 1 1 = civil_day y 12 1 + 31"
proof -
  have "[1..<nat 12] = [1, 2, 3, 4, 5, 6, 7, 8, 9, 10, 11]" by (simp add: upt_rec)
  then have "civil_day y 12 1 = civil_day y 1 1 + (if leap y then 335 else 334)" by (simp add: civil_day_def days_in_def)
  then show ?thesis by (simp add: next_year)
qed

lemma year_from_ok: "civil_day y 1 1 \<le> day \<Longrightarrow> civil_day (year_from day y) 1 1 \<le> day \<and> day < civil_day (year_from day y + 1) 1 1 \<and> y \<le> year_from day y"
proof (induction day y rule: year_from.induct)
  case (1 day y)
  then show ?case by (cases "civil_day (y + 1) 1 1 \<le> day") (auto simp: year_from.simps[of day y])
qed

lemma month_from_ok:
  "civil_day y m 1 \<le> day \<Longrightarrow> day < civil_day (y + 1) 1 1 \<Longrightarrow> 1 \<le> m \<Longrightarrow> m \<le> 12 \<Longrightarrow>
   let r = month_from day y m in 1 \<le> r \<and> r \<le> 12 \<and> civil_day y r 1 \<le> day \<and> day < civil_day y r 1 + days_in y r"
proof (induction day y m rule: month_from.induct)
  case (1 day y m)
  show ?case
  proof (cases "m < 12 \<and> civil_day y (m + 1) 1 \<le> day")
    case True
    then show ?thesis using 1 by (simp add: month_from.simps[of day y m] Let_def)
  next
    case False
    then have "month_from day y m = m" by (subst month_from.simps) (rule if_not_P)
    moreover have "m = 12 \<Longrightarrow> days_in y m = 31" by (simp add: days_in_def)
    ultimately show ?thesis using False 1(2-) civil_day_month[of m y] december[of y]
      by (cases "m = 12") (auto simp: Let_def)
  qed
qed

lemma year_start: "0 \<le> day \<Longrightarrow> civil_day (day div 366 + 1) 1 1 \<le> day"
proof -
  assume "0 \<le> day"
  define a where "a = day div 366"
  have "0 \<le> a" "366 * a \<le> day" using \<open>0 \<le> day\<close> unfolding a_def by auto
  moreover have "a div 4 \<le> a div 1" "a div 400 \<le> a div 100" using zdiv_mono2[of a 1 4] zdiv_mono2[of a 100 400] \<open>0 \<le> a\<close> by simp_all
  moreover have "civil_day (a + 1) 1 1 = 365 * a + a div 4 - a div 100 + a div 400" by (simp add: civil_day_def)
  ultimately show ?thesis unfolding a_def[symmetric] by simp
qed

lemma year_mono: "y \<le> y' \<Longrightarrow> civil_day y 1 1 \<le> civil_day y' 1 1"
  by (induction y' rule: int_ge_induct) (auto simp: next_year)

lemma civil_of_ok:
  assumes "0 \<le> day" "day < civil_day 10000 1 1" "civil_of day = (y, m, d)"
  shows "1 \<le> y" "y \<le> 9999" "1 \<le> m" "m \<le> 12" "1 \<le> d" "d \<le> days_in y m" "civil_day y m d = day"
proof -
  have y: "civil_day y 1 1 \<le> day" "day < civil_day (y + 1) 1 1" "1 \<le> y"
    using year_from_ok[OF year_start[OF assms(1)]] assms(1,3) by (auto simp: civil_of_def Let_def dest: order_trans[rotated])
  have m: "m = month_from day y 1" and d: "d = day - civil_day y m 1 + 1" using assms(3) by (auto simp: civil_of_def Let_def)
  show "1 \<le> y" by (rule y(3))
  show "y \<le> 9999" using year_mono[of 10000 y] y(1) assms(2) by linarith
  show "1 \<le> m" "m \<le> 12" "1 \<le> d" "d \<le> days_in y m" "civil_day y m d = day"
    using month_from_ok[OF y(1,2)] civil_day_day[of y m d] unfolding m[symmetric] d Let_def by auto
qed

lemma digit_cases: "is_digit c \<Longrightarrow> c \<in> set ''0123456789-T''"
proof -
  assume "is_digit c"
  then have "(48 :: nat) \<le> of_char c \<and> of_char c \<le> (57 :: nat)" by (simp add: is_digit_def less_eq_char_def)
  then have "of_char c \<in> set [48..<58 :: nat]" unfolding set_upt by simp
  then have "c \<in> char_of ` set [48..<58 :: nat]" by (rule image_eqI[rotated]) simp
  moreover have "map char_of [48..<58 :: nat] = ''0123456789''" by code_simp
  ultimately show ?thesis by (metis image_set set_append UnI1 append_Cons append_Nil)
qed

lemma parse_date_pads:
  assumes "y < 10 ^ 4" "m < 10 ^ 2" "d < 10 ^ 2" "1 \<le> m" "m \<le> 12" "1 \<le> d" "int d \<le> days_in (int y) (int m)"
  shows "parse_date (pad 4 y @ CHR ''-'' # pad 2 m @ CHR ''-'' # pad 2 d @ r) = Some (civil_day (int y) (int m) (int d), r)"
  using get_num_pad[OF assms(1)] get_num_pad[OF assms(2)] get_num_pad[OF assms(3)] assms(4-7)
  by (simp add: parse_date_def eat_def)

lemma parse_clock_pads:
  assumes "h < 24" "mi < 60" "sec < 60"
  shows "parse_clock (pad 2 h @ CHR ''-'' # pad 2 mi @ CHR ''-'' # pad 2 sec) = Some (((int h * 60 + int mi) * 60 + int sec) * 10 ^ 9)"
  using get_num_pad[of h 2] get_num_pad[of mi 2] get_num_pad[of sec 2 "[]"] assms
  by (simp add: parse_clock_def get_hour_def eat_def parse_fraction_def)

lemma clock_split: "(t div 3600 * 60 + t div 60 mod 60) * 60 + t mod 60 = t" for t :: int
  using div_mult_mod_eq[of t 60] div_mult_mod_eq[of "t div 60" 60] zdiv_zmult2_eq[of 60 t 60] by simp

lemma snapshot_id_parts:
  assumes "0 \<le> now" "now < civil_day 10000 1 1 * 86400 * 10 ^ 9"
  obtains clock where "snapshot_id now = take 10 (snapshot_id now) @ CHR ''T'' # clock" "length clock = 8"
    "parse_date (snapshot_id now) = Some (now div 10 ^ 9 div 86400, CHR ''T'' # clock)"
    "parse_clock clock = Some (now div 10 ^ 9 mod 86400 * 10 ^ 9)" "set (snapshot_id now) \<subseteq> set ''0123456789-T''"
proof -
  define secs where "secs = now div 10 ^ 9"
  define t where "t = secs mod 86400"
  obtain y m d where c: "civil_of (secs div 86400) = (y, m, d)" by (metis prod_cases3)
  have day: "0 \<le> secs div 86400" "secs div 86400 < civil_day 10000 1 1"
    using assms by (simp_all add: secs_def pos_imp_zdiv_nonneg_iff div_less_iff_less_mult mult.assoc)
  note ok = civil_of_ok[OF day c]
  have "d \<le> 31" using ok(6) by (auto simp: days_in_def split: if_splits)
  then have n: "nat y < 10 ^ 4" "nat m < 10 ^ 2" "nat d < 10 ^ 2" "int (nat y) = y" "int (nat m) = m" "int (nat d) = d" "1 \<le> nat m" "nat m \<le> 12" "1 \<le> nat d"
    using ok(1-5) by auto
  have t: "0 \<le> t" "t < 86400" by (simp_all add: t_def)
  define hh mi ss where hms: "hh = nat (t div 3600)" "mi = nat (t div 60 mod 60)" "ss = nat (t mod 60)"
  have h: "hh < 24" "mi < 60" "ss < 60" "((int hh * 60 + int mi) * 60 + int ss) = t"
    using t clock_split[of t] by (auto simp: nat_less_iff hms)
  define clock where "clock = pad 2 hh @ CHR ''-'' # pad 2 mi @ CHR ''-'' # pad 2 ss"
  have sid: "snapshot_id now = pad 4 (nat y) @ CHR ''-'' # pad 2 (nat m) @ CHR ''-'' # pad 2 (nat d) @ CHR ''T'' # clock"
    using c by (simp add: snapshot_id_def Let_def clock_def secs_def t_def hms)
  note p = pad_ok[OF n(1)] pad_ok[OF n(2)] pad_ok[OF n(3)]
  have "hh < 10 ^ 2" "mi < 10 ^ 2" "ss < 10 ^ 2" using h(1-3) by simp_all
  note q = this[THEN pad_ok(1), simplified] this[THEN pad_ok(2), simplified]
  have tk: "snapshot_id now = take 10 (snapshot_id now) @ CHR ''T'' # clock" unfolding sid using p by simp
  have len: "length clock = 8" unfolding clock_def using q by simp
  have date: "parse_date (snapshot_id now) = Some (secs div 86400, CHR ''T'' # clock)"
    unfolding sid using parse_date_pads[OF n(1-3,7-9), of "CHR ''T'' # clock"] n(4-6) ok(6,7) by simp
  have clk: "parse_clock clock = Some (t * 10 ^ 9)" unfolding clock_def parse_clock_pads[OF h(1-3)] h(4) ..
  have digs: "set w \<subseteq> set ''0123456789-T''" if "list_all is_digit w" for w
  proof
    fix x assume "x \<in> set w"
    then have "is_digit x" using that by (simp add: list_all_iff)
    then show "x \<in> set ''0123456789-T''" by (rule digit_cases)
  qed
  have "set (snapshot_id now) \<subseteq> set ''0123456789-T''"
    unfolding sid clock_def using digs[OF p(2)] digs[OF p(5)] digs[OF p(8)] digs[OF q(4)] digs[OF q(5)] digs[OF q(6)] by auto
  then show ?thesis using that[OF tk len] date clk by (simp add: secs_def t_def)
qed

lemma secs_join: "now div 10 ^ 9 div 86400 * 86400 * 10 ^ 9 + now div 10 ^ 9 mod 86400 * 10 ^ 9 = now div 10 ^ 9 * (10 ^ 9 :: int)"
  using div_mult_mod_eq[of "now div 10 ^ 9" 86400] by (metis distrib_right)

lemma trim_space_word: "is_word w \<Longrightarrow> trim_space w = w"
proof -
  assume w: "is_word w"
  have "\<forall>c \<in> set v. \<not> is_space c \<Longrightarrow> dropWhile is_space v = v" for v by (cases v) auto
  from this[of w] this[of "rev w"] w show ?thesis
    by (simp add: is_word_def list_all_iff trim_space_def trim_def trim_left_def trim_right_def)
qed

lemma snapshot_id_name:
  assumes "0 \<le> now" "now < civil_day 10000 1 1 * 86400 * 10 ^ 9"
  shows "name_ok (snapshot_id now)" "snapshot_id now \<noteq> ''current''" "snapshot_id now \<noteq> ''pool''" "trim_space (snapshot_id now) = snapshot_id now"
proof -
  obtain clock where c: "snapshot_id now = take 10 (snapshot_id now) @ CHR ''T'' # clock" "set (snapshot_id now) \<subseteq> set ''0123456789-T''" "length clock = 8"
    using snapshot_id_parts[OF assms] by metis
  have len: "length (snapshot_id now) \<ge> 9" using c(3) arg_cong[OF c(1), of length] by simp
  have chars: "\<not> is_space x \<and> x \<noteq> CHR ''/'' \<and> x \<noteq> NUL \<and> x \<noteq> CHR ''.''" if "x \<in> set (snapshot_id now)" for x
    using subsetD[OF c(2) that] by (auto simp: is_space_def)
  show "name_ok (snapshot_id now)"
    using chars len by (auto simp: name_ok_def plain_seg_def is_word_def list_all_iff)
  show "snapshot_id now \<noteq> ''current''" "snapshot_id now \<noteq> ''pool''" using len by auto
  have "is_word (snapshot_id now)" using chars len by (auto simp: is_word_def list_all_iff)
  then show "trim_space (snapshot_id now) = snapshot_id now" by (rule trim_space_word)
qed

text \<open>The age read back from the name file is exact to the second.\<close>

lemma CurrentSnapshotAge_id:
  assumes "0 \<le> now" "now < civil_day 10000 1 1 * 86400 * 10 ^ 9" "openf currentSnapshotNamePath = Inr (snapshot_id now)"
  shows "CurrentSnapshotName openf = Inr (snapshot_id now)" "CurrentSnapshotAge openf at = Inr (Some (at - now div 10 ^ 9 * 10 ^ 9))"
proof -
  obtain clock where c: "parse_date (snapshot_id now) = Some (now div 10 ^ 9 div 86400, CHR ''T'' # clock)"
    "parse_clock clock = Some (now div 10 ^ 9 mod 86400 * 10 ^ 9)" using snapshot_id_parts[OF assms(1,2)] by metis
  show n: "CurrentSnapshotName openf = Inr (snapshot_id now)"
    using assms(3) snapshot_id_name(4)[OF assms(1,2)] by (simp add: CurrentSnapshotName_def)
  show "CurrentSnapshotAge openf at = Inr (Some (at - now div 10 ^ 9 * 10 ^ 9))"
    unfolding CurrentSnapshotAge_def n secs_join[of now, symmetric] using c by (simp add: eat_def)
qed

section \<open>What a snapshot contains\<close>

lemma layoutsByOSCodename_keys: "fst ` set (layoutsByOSCodename layouts) = (\<lambda>l. (ly_OS l, ly_Codename l)) ` set layouts"
proof -
  let ?step = "\<lambda>m l. let k = (ly_OS l, ly_Codename l) in AList.update k ((case map_of m k of None \<Rightarrow> [] | Some ls \<Rightarrow> ls) @ [l]) m"
  have "fst ` set (foldl ?step m layouts) = fst ` set m \<union> (\<lambda>l. (ly_OS l, ly_Codename l)) ` set layouts" for m
    by (induction layouts arbitrary: m) (auto simp: Let_def dom_update)
  from this[of "[]"] show ?thesis by (simp add: layoutsByOSCodename_def)
qed

definition orders_ok :: "snap_env \<Rightarrow> bool" where
  "orders_ok env \<longleftrightarrow> (\<forall>xs. set (sn_visit env xs) = set xs) \<and> (\<forall>xs. mset (sn_rangeSrc env xs) = mset xs) \<and>
     (\<forall>xs. set (sn_rangeKeys env xs) = set xs) \<and> (\<forall>xs. set (sn_rangeOS env xs) = set xs)"

lemma publications_iff:
  assumes "orders_ok env"
  shows "(prefix, osName, codename) \<in> set (publications env now) \<longleftrightarrow>
    (\<exists>l \<in> set (sy_layouts env). osName = ly_OS l \<and> codename = ly_Codename l \<and> prefix \<in> {snapshot_id now @ ''/'' @ osName, ''current/'' @ osName})"
proof -
  let ?keys = "sn_rangeKeys env (map fst (layoutsByOSCodename (sy_layouts env)))"
  have keys: "k \<in> set ?keys \<longleftrightarrow> (\<exists>l \<in> set (sy_layouts env). k = (ly_OS l, ly_Codename l))" for k
    using assms layoutsByOSCodename_keys[of "sy_layouts env"] unfolding orders_ok_def by auto
  have os: "set (sn_rangeOS env (remdups (map fst ?keys))) = fst ` set ?keys" using assms unfolding orders_ok_def by simp
  have "(prefix, osName, codename) \<in> set (publications env now) \<longleftrightarrow>
      (osName, codename) \<in> set ?keys \<and> prefix \<in> {snapshot_id now @ ''/'' @ osName, ''current/'' @ osName}"
    unfolding publications_def Let_def set_concat set_map os by (auto split: prod.splits intro!: bexI[of _ "(osName, codename)"] rev_image_eqI[of "(osName, codename)"])
  then show ?thesis unfolding keys by auto
qed

text \<open>Usable names: every name of a layout is one path segment without white space.\<close>

definition layout_names_ok :: "Layout \<Rightarrow> bool" where
  "layout_names_ok l \<longleftrightarrow> name_ok (ly_OS l) \<and> name_ok (ly_Codename l) \<and> name_ok (ly_Component l) \<and> list_all name_ok (ly_Archs l)"

lemma split_name: "name_ok w \<Longrightarrow> split_on CHR ''/'' w = [w]"
  using split_on_join[of "[w]" "CHR ''/''"] by (simp add: name_ok_def plain_seg_def)

lemma suite_segs_prefix:
  assumes "name_ok root" "name_ok osName" "name_ok (in_Codename inp)"
  shows "suite_segs (root @ ''/'' @ osName) inp = [root, osName, ''dists'', in_Codename inp]"
  using split_on_append[of "CHR ''/''" root osName] assms split_name
  by (simp add: suite_segs_def name_ok_def plain_seg_def)

lemma ComponentsAndArches_names:
  assumes "list_all layout_names_ok layouts" "ComponentsAndArches layouts osName codename = (components, arches)"
  shows "list_all name_ok components" "distinct components" "list_all name_ok arches" "distinct arches"
  using assms by (auto simp: ComponentsAndArches_def Let_def list_all_iff layout_names_ok_def)

lemma map_filter_keys:
  "map fst (List.map_filter (\<lambda>c. map_option (Pair c) (g c)) xs) = filter (\<lambda>c. g c \<noteq> None) xs"
  by (induction xs) (auto simp: List.map_filter_simps)

lemma suite_input_ok:
  assumes "orders_ok env" "list_all layout_names_ok (sy_layouts env)" "name_ok osName" "name_ok codename" "name_ok root" "root \<noteq> ''pool''"
  shows "suite_ok (root @ ''/'' @ osName) (suite_input env index osName codename now)"
proof -
  obtain components arches where ca: "ComponentsAndArches (sy_layouts env) osName codename = (components, arches)" by fastforce
  note names = ComponentsAndArches_names[OF assms(2) ca]
  let ?inp = "suite_input env index osName codename now"
  have inp: "in_Components ?inp = components" "in_Architectures ?inp = arches" "in_Codename ?inp = codename"
    by (simp_all add: suite_input_def ca Let_def)
  have src: "map fst (in_SourceStanzas ?inp) = filter (\<lambda>c. groupSourceStanzas (sn_visitSrc env) (ListSourceEntries index (layout_sel osName codename)) components c \<noteq> None)
      (sn_rangeSrc env components)"
    by (simp add: suite_input_def ca Let_def map_filter_keys)
  have perm: "mset (sn_rangeSrc env components) = mset components" using assms(1) by (simp add: orders_ok_def)
  have "distinct (map fst (in_SourceStanzas ?inp))" unfolding src using mset_eq_imp_distinct_iff[OF perm] names(2) by (simp add: distinct_filter)
  moreover have "name_ok c" if "(c, x) \<in> set (in_SourceStanzas ?inp)" for c x
  proof -
    have "c \<in> set (map fst (in_SourceStanzas ?inp))" using that by force
    then have "c \<in> set components" unfolding src using mset_eq_setD[OF perm] by auto
    then show ?thesis using names(1) by (simp add: list_all_iff)
  qed
  moreover have "split_on CHR ''/'' (root @ ''/'' @ osName) = [root, osName]"
    using split_on_append[of "CHR ''/''" root osName] split_name[OF assms(3)] assms(5) by (simp add: name_ok_def plain_seg_def)
  moreover have "root \<noteq> []" "\<not> is_space (hd root)" using assms(5) by (auto simp: name_ok_def plain_seg_def is_word_def list_all_iff)
  ultimately show ?thesis
    using assms(3-6) names split_name[OF assms(4)] unfolding suite_ok_def inp inside_def
    by (auto simp: name_ok_def plain_seg_def list_all_iff)
qed

text \<open>One publication, by its root, operating system and codename.\<close>

definition pub_ok :: "snap_env \<Rightarrow> int \<Rightarrow> Store \<Rightarrow> string \<times> string \<times> string \<Rightarrow> bool" where
  "pub_ok env now index p = (case p of (prefix, osName, codename) \<Rightarrow>
     suite_ok prefix (suite_input env index osName codename now) \<and>
     (\<exists>root. name_ok root \<and> name_ok osName \<and> name_ok codename \<and> prefix = root @ ''/'' @ osName))"

abbreviation pub_segs :: "string \<times> string \<times> string \<Rightarrow> string list" where
  "pub_segs p \<equiv> split_on CHR ''/'' (fst p) @ [''dists'', snd (snd p)]"

lemma pub_suite_segs:
  assumes "pub_ok env now index (prefix, osName, codename)"
  shows "suite_segs prefix (suite_input env index osName codename now) = pub_segs (prefix, osName, codename)"
    "length (pub_segs (prefix, osName, codename)) = 4" "list_all plain_seg (pub_segs (prefix, osName, codename))"
    "list_all name_ok s \<and> s \<noteq> [] \<longrightarrow> published_key (join ''/'' (pub_segs (prefix, osName, codename) @ s))"
proof -
  obtain root where r: "name_ok root" "name_ok osName" "name_ok codename" "prefix = root @ ''/'' @ osName"
      "suite_ok prefix (suite_input env index osName codename now)"
    using assms by (auto simp: pub_ok_def)
  have c: "in_Codename (suite_input env index osName codename now) = codename" by (simp add: suite_input_def Let_def split: prod.splits)
  show seg: "suite_segs prefix (suite_input env index osName codename now) = pub_segs (prefix, osName, codename)"
    using split_name[OF r(3)] r(4) by (simp add: suite_segs_def c)
  show "length (pub_segs (prefix, osName, codename)) = 4"
    using suite_segs_prefix[of root osName "suite_input env index osName codename now"] r c unfolding seg[symmetric] by simp
  show "list_all plain_seg (pub_segs (prefix, osName, codename))" using suite_segs_plain(1)[OF r(5)] unfolding seg .
  show "list_all name_ok s \<and> s \<noteq> [] \<longrightarrow> published_key (join ''/'' (pub_segs (prefix, osName, codename) @ s))"
    using suite_path_key[OF r(5), of s] unfolding seg by blast
qed

lemma pub_segs_inj:
  assumes "pub_ok env now index p" "pub_ok env now index p'" "pub_segs p = pub_segs p'"
  shows "p = p'"
proof -
  have root: "\<exists>root. name_ok root \<and> name_ok (fst (snd q)) \<and> fst q = root @ ''/'' @ fst (snd q) \<and> pub_segs q = [root, fst (snd q), ''dists'', snd (snd q)]"
    if ok: "pub_ok env now index q" for q
  proof -
    obtain prefix osName codename where q: "q = (prefix, osName, codename)" by (metis prod_cases3)
    obtain root where r: "name_ok root" "name_ok osName" "name_ok codename" "prefix = root @ ''/'' @ osName"
      using ok unfolding q pub_ok_def by auto
    have "split_on CHR ''/'' prefix = [root, osName]"
      using split_on_append[of "CHR ''/''" root osName] split_name[OF r(2)] r(1,4) by (simp add: name_ok_def plain_seg_def)
    then show ?thesis using r by (auto simp: q)
  qed
  from root[OF assms(1)] root[OF assms(2)] assms(3) show ?thesis by (auto simp: prod_eq_iff)
qed

lemma publications_ok:
  assumes "orders_ok env" "list_all layout_names_ok (sy_layouts env)" "0 \<le> now" "now < civil_day 10000 1 1 * 86400 * 10 ^ 9"
  shows "list_all (pub_ok env now index) (publications env now)"
proof -
  have cur: "name_ok ''current''" by code_simp
  have "pub_ok env now index (prefix, osName, codename)" if p: "(prefix, osName, codename) \<in> set (publications env now)" for prefix osName codename
  proof -
    obtain l root where l: "l \<in> set (sy_layouts env)" "osName = ly_OS l" "codename = ly_Codename l"
        "root \<in> {snapshot_id now, ''current''}" "prefix = root @ ''/'' @ osName"
      using p unfolding publications_iff[OF assms(1)] by auto
    have n: "name_ok osName" "name_ok codename" using assms(2) l(1-3) by (auto simp: list_all_iff layout_names_ok_def)
    have r: "name_ok root" "root \<noteq> ''pool''" using l(4) cur snapshot_id_name(1,3)[OF assms(3,4)] by auto
    show ?thesis unfolding pub_ok_def prod.case l(5) using suite_input_ok[OF assms(1,2) n r] n r by blast
  qed
  then show ?thesis unfolding list_all_iff by (metis prod_cases3)
qed

lemma publish_all_frame:
  assumes "sy_store env = rooted rs" "\<And>d. hex_digest (pe_sha256 (sn_publish env) d)"
  shows "publish_all env now index ps st = (None, st') \<Longrightarrow> list_all (pub_ok env now index) ps \<Longrightarrow> published_key q \<Longrightarrow>
    (\<forall>p \<in> set ps. \<forall>s. list_all name_ok s \<and> s \<noteq> [] \<longrightarrow> q \<noteq> join ''/'' (pub_segs p @ s)) \<Longrightarrow>
    fs_bytes (sy_store env) st' q = fs_bytes (sy_store env) st q"
proof (induction ps arbitrary: st)
  case (Cons p ps)
  obtain prefix osName codename where p: "p = (prefix, osName, codename)" by (metis prod_cases3)
  let ?inp = "suite_input env index osName codename now"
  obtain st1 where g: "publishSuite env prefix osName codename now index st = (None, st1)" "publish_all env now index ps st1 = (None, st')"
    using Cons.prems(1) by (auto simp: p split: prod.splits option.splits)
  have ok: "pub_ok env now index (prefix, osName, codename)" using Cons.prems(2) by (simp add: p)
  then have sok: "suite_ok prefix ?inp" by (simp add: pub_ok_def)
  have "fs_bytes (sy_store env) st1 q = fs_bytes (sy_store env) st q"
    unfolding assms(1)
  proof (rule fsw.suite_frame[OF sok assms(2)])
    show "GenerateSuite (sn_publish env) (fs_sink (sy_sys env) (sy_now env) (rooted rs)) prefix ?inp st = (None, st1)"
      using g(1) unfolding publishSuite_def assms(1) .
    show "\<forall>segs. list_all name_ok segs \<and> segs \<noteq> [] \<longrightarrow> published_key (join ''/'' (suite_segs prefix ?inp @ segs))"
      using pub_suite_segs(4)[OF ok] unfolding pub_suite_segs(1)[OF ok] by blast
    show "published_key q" by (rule Cons.prems(3))
    show "\<forall>segs. list_all name_ok segs \<and> segs \<noteq> [] \<longrightarrow> q \<noteq> join ''/'' (suite_segs prefix ?inp @ segs)"
      using Cons.prems(4) unfolding pub_suite_segs(1)[OF ok] p by simp
  qed
  then show ?case using Cons.IH[OF g(2)] Cons.prems(2-4) by simp
qed simp

lemma publish_all_append:
  "publish_all env now index (ps @ qs) st = (None, st') \<Longrightarrow>
   \<exists>st1. publish_all env now index ps st = (None, st1) \<and> publish_all env now index qs st1 = (None, st')"
  by (induction ps arbitrary: st) (auto split: prod.splits option.splits)

lemma pub_paths_apart:
  assumes "pub_ok env now index p" "pub_ok env now index p'" "p \<noteq> p'" "list_all name_ok s" "list_all name_ok s'"
  shows "join ''/'' (pub_segs p @ s) \<noteq> join ''/'' (pub_segs p' @ s')"
proof
  assume eq: "join ''/'' (pub_segs p @ s) = join ''/'' (pub_segs p' @ s')"
  obtain a b c a' b' c' where p: "p = (a, b, c)" "p' = (a', b', c')" by (metis prod_cases3)
  note P = pub_suite_segs[OF assms(1)[unfolded p]] and Q = pub_suite_segs[OF assms(2)[unfolded p]]
  have "pub_segs p @ s = pub_segs p' @ s'"
    by (rule join_segs_inj[OF _ _ _ _ eq]) (use P(3) Q(3) name_plain[OF assms(4)] name_plain[OF assms(5)] in \<open>auto simp: p\<close>)
  then have "pub_segs p = pub_segs p'" using P(2) Q(2) by (simp add: p)
  then show False using pub_segs_inj[OF assms(1,2)] assms(3) by simp
qed

lemma publish_all_served:
  assumes "root_ok (sy_store env)" "\<And>d. hex_digest (pe_sha256 (sn_publish env) d)" "\<And>d. hex_digest (pe_sha512 (sn_publish env) d)"
    and "publish_all env now index ps st = (None, st1)" "list_all (pub_ok env now index) ps"
    and p: "(prefix, osName, codename) \<in> set ps" "suite_fits (sn_publish env) prefix (suite_input env index osName codename now)"
    and later: "\<forall>s. list_all name_ok s \<and> s \<noteq> [] \<longrightarrow>
      fs_bytes (sy_store env) st' (join ''/'' (pub_segs (prefix, osName, codename) @ s)) = fs_bytes (sy_store env) st1 (join ''/'' (pub_segs (prefix, osName, codename) @ s))"
  shows "suite_served (sn_publish env) (fs_bytes (sy_store env) st') prefix (suite_input env index osName codename now)"
proof -
  let ?p = "(prefix, osName, codename)"
  obtain ys zs where ps: "ps = ys @ ?p # zs" "?p \<notin> set zs" using split_list_last[OF p(1)] by blast
  obtain sta where a: "publish_all env now index (?p # zs) sta = (None, st1)" using publish_all_append assms(4) unfolding ps by blast
  then obtain stb where b: "publishSuite env prefix osName codename now index sta = (None, stb)" "publish_all env now index zs stb = (None, st1)"
    by (auto split: prod.splits option.splits)
  have ok: "pub_ok env now index ?p" "list_all (pub_ok env now index) zs" using assms(5) by (auto simp: ps)
  obtain rs where root: "sy_store env = rooted rs" using root_okD[OF assms(1)] by blast
  have "fs_bytes (sy_store env) st1 (join ''/'' (pub_segs ?p @ s)) = fs_bytes (sy_store env) stb (join ''/'' (pub_segs ?p @ s))"
    if "list_all name_ok s" "s \<noteq> []" for s
  proof (rule publish_all_frame[OF root assms(2) b(2) ok(2)])
    show "published_key (join ''/'' (pub_segs ?p @ s))" using pub_suite_segs(4)[OF ok(1)] that by blast
    show "\<forall>p'\<in>set zs. \<forall>s'. list_all name_ok s' \<and> s' \<noteq> [] \<longrightarrow> join ''/'' (pub_segs ?p @ s) \<noteq> join ''/'' (pub_segs p' @ s')"
      using pub_paths_apart[OF ok(1)] ok(2) ps(2) that(1) unfolding list_all_iff by metis
  qed
  then have "\<forall>s. list_all name_ok s \<and> s \<noteq> [] \<longrightarrow> fs_bytes (sy_store env) st' (join ''/'' (pub_segs ?p @ s)) = fs_bytes (sy_store env) stb (join ''/'' (pub_segs ?p @ s))"
    using later by simp
  then show ?thesis
    using GenerateSuite_served[OF assms(1) p(2) b(1)[unfolded publishSuite_def] assms(2,3), of st'] unfolding pub_suite_segs(1)[OF ok(1)] by blast
qed

lemma suite_input_stanzas:
  assumes "orders_ok env" "l \<in> set (sy_layouts env)" "arch \<in> set (ly_Archs l)"
  shows "set (in_Stanzas (suite_input env index (ly_OS l) (ly_Codename l) now) (ly_Component l) arch) =
    {ie_Control e | e a pkg. a \<in> {''all'', arch} \<and>
       newest_of Compare ie_Version (filter (\<lambda>x. stanza_key x = (ly_Component l, a, pkg)) (ListEntries index (layout_sel (ly_OS l) (ly_Codename l)))) e}"
    (is "_ = ?N")
proof -
  obtain components arches where ca: "ComponentsAndArches (sy_layouts env) (ly_OS l) (ly_Codename l) = (components, arches)" by fastforce
  have "ly_Component l \<in> set components" "arch \<in> set arches" using ca assms(2,3) by (auto simp: ComponentsAndArches_def Let_def)
  note c = this
  have v: "set (sn_visit env xs) = set xs" for xs using assms(1) by (simp add: orders_ok_def)
  have i: "in_Stanzas (suite_input env index (ly_OS l) (ly_Codename l) now) (ly_Component l) arch =
      (case groupStanzas (sn_visit env) (ListEntries index (layout_sel (ly_OS l) (ly_Codename l))) components arches (ly_Component l) arch of
         None \<Rightarrow> [] | Some stanzas \<Rightarrow> stanzas)" by (simp add: suite_input_def ca Let_def)
  show ?thesis unfolding i using groupStanzas_set[OF v c, of "ListEntries index (layout_sel (ly_OS l) (ly_Codename l))"]
    by (elim exE conjE) (simp only: option.case)
qed

lemma published_reads:
  assumes "root_ok s" "published_key p" "fs_bytes s st p = Some data"
  shows "fs_OpenPublished (\<lambda>_ _. False) s st p = Inr data"
proof -
  have a: "absPublished s p = Some (fs_root s @ ''/'' @ p)" using published_abs[OF assms(1)] assms(2) by (simp add: published_key_def)
  obtain t where "map_of st (fs_root s @ ''/'' @ p) = Some (File data t)"
    using assms(3) by (auto simp: fs_bytes_def fs_content_def file_at_def split: option.splits node.splits)
  then show ?thesis unfolding fs_OpenPublished_def open_at_def a os_Open_def by simp
qed

section \<open>Properties\<close>

text \<open>C7: A successful snapshot publishes every configured layout twice, in the directory named by the time and in
  \<open>current\<close>.  In both the Release file lists every index with the size and digest of the stored file, the file is the
  encoding of the stanzas, and the stanzas of a component and architecture are those of the newest recorded version of
  each package (architecture-independent packages included).  The name file is read back as the snapshot's time, to the
  second.  No suite overwrites another.\<close>

theorem Snapshot_publishes:
  assumes "root_ok (sy_store env)" "orders_ok env" "list_all layout_names_ok (sy_layouts env)" "sn_SyncPoolRoutes env = None"
    and "0 \<le> now" "now < civil_day 10000 1 1 * 86400 * 10 ^ 9"
    and "\<And>d. hex_digest (pe_sha256 (sn_publish env) d)" "\<And>d. hex_digest (pe_sha512 (sn_publish env) d)"
    and "Snapshot env now w = (None, w')"
    and "l \<in> set (sy_layouts env)" "root \<in> {snapshot_id now, ''current''}"
    and "suite_fits (sn_publish env) (root @ ''/'' @ ly_OS l) (suite_input env (iw_index w') (ly_OS l) (ly_Codename l) now)"
  shows "suite_served (sn_publish env) (fs_bytes (sy_store env) (iw_files w')) (root @ ''/'' @ ly_OS l)
      (suite_input env (iw_index w') (ly_OS l) (ly_Codename l) now) \<and>
    (\<forall>arch \<in> set (ly_Archs l). set (in_Stanzas (suite_input env (iw_index w') (ly_OS l) (ly_Codename l) now) (ly_Component l) arch) =
      {ie_Control e | e a pkg. a \<in> {''all'', arch} \<and>
         newest_of Compare ie_Version (filter (\<lambda>x. stanza_key x = (ly_Component l, a, pkg)) (ListEntries (iw_index w') (layout_sel (ly_OS l) (ly_Codename l)))) e}) \<and>
    (\<forall>at. CurrentSnapshotAge (fs_OpenPublished (\<lambda>_ _. False) (sy_store env) (iw_files w')) at = Inr (Some (at - now div 10 ^ 9 * 10 ^ 9)))"
proof -
  obtain w1 st1 st2 where run: "publish_all env now (iw_index w1) (publications env now) (iw_files w1) = (None, st1)"
      "fs_WriteFile (sy_sys env) (sy_now env) (sy_store env) st1 currentSnapshotNamePath (snapshot_id now) = (None, st2)"
      "w' = w1\<lparr>iw_files := st2\<rparr>"
    using assms(4,9) by (auto simp: Snapshot_def snapshot_routes_def split: prod.splits option.splits)
  have ix: "iw_index w' = iw_index w1" "iw_files w' = st2" by (simp_all add: run(3))
  obtain rs where rooted: "sy_store env = rooted rs" using root_okD[OF assms(1)] by blast
  have key: "published_key currentSnapshotNamePath" by code_simp
  have cur: "name_ok ''current''" by code_simp
  note idn = snapshot_id_name[OF assms(5,6)]
  have pubs: "list_all (pub_ok env now (iw_index w1)) (publications env now)" by (rule publications_ok[OF assms(2,3,5,6)])
  let ?p = "(root @ ''/'' @ ly_OS l, ly_OS l, ly_Codename l)"
  have p: "?p \<in> set (publications env now)" using publications_iff[OF assms(2)] assms(10,11) by auto
  have pok: "pub_ok env now (iw_index w1) ?p" using pubs p by (simp add: list_all_iff)
  have later: "fs_bytes (sy_store env) st2 q = fs_bytes (sy_store env) st1 q" if "published_key q" "q \<noteq> currentSnapshotNamePath" for q
    using fsw.write_other[OF key that, where sys = "sy_sys env" and now = "sy_now env" and segs = rs] run(2)
    unfolding rooted fs_sink_def by blast
  have "join ''/'' (pub_segs ?p @ s) \<noteq> currentSnapshotNamePath" if "list_all name_ok s" for s
  proof
    assume eq: "join ''/'' (pub_segs ?p @ s) = currentSnapshotNamePath"
    have "currentSnapshotNamePath = join ''/'' [''current'', ''snapshot-name'']" "list_all plain_seg [''current'', ''snapshot-name'']" by code_simp+
    then have "pub_segs ?p @ s = [''current'', ''snapshot-name'']"
      using join_segs_inj[of "pub_segs ?p @ s" "[''current'', ''snapshot-name'']"] eq pub_suite_segs(3)[OF pok] name_plain[OF that] by simp
    then have "length (pub_segs ?p @ s) = 2" by simp
    then show False using pub_suite_segs(2)[OF pok] by simp
  qed
  then have frame: "\<forall>s. list_all name_ok s \<and> s \<noteq> [] \<longrightarrow>
      fs_bytes (sy_store env) st2 (join ''/'' (pub_segs ?p @ s)) = fs_bytes (sy_store env) st1 (join ''/'' (pub_segs ?p @ s))"
    using later pub_suite_segs(4)[OF pok] by blast
  have served: "suite_served (sn_publish env) (fs_bytes (sy_store env) (iw_files w')) (root @ ''/'' @ ly_OS l)
      (suite_input env (iw_index w') (ly_OS l) (ly_Codename l) now)"
    unfolding ix by (rule publish_all_served[OF assms(1,7,8) run(1) pubs p assms(12)[unfolded ix] frame])
  have "fs_bytes (sy_store env) st2 currentSnapshotNamePath = Some (snapshot_id now)"
    using fsw.write_ok[OF key, where sys = "sy_sys env" and now = "sy_now env" and segs = rs] run(2) unfolding rooted fs_sink_def by blast
  from CurrentSnapshotAge_id(2)[where openf = "fs_OpenPublished (\<lambda>_ _. False) (sy_store env) st2", OF assms(5,6) published_reads[OF assms(1) key this]] have
    "CurrentSnapshotAge (fs_OpenPublished (\<lambda>_ _. False) (sy_store env) (iw_files w')) at = Inr (Some (at - now div 10 ^ 9 * 10 ^ 9))" for at
    unfolding ix .
  then show ?thesis using served suite_input_stanzas[OF assms(2,10)] by (intro conjI ballI allI)
qed

section \<open>Instances\<close>

lemma Snapshot_index: "iw_index (snd (Snapshot env now w)) = iw_index (snd (sync_refresh (sync_env.truncate env) w))"
  by (simp add: Snapshot_def split: prod.splits option.splits)

definition wit_snap :: snap_env where
  "wit_snap = sync_env.extend wit_sync
     \<lparr>sn_publish = wit_pub\<lparr>pe_key := None\<rparr>, sn_compression = \<lparr>fc_GZip = None, fc_ZStd = Some (- 1), fc_XZ = Some (- 1)\<rparr>, sn_visit = id, sn_visitSrc = id,
      sn_rangeSrc = id, sn_rangeKeys = id, sn_rangeOS = id, sn_SyncPoolRoutes = None\<rparr>"

definition wit_snap_world :: ingest_world where
  "wit_snap_world = wit_world\<lparr>iw_files := [(''/srv'', Dir 0 0), (''/srv/metadata'', Dir 0 0)],
     iw_index := UpsertEntry 3 empty_store ((wit_entry ''1'' ''deb'')\<lparr>ie_OS := ''o'', ie_Codename := ''c'', ie_Control := ''Package: a''\<rparr>)\<rparr>"

lemma wit_snapshot_id: "snapshot_id (civil_day 2026 1 2 * 86400 * 10 ^ 9) = ''2026-01-02T00-00-00''"
  by code_simp

lemma wit_snap_runs: "fst (Snapshot wit_snap (civil_day 2026 1 2 * 86400 * 10 ^ 9) wit_snap_world) = None"
  by code_simp

theorem Snapshot_publishes_witness:
  "suite_served (sn_publish wit_snap) (fs_bytes (fs_New ''/srv'') (iw_files (snd (Snapshot wit_snap (civil_day 2026 1 2 * 86400 * 10 ^ 9) wit_snap_world)))) ''current/o''
     (suite_input wit_snap (iw_index (snd (Snapshot wit_snap (civil_day 2026 1 2 * 86400 * 10 ^ 9) wit_snap_world))) ''o'' ''c'' (civil_day 2026 1 2 * 86400 * 10 ^ 9))"
proof -
  let ?now = "civil_day 2026 1 2 * 86400 * 10 ^ 9" and ?l = "hd (sy_layouts wit_snap)"
  let ?w = "snd (Snapshot wit_snap ?now wit_snap_world)"
  have store: "sy_store wit_snap = fs_New ''/srv''" by (simp add: wit_snap_def wit_sync_def sync_env.defs)
  have root: "root_ok (sy_store wit_snap)" unfolding root_ok_def store by (rule exI[of _ "[''srv'']"]) (simp add: plain_seg_def abs_path_def)
  have orders: "orders_ok wit_snap" by (simp add: orders_ok_def wit_snap_def sync_env.defs)
  have names: "list_all layout_names_ok (sy_layouts wit_snap)" by code_simp
  have routes: "sn_SyncPoolRoutes wit_snap = None" by (simp add: wit_snap_def sync_env.defs)
  have time: "0 \<le> ?now" "?now < civil_day 10000 1 1 * 86400 * 10 ^ 9" by code_simp+
  have hex: "hex_digest (pe_sha256 (sn_publish wit_snap) d)" "hex_digest (pe_sha512 (sn_publish wit_snap) d)" for d
    by (simp_all add: wit_snap_def wit_pub_def hex_digest_def sync_env.defs)
  have run: "Snapshot wit_snap ?now wit_snap_world = (None, ?w)" using wit_snap_runs by (metis prod.collapse)
  have l: "?l \<in> set (sy_layouts wit_snap)" "ly_OS ?l = ''o''" "ly_Codename ?l = ''c''" by code_simp+
  let ?inp = "suite_input wit_snap (iw_index (snd (sync_refresh (sync_env.truncate wit_snap) wit_snap_world))) ''o'' ''c'' ?now"
  let ?files = "index_files (sn_publish wit_snap) ?inp (binary_jobs ?inp @ sources_jobs ?inp)"
  have "list_all (\<lambda>(k, v). CR \<notin> set v \<and> length k + length v < 500) (paragraphFields (release_para (sn_publish wit_snap) ?inp ?files))" by code_simp
  then have "release_fits (sn_publish wit_snap) ?inp ?files" by (auto simp: release_fits_def list_all_iff max_index_token_def)
  moreover have "suite_ok ''current/o'' ?inp" "''sha256'' \<in> set (activeHashTypes (in_HashTypes ?inp))" "list_all (\<lambda>f. hf_size f < 2 ^ 63) ?files" by code_simp+
  ultimately have "suite_fits (sn_publish wit_snap) ''current/o'' ?inp" by (simp add: suite_fits_def)
  then show ?thesis
    using Snapshot_publishes[OF root orders names routes time hex run l(1), of "''current''"] unfolding l store Snapshot_index by simp
qed

end
