(* ===== verification/Access.thy ===== *)
theory Access
  imports Deb822 "HOL-Library.AList"
begin

text \<open>
  Access control of the administration interface: glob patterns (\<open>src/internal/auth/glob.go\<close>), passwords, OpenID Connect
  issuers (\<open>oidc.go\<close>, \<open>algs.go\<close>), the cache of verified tokens (\<open>cache.go\<close>), the authenticator, the throttle and
  the guard in front of every handler (\<open>src/internal/api/throttle.go\<close>, \<open>permission.go\<close>, \<open>middleware.go\<close>).  What these
  take from outside (password libraries, digests, base64, JSON, the network, the JWT library) is a record.  Text in
  patterns, names and claims is ASCII.  Times are nanoseconds; the zero time is \<open>None\<close>.  Each critical section is one
  step; a map is listed in the order in which \<open>range\<close> visits it.
\<close>

section \<open>Definitions\<close>

subsection \<open>Globs\<close>

datatype glob_tok = AnyPath | AnySeg | OneChar | Lit char

definition foldDelimiters :: "string \<Rightarrow> string" where
  "foldDelimiters s = map (\<lambda>c. if c = CHR '':'' then CHR ''/'' else c) s"

text \<open>The pieces of the regular expression, in order: \<open>.*\<close> (which does not match a line break), \<open>[^/]*\<close>, \<open>[^/]\<close> and
  quoted characters, anchored at both ends.\<close>

fun glob_toks :: "string \<Rightarrow> glob_tok list" where
  "glob_toks [] = []"
| "glob_toks [c] = [if c = CHR ''*'' then AnySeg else if c = CHR ''?'' then OneChar else Lit c]"
| "glob_toks (c # d # s) =
     (if c = CHR ''*'' then (if d = CHR ''*'' then AnyPath # glob_toks s else AnySeg # glob_toks (d # s))
      else (if c = CHR ''?'' then OneChar else Lit c) # glob_toks (d # s))"

definition translateGlob :: "string \<Rightarrow> glob_tok list" where
  "translateGlob pattern = glob_toks (foldDelimiters pattern)"

definition same_char :: "bool \<Rightarrow> char \<Rightarrow> char \<Rightarrow> bool" where
  "same_char ci c d \<longleftrightarrow> c = d \<or> ci \<and> lower_char c = lower_char d"

fun glob_match :: "bool \<Rightarrow> glob_tok list \<Rightarrow> string \<Rightarrow> bool" where
  "glob_match ci [] s = (s = [])"
| "glob_match ci (Lit c # ts) s = (case s of [] \<Rightarrow> False | d # s' \<Rightarrow> same_char ci c d \<and> glob_match ci ts s')"
| "glob_match ci (OneChar # ts) s = (case s of [] \<Rightarrow> False | d # s' \<Rightarrow> d \<noteq> CHR ''/'' \<and> glob_match ci ts s')"
| "glob_match ci (AnySeg # ts) s =
     (glob_match ci ts s \<or> (case s of [] \<Rightarrow> False | d # s' \<Rightarrow> d \<noteq> CHR ''/'' \<and> glob_match ci (AnySeg # ts) s'))"
| "glob_match ci (AnyPath # ts) s =
     (glob_match ci ts s \<or> (case s of [] \<Rightarrow> False | d # s' \<Rightarrow> d \<noteq> NL \<and> glob_match ci (AnyPath # ts) s'))"

definition Match :: "string \<Rightarrow> string \<Rightarrow> bool \<Rightarrow> bool" where
  "Match pattern value caseInsensitive = glob_match caseInsensitive (translateGlob pattern) (foldDelimiters value)"

record Identity =
  id_Name :: string
  id_Groups :: "string list"
  id_Method :: string

definition Allowed :: "string list \<Rightarrow> Identity \<Rightarrow> bool" where
  "Allowed rules identity \<longleftrightarrow>
     list_ex (\<lambda>rule. Match rule (id_Name identity) True \<or> list_ex (\<lambda>g. Match rule g True) (id_Groups identity)) rules"

subsection \<open>Passwords\<close>

record argon2idParams =
  a2_memory :: int
  a2_time :: int
  a2_threads :: int
  a2_salt :: string
  a2_hash :: string

datatype pubkey = RSAKey string | ECKey string | EdKey string

datatype claim = CStr string | CNum int string | COther string

type_synonym claims = "(string \<times> claim) list"

datatype auth_error = NoCredentials | BadCredentials | KeyMiss | BadToken | Unreachable | NotListed | Untrusted

text \<open>The JWT parser gets the allowed methods, the expected issuer and audience, the leeway, a key function (from the key
  identifier and the method of the token), the time and the token.  What the network answers depends on the time.\<close>

record auth_env =
  ae_crypt :: "string \<Rightarrow> string \<Rightarrow> bool"
  ae_bcrypt :: "string \<Rightarrow> string \<Rightarrow> bool"
  ae_argon2 :: "argon2idParams \<Rightarrow> string \<Rightarrow> string"
  ae_sha512 :: "string \<Rightarrow> string"
  ae_b64 :: "string \<Rightarrow> string option"
  ae_rawb64 :: "string \<Rightarrow> string option"
  ae_b64url :: "string \<Rightarrow> string option"
  ae_jsonIss :: "string \<Rightarrow> string option"
  ae_splitHost :: "string \<Rightarrow> string option"
  ae_discovery :: "int \<Rightarrow> string \<Rightarrow> (string \<times> string list) option"
  ae_JWKS :: "int \<Rightarrow> string \<Rightarrow> (string \<times> pubkey) list option"
  ae_Parse :: "string list \<Rightarrow> string \<Rightarrow> string \<Rightarrow> int \<Rightarrow> (string \<Rightarrow> string \<Rightarrow> auth_error + pubkey) \<Rightarrow> int \<Rightarrow> string \<Rightarrow> auth_error + claims"

definition parseKV :: "string \<Rightarrow> string \<Rightarrow> int option" where
  "parseKV s k = (let prefix = k @ ''='' in if \<not> has_prefix s prefix then None else parse_int (trim_prefix s prefix))"

definition parseArgon2id :: "auth_env \<Rightarrow> string \<Rightarrow> argon2idParams option" where
  "parseArgon2id env encoded =
     (case split_on CHR ''$'' encoded of
        [_, alg, _, ps, salt, h] \<Rightarrow>
          if alg \<noteq> ''argon2id'' then None
          else (case split_on CHR '','' ps of
                  [pm, pt, pp] \<Rightarrow>
                    (case (parseKV pm ''m'', parseKV pt ''t'', parseKV pp ''p'') of
                       (Some memory, Some timeCost, Some threads) \<Rightarrow>
                         if timeCost < 1 \<or> threads < 1 \<or> threads > 255 \<or> memory < 8 * threads then None
                         else (case (ae_rawb64 env salt, ae_rawb64 env h) of
                                 (Some s, Some x) \<Rightarrow>
                                   Some \<lparr>a2_memory = memory mod 2 ^ 32, a2_time = timeCost mod 2 ^ 32, a2_threads = threads,
                                         a2_salt = s, a2_hash = x\<rparr>
                               | _ \<Rightarrow> None)
                     | _ \<Rightarrow> None)
                | _ \<Rightarrow> None)
      | _ \<Rightarrow> None)"

definition verifyArgon2id :: "auth_env \<Rightarrow> string \<Rightarrow> string \<Rightarrow> bool" where
  "verifyArgon2id env plaintext encoded =
     (case parseArgon2id env encoded of None \<Rightarrow> False | Some p \<Rightarrow> ae_argon2 env p plaintext = a2_hash p)"

definition crypt_prefixes :: "string list" where
  "crypt_prefixes = [''$6$'', ''$5$'']"

definition bcrypt_prefixes :: "string list" where
  "bcrypt_prefixes = [''$2a$'', ''$2b$'', ''$2y$'', ''$2$'']"

definition verifyPassword :: "auth_env \<Rightarrow> string \<Rightarrow> string \<Rightarrow> bool" where
  "verifyPassword env plaintext hash =
     (if list_ex (has_prefix hash) crypt_prefixes then ae_crypt env plaintext hash
      else if list_ex (has_prefix hash) bcrypt_prefixes then ae_bcrypt env plaintext hash
      else if has_prefix hash ''$argon2id$'' then verifyArgon2id env plaintext hash
      else False)"

definition recognizedHashPrefix :: "string \<Rightarrow> bool" where
  "recognizedHashPrefix hash \<longleftrightarrow> list_ex (has_prefix hash) (crypt_prefixes @ bcrypt_prefixes @ [''$argon2id$''])"

type_synonym basicVerifier = "(string \<times> string) list"

definition newBasicVerifier :: "auth_env \<Rightarrow> (string \<times> string) list \<Rightarrow> string + basicVerifier" where
  "newBasicVerifier env basic =
     (case List.find (\<lambda>(user, hash). \<not> recognizedHashPrefix hash \<or> has_prefix hash ''$argon2id$'' \<and> parseArgon2id env hash = None) basic of
        Some (user, _) \<Rightarrow> Inl user
      | None \<Rightarrow> Inr basic)"

definition basic_verify :: "auth_env \<Rightarrow> basicVerifier \<Rightarrow> string \<Rightarrow> string \<Rightarrow> bool" where
  "basic_verify env users user pass = (case map_of users user of None \<Rightarrow> False | Some hash \<Rightarrow> verifyPassword env pass hash)"

subsection \<open>OpenID Connect issuers\<close>

record OIDCIssuer =
  oi_ID :: string
  oi_Issuer :: string
  oi_Audience :: string
  oi_Algorithms :: "string list option"
  oi_JWKSURI :: string
  oi_UsernameTemplate :: string
  oi_GroupTemplates :: "string list"
  oi_MatchClaim :: string
  oi_MatchCaseInsensitive :: "bool option"
  oi_Allow :: "string list"

definition SafeAlgs :: "string list" where
  "SafeAlgs = [''RS256'', ''RS384'', ''RS512'', ''PS256'', ''PS384'', ''PS512'', ''ES256'', ''ES384'', ''ES512'', ''EdDSA'']"

definition ValidateAlgorithms :: "string list \<Rightarrow> string option" where
  "ValidateAlgorithms algs = List.find (\<lambda>a. a \<notin> set SafeAlgs) algs"

definition defaultOIDCAlgorithms :: "string list" where
  "defaultOIDCAlgorithms = [''RS256'']"

text \<open>\<open>iss_fetches\<close> counts the key set downloads; the code keeps no such counter.\<close>

record issuerState =
  iss_cfg :: OIDCIssuer
  iss_allow :: "string list"
  iss_caseInsensitive :: bool
  iss_algorithms :: "string list"
  iss_keys :: "(string \<times> pubkey) list option"
  iss_lastDiscovery :: "int option"
  iss_fetches :: nat

definition newIssuerState :: "OIDCIssuer \<Rightarrow> issuerState option" where
  "newIssuerState cfg =
     (if (case oi_Algorithms cfg of None \<Rightarrow> False | Some algs \<Rightarrow> ValidateAlgorithms algs \<noteq> None) then None
      else Some \<lparr>iss_cfg = cfg, iss_allow = map foldDelimiters (oi_Allow cfg),
                 iss_caseInsensitive = (case oi_MatchCaseInsensitive cfg of None \<Rightarrow> True | Some b \<Rightarrow> b),
                 iss_algorithms = [], iss_keys = None, iss_lastDiscovery = None, iss_fetches = 0\<rparr>)"

definition configured_algs :: "OIDCIssuer \<Rightarrow> string list" where
  "configured_algs cfg = (case oi_Algorithms cfg of None \<Rightarrow> [] | Some algs \<Rightarrow> algs)"

definition iss_resolve :: "auth_env \<Rightarrow> int \<Rightarrow> issuerState \<Rightarrow> (string \<times> string list) option" where
  "iss_resolve env now s =
     (let cfg = iss_cfg s; algs = configured_algs cfg
      in if oi_JWKSURI cfg \<noteq> [] then Some (oi_JWKSURI cfg, if algs = [] then defaultOIDCAlgorithms else algs)
         else case ae_discovery env now (oi_Issuer cfg) of
                None \<Rightarrow> None
              | Some (uri, supported) \<Rightarrow>
                  let safe = filter (\<lambda>a. a \<in> set SafeAlgs) supported
                  in Some (uri, if algs = [] then (if safe = [] then defaultOIDCAlgorithms else safe) else algs))"

definition getKeys :: "auth_env \<Rightarrow> int \<Rightarrow> bool \<Rightarrow> issuerState \<Rightarrow> ((string \<times> pubkey) list \<times> string list) option \<times> issuerState" where
  "getKeys env now forceRefresh s =
     (let s = (if forceRefresh then s\<lparr>iss_keys := None\<rparr> else s)
      in case iss_keys s of
           Some keys \<Rightarrow> (Some (keys, iss_algorithms s), s)
         | None \<Rightarrow>
             (case iss_resolve env now s of
                None \<Rightarrow> (None, s)
              | Some (uri, algs) \<Rightarrow>
                  let s = s\<lparr>iss_fetches := Suc (iss_fetches s)\<rparr>
                  in (case ae_JWKS env now uri of
                        None \<Rightarrow> (None, s)
                      | Some keys \<Rightarrow> (Some (keys, algs), s\<lparr>iss_algorithms := algs, iss_keys := Some keys\<rparr>))))"

text \<open>The key for a token: its identifier must be known and its method must fit the type of the key.\<close>

definition fits_key :: "pubkey \<Rightarrow> string \<Rightarrow> bool" where
  "fits_key k alg =
     (case k of RSAKey _ \<Rightarrow> has_prefix alg ''RS'' \<or> has_prefix alg ''PS''
      | ECKey _ \<Rightarrow> has_prefix alg ''ES''
      | EdKey _ \<Rightarrow> alg = ''EdDSA'')"

definition keyFunc :: "(string \<times> pubkey) list \<Rightarrow> string \<Rightarrow> string \<Rightarrow> auth_error + pubkey" where
  "keyFunc keys kid alg =
     (case map_of keys kid of None \<Rightarrow> Inl KeyMiss | Some k \<Rightarrow> if fits_key k alg then Inr k else Inl BadToken)"

definition iss_parse :: "auth_env \<Rightarrow> issuerState \<Rightarrow> (string \<times> pubkey) list \<Rightarrow> string list \<Rightarrow> int \<Rightarrow> int \<Rightarrow> string \<Rightarrow> auth_error + claims" where
  "iss_parse env s keys algs clockTolerance now token =
     ae_Parse env algs (oi_Issuer (iss_cfg s)) (oi_Audience (iss_cfg s)) clockTolerance (keyFunc keys) now token"

text \<open>\<open>\{(\w+)\}\<close> replaced by the claim of that name.\<close>

definition is_word_char :: "char \<Rightarrow> bool" where
  "is_word_char c \<longleftrightarrow> is_digit c \<or> c \<ge> CHR ''a'' \<and> c \<le> CHR ''z'' \<or> c \<ge> CHR ''A'' \<and> c \<le> CHR ''Z'' \<or> c = CHR ''_''"

definition claim_text :: "claims \<Rightarrow> string \<Rightarrow> string" where
  "claim_text cs k = (case map_of cs k of None \<Rightarrow> [] | Some (CStr s) \<Rightarrow> s | Some (CNum _ s) \<Rightarrow> s | Some (COther s) \<Rightarrow> s)"

function renderTemplate :: "string \<Rightarrow> claims \<Rightarrow> string" where
  "renderTemplate [] cs = []"
| "renderTemplate (c # s) cs =
     (let name = takeWhile is_word_char s; rest = dropWhile is_word_char s
      in if c = CHR ''{'' \<and> name \<noteq> [] \<and> rest \<noteq> [] \<and> hd rest = CHR ''}'' then claim_text cs name @ renderTemplate (tl rest) cs
         else c # renderTemplate s cs)"
  by pat_completeness auto
termination
  by (relation "measure (length \<circ> fst)") (auto simp: less_Suc_eq_le le_diff_conv le_SucI[OF length_dropWhile_le])

definition matchFolded :: "string \<Rightarrow> string \<Rightarrow> bool \<Rightarrow> bool" where
  "matchFolded pattern foldedValue caseInsensitive = glob_match caseInsensitive (translateGlob pattern) foldedValue"

definition identityFromClaims :: "issuerState \<Rightarrow> claims \<Rightarrow> auth_error + Identity" where
  "identityFromClaims s cs =
     (case map_of cs (oi_MatchClaim (iss_cfg s)) of
        Some (CStr value) \<Rightarrow>
          if list_ex (\<lambda>p. matchFolded p (foldDelimiters value) (iss_caseInsensitive s)) (iss_allow s)
          then Inr \<lparr>id_Name = renderTemplate (oi_UsernameTemplate (iss_cfg s)) cs,
                    id_Groups = map (\<lambda>t. renderTemplate t cs) (oi_GroupTemplates (iss_cfg s)), id_Method = ''oidc''\<rparr>
          else Inl NotListed
      | _ \<Rightarrow> Inl NotListed)"

definition expiry :: "claims \<Rightarrow> int" where
  "expiry cs = (case map_of cs ''exp'' of Some (CNum n _) \<Rightarrow> n * 10 ^ 9 | _ \<Rightarrow> 0)"

definition discoveryCooldownActive :: "issuerState \<Rightarrow> int \<Rightarrow> int \<Rightarrow> bool" where
  "discoveryCooldownActive s cooldown now = (case iss_lastDiscovery s of None \<Rightarrow> False | Some t \<Rightarrow> now - t < cooldown)"

definition claims_identity :: "issuerState \<Rightarrow> claims \<Rightarrow> auth_error + Identity \<times> int" where
  "claims_identity s cs = (case identityFromClaims s cs of Inl e \<Rightarrow> Inl e | Inr ident \<Rightarrow> Inr (ident, expiry cs))"

definition iss_verify :: "auth_env \<Rightarrow> int \<Rightarrow> int \<Rightarrow> int \<Rightarrow> string \<Rightarrow> issuerState \<Rightarrow> (auth_error + Identity \<times> int) \<times> issuerState" where
  "iss_verify env clockTolerance discoveryCooldown now token s =
     (case getKeys env now False s of
        (None, s1) \<Rightarrow> (Inl Unreachable, s1)
      | (Some (keys, algs), s1) \<Rightarrow>
          (case iss_parse env s1 keys algs clockTolerance now token of
             Inr cs \<Rightarrow> (claims_identity s1 cs, s1)
           | Inl e \<Rightarrow>
               if e \<noteq> KeyMiss \<or> discoveryCooldownActive s1 discoveryCooldown now then (Inl e, s1)
               else (case getKeys env now True (s1\<lparr>iss_lastDiscovery := Some now\<rparr>) of
                       (None, s2) \<Rightarrow> (Inl Unreachable, s2)
                     | (Some (keys, algs), s2) \<Rightarrow>
                         (case iss_parse env s2 keys algs clockTolerance now token of
                            Inl e \<Rightarrow> (Inl e, s2)
                          | Inr cs \<Rightarrow> (claims_identity s2 cs, s2)))))"

subsection \<open>The cache of verified tokens\<close>

text \<open>\<open>rc_order\<close> is the list of the code, most recently used first; its map finds the element of a key.\<close>

record rc_entry =
  rc_key :: string
  rc_identity :: Identity
  rc_expiresAt :: int

record resultCache =
  rc_ttl :: int
  rc_maxSize :: int
  rc_order :: "rc_entry list"

definition rc_get :: "auth_env \<Rightarrow> int \<Rightarrow> string \<Rightarrow> resultCache \<Rightarrow> Identity option \<times> resultCache" where
  "rc_get env now token c =
     (let key = ae_sha512 env token; others = filter (\<lambda>e. rc_key e \<noteq> key) (rc_order c)
      in case List.find (\<lambda>e. rc_key e = key) (rc_order c) of
           None \<Rightarrow> (None, c)
         | Some entry \<Rightarrow>
             if rc_expiresAt entry < now then (None, c\<lparr>rc_order := others\<rparr>)
             else (Some (rc_identity entry), c\<lparr>rc_order := entry # others\<rparr>))"

definition rc_set :: "auth_env \<Rightarrow> int \<Rightarrow> string \<Rightarrow> Identity \<Rightarrow> int \<Rightarrow> resultCache \<Rightarrow> resultCache" where
  "rc_set env now token ident tokenExpiresAt c =
     (let expiresAt = (if tokenExpiresAt < now + rc_ttl c then tokenExpiresAt else now + rc_ttl c)
      in if \<not> now < expiresAt then c
         else let key = ae_sha512 env token;
                  order = \<lparr>rc_key = key, rc_identity = ident, rc_expiresAt = expiresAt\<rparr> # filter (\<lambda>e. rc_key e \<noteq> key) (rc_order c)
              in c\<lparr>rc_order := take (nat (rc_maxSize c)) order\<rparr>)"

subsection \<open>The authenticator\<close>

record Authenticator =
  au_basic :: basicVerifier
  au_issuers :: "(string \<times> issuerState) list"
  au_cache :: resultCache
  au_clockTolerance :: int
  au_discoveryCooldown :: int

record request =
  rq_Authorization :: string
  rq_RemoteAddr :: string

text \<open>\<open>Request.BasicAuth\<close>.\<close>

definition BasicAuth :: "auth_env \<Rightarrow> request \<Rightarrow> (string \<times> string) option" where
  "BasicAuth env r =
     (let h = rq_Authorization r
      in if length h < 6 \<or> to_lower (take 6 h) \<noteq> ''basic '' then None
         else case ae_b64 env (drop 6 h) of None \<Rightarrow> None | Some cs \<Rightarrow> cut CHR '':'' cs)"

definition peekIssuer :: "auth_env \<Rightarrow> string \<Rightarrow> string" where
  "peekIssuer env token =
     (case split_on CHR ''.'' token of
        _ # payload # _ \<Rightarrow>
          (case ae_b64url env payload of
             None \<Rightarrow> []
           | Some json \<Rightarrow> (case ae_jsonIss env json of None \<Rightarrow> [] | Some iss \<Rightarrow> iss))
      | _ \<Rightarrow> [])"

definition verifyBearer :: "auth_env \<Rightarrow> int \<Rightarrow> string \<Rightarrow> Authenticator \<Rightarrow> (auth_error + Identity) \<times> Authenticator" where
  "verifyBearer env now token a =
     (case rc_get env now token (au_cache a) of
        (Some ident, c) \<Rightarrow> (Inr ident, a\<lparr>au_cache := c\<rparr>)
      | (None, c) \<Rightarrow>
          let a = a\<lparr>au_cache := c\<rparr>; iss = peekIssuer env token
          in (case map_of (au_issuers a) iss of
               None \<Rightarrow> (Inl Untrusted, a)
             | Some st \<Rightarrow>
                 (case iss_verify env (au_clockTolerance a) (au_discoveryCooldown a) now token st of
                    (res, st') \<Rightarrow>
                      let a = a\<lparr>au_issuers := AList.update iss st' (au_issuers a)\<rparr>
                      in (case res of
                            Inl e \<Rightarrow> (Inl e, a)
                          | Inr (ident, expiresAt) \<Rightarrow> (Inr ident, a\<lparr>au_cache := rc_set env now token ident expiresAt (au_cache a)\<rparr>)))))"

definition Authenticate :: "auth_env \<Rightarrow> int \<Rightarrow> request \<Rightarrow> Authenticator \<Rightarrow> (auth_error + Identity) \<times> Authenticator" where
  "Authenticate env now r a =
     (if rq_Authorization r = [] then (Inl NoCredentials, a)
      else case BasicAuth env r of
             Some (user, pass) \<Rightarrow>
               if basic_verify env (au_basic a) user pass then (Inr \<lparr>id_Name = user, id_Groups = [], id_Method = ''basic''\<rparr>, a)
               else (Inl BadCredentials, a)
           | None \<Rightarrow>
               if has_prefix (rq_Authorization r) ''Bearer ''
               then let token = trim_space (trim_prefix (rq_Authorization r) ''Bearer '')
                    in if token = [] then (Inl BadCredentials, a) else verifyBearer env now token a
               else (Inl BadCredentials, a))"

record OIDCConfig =
  oc_ClockToleranceSeconds :: int
  oc_DiscoveryCooldownSeconds :: int
  oc_CacheTTLSeconds :: int
  oc_CacheMaxEntries :: int
  oc_Issuers :: "OIDCIssuer list"

fun add_issuers :: "OIDCIssuer list \<Rightarrow> (string \<times> issuerState) list \<Rightarrow> (string \<times> issuerState) list option" where
  "add_issuers [] acc = Some acc"
| "add_issuers (ic # ics) acc =
     (if oi_Issuer ic = [] \<or> map_of acc (oi_Issuer ic) \<noteq> None \<or> oi_MatchClaim ic = [] \<or> oi_UsernameTemplate ic = [] then None
      else case newIssuerState ic of None \<Rightarrow> None | Some st \<Rightarrow> add_issuers ics (acc @ [(oi_Issuer ic, st)]))"

definition secs_or :: "int \<Rightarrow> int \<Rightarrow> int" where
  "secs_or n def = (if n = 0 then def else n) * 10 ^ 9"

definition auth_New :: "auth_env \<Rightarrow> (string \<times> string) list \<Rightarrow> OIDCConfig \<Rightarrow> Authenticator option" where
  "auth_New env basic oc =
     (case newBasicVerifier env basic of
        Inl _ \<Rightarrow> None
      | Inr users \<Rightarrow>
          (case add_issuers (oc_Issuers oc) [] of
             None \<Rightarrow> None
           | Some issuers \<Rightarrow>
               Some \<lparr>au_basic = users, au_issuers = issuers,
                     au_cache = \<lparr>rc_ttl = secs_or (oc_CacheTTLSeconds oc) 300,
                                 rc_maxSize = (if oc_CacheMaxEntries oc = 0 then 1000 else oc_CacheMaxEntries oc), rc_order = []\<rparr>,
                     au_clockTolerance = secs_or (oc_ClockToleranceSeconds oc) 30,
                     au_discoveryCooldown = secs_or (oc_DiscoveryCooldownSeconds oc) 30\<rparr>))"

subsection \<open>The throttle\<close>

record failureEntry =
  tf_count :: nat
  tf_windowStart :: int
  tf_blockedUntil :: "int option"

record authThrottle =
  th_limit :: nat
  th_window :: int
  th_entries :: "(string \<times> failureEntry) list"

definition maxTrackedSources :: nat where "maxTrackedSources = 10000"

definition newAuthThrottle :: "int \<Rightarrow> int \<Rightarrow> authThrottle" where
  "newAuthThrottle limit window =
     \<lparr>th_limit = (if limit \<le> 0 then 10 else nat limit), th_window = (if window \<le> 0 then 60 * 10 ^ 9 else window), th_entries = []\<rparr>"

definition th_delete :: "string \<Rightarrow> authThrottle \<Rightarrow> authThrottle" where
  "th_delete source t = t\<lparr>th_entries := AList.delete source (th_entries t)\<rparr>"

definition th_blocked :: "int \<Rightarrow> string \<Rightarrow> authThrottle \<Rightarrow> bool \<times> authThrottle" where
  "th_blocked now source t =
     (case map_of (th_entries t) source of
        None \<Rightarrow> (False, t)
      | Some e \<Rightarrow>
          if (case tf_blockedUntil e of None \<Rightarrow> False | Some u \<Rightarrow> now < u) then (True, t)
          else (False, if now - tf_windowStart e > th_window t then th_delete source t else t))"

definition evictOldest :: "int \<Rightarrow> authThrottle \<Rightarrow> authThrottle" where
  "evictOldest now t =
     (let live = filter (\<lambda>(_, e). \<not> now - tf_windowStart e > th_window t) (th_entries t);
          oldest = foldl (\<lambda>best (k, e). case best of None \<Rightarrow> Some (k, e)
                     | Some (k0, e0) \<Rightarrow> if tf_windowStart e < tf_windowStart e0 then Some (k, e) else best) None live
      in t\<lparr>th_entries := (case oldest of
             Some (k, _) \<Rightarrow> if length live \<ge> maxTrackedSources \<and> k \<noteq> [] then AList.delete k live else live
           | None \<Rightarrow> live)\<rparr>)"

definition th_fail :: "int \<Rightarrow> string \<Rightarrow> authThrottle \<Rightarrow> authThrottle" where
  "th_fail now source t =
     (let found = map_of (th_entries t) source;
          fresh = \<lparr>tf_count = 0, tf_windowStart = now, tf_blockedUntil = None\<rparr>;
          expired = (case found of None \<Rightarrow> True | Some e \<Rightarrow> now - tf_windowStart e > th_window t);
          t = (if found = None \<and> length (th_entries t) \<ge> maxTrackedSources then evictOldest now t else t);
          e = (if expired then fresh else the found);
          e = e\<lparr>tf_count := Suc (tf_count e)\<rparr>;
          e = (if tf_count e \<ge> th_limit t then e\<lparr>tf_blockedUntil := Some (now + th_window t)\<rparr> else e)
      in t\<lparr>th_entries := AList.update source e (th_entries t)\<rparr>)"

definition throttleSource :: "auth_env \<Rightarrow> request \<Rightarrow> string" where
  "throttleSource env r = (case ae_splitHost env (rq_RemoteAddr r) of None \<Rightarrow> rq_RemoteAddr r | Some host \<Rightarrow> host)"

definition throttleKey :: "auth_env \<Rightarrow> request \<Rightarrow> string" where
  "throttleKey env r =
     (let source = throttleSource env r
      in case BasicAuth env r of Some (user, _) \<Rightarrow> if user \<noteq> [] then source @ ''|'' @ user else source | None \<Rightarrow> source)"

subsection \<open>The guard\<close>

definition knownActions :: "(string \<times> string list) list" where
  "knownActions = [(''snapshot'', [''create'', ''current'']), (''cleanup'', [''run'']), (''update'', [''run'']), (''rebuild'', [''run'']),
     (''prime'', [''run'']), (''publish-key'', [''run'']), (''jobs'', [''read''])]"

definition validatePermissions :: "(string \<times> (string \<times> string list) list) list \<Rightarrow> bool" where
  "validatePermissions apiCfg \<longleftrightarrow>
     list_all (\<lambda>(resource, actions). case map_of knownActions resource of
                 None \<Rightarrow> False | Some known \<Rightarrow> list_all (\<lambda>(action, _). action \<in> set known) actions) apiCfg"

record api_state =
  ap_authn :: Authenticator
  ap_throttle :: authThrottle

datatype outcome = NotFound | Unauthorized | TooManyRequests | Forbidden | Handled Identity

definition api_rules :: "(string \<times> (string \<times> string list) list) list \<Rightarrow> string \<Rightarrow> string \<Rightarrow> string list" where
  "api_rules apiCfg resource action =
     (case map_of apiCfg resource of None \<Rightarrow> []
      | Some actions \<Rightarrow> (case map_of actions action of None \<Rightarrow> [] | Some rules \<Rightarrow> rules))"

definition guard :: "auth_env \<Rightarrow> (string \<times> (string \<times> string list) list) list \<Rightarrow> string \<Rightarrow> string \<Rightarrow> int \<Rightarrow> request \<Rightarrow> api_state \<Rightarrow>
    outcome \<times> api_state" where
  "guard env apiCfg resource action now r s =
     (let rules = api_rules apiCfg resource action
      in if rules = [] then (NotFound, s)
         else if rq_Authorization r = [] then (Unauthorized, s)
         else let source = throttleKey env r
              in case th_blocked now source (ap_throttle s) of
                   (True, t) \<Rightarrow> (TooManyRequests, s\<lparr>ap_throttle := t\<rparr>)
                 | (False, t) \<Rightarrow>
                     let t = th_fail now source t
                     in (case Authenticate env now r (ap_authn s) of
                          (Inl e, a) \<Rightarrow> (Forbidden, \<lparr>ap_authn = a, ap_throttle = t\<rparr>)
                        | (Inr ident, a) \<Rightarrow>
                            if \<not> Allowed rules ident then (Forbidden, \<lparr>ap_authn = a, ap_throttle = t\<rparr>)
                            else (Handled ident, \<lparr>ap_authn = a, ap_throttle = th_delete source t\<rparr>)))"

text \<open>A sequence of requests, with what each asks for and when it arrives.\<close>

fun serve :: "auth_env \<Rightarrow> (string \<times> (string \<times> string list) list) list \<Rightarrow> (string \<times> string \<times> int \<times> request) list \<Rightarrow> api_state \<Rightarrow>
    outcome list \<times> api_state" where
  "serve env apiCfg [] s = ([], s)"
| "serve env apiCfg ((resource, action, now, r) # reqs) s =
     (case guard env apiCfg resource action now r s of
        (out, s1) \<Rightarrow> (case serve env apiCfg reqs s1 of (outs, s2) \<Rightarrow> (out # outs, s2)))"

section \<open>What a pattern matches\<close>

fun tok_matches :: "bool \<Rightarrow> glob_tok \<Rightarrow> string \<Rightarrow> bool" where
  "tok_matches ci AnyPath p = (NL \<notin> set p)"
| "tok_matches ci AnySeg p = (CHR ''/'' \<notin> set p)"
| "tok_matches ci OneChar p = (\<exists>d. p = [d] \<and> d \<noteq> CHR ''/'')"
| "tok_matches ci (Lit c) p = (\<exists>d. p = [d] \<and> same_char ci c d)"

definition glob_parts :: "bool \<Rightarrow> glob_tok list \<Rightarrow> string \<Rightarrow> string list \<Rightarrow> bool" where
  "glob_parts ci ts s parts \<longleftrightarrow> s = concat parts \<and> list_all2 (tok_matches ci) ts parts"

lemma glob_parts_Nil: "(\<exists>parts. glob_parts ci [] s parts) \<longleftrightarrow> s = []"
  by (simp add: glob_parts_def)

lemma glob_parts_Cons:
  "(\<exists>parts. glob_parts ci (t # ts) s parts) \<longleftrightarrow> (\<exists>p s'. s = p @ s' \<and> tok_matches ci t p \<and> (\<exists>parts. glob_parts ci ts s' parts))"
  unfolding glob_parts_def list_all2_Cons1 by (auto; metis concat.simps(2))

lemma prefix_split:
  "(\<exists>p s'. s = p @ s' \<and> c \<notin> set p \<and> Q s') \<longleftrightarrow> Q s \<or> (case s of [] \<Rightarrow> False | d # s1 \<Rightarrow> d \<noteq> c \<and> (\<exists>p s'. s1 = p @ s' \<and> c \<notin> set p \<and> Q s'))"
  (is "?L \<longleftrightarrow> ?R")
proof
  assume ?L
  then obtain p s' where p: "s = p @ s'" "c \<notin> set p" "Q s'" by blast
  then show ?R by (cases p) auto
next
  assume ?R
  then consider "Q s" | d p s' where "s = d # p @ s'" "d \<noteq> c" "c \<notin> set p" "Q s'" by (auto split: list.splits)
  then show ?L
  proof cases
    case 1
    then show ?thesis by (intro exI[of _ "[]"] exI[of _ s]) simp
  next
    case (2 d p s')
    then show ?thesis by (intro exI[of _ "d # p"] exI[of _ s']) simp
  qed
qed

lemma first_split: "(\<exists>p s'. s = p @ s' \<and> (\<exists>d. p = [d] \<and> P d) \<and> Q s') \<longleftrightarrow> (case s of [] \<Rightarrow> False | d # s' \<Rightarrow> P d \<and> Q s')"
proof (cases s)
  case (Cons d s')
  have "(\<exists>p s1. d # s' = p @ s1 \<and> (\<exists>d. p = [d] \<and> P d) \<and> Q s1) \<longleftrightarrow> P d \<and> Q s'"
    by (metis append_Cons append_Nil list.inject)
  then show ?thesis using Cons by simp
qed auto

lemma glob_match_parts: "glob_match ci ts s \<longleftrightarrow> (\<exists>parts. glob_parts ci ts s parts)"
proof (induction ci ts s rule: glob_match.induct)
  case (1 ci s)
  then show ?case by (simp add: glob_parts_Nil)
next
  case (2 ci c ts s)
  then show ?case unfolding glob_parts_Cons tok_matches.simps first_split by (auto split: list.splits)
next
  case (3 ci ts s)
  then show ?case unfolding glob_parts_Cons tok_matches.simps first_split by (auto split: list.splits)
next
  case (4 ci ts s)
  have "(\<exists>parts. glob_parts ci (AnySeg # ts) s parts) \<longleftrightarrow>
      (\<exists>parts. glob_parts ci ts s parts) \<or> (case s of [] \<Rightarrow> False | d # s1 \<Rightarrow> d \<noteq> CHR ''/'' \<and> (\<exists>parts. glob_parts ci (AnySeg # ts) s1 parts))"
    unfolding glob_parts_Cons tok_matches.simps by (rule prefix_split)
  then show ?case using 4 by (auto split: list.splits)
next
  case (5 ci ts s)
  have "(\<exists>parts. glob_parts ci (AnyPath # ts) s parts) \<longleftrightarrow>
      (\<exists>parts. glob_parts ci ts s parts) \<or> (case s of [] \<Rightarrow> False | d # s1 \<Rightarrow> d \<noteq> NL \<and> (\<exists>parts. glob_parts ci (AnyPath # ts) s1 parts))"
    unfolding glob_parts_Cons tok_matches.simps by (rule prefix_split)
  then show ?case using 5 by (auto split: list.splits)
qed

text \<open>Without a double star a match keeps the delimiters.\<close>

definition delims :: "string \<Rightarrow> nat" where
  "delims s = length (filter (\<lambda>c. c = CHR ''/'' \<or> c = CHR '':'') s)"

lemma lower_slash: "lower_char c = CHR ''/'' \<longleftrightarrow> c = CHR ''/''"
proof (cases "CHR ''A'' \<le> c \<and> c \<le> CHR ''Z''")
  case True
  then have r: "65 \<le> (of_char c :: nat)" "(of_char c :: nat) \<le> 90" by (auto simp: less_eq_char_def)
  have "(of_char (lower_char c) :: nat) = of_char c + 32" using True r by (simp add: lower_char_def)
  then have "lower_char c \<noteq> CHR ''/''" using r by auto
  moreover have "c \<noteq> CHR ''/''" using r by auto
  ultimately show ?thesis by simp
qed (auto simp: lower_char_def)

lemma same_slash: "same_char ci c d \<Longrightarrow> c = CHR ''/'' \<longleftrightarrow> d = CHR ''/''"
  unfolding same_char_def using lower_slash by metis

abbreviation slashes :: "string \<Rightarrow> nat" where
  "slashes s \<equiv> length (filter (\<lambda>c. c = CHR ''/'') s)"

lemma slashes_fold: "slashes (foldDelimiters s) = delims s"
  by (induction s) (auto simp: foldDelimiters_def delims_def)

lemma slashes_toks: "length (filter (\<lambda>t. t = Lit CHR ''/'') (glob_toks s)) = slashes s"
proof (induction s rule: glob_toks.induct)
  case (3 c d s)
  show ?case
  proof (cases "c = CHR ''*''")
    case True
    then show ?thesis using 3(1)[OF True] 3(2)[OF True] by (cases "d = CHR ''*''") simp_all
  next
    case False
    then show ?thesis using 3(3)[OF False] by (cases "d = CHR ''/''") auto
  qed
qed auto

lemma slashes_part: "t \<noteq> AnyPath \<Longrightarrow> tok_matches ci t p \<Longrightarrow> slashes p = (if t = Lit CHR ''/'' then 1 else 0)"
  by (cases t) (auto simp: filter_empty_conv dest: same_slash)

lemma slashes_match:
  "list_all2 (tok_matches ci) ts parts \<Longrightarrow> AnyPath \<notin> set ts \<Longrightarrow> slashes (concat parts) = length (filter (\<lambda>t. t = Lit CHR ''/'') ts)"
proof (induction ts parts rule: list_all2_induct)
  case (Cons t ts p parts)
  then show ?case using slashes_part[of t ci p] by auto
qed simp

section \<open>Tokens\<close>

definition published_keys :: "auth_env \<Rightarrow> (string \<times> pubkey) list \<Rightarrow> bool" where
  "published_keys env keys \<longleftrightarrow> (\<exists>t uri. ae_JWKS env t uri = Some keys)"

lemma published_keysI: "ae_JWKS env t uri = Some keys \<Longrightarrow> published_keys env keys"
  unfolding published_keys_def by blast

text \<open>A token is genuine for an identity when, at time \<open>t\<close>, the JWT parser accepted it for one of the configured issuers
  with that issuer's published keys and with asymmetric methods only, and its claims are allow-listed and give that
  identity.\<close>

definition genuine :: "auth_env \<Rightarrow> OIDCIssuer list \<Rightarrow> int \<Rightarrow> int \<Rightarrow> string \<Rightarrow> Identity \<Rightarrow> int \<Rightarrow> bool" where
  "genuine env cfgs tol t token ident ex \<longleftrightarrow>
     (\<exists>cfg s0 keys algs cs. cfg \<in> set cfgs \<and> newIssuerState cfg = Some s0 \<and> set algs \<subseteq> set SafeAlgs \<and> published_keys env keys \<and>
        ae_Parse env algs (oi_Issuer cfg) (oi_Audience cfg) tol (keyFunc keys) t token = Inr cs \<and>
        identityFromClaims s0 cs = Inr ident \<and> ex = expiry cs)"

definition issuer_ok :: "auth_env \<Rightarrow> OIDCIssuer list \<Rightarrow> issuerState \<Rightarrow> bool" where
  "issuer_ok env cfgs s \<longleftrightarrow>
     (\<exists>s0. iss_cfg s \<in> set cfgs \<and> newIssuerState (iss_cfg s) = Some s0 \<and> iss_allow s = iss_allow s0 \<and> iss_caseInsensitive s = iss_caseInsensitive s0) \<and>
     (case iss_keys s of None \<Rightarrow> True | Some keys \<Rightarrow> set (iss_algorithms s) \<subseteq> set SafeAlgs \<and> published_keys env keys)"

lemma newIssuerState_cfg: "newIssuerState cfg = Some s \<Longrightarrow> iss_cfg s = cfg \<and> iss_keys s = None"
  by (auto simp: newIssuerState_def split: if_splits)

lemma newIssuerState_ok: "newIssuerState cfg = Some s \<Longrightarrow> cfg \<in> set cfgs \<Longrightarrow> issuer_ok env cfgs s"
  using newIssuerState_cfg[of cfg s] by (simp add: issuer_ok_def)

lemma configured_safe: "newIssuerState cfg = Some s \<Longrightarrow> set (configured_algs cfg) \<subseteq> set SafeAlgs"
  by (auto simp: newIssuerState_def configured_algs_def ValidateAlgorithms_def find_None_iff split: if_splits option.splits)

lemma default_safe: "set defaultOIDCAlgorithms \<subseteq> set SafeAlgs"
  by code_simp

lemma iss_resolve_safe:
  assumes "issuer_ok env cfgs s" "iss_resolve env now s = Some (uri, algs)"
  shows "set algs \<subseteq> set SafeAlgs"
proof -
  obtain s0 where "newIssuerState (iss_cfg s) = Some s0" using assms(1) by (auto simp: issuer_ok_def)
  from configured_safe[OF this] have c: "set (configured_algs (iss_cfg s)) \<subseteq> set SafeAlgs" .
  have f: "set (filter (\<lambda>a. a \<in> set SafeAlgs) xs) \<subseteq> set SafeAlgs" for xs by auto
  from assms(2) consider "algs = configured_algs (iss_cfg s)" | "algs = defaultOIDCAlgorithms" | xs where "algs = filter (\<lambda>a. a \<in> set SafeAlgs) xs"
    unfolding iss_resolve_def Let_def by (auto split: if_splits option.splits)
  then show ?thesis using c f default_safe by cases simp_all
qed

lemma getKeys_ok:
  assumes "issuer_ok env cfgs s" "getKeys env now force s = (res, s')"
  shows "issuer_ok env cfgs s'" "iss_cfg s' = iss_cfg s"
    "res = Some (keys, algs) \<Longrightarrow> set algs \<subseteq> set SafeAlgs \<and> published_keys env keys"
proof -
  define s1 where "s1 = (if force then s\<lparr>iss_keys := None\<rparr> else s)"
  have ok1: "issuer_ok env cfgs s1" "iss_cfg s1 = iss_cfg s" using assms(1) by (auto simp: issuer_ok_def s1_def)
  note g = assms(2)[unfolded getKeys_def Let_def s1_def[symmetric]]
  have "issuer_ok env cfgs s' \<and> iss_cfg s' = iss_cfg s \<and> (res = Some (keys, algs) \<longrightarrow> set algs \<subseteq> set SafeAlgs \<and> published_keys env keys)"
  proof (cases "iss_keys s1")
    case (Some ks)
    then show ?thesis using g ok1 by (auto simp: issuer_ok_def)
  next
    case None
    show ?thesis
    proof (cases "iss_resolve env now s1")
      case (Some ua)
      obtain uri as where ua: "ua = (uri, as)" by fastforce
      have "set as \<subseteq> set SafeAlgs" using iss_resolve_safe[OF ok1(1)] Some ua by simp
      moreover have "published_keys env ks" if "ae_JWKS env now uri = Some ks" for ks using that by (rule published_keysI)
      ultimately show ?thesis using g None Some ok1 by (cases "ae_JWKS env now uri") (auto simp: ua issuer_ok_def)
    qed (use g None ok1 in auto)
  qed
  then show "issuer_ok env cfgs s'" "iss_cfg s' = iss_cfg s"
    "res = Some (keys, algs) \<Longrightarrow> set algs \<subseteq> set SafeAlgs \<and> published_keys env keys" by auto
qed

lemma identityFromClaims_cong:
  assumes "issuer_ok env cfgs s" "newIssuerState (iss_cfg s) = Some s0"
  shows "identityFromClaims s cs = identityFromClaims s0 cs"
proof -
  have "iss_allow s = iss_allow s0" "iss_caseInsensitive s = iss_caseInsensitive s0" "iss_cfg s = iss_cfg s0"
    using assms newIssuerState_cfg[OF assms(2)] by (auto simp: issuer_ok_def)
  then show ?thesis unfolding identityFromClaims_def by (simp only:)
qed

lemma parsed_genuine:
  assumes "issuer_ok env cfgs s" "set algs \<subseteq> set SafeAlgs" "published_keys env keys"
    and "iss_parse env s keys algs tol now token = Inr cs" "claims_identity s cs = Inr (ident, ex)"
  shows "genuine env cfgs tol now token ident ex"
proof -
  obtain s0 where s0: "iss_cfg s \<in> set cfgs" "newIssuerState (iss_cfg s) = Some s0" using assms(1) by (auto simp: issuer_ok_def)
  have i: "identityFromClaims s0 cs = Inr ident" "ex = expiry cs"
    using assms(5) identityFromClaims_cong[OF assms(1) s0(2), of cs] by (auto simp: claims_identity_def split: sum.splits)
  show ?thesis
    unfolding genuine_def using s0 assms(2,3) assms(4)[unfolded iss_parse_def] i by blast
qed

lemma iss_verify_ok:
  assumes "issuer_ok env cfgs s" "iss_verify env tol cooldown now token s = (res, s')"
  shows "issuer_ok env cfgs s'" "res = Inr (ident, ex) \<Longrightarrow> genuine env cfgs tol now token ident ex"
proof -
  obtain r1 s1 where g1: "getKeys env now False s = (r1, s1)" by fastforce
  note k1 = getKeys_ok[OF assms(1) g1]
  have "issuer_ok env cfgs s' \<and> (res = Inr (ident, ex) \<longrightarrow> genuine env cfgs tol now token ident ex)"
  proof (cases r1)
    case None
    then show ?thesis using assms(2) g1 k1(1) by (auto simp: iss_verify_def)
  next
    case (Some ka)
    obtain keys algs where ka: "r1 = Some (keys, algs)" using Some by (cases ka) auto
    note safe1 = k1(3)[OF ka]
    show ?thesis
    proof (cases "iss_parse env s1 keys algs tol now token")
      case (Inr cs)
      then have "res = claims_identity s1 cs" "s' = s1" using assms(2) g1 ka by (auto simp: iss_verify_def)
      then show ?thesis using parsed_genuine[OF k1(1) _ _ Inr] safe1 k1(1) by simp
    next
      case (Inl e)
      show ?thesis
      proof (cases "e \<noteq> KeyMiss \<or> discoveryCooldownActive s1 cooldown now")
        case True
        then show ?thesis using assms(2) g1 ka Inl k1(1) by (auto simp: iss_verify_def)
      next
        case False
        let ?s = "s1\<lparr>iss_lastDiscovery := Some now\<rparr>"
        have ok: "issuer_ok env cfgs ?s" using k1(1) by (auto simp: issuer_ok_def split: option.splits)
        obtain r2 s2 where g2: "getKeys env now True ?s = (r2, s2)" by fastforce
        note k2 = getKeys_ok[OF ok g2]
        have v: "(case r2 of None \<Rightarrow> (Inl Unreachable, s2) | Some (keys, algs) \<Rightarrow>
            (case iss_parse env s2 keys algs tol now token of Inl e \<Rightarrow> (Inl e, s2) | Inr cs \<Rightarrow> (claims_identity s2 cs, s2))) = (res, s')"
          using assms(2) g1 ka Inl False g2 by (simp add: iss_verify_def split: option.splits prod.splits)
        show ?thesis
        proof (cases r2)
          case None
          then show ?thesis using v k2(1) by auto
        next
          case (Some kb)
          obtain keys2 algs2 where kb: "r2 = Some (keys2, algs2)" using Some by (cases kb) auto
          then show ?thesis
            using v k2(1) k2(3)[OF kb] parsed_genuine[OF k2(1), of algs2 keys2 tol now token]
            by (cases "iss_parse env s2 keys2 algs2 tol now token") auto
        qed
      qed
    qed
  qed
  then show "issuer_ok env cfgs s'" "res = Inr (ident, ex) \<Longrightarrow> genuine env cfgs tol now token ident ex" by blast+
qed

text \<open>The authenticator: its issuers are configured ones, and every cached result was genuine for a token with that digest,
  until at least the time up to which it is kept.\<close>

definition auth_ok :: "auth_env \<Rightarrow> OIDCIssuer list \<Rightarrow> Authenticator \<Rightarrow> bool" where
  "auth_ok env cfgs a \<longleftrightarrow> (\<forall>(u, s) \<in> set (au_issuers a). issuer_ok env cfgs s) \<and>
     (\<forall>e \<in> set (rc_order (au_cache a)). \<exists>t token ex. ae_sha512 env token = rc_key e \<and>
        genuine env cfgs (au_clockTolerance a) t token (rc_identity e) ex \<and> rc_expiresAt e \<le> ex)"

lemma rc_get_entries: "rc_get env now token c = (res, c') \<Longrightarrow> set (rc_order c') \<subseteq> set (rc_order c)"
  by (auto simp: rc_get_def Let_def dest: find_SomeD split: option.splits if_splits)

lemma rc_get_hit:
  assumes "rc_get env now token c = (Some ident, c')"
  obtains e where "e \<in> set (rc_order c)" "rc_key e = ae_sha512 env token" "rc_identity e = ident" "now \<le> rc_expiresAt e"
  using assms by (auto simp: rc_get_def Let_def dest: find_SomeD split: option.splits if_splits)

lemma rc_set_entries:
  assumes "e \<in> set (rc_order (rc_set env now token ident ex c))"
  shows "e \<in> set (rc_order c) \<or> rc_key e = ae_sha512 env token \<and> rc_identity e = ident \<and> rc_expiresAt e \<le> ex"
  using assms by (auto simp: rc_set_def Let_def split: if_splits dest!: in_set_takeD)

text \<open>What a bearer token that is let through has gone through.\<close>

definition bearer_ok :: "auth_env \<Rightarrow> OIDCIssuer list \<Rightarrow> int \<Rightarrow> int \<Rightarrow> string \<Rightarrow> Identity \<Rightarrow> bool" where
  "bearer_ok env cfgs tol now token ident \<longleftrightarrow>
     (\<exists>t token' ex. ae_sha512 env token' = ae_sha512 env token \<and> genuine env cfgs tol t token' ident ex \<and> (t = now \<and> token' = token \<or> now \<le> ex))"

lemma verifyBearer_ok:
  assumes "auth_ok env cfgs a" "verifyBearer env now token a = (res, a')"
  shows "auth_ok env cfgs a' \<and> au_clockTolerance a' = au_clockTolerance a \<and> au_basic a' = au_basic a \<and>
    (\<forall>ident. res = Inr ident \<longrightarrow> bearer_ok env cfgs (au_clockTolerance a) now token ident)"
proof -
  obtain hit c where g: "rc_get env now token (au_cache a) = (hit, c)" by fastforce
  have okc: "auth_ok env cfgs (a\<lparr>au_cache := c\<rparr>)" using assms(1) rc_get_entries[OF g] unfolding auth_ok_def by auto
  show ?thesis
  proof (cases hit)
    case (Some ident)
    obtain e where e: "e \<in> set (rc_order (au_cache a))" "rc_key e = ae_sha512 env token" "rc_identity e = ident" "now \<le> rc_expiresAt e"
      using rc_get_hit g Some by metis
    obtain t token' ex where "ae_sha512 env token' = rc_key e" "genuine env cfgs (au_clockTolerance a) t token' (rc_identity e) ex" "rc_expiresAt e \<le> ex"
      using assms(1) e(1) unfolding auth_ok_def by blast
    then have "bearer_ok env cfgs (au_clockTolerance a) now token ident" unfolding bearer_ok_def using e order_trans by metis
    then show ?thesis using assms(2) g Some okc by (auto simp: verifyBearer_def)
  next
    case None
    let ?iss = "peekIssuer env token"
    show ?thesis
    proof (cases "map_of (au_issuers a) ?iss")
      case None
      then show ?thesis using assms(2) g \<open>hit = None\<close> okc by (auto simp: verifyBearer_def Let_def)
    next
      case (Some st)
      then have st: "issuer_ok env cfgs st" using assms(1) map_of_SomeD unfolding auth_ok_def by fastforce
      obtain r st' where v: "iss_verify env (au_clockTolerance a) (au_discoveryCooldown a) now token st = (r, st')" by fastforce
      note iv = iss_verify_ok[OF st v]
      let ?a = "a\<lparr>au_cache := c, au_issuers := AList.update ?iss st' (au_issuers a)\<rparr>"
      have upd: "set (AList.update ?iss st' (au_issuers a)) \<subseteq> insert (?iss, st') (set (au_issuers a))"
        by (rule set_update_sub)
      have oka: "auth_ok env cfgs ?a" using okc iv(1) upd unfolding auth_ok_def by auto
      show ?thesis
      proof (cases r)
        case (Inl e)
        then show ?thesis using assms(2) g \<open>hit = None\<close> Some v oka by (auto simp: verifyBearer_def Let_def)
      next
        case (Inr ie)
        obtain ident ex where ie: "r = Inr (ident, ex)" using Inr by (cases ie) auto
        note gen = iv(2)[OF ie]
        have "auth_ok env cfgs (?a\<lparr>au_cache := rc_set env now token ident ex c\<rparr>)"
          using oka rc_set_entries[of _ env now token ident ex c] gen unfolding auth_ok_def by (auto; metis)
        moreover have "bearer_ok env cfgs (au_clockTolerance a) now token ident" unfolding bearer_ok_def using gen by blast
        ultimately show ?thesis using assms(2) g \<open>hit = None\<close> Some v ie by (auto simp: verifyBearer_def Let_def)
      qed
    qed
  qed
qed

text \<open>The credentials behind an identity.\<close>

definition credentials_ok :: "auth_env \<Rightarrow> OIDCIssuer list \<Rightarrow> Authenticator \<Rightarrow> int \<Rightarrow> request \<Rightarrow> Identity \<Rightarrow> bool" where
  "credentials_ok env cfgs a now r ident \<longleftrightarrow>
     (\<exists>user pass hash. BasicAuth env r = Some (user, pass) \<and> map_of (au_basic a) user = Some hash \<and> verifyPassword env pass hash \<and>
        ident = \<lparr>id_Name = user, id_Groups = [], id_Method = ''basic''\<rparr>) \<or>
     BasicAuth env r = None \<and> bearer_ok env cfgs (au_clockTolerance a) now (trim_space (trim_prefix (rq_Authorization r) ''Bearer '')) ident"

lemma Authenticate_ok:
  assumes "auth_ok env cfgs a" "Authenticate env now r a = (res, a')"
  shows "auth_ok env cfgs a'" "au_basic a' = au_basic a" "au_clockTolerance a' = au_clockTolerance a"
    "res = Inr ident \<Longrightarrow> credentials_ok env cfgs a now r ident"
proof -
  have "auth_ok env cfgs a' \<and> au_basic a' = au_basic a \<and> au_clockTolerance a' = au_clockTolerance a \<and> (res = Inr ident \<longrightarrow> credentials_ok env cfgs a now r ident)"
  proof (cases "BasicAuth env r")
    case None
    let ?token = "trim_space (trim_prefix (rq_Authorization r) ''Bearer '')"
    obtain res1 a1 where v: "verifyBearer env now ?token a = (res1, a1)" by fastforce
    show ?thesis
      using assms None verifyBearer_ok[OF assms(1) v] v by (auto simp: Authenticate_def Let_def credentials_ok_def split: if_splits)
  next
    case (Some up)
    then show ?thesis
      using assms by (cases up) (auto simp: Authenticate_def credentials_ok_def basic_verify_def split: if_splits option.splits)
  qed
  then show "auth_ok env cfgs a'" "au_basic a' = au_basic a" "au_clockTolerance a' = au_clockTolerance a"
    "res = Inr ident \<Longrightarrow> credentials_ok env cfgs a now r ident" by blast+
qed

lemma add_issuers_ok:
  "add_issuers ics acc = Some issuers \<Longrightarrow> \<forall>(u, s) \<in> set acc. issuer_ok env cfgs s \<Longrightarrow> set ics \<subseteq> set cfgs \<Longrightarrow>
   \<forall>(u, s) \<in> set issuers. issuer_ok env cfgs s"
proof (induction ics arbitrary: acc)
  case (Cons ic ics)
  obtain st where st: "newIssuerState ic = Some st" "add_issuers ics (acc @ [(oi_Issuer ic, st)]) = Some issuers"
    using Cons.prems(1) by (auto split: if_splits option.splits)
  have "issuer_ok env cfgs st" using newIssuerState_ok[OF st(1)] Cons.prems(3) by simp
  then show ?case using Cons.IH[OF st(2)] Cons.prems(2,3) by auto
qed simp

lemma auth_New_ok: "auth_New env basic oc = Some a \<Longrightarrow> auth_ok env (oc_Issuers oc) a \<and> au_basic a = basic"
  using add_issuers_ok[of "oc_Issuers oc" "[]" _ env "oc_Issuers oc"]
  by (auto simp: auth_New_def auth_ok_def newBasicVerifier_def split: sum.splits option.splits prod.splits)

text \<open>The cases of the guard.\<close>

lemma guard_cases:
  assumes "guard env apiCfg resource action now r s = (out, s')"
  obtains (early) "out \<in> {NotFound, Unauthorized}" "s' = s"
    | (blocked) t where "out = TooManyRequests" "th_blocked now (throttleKey env r) (ap_throttle s) = (True, t)" "s' = s\<lparr>ap_throttle := t\<rparr>"
    | (refused) t res a where "out = Forbidden" "th_blocked now (throttleKey env r) (ap_throttle s) = (False, t)"
        "Authenticate env now r (ap_authn s) = (res, a)" "s' = \<lparr>ap_authn = a, ap_throttle = th_fail now (throttleKey env r) t\<rparr>"
    | (admitted) t ident a where "out = Handled ident" "th_blocked now (throttleKey env r) (ap_throttle s) = (False, t)"
        "Authenticate env now r (ap_authn s) = (Inr ident, a)" "Allowed (api_rules apiCfg resource action) ident"
        "s' = \<lparr>ap_authn = a, ap_throttle = th_delete (throttleKey env r) (th_fail now (throttleKey env r) t)\<rparr>"
proof -
  obtain b t where bt: "th_blocked now (throttleKey env r) (ap_throttle s) = (b, t)" by fastforce
  obtain res a where au: "Authenticate env now r (ap_authn s) = (res, a)" by fastforce
  note g = assms[unfolded guard_def Let_def bt au prod.case]
  show thesis
  proof (cases "api_rules apiCfg resource action = [] \<or> rq_Authorization r = []")
    case True
    then show thesis using g early by (auto split: if_splits)
  next
    case False
    show thesis
    proof (cases b)
      case True
      then show thesis using False g blocked[of t] bt by simp
    next
      case nb: False
      show thesis
      proof (cases res)
        case (Inl e)
        then show thesis using False nb g refused[of t res a] bt au by simp
      next
        case (Inr ident)
        then show thesis
          using False nb g refused[of t res a] admitted[of ident t a] bt au by (cases "Allowed (api_rules apiCfg resource action) ident") simp_all
      qed
    qed
  qed
qed

lemma guard_auth_ok:
  assumes "guard env apiCfg resource action now r s = (out, s')" "auth_ok env cfgs (ap_authn s)"
  shows "auth_ok env cfgs (ap_authn s') \<and> au_basic (ap_authn s') = au_basic (ap_authn s) \<and> au_clockTolerance (ap_authn s') = au_clockTolerance (ap_authn s)"
  using assms(1)
proof (cases rule: guard_cases)
  case (refused t res a)
  then show ?thesis using Authenticate_ok(1-3)[OF assms(2) refused(3)] by simp
next
  case (admitted t ident a)
  then show ?thesis using Authenticate_ok(1-3)[OF assms(2) admitted(3)] by simp
qed (use assms(2) in auto)

lemma serve_auth_ok:
  "serve env apiCfg reqs s = (outs, s') \<Longrightarrow> auth_ok env cfgs (ap_authn s) \<Longrightarrow>
   auth_ok env cfgs (ap_authn s') \<and> au_basic (ap_authn s') = au_basic (ap_authn s) \<and> au_clockTolerance (ap_authn s') = au_clockTolerance (ap_authn s)"
proof (induction reqs arbitrary: s outs)
  case (Cons q reqs)
  obtain resource action now r where q: "q = (resource, action, now, r)" by (metis prod_cases4)
  obtain out s1 outs1 where g: "guard env apiCfg resource action now r s = (out, s1)" "serve env apiCfg reqs s1 = (outs1, s')"
    using Cons.prems(1) by (auto simp: q split: prod.splits)
  show ?case using guard_auth_ok[OF g(1) Cons.prems(2)] Cons.IH[OF g(2)] by simp
qed simp

section \<open>The throttle\<close>

lemma length_update: "length (AList.update k v xs) \<le> Suc (length xs)"
  by (induction xs) auto

lemma length_delete: "length (AList.delete k xs) \<le> length xs"
  by (simp add: AList.delete_eq)

lemma th_blocked_frame:
  assumes "th_blocked now k' t = (b, t')"
  shows "length (th_entries t') \<le> length (th_entries t)" "th_limit t' = th_limit t" "th_window t' = th_window t"
    "k \<noteq> k' \<Longrightarrow> map_of (th_entries t') k = map_of (th_entries t) k"
  using assms by (auto simp: th_blocked_def th_delete_def length_delete delete_conv' split: option.splits if_splits)

lemma th_fail_frame:
  assumes "length (th_entries t) < maxTrackedSources"
  shows "length (th_entries (th_fail now k' t)) \<le> Suc (length (th_entries t))" "th_limit (th_fail now k' t) = th_limit t"
    "th_window (th_fail now k' t) = th_window t" "k \<noteq> k' \<Longrightarrow> map_of (th_entries (th_fail now k' t)) k = map_of (th_entries t) k"
  using assms length_update by (auto simp: th_fail_def Let_def update_conv')

text \<open>The state of one bucket \<open>k\<close> after \<open>c\<close> refused attempts and \<open>n\<close> requests, all in a span shorter than the window.\<close>

definition bucket_inv :: "nat \<Rightarrow> int \<Rightarrow> int \<Rightarrow> string \<Rightarrow> nat \<Rightarrow> nat \<Rightarrow> authThrottle \<Rightarrow> bool" where
  "bucket_inv L W t0 k n c t \<longleftrightarrow> th_limit t = L \<and> th_window t = W \<and> length (th_entries t) \<le> n \<and> c \<le> L \<and>
     (case map_of (th_entries t) k of
        None \<Rightarrow> c = 0
      | Some e \<Rightarrow> tf_count e = c \<and> t0 \<le> tf_windowStart e \<and> (L \<le> c \<longrightarrow> (\<exists>u. tf_blockedUntil e = Some u \<and> t0 + W \<le> u)))"

lemma bucket_blocked:
  assumes "bucket_inv L W t0 k n c t" "t0 \<le> now" "now < t0 + W" "th_blocked now k' t = (b, t')" "0 < L"
  shows "bucket_inv L W t0 k n c t'" "k' = k \<Longrightarrow> c = L \<Longrightarrow> b"
proof -
  note fr = th_blocked_frame[OF assms(4)]
  have "bucket_inv L W t0 k n c t' \<and> (k' = k \<longrightarrow> c = L \<longrightarrow> b)"
  proof (cases "k' = k")
    case False
    then show ?thesis using assms(1) fr by (auto simp: bucket_inv_def)
  next
    case True
    show ?thesis
    proof (cases "map_of (th_entries t) k")
      case None
      then show ?thesis using assms True by (auto simp: th_blocked_def bucket_inv_def)
    next
      case (Some e)
      have "\<not> now - tf_windowStart e > th_window t" using assms(1-3) Some by (auto simp: bucket_inv_def)
      then have "t' = t" using assms(4) Some True by (auto simp: th_blocked_def split: if_splits)
      then show ?thesis using assms Some True by (auto simp: th_blocked_def bucket_inv_def split: if_splits option.splits)
    qed
  qed
  then show "bucket_inv L W t0 k n c t'" "k' = k \<Longrightarrow> c = L \<Longrightarrow> b" by blast+
qed

lemma bucket_fail:
  assumes "bucket_inv L W t0 k n c t" "t0 \<le> now" "now < t0 + W" "n < maxTrackedSources" "k' = k \<Longrightarrow> c < L"
  shows "bucket_inv L W t0 k (Suc n) (if k' = k then Suc c else c) (th_fail now k' t)"
proof -
  have len: "length (th_entries t) < maxTrackedSources" using assms(1,4) by (auto simp: bucket_inv_def)
  note fr = th_fail_frame[OF len, where now = now and k' = k']
  have le: "length (th_entries (th_fail now k' t)) \<le> Suc n" using fr(1) assms(1) by (auto simp: bucket_inv_def)
  show ?thesis
  proof (cases "k' = k")
    case False
    then show ?thesis using assms(1) fr(2-4) le by (auto simp: bucket_inv_def)
  next
    case True
    have "\<not> now - tf_windowStart e > th_window t" if "map_of (th_entries t) k = Some e" for e
      using assms(1-3) that by (auto simp: bucket_inv_def)
    then show ?thesis
      using assms(1-3) assms(5)[OF True] fr(2,3) le len True
      by (auto simp: bucket_inv_def th_fail_def Let_def update_conv' split: option.splits)
  qed
qed

lemma bucket_delete: "bucket_inv L W t0 k n c t \<Longrightarrow> k' \<noteq> k \<Longrightarrow> bucket_inv L W t0 k n c (th_delete k' t)"
  using length_delete[of k' "th_entries t"] by (auto simp: bucket_inv_def th_delete_def delete_conv')

lemma bucket_mono: "bucket_inv L W t0 k n c t \<Longrightarrow> n \<le> n' \<Longrightarrow> bucket_inv L W t0 k n' c t"
  by (auto simp: bucket_inv_def)

definition guesses :: "auth_env \<Rightarrow> string \<Rightarrow> (string \<times> string \<times> int \<times> request) list \<Rightarrow> outcome list \<Rightarrow> nat" where
  "guesses env k reqs outs = length (filter (\<lambda>((_, _, _, r), out). throttleKey env r = k \<and> out = Forbidden) (zip reqs outs))"

lemma guard_bucket:
  assumes "guard env apiCfg resource action now r s = (out, s')" "bucket_inv L W t0 k n c (ap_throttle s)"
    and "t0 \<le> now" "now < t0 + W" "n < maxTrackedSources" "0 < L" "throttleKey env r = k \<Longrightarrow> \<not> (\<exists>i. out = Handled i)"
  shows "bucket_inv L W t0 k (Suc n) (c + (if throttleKey env r = k \<and> out = Forbidden then 1 else 0)) (ap_throttle s')"
  using assms(1)
proof (cases rule: guard_cases)
  case early
  then show ?thesis using bucket_mono[OF assms(2), of "Suc n"] by auto
next
  case (blocked t)
  then show ?thesis using bucket_mono[OF bucket_blocked(1)[OF assms(2-4) blocked(2) assms(6)], of "Suc n"] by auto
next
  case (refused t res a)
  note bb = bucket_blocked[OF assms(2-4) refused(2) assms(6)]
  have "throttleKey env r = k \<Longrightarrow> c < L" using bb(2) assms(2) by (fastforce simp: bucket_inv_def)
  then have "bucket_inv L W t0 k (Suc n) (if throttleKey env r = k then Suc c else c) (th_fail now (throttleKey env r) t)"
    by (rule bucket_fail[OF bb(1) assms(3,4,5)])
  then show ?thesis using refused by (auto split: if_splits)
next
  case (admitted t ident a)
  then have ne: "throttleKey env r \<noteq> k" using assms(7) by blast
  note bb = bucket_blocked[OF assms(2-4) admitted(2) assms(6)]
  from bucket_delete[OF bucket_fail[OF bb(1) assms(3,4,5), of "throttleKey env r"] ne] ne show ?thesis using admitted by auto
qed

lemma serve_bucket:
  assumes "0 < L"
  shows "serve env apiCfg reqs s = (outs, s') \<Longrightarrow> bucket_inv L W t0 k n c (ap_throttle s) \<Longrightarrow> n + length reqs \<le> maxTrackedSources \<Longrightarrow>
    (\<forall>(_, _, now, _) \<in> set reqs. t0 \<le> now \<and> now < t0 + W) \<Longrightarrow>
    (\<forall>((_, _, _, r), out) \<in> set (zip reqs outs). throttleKey env r = k \<longrightarrow> \<not> (\<exists>i. out = Handled i)) \<Longrightarrow>
    bucket_inv L W t0 k (n + length reqs) (c + guesses env k reqs outs) (ap_throttle s')"
proof (induction reqs arbitrary: s outs n c)
  case (Cons q reqs)
  obtain resource action now r where q: "q = (resource, action, now, r)" by (metis prod_cases4)
  obtain out s1 outs1 where g: "guard env apiCfg resource action now r s = (out, s1)" "serve env apiCfg reqs s1 = (outs1, s')" "outs = out # outs1"
    using Cons.prems(1) by (auto simp: q split: prod.splits)
  have step: "bucket_inv L W t0 k (Suc n) (c + (if throttleKey env r = k \<and> out = Forbidden then 1 else 0)) (ap_throttle s1)"
    by (rule guard_bucket[OF g(1) Cons.prems(2)]) (use Cons.prems(3-5) assms in \<open>auto simp: q g(3)\<close>)
  have ih: "bucket_inv L W t0 k (Suc n + length reqs) (c + (if throttleKey env r = k \<and> out = Forbidden then 1 else 0) + guesses env k reqs outs1) (ap_throttle s')"
    by (rule Cons.IH[OF g(2) step]) (use Cons.prems(3-5) in \<open>auto simp: q g(3)\<close>)
  have "guesses env k (q # reqs) outs = (if throttleKey env r = k \<and> out = Forbidden then 1 else 0) + guesses env k reqs outs1"
    by (simp add: guesses_def q g(3))
  then show ?case using ih by (simp add: add.assoc)
qed (simp add: guesses_def)

section \<open>Properties\<close>

text \<open>A pattern matches exactly the names that can be cut into one piece per element of the pattern, where a star takes
  any text without a delimiter, a double star any text on one line and a question mark one character that is no delimiter;
  without a double star the name has as many delimiters as the pattern, so no star reaches into another path segment.\<close>

theorem Match_correct:
  "(Match pattern value ci \<longleftrightarrow>
      (\<exists>parts. foldDelimiters value = concat parts \<and> list_all2 (tok_matches ci) (translateGlob pattern) parts)) \<and>
   (Match pattern value ci \<and> AnyPath \<notin> set (translateGlob pattern) \<longrightarrow> delims value = delims pattern)"
proof -
  have m: "Match pattern value ci \<longleftrightarrow> (\<exists>parts. foldDelimiters value = concat parts \<and> list_all2 (tok_matches ci) (translateGlob pattern) parts)"
    unfolding Match_def glob_match_parts glob_parts_def ..
  moreover have "delims value = delims pattern" if mt: "Match pattern value ci" and np: "AnyPath \<notin> set (translateGlob pattern)"
  proof -
    obtain parts where p: "foldDelimiters value = concat parts" "list_all2 (tok_matches ci) (translateGlob pattern) parts" using mt m by blast
    have "slashes (foldDelimiters value) = slashes (foldDelimiters pattern)"
      using slashes_match[OF p(2) np] unfolding p(1) translateGlob_def slashes_toks .
    then show ?thesis by (simp add: slashes_fold)
  qed
  ultimately show ?thesis by blast
qed

theorem Match_correct_witness: "\<not> Match ''org/*'' ''org/team/x'' True"
  using Match_correct[of "''org/*''" "''org/team/x''" True] by (auto simp: translateGlob_def foldDelimiters_def delims_def)

text \<open>C4: After any sequence of requests, a handler runs only for a caller who was not throttled, whose identity or one of
  whose groups matches a rule configured for exactly that resource and action, and whose credentials were checked: a
  configured user with a password that its hash verifies, or a bearer token that the JWT parser accepted for a configured
  issuer with that issuer's published keys, asymmetric methods only and allow-listed claims, either now or (for a token of
  the same digest) earlier and not past its expiry.\<close>

theorem guard_admits_only:
  assumes "auth_New env basic oc = Some a" "serve env apiCfg reqs \<lparr>ap_authn = a, ap_throttle = newAuthThrottle 0 0\<rparr> = (outs, s)"
    and "guard env apiCfg resource action now r s = (Handled ident, s')"
  shows "(\<exists>rule \<in> set (api_rules apiCfg resource action). \<exists>p \<in> set (id_Name ident # id_Groups ident). Match rule p True) \<and>
    \<not> fst (th_blocked now (throttleKey env r) (ap_throttle s)) \<and>
    ((\<exists>user pass hash. BasicAuth env r = Some (user, pass) \<and> map_of basic user = Some hash \<and> verifyPassword env pass hash \<and>
        ident = \<lparr>id_Name = user, id_Groups = [], id_Method = ''basic''\<rparr>) \<or>
     BasicAuth env r = None \<and>
     bearer_ok env (oc_Issuers oc) (au_clockTolerance a) now (trim_space (trim_prefix (rq_Authorization r) ''Bearer '')) ident)"
proof -
  have ok: "auth_ok env (oc_Issuers oc) (ap_authn s)" "au_basic (ap_authn s) = basic" "au_clockTolerance (ap_authn s) = au_clockTolerance a"
    using serve_auth_ok[OF assms(2), of "oc_Issuers oc"] auth_New_ok[OF assms(1)] by simp_all
  from assms(3) show ?thesis
  proof (cases rule: guard_cases)
    case (admitted t i a')
    then have "credentials_ok env (oc_Issuers oc) (ap_authn s) now r ident" using Authenticate_ok(4)[OF ok(1) admitted(3)] by simp
    moreover have "\<exists>rule \<in> set (api_rules apiCfg resource action). \<exists>p \<in> set (id_Name ident # id_Groups ident). Match rule p True"
      using admitted(1,4) by (auto simp: Allowed_def list_ex_iff)
    ultimately show ?thesis using admitted(2) unfolding credentials_ok_def ok(2,3) by simp
  qed simp_all
qed


section \<open>Instances\<close>

definition wit_auth :: auth_env where
  "wit_auth = \<lparr>ae_crypt = (\<lambda>p h. h = ''$6$'' @ p), ae_bcrypt = (\<lambda>_ _. False), ae_argon2 = (\<lambda>_ p. p), ae_sha512 = id, ae_b64 = Some, ae_rawb64 = Some,
     ae_b64url = Some, ae_jsonIss = Some, ae_splitHost = (\<lambda>_. None), ae_discovery = (\<lambda>_ _. None), ae_JWKS = (\<lambda>_ _. Some [(''k1'', RSAKey [])]),
     ae_Parse = (\<lambda>algs iss aud tol kf now token. case kf ''k1'' ''RS256'' of Inl e \<Rightarrow> Inl e | Inr _ \<Rightarrow> Inr [(''sub'', CStr ''org:x''), (''exp'', CNum 100 ''100'')])\<rparr>"

definition wit_oidc :: OIDCConfig where
  "wit_oidc = \<lparr>oc_ClockToleranceSeconds = 0, oc_DiscoveryCooldownSeconds = 0, oc_CacheTTLSeconds = 0, oc_CacheMaxEntries = 0,
     oc_Issuers = [\<lparr>oi_ID = ''i'', oi_Issuer = ''iss'', oi_Audience = [], oi_Algorithms = None, oi_JWKSURI = ''u'', oi_UsernameTemplate = ''svc-{sub}'',
       oi_GroupTemplates = [], oi_MatchClaim = ''sub'', oi_MatchCaseInsensitive = None, oi_Allow = [''org/*'']\<rparr>]\<rparr>"

definition wit_api :: "(string \<times> (string \<times> string list) list) list" where
  "wit_api = [(''snapshot'', [(''create'', [''svc-org/*'', ''admin''])])]"

definition wit_bearer :: request where
  "wit_bearer = \<lparr>rq_Authorization = ''Bearer a.iss.b'', rq_RemoteAddr = ''p''\<rparr>"

definition wit_api_state :: api_state where
  "wit_api_state = \<lparr>ap_authn = the (auth_New wit_auth [(''admin'', ''$6$pw'')] wit_oidc), ap_throttle = newAuthThrottle 0 0\<rparr>"

theorem guard_admits_only_witness:
  "bearer_ok wit_auth (oc_Issuers wit_oidc) (30 * 10 ^ 9) 5 ''a.iss.b'' \<lparr>id_Name = ''svc-org:x'', id_Groups = [], id_Method = ''oidc''\<rparr>"
proof -
  let ?i = "\<lparr>id_Name = ''svc-org:x'', id_Groups = [], id_Method = ''oidc''\<rparr>"
  have some: "auth_New wit_auth [(''admin'', ''$6$pw'')] wit_oidc \<noteq> None" by code_simp
  then have new: "auth_New wit_auth [(''admin'', ''$6$pw'')] wit_oidc = Some (ap_authn wit_api_state)" by (auto simp: wit_api_state_def)
  have st: "\<lparr>ap_authn = ap_authn wit_api_state, ap_throttle = newAuthThrottle 0 0\<rparr> = wit_api_state" by (simp add: wit_api_state_def)
  obtain outs s where run: "serve wit_auth wit_api [(''snapshot'', ''create'', 3, wit_bearer)] wit_api_state = (outs, s)" by fastforce
  have "fst (guard wit_auth wit_api ''snapshot'' ''create'' 5 wit_bearer (snd (serve wit_auth wit_api [(''snapshot'', ''create'', 3, wit_bearer)] wit_api_state))) = Handled ?i"
    by code_simp
  then obtain s' where g: "guard wit_auth wit_api ''snapshot'' ''create'' 5 wit_bearer s = (Handled ?i, s')" using run by (metis prod.collapse snd_conv)
  have b: "BasicAuth wit_auth wit_bearer = None" "trim_space (trim_prefix (rq_Authorization wit_bearer) ''Bearer '') = ''a.iss.b''"
    "au_clockTolerance (ap_authn wit_api_state) = 30 * 10 ^ 9" by code_simp+
  have run': "serve wit_auth wit_api [(''snapshot'', ''create'', 3, wit_bearer)] \<lparr>ap_authn = ap_authn wit_api_state, ap_throttle = newAuthThrottle 0 0\<rparr> = (outs, s)"
    unfolding st by (rule run)
  from guard_admits_only[OF new run' g] show ?thesis unfolding b by simp
qed

definition wit_guess :: "nat \<Rightarrow> string \<times> string \<times> int \<times> request" where
  "wit_guess i = (''snapshot'', ''create'', int i, \<lparr>rq_Authorization = ''Basic admin:x'', rq_RemoteAddr = ''p''\<rparr>)"


end
