(* ===== verification/Jobs.thy ===== *)
theory Jobs
  imports Prelude
begin

text \<open>
  The queue of administration jobs (\<open>src/internal/api/queue.go\<close>) with the operation lock it shares with the schedulers and
  the build lock of the index cache, each of which is held by the worker or by somebody else.  The
  queue is a step relation: every critical section of a call and every phase of the worker is one step, and callers,
  worker and other users of the locks interleave freely.  A call of \<open>enqueue\<close> has two halves, since it stores the status
  of the job and wakes the worker after it has left its critical section.  Times are nanoseconds; contexts, metrics and
  the operations themselves are left out (an operation ends with an error message or without).
\<close>

section \<open>Definitions\<close>

subsection \<open>Jobs and their queue\<close>

datatype JobKind = JobCleanup | JobUpdate | JobRebuild | JobPrime

datatype JobStatus = StatusQueued | StatusRunning | StatusSucceeded | StatusFailed

record Job =
  jb_ID :: string
  jb_Kind :: JobKind
  jb_Status :: JobStatus
  jb_StartedAt :: "int option"
  jb_FinishedAt :: "int option"
  jb_Error :: string

datatype enqueue_error = DuplicateKind string | QueueFull | ShuttingDown

definition indexLockedKinds :: "JobKind \<Rightarrow> bool" where
  "indexLockedKinds k \<longleftrightarrow> k \<in> {JobRebuild, JobPrime}"

text \<open>Where the worker is: about to take a job, waiting to be woken, waiting for the operation lock, for the build lock, in
  the operation, or gone.  \<open>rn_pending\<close> are the accepted jobs whose callers have not yet stored their status and
  notified; \<open>rn_events\<close> are the webhook events fired.\<close>

datatype worker = Looking | Parked | Acquiring Job | Indexing Job | Operating Job | Exited

datatype holder = TheWorker | Other nat

record operationRunner =
  rn_max :: nat
  rn_queue :: "Job list"
  rn_active :: "JobKind \<rightharpoonup> string"
  rn_stopped :: bool
  rn_store :: "string \<rightharpoonup> Job"
  rn_notify :: bool
  rn_pending :: "Job list"
  rn_worker :: worker
  rn_oplock :: "holder option"
  rn_indexlock :: "holder option"
  rn_events :: "Job list"

definition newOperationRunner :: "nat \<Rightarrow> operationRunner" where
  "newOperationRunner m =
     \<lparr>rn_max = m, rn_queue = [], rn_active = Map.empty, rn_stopped = False, rn_store = Map.empty, rn_notify = False, rn_pending = [],
      rn_worker = Looking, rn_oplock = None, rn_indexlock = None, rn_events = []\<rparr>"

definition new_job :: "JobKind \<Rightarrow> string \<Rightarrow> Job" where
  "new_job kind i = \<lparr>jb_ID = i, jb_Kind = kind, jb_Status = StatusQueued, jb_StartedAt = None, jb_FinishedAt = None, jb_Error = []\<rparr>"

text \<open>The critical section of \<open>enqueue\<close>; \<open>i\<close> is the identifier \<open>newJobID\<close> would draw.\<close>

definition enqueue :: "JobKind \<Rightarrow> string \<Rightarrow> operationRunner \<Rightarrow> (enqueue_error + string) \<times> operationRunner" where
  "enqueue kind i q =
     (if rn_stopped q then (Inl ShuttingDown, q)
      else case (if kind = JobPrime then None else rn_active q kind) of
             Some existing \<Rightarrow> (Inl (DuplicateKind existing), q)
           | None \<Rightarrow>
               if rn_max q \<le> length (rn_queue q) then (Inl QueueFull, q)
               else let job = new_job kind i
                    in (Inr i, q\<lparr>rn_queue := rn_queue q @ [job],
                              rn_active := (if kind = JobPrime then rn_active q else (rn_active q)(kind \<mapsto> i)),
                              rn_pending := rn_pending q @ [job]\<rparr>))"

text \<open>Its second half: the status is stored (a store that fails is only logged) and the worker notified (the channel holds
  one notice).\<close>

definition save_status :: "bool \<Rightarrow> Job \<Rightarrow> operationRunner \<Rightarrow> operationRunner" where
  "save_status saved job q = (if saved then q\<lparr>rn_store := (rn_store q)(jb_ID job \<mapsto> job)\<rparr> else q)"

definition enqueue_rest :: "bool \<Rightarrow> Job \<Rightarrow> operationRunner \<Rightarrow> operationRunner" where
  "enqueue_rest saved job q = (save_status saved job q)\<lparr>rn_pending := remove1 job (rn_pending q), rn_notify := True\<rparr>"

definition dequeue :: "operationRunner \<Rightarrow> (Job \<times> operationRunner) option" where
  "dequeue q =
     (if rn_stopped q then None
      else case rn_queue q of [] \<Rightarrow> None | next_ # rest \<Rightarrow> Some (next_, q\<lparr>rn_queue := rest\<rparr>))"

definition clearActive :: "JobKind \<Rightarrow> string \<Rightarrow> operationRunner \<Rightarrow> operationRunner" where
  "clearActive kind i q = (if rn_active q kind = Some i then q\<lparr>rn_active := (rn_active q)(kind := None)\<rparr> else q)"

definition start_job :: "int \<Rightarrow> Job \<Rightarrow> Job" where
  "start_job now job = job\<lparr>jb_Status := StatusRunning, jb_StartedAt := Some now\<rparr>"

definition end_job :: "int \<Rightarrow> string option \<Rightarrow> Job \<Rightarrow> Job" where
  "end_job now err job =
     (case err of None \<Rightarrow> job\<lparr>jb_FinishedAt := Some now, jb_Status := StatusSucceeded\<rparr>
      | Some msg \<Rightarrow> job\<lparr>jb_FinishedAt := Some now, jb_Status := StatusFailed, jb_Error := msg\<rparr>)"

text \<open>The end of \<open>runOne\<close>, in one step: the status is stored, the kind freed, the webhook fired, and the worker looks for the next job.\<close>

definition finish :: "bool \<Rightarrow> int \<Rightarrow> string option \<Rightarrow> Job \<Rightarrow> operationRunner \<Rightarrow> operationRunner" where
  "finish saved now err job q =
     (let job = end_job now err job; q = clearActive (jb_Kind job) (jb_ID job) (save_status saved job q)
      in q\<lparr>rn_events := rn_events q @ [job], rn_worker := Looking\<rparr>)"

definition stop :: "operationRunner \<Rightarrow> operationRunner" where
  "stop q = q\<lparr>rn_stopped := True\<rparr>"

text \<open>The job the worker has taken.\<close>

definition current :: "operationRunner \<Rightarrow> Job list" where
  "current q = (case rn_worker q of Acquiring j \<Rightarrow> [j] | Indexing j \<Rightarrow> [j] | Operating j \<Rightarrow> [j] | _ \<Rightarrow> [])"

text \<open>The identifiers are 128 random bits: a new one differs from those of the jobs before it.\<close>

datatype actor = Environment | Worker | Stopper

inductive jstep :: "operationRunner \<Rightarrow> actor \<Rightarrow> operationRunner \<Rightarrow> bool" where
  accept: "enqueue kind i q = (Inr i, q') \<Longrightarrow> i \<notin> jb_ID ` set (rn_pending q @ current q @ rn_queue q @ rn_events q) \<Longrightarrow>
     jstep q Environment q'"
| accepted: "job \<in> set (rn_pending q) \<Longrightarrow> jstep q Environment (enqueue_rest saved job q)"
| other_oplock: "rn_oplock q = None \<Longrightarrow> jstep q Environment (q\<lparr>rn_oplock := Some (Other n)\<rparr>)"
| other_oprelease: "rn_oplock q = Some (Other n) \<Longrightarrow> jstep q Environment (q\<lparr>rn_oplock := None\<rparr>)"
| other_index: "rn_indexlock q = None \<Longrightarrow> jstep q Environment (q\<lparr>rn_indexlock := Some (Other n)\<rparr>)"
| other_unindex: "rn_indexlock q = Some (Other n) \<Longrightarrow> jstep q Environment (q\<lparr>rn_indexlock := None\<rparr>)"
| stopping: "jstep q Stopper (stop q)"
| take: "rn_worker q = Looking \<Longrightarrow> dequeue q = Some (job, q') \<Longrightarrow>
     jstep q Worker ((save_status saved (start_job now job) q')\<lparr>rn_worker := Acquiring (start_job now job)\<rparr>)"
| park: "rn_worker q = Looking \<Longrightarrow> dequeue q = None \<Longrightarrow> jstep q Worker (q\<lparr>rn_worker := Parked\<rparr>)"
| wake: "rn_worker q = Parked \<Longrightarrow> rn_notify q \<Longrightarrow> jstep q Worker (q\<lparr>rn_worker := Looking, rn_notify := False\<rparr>)"
| exit: "rn_worker q = Parked \<Longrightarrow> rn_stopped q \<Longrightarrow> jstep q Worker (q\<lparr>rn_worker := Exited\<rparr>)"
| acquire: "rn_worker q = Acquiring job \<Longrightarrow> rn_oplock q = None \<Longrightarrow>
     jstep q Worker (q\<lparr>rn_oplock := Some TheWorker, rn_worker := (if indexLockedKinds (jb_Kind job) then Indexing job else Operating job)\<rparr>)"
| acquire_error: "rn_worker q = Acquiring job \<Longrightarrow> jstep q Worker (finish saved now (Some msg) job q)"
| index: "rn_worker q = Indexing job \<Longrightarrow> rn_indexlock q = None \<Longrightarrow>
     jstep q Worker (q\<lparr>rn_indexlock := Some TheWorker, rn_worker := Operating job\<rparr>)"
| done_: "rn_worker q = Operating job \<Longrightarrow>
     jstep q Worker (finish saved now err job (q\<lparr>rn_oplock := None, rn_indexlock := (if indexLockedKinds (jb_Kind job) then None else rn_indexlock q)\<rparr>))"

inductive queue_reachable :: "nat \<Rightarrow> operationRunner \<Rightarrow> bool" for m where
  start: "queue_reachable m (newOperationRunner m)"
| step: "queue_reachable m q \<Longrightarrow> jstep q a q' \<Longrightarrow> queue_reachable m q'"

inductive jrun :: "operationRunner \<Rightarrow> actor list \<Rightarrow> operationRunner \<Rightarrow> bool" where
  nil: "jrun q [] q"
| cons: "jstep q a q1 \<Longrightarrow> jrun q1 as q' \<Longrightarrow> jrun q (a # as) q'"

section \<open>The invariant\<close>

abbreviation held :: "operationRunner \<Rightarrow> Job list" where
  "held q \<equiv> current q @ rn_queue q"

text \<open>The accepted, unfinished jobs are distinct, at most one per kind other than priming, exactly those the duplicate check
  knows; the queue is bounded; the worker holds the operation lock exactly while it works (and the build lock where its
  operation needs it); a job that is reported has its final status; a parked worker with work to do is about to be woken.\<close>

definition active_exact :: "operationRunner \<Rightarrow> bool" where
  "active_exact q \<longleftrightarrow>
     (\<forall>k i. k \<noteq> JobPrime \<longrightarrow> (rn_active q k = Some i \<longleftrightarrow> (\<exists>j \<in> set (held q). jb_Kind j = k \<and> jb_ID j = i)))"

definition jobs_inv :: "nat \<Rightarrow> operationRunner \<Rightarrow> bool" where
  "jobs_inv m q \<longleftrightarrow>
     rn_max q = m \<and> length (rn_queue q) \<le> m \<and> distinct (map jb_ID (held q @ rn_events q)) \<and>
     active_exact q \<and>
     (rn_oplock q = Some TheWorker \<longleftrightarrow> (\<exists>j. rn_worker q \<in> {Indexing j, Operating j})) \<and>
     (rn_indexlock q = Some TheWorker \<longleftrightarrow> (\<exists>j. rn_worker q = Operating j \<and> indexLockedKinds (jb_Kind j))) \<and>
     (\<forall>j. rn_worker q = Indexing j \<longrightarrow> indexLockedKinds (jb_Kind j)) \<and>
     (\<forall>j \<in> set (rn_events q). jb_Status j \<in> {StatusSucceeded, StatusFailed}) \<and>
     (rn_worker q = Exited \<longrightarrow> rn_stopped q) \<and>
     (rn_worker q = Parked \<and> rn_queue q \<noteq> [] \<and> \<not> rn_stopped q \<longrightarrow> rn_notify q \<or> rn_pending q \<noteq> [])"

lemmas job_defs = new_job_def save_status_def enqueue_rest_def clearActive_def start_job_def finish_def Let_def

lemma start_job_simps [simp]: "jb_ID (start_job now j) = jb_ID j" "jb_Kind (start_job now j) = jb_Kind j"
  by (simp_all add: start_job_def)

lemma end_job_simps [simp]: "jb_ID (end_job now err j) = jb_ID j" "jb_Kind (end_job now err j) = jb_Kind j"
  by (simp_all add: end_job_def split: option.splits)

lemma jobs_inv_active:
  "jobs_inv m q \<Longrightarrow> k \<noteq> JobPrime \<Longrightarrow> rn_active q k = Some i \<longleftrightarrow> (\<exists>j \<in> set (held q). jb_Kind j = k \<and> jb_ID j = i)"
  by (simp add: jobs_inv_def active_exact_def)

lemma jobs_inv_start: "jobs_inv m (newOperationRunner m)"
  by (auto simp: jobs_inv_def active_exact_def newOperationRunner_def current_def)

lemma enqueue_accepted:
  assumes "enqueue kind i q = (Inr i', q')"
  shows "\<not> rn_stopped q" "kind \<noteq> JobPrime \<Longrightarrow> rn_active q kind = None" "length (rn_queue q) < rn_max q"
    "q' = q\<lparr>rn_queue := rn_queue q @ [new_job kind i], rn_active := (if kind = JobPrime then rn_active q else (rn_active q)(kind \<mapsto> i)),
       rn_pending := rn_pending q @ [new_job kind i]\<rparr>"
  using assms by (auto simp: enqueue_def Let_def split: if_splits option.splits)

lemma jobs_inv_accept:
  assumes "jobs_inv m q" "enqueue kind i q = (Inr i, q')" "i \<notin> jb_ID ` set (rn_pending q @ current q @ rn_queue q @ rn_events q)"
  shows "jobs_inv m q'"
proof -
  note e = enqueue_accepted[OF assms(2)]
  have cur: "current q' = current q" by (simp add: e(4) current_def)
  have fresh: "i \<notin> jb_ID ` set (held q @ rn_events q)" using assms(3) by auto
  have act: "rn_active q' k = Some x \<longleftrightarrow> (\<exists>j \<in> set (held q'). jb_Kind j = k \<and> jb_ID j = x)" if "k \<noteq> JobPrime" for k x
  proof (cases "k = kind")
    case True
    then have "rn_active q k = None" using e(2) that by simp
    then have "\<forall>j \<in> set (held q). jb_Kind j \<noteq> k" using jobs_inv_active[OF assms(1) that] by (metis option.distinct(1))
    then show ?thesis using True that unfolding cur by (auto simp: e(4) new_job_def)
  next
    case False
    show ?thesis using False jobs_inv_active[OF assms(1) that, of x] unfolding cur by (auto simp: e(4) new_job_def)
  qed
  have ids: "distinct (map jb_ID (held q @ rn_events q))" using assms(1) by (simp add: jobs_inv_def)
  have "map jb_ID (held q' @ rn_events q') = map jb_ID (held q) @ i # map jb_ID (rn_events q)"
    unfolding cur by (simp add: e(4) new_job_def)
  then have "distinct (map jb_ID (held q' @ rn_events q'))" using ids fresh by auto
  moreover have "rn_max q' = rn_max q" "length (rn_queue q') = Suc (length (rn_queue q))" "rn_worker q' = rn_worker q"
    "rn_oplock q' = rn_oplock q" "rn_indexlock q' = rn_indexlock q" "rn_events q' = rn_events q" "rn_stopped q' = rn_stopped q" "rn_pending q' \<noteq> []"
    by (simp_all add: e(4))
  moreover have "active_exact q'" using act by (simp add: active_exact_def)
  ultimately show ?thesis
    using assms(1) e(3) by (simp add: jobs_inv_def)
qed

lemma dequeue_SomeD: "dequeue q = Some (job, q') \<Longrightarrow> \<not> rn_stopped q \<and> (\<exists>rest. rn_queue q = job # rest \<and> q' = q\<lparr>rn_queue := rest\<rparr>)"
  by (auto simp: dequeue_def split: if_splits list.splits)

lemma jobs_inv_take:
  assumes "jobs_inv m q" "rn_worker q = Looking" "dequeue q = Some (job, q')"
  shows "jobs_inv m ((save_status saved (start_job now job) q')\<lparr>rn_worker := Acquiring (start_job now job)\<rparr>)"
proof -
  obtain rest where d: "rn_queue q = job # rest" "q' = q\<lparr>rn_queue := rest\<rparr>" using dequeue_SomeD[OF assms(3)] by blast
  show ?thesis using assms(1,2) by (auto simp: jobs_inv_def active_exact_def d save_status_def current_def)
qed

lemma finish_inv:
  assumes "jobs_inv m q" "rn_worker q \<in> {Acquiring job, Indexing job, Operating job}"
    and "p = q\<lparr>rn_oplock := ol, rn_indexlock := il\<rparr>" "ol \<noteq> Some TheWorker" "il \<noteq> Some TheWorker"
  shows "jobs_inv m (finish saved now err job p)"
proof -
  have cur: "current q = [job]" using assms(2) by (auto simp: current_def)
  let ?q = "finish saved now err job p"
  have parts: "rn_queue ?q = rn_queue q" "rn_events ?q = rn_events q @ [end_job now err job]" "rn_worker ?q = Looking" "rn_max ?q = rn_max q"
    "rn_oplock ?q = ol" "rn_indexlock ?q = il" "current ?q = []"
    using assms(3) by (auto simp: finish_def Let_def clearActive_def save_status_def current_def)
  have dis: "distinct (map jb_ID (held q @ rn_events q))" using assms(1) by (simp add: jobs_inv_def)
  have act: "rn_active ?q k = Some x \<longleftrightarrow> (\<exists>j \<in> set (rn_queue q). jb_Kind j = k \<and> jb_ID j = x)" if k: "k \<noteq> JobPrime" for k x
  proof -
    note old = jobs_inv_active[OF assms(1) k]
    have new: "rn_active ?q k = (if k = jb_Kind job \<and> rn_active q k = Some (jb_ID job) then None else rn_active q k)"
      using assms(3) by (auto simp: finish_def Let_def clearActive_def save_status_def)
    show ?thesis
    proof (cases "k = jb_Kind job")
      case True
      then have a: "rn_active q k = Some (jb_ID job)" using old[of "jb_ID job"] cur by auto
      have "\<not> (\<exists>j \<in> set (rn_queue q). jb_Kind j = k)"
      proof
        assume "\<exists>j \<in> set (rn_queue q). jb_Kind j = k"
        then obtain j where j: "j \<in> set (rn_queue q)" "jb_Kind j = k" by blast
        then have "jb_ID job = jb_ID j" using old[of "jb_ID j"] a by auto
        then have "jb_ID job \<in> jb_ID ` set (rn_queue q)" using j(1) by (rule image_eqI)
        then show False using dis cur by simp
      qed
      then show ?thesis using new True a by auto
    next
      case False
      then show ?thesis using new old[of x] cur by auto
    qed
  qed
  have "distinct (map jb_ID (rn_queue q @ rn_events q @ [end_job now err job]))" using dis cur by auto
  moreover have "jb_Status (end_job now err job) \<in> {StatusSucceeded, StatusFailed}" by (simp add: end_job_def split: option.splits)
  moreover have "active_exact ?q" using act by (simp add: active_exact_def parts)
  ultimately show ?thesis using assms(1,4,5) by (simp add: jobs_inv_def parts)
qed

lemma jobs_inv_step: "jstep q a q' \<Longrightarrow> jobs_inv m q \<Longrightarrow> jobs_inv m q'"
proof (induction rule: jstep.induct)
  case (accept kind i q q')
  then show ?case using jobs_inv_accept by blast
next
  case (take q job q' saved now)
  then show ?case using jobs_inv_take by blast
next
  case (acquire_error q job saved now msg)
  show ?case
    by (rule finish_inv[of m q job q "rn_indexlock q" "rn_oplock q"]) (use acquire_error in \<open>simp_all add: jobs_inv_def\<close>)
next
  case (done_ q job saved now err)
  show ?case by (rule finish_inv[OF done_(2)]) (use done_ in \<open>auto simp: jobs_inv_def\<close>)
next
  case (accepted job q saved)
  then show ?case by (auto simp: jobs_inv_def active_exact_def enqueue_rest_def save_status_def current_def)
qed (auto simp: jobs_inv_def active_exact_def current_def stop_def dequeue_def split: if_splits list.splits)

lemma runner_inv: "queue_reachable m q \<Longrightarrow> jobs_inv m q"
  by (induction rule: queue_reachable.induct) (auto intro: jobs_inv_start jobs_inv_step)

text \<open>C36: Whatever callers, worker, schedulers and shutdown do in whatever order: the queue never grows past its bound,
  the jobs ever accepted are distinct, the worker holds the operation lock exactly while it runs an operation (or waits
  for the build lock under it), and a further call of \<open>enqueue\<close> answers exactly as its contract says: refused when the
  queue shuts down, sent to the job of the same kind that is queued or running unless it is a priming job, refused when
  the queue is full, and accepted otherwise.\<close>

theorem jobs_invariant:
  assumes "queue_reachable m q"
  shows "length (rn_queue q) \<le> m \<and> distinct (map jb_ID (held q @ rn_events q)) \<and>
    (rn_oplock q = Some TheWorker \<longleftrightarrow> (\<exists>j. rn_worker q \<in> {Indexing j, Operating j})) \<and>
    (\<forall>kind i. fst (enqueue kind i q) =
       (if rn_stopped q then Inl ShuttingDown
        else case find (\<lambda>j. kind \<noteq> JobPrime \<and> jb_Kind j = kind) (held q) of
               Some j \<Rightarrow> Inl (DuplicateKind (jb_ID j))
             | None \<Rightarrow> if length (rn_queue q) < m then Inr i else Inl QueueFull))"
proof -
  note inv = runner_inv[OF assms]
  have known: "(if kind = JobPrime then None else rn_active q kind) =
      map_option jb_ID (find (\<lambda>j. kind \<noteq> JobPrime \<and> jb_Kind j = kind) (held q))" for kind
  proof (cases "find (\<lambda>j. kind \<noteq> JobPrime \<and> jb_Kind j = kind) (held q)")
    case None
    then have "kind = JobPrime \<or> (\<forall>j \<in> set (held q). jb_Kind j \<noteq> kind)" by (auto simp: find_None_iff)
    then show ?thesis using jobs_inv_active[OF inv, of kind] None by (metis not_Some_eq option.map(1))
  next
    case (Some j)
    then have "kind \<noteq> JobPrime" "jb_Kind j = kind" "j \<in> set (held q)"
      unfolding find_Some_iff by (auto simp del: set_append intro: nth_mem)
    then show ?thesis using jobs_inv_active[OF inv, of kind "jb_ID j"] Some by auto
  qed
  have "rn_max q = m" using inv by (simp add: jobs_inv_def)
  then have "fst (enqueue kind i q) =
       (if rn_stopped q then Inl ShuttingDown
        else case find (\<lambda>j. kind \<noteq> JobPrime \<and> jb_Kind j = kind) (held q) of
               Some j \<Rightarrow> Inl (DuplicateKind (jb_ID j))
             | None \<Rightarrow> if length (rn_queue q) < m then Inr i else Inl QueueFull)" for kind i
    unfolding enqueue_def known by (simp add: Let_def split: option.splits)
  then show ?thesis using inv by (simp add: jobs_inv_def)
qed

section \<open>Liveness\<close>

text \<open>How many steps of the worker job \<open>i\<close> still has to wait.\<close>

definition phase :: "worker \<Rightarrow> nat" where
  "phase w = (case w of Acquiring _ \<Rightarrow> 3 | Indexing _ \<Rightarrow> 2 | Operating _ \<Rightarrow> 1 | Parked \<Rightarrow> 1 | _ \<Rightarrow> 0)"

definition wait :: "string \<Rightarrow> operationRunner \<Rightarrow> nat" where
  "wait i q = phase (rn_worker q) +
     (if i \<in> jb_ID ` set (current q) then 0 else 4 * Suc (length (takeWhile (\<lambda>j. jb_ID j \<noteq> i) (rn_queue q))))"

abbreviation is_held :: "string \<Rightarrow> operationRunner \<Rightarrow> bool" where
  "is_held i q \<equiv> i \<in> jb_ID ` set (held q)"

lemma wait_bound: "is_held i q \<Longrightarrow> wait i q \<le> 4 * length (rn_queue q) + 3"
proof -
  assume h: "is_held i q"
  have "length (takeWhile (\<lambda>j. jb_ID j \<noteq> i) (rn_queue q)) < length (rn_queue q)" if "i \<notin> jb_ID ` set (current q)"
  proof -
    have "i \<in> jb_ID ` set (rn_queue q)" using h that by auto
    then have "takeWhile (\<lambda>j. jb_ID j \<noteq> i) (rn_queue q) \<noteq> rn_queue q" by (auto simp: takeWhile_eq_all_conv)
    then show ?thesis by (metis le_neq_implies_less length_takeWhile_le takeWhile_eq_take take_all_iff order_refl)
  qed
  then show ?thesis by (cases "i \<in> jb_ID ` set (current q)") (auto simp: wait_def phase_def split: worker.splits)
qed

lemma finish_wait:
  assumes "current q = [job]" "is_held i q" "p = q\<lparr>rn_oplock := ol, rn_indexlock := il\<rparr>" "phase (rn_worker q) > 0"
  shows "i \<in> jb_ID ` set (rn_events (finish saved now err job p)) \<or>
    is_held i (finish saved now err job p) \<and> wait i (finish saved now err job p) < wait i q"
proof -
  let ?q = "finish saved now err job p"
  have parts: "rn_queue ?q = rn_queue q" "rn_events ?q = rn_events q @ [end_job now err job]" "rn_worker ?q = Looking" "current ?q = []"
    using assms(3) by (auto simp: finish_def Let_def clearActive_def save_status_def current_def)
  show ?thesis using assms(1,2,4) by (cases "i = jb_ID job") (auto simp: parts wait_def phase_def)
qed

lemma step_wait:
  assumes "jstep q a q'" "a \<noteq> Stopper" "\<not> rn_stopped q" "is_held i q"
  shows "i \<in> jb_ID ` set (rn_events q') \<or>
    \<not> rn_stopped q' \<and> is_held i q' \<and> wait i q' + (if a = Worker then 1 else 0) \<le> wait i q"
  using assms
proof (induction rule: jstep.induct)
  case (accept kind j q q')
  note e = enqueue_accepted(4)[OF accept(1)]
  have cur: "current q' = current q" by (simp add: e current_def)
  have "takeWhile (\<lambda>j. jb_ID j \<noteq> i) (rn_queue q @ [n]) = takeWhile (\<lambda>j. jb_ID j \<noteq> i) (rn_queue q)" if "i \<in> jb_ID ` set (rn_queue q)" for n
    using that by (auto simp: takeWhile_append)
  then show ?case using accept(4,5) unfolding wait_def cur by (auto simp: e)
next
  case (take q job q' saved now)
  obtain rest where d: "rn_queue q = job # rest" "q' = q\<lparr>rn_queue := rest\<rparr>" using dequeue_SomeD[OF take(2)] by blast
  show ?case using take by (auto simp: d wait_def phase_def current_def save_status_def)
next
  case (acquire_error q job saved now msg)
  have "current q = [job]" "phase (rn_worker q) > 0" using acquire_error by (auto simp: current_def phase_def)
  then show ?case
    using finish_wait[of q job i q "rn_indexlock q" "rn_oplock q" saved now "Some msg"] acquire_error
    by (auto simp: finish_def Let_def clearActive_def save_status_def)
next
  case (done_ q job saved now err)
  let ?il = "if indexLockedKinds (jb_Kind job) then None else rn_indexlock q"
  have "current q = [job]" "phase (rn_worker q) > 0" using done_ by (auto simp: current_def phase_def)
  then show ?case
    using finish_wait[of q job i "q\<lparr>rn_oplock := None, rn_indexlock := ?il\<rparr>" ?il None saved now err] done_
    by (auto simp: finish_def Let_def clearActive_def save_status_def)
next
  case (park q)
  then show ?case by (auto simp: current_def dequeue_def split: list.splits)
qed (auto simp: wait_def phase_def current_def enqueue_rest_def save_status_def stop_def)

lemma wait_positive: "is_held i q \<Longrightarrow> 0 < wait i q"
  by (auto simp: wait_def phase_def current_def split: worker.splits)

lemma step_events: "jstep q a q' \<Longrightarrow> set (rn_events q) \<subseteq> set (rn_events q')"
proof (induction rule: jstep.induct)
  case (accept kind i q q')
  show ?case by (simp add: enqueue_accepted(4)[OF accept(1)])
next
  case (take q job q' saved now)
  then show ?case using dequeue_SomeD by (fastforce simp: save_status_def)
qed (auto simp: finish_def Let_def clearActive_def save_status_def enqueue_rest_def stop_def)

lemma run_events: "jrun q as q' \<Longrightarrow> set (rn_events q) \<subseteq> set (rn_events q')"
  by (induction rule: jrun.induct) (use step_events in blast)+

lemma run_wait:
  "jrun q as q' \<Longrightarrow> Stopper \<notin> set as \<Longrightarrow> \<not> rn_stopped q \<Longrightarrow> is_held i q \<Longrightarrow> wait i q \<le> count_list as Worker \<Longrightarrow>
   i \<in> jb_ID ` set (rn_events q')"
proof (induction rule: jrun.induct)
  case (nil q)
  then show ?case using wait_positive[of i q] by simp
next
  case (cons q a q1 as q')
  then have "a \<noteq> Stopper" by auto
  from step_wait[OF cons(1) this cons(5,6)] show ?case
  proof
    assume "i \<in> jb_ID ` set (rn_events q1)"
    then show ?case using run_events[OF cons(2)] by blast
  next
    assume "\<not> rn_stopped q1 \<and> is_held i q1 \<and> wait i q1 + (if a = Worker then 1 else 0) \<le> wait i q"
    then show ?case using cons.IH cons.prems by (auto split: if_splits)
  qed
qed

lemma run_queue_reachable: "jrun q as q' \<Longrightarrow> queue_reachable m q \<Longrightarrow> queue_reachable m q'"
  by (induction rule: jrun.induct) (auto intro: queue_reachable.step)

lemma worker_enabled:
  assumes "jobs_inv m q" "\<not> rn_stopped q" "held q \<noteq> []" "rn_pending q = []"
    and "\<forall>n. rn_oplock q \<noteq> Some (Other n)" "\<forall>n. rn_indexlock q \<noteq> Some (Other n)"
  shows "\<exists>q'. jstep q Worker q' \<and> (rn_events q' = rn_events q \<or> (\<exists>job. rn_worker q = Operating job))"
proof (cases "rn_worker q")
  case Looking
  then obtain j rest where "rn_queue q = j # rest" using assms(3) by (auto simp: current_def neq_Nil_conv)
  then have "dequeue q = Some (j, q\<lparr>rn_queue := rest\<rparr>)" using assms(2) by (simp add: dequeue_def)
  from jstep.take[OF Looking this] show ?thesis by (fastforce simp: save_status_def)
next
  case Parked
  then have "rn_notify q" using assms by (auto simp: jobs_inv_def current_def)
  from jstep.wake[OF Parked this] show ?thesis by fastforce
next
  case (Acquiring job)
  then have "rn_oplock q = None" using assms(1,5) by (cases "rn_oplock q") (auto simp: jobs_inv_def intro: holder.exhaust)
  from jstep.acquire[OF Acquiring this] show ?thesis by fastforce
next
  case (Indexing job)
  then have "rn_indexlock q = None" using assms(1,6) by (cases "rn_indexlock q") (auto simp: jobs_inv_def intro: holder.exhaust)
  from jstep.index[OF Indexing this] show ?thesis by fastforce
next
  case (Operating job)
  then show ?thesis using jstep.done_ by blast
qed (use assms(1,2) in \<open>simp add: jobs_inv_def\<close>)

text \<open>C6: Every accepted job finishes.  From any state of a queue that is not shut down, a job that is queued or running is
  reported with a final status after at most \<open>4 n + 3\<close> steps of the worker, \<open>n\<close> the length of the queue, whatever the
  callers and the other users of the locks do in between, priming jobs submitted later included; and the worker is never
  stuck: once the calls of \<open>enqueue\<close> under way have returned and nobody else holds a lock, it has a step that ends no job
  before its operation has run.\<close>

theorem job_finishes:
  assumes "queue_reachable m q" "\<not> rn_stopped q" "is_held i q"
  shows "(\<forall>as q'. jrun q as q' \<and> Stopper \<notin> set as \<and> 4 * length (rn_queue q) + 3 \<le> count_list as Worker \<longrightarrow>
      (\<exists>job \<in> set (rn_events q'). jb_ID job = i \<and> jb_Status job \<in> {StatusSucceeded, StatusFailed})) \<and>
    (rn_pending q = [] \<and> (\<forall>n. rn_oplock q \<noteq> Some (Other n) \<and> rn_indexlock q \<noteq> Some (Other n)) \<longrightarrow>
      (\<exists>q'. jstep q Worker q' \<and> (rn_events q' = rn_events q \<or> (\<exists>job. rn_worker q = Operating job))))"
proof (intro conjI allI impI)
  fix as q'
  assume r: "jrun q as q' \<and> Stopper \<notin> set as \<and> 4 * length (rn_queue q) + 3 \<le> count_list as Worker"
  then have "wait i q \<le> count_list as Worker" using wait_bound[OF assms(3)] by simp
  then have "i \<in> jb_ID ` set (rn_events q')" using run_wait[OF conjunct1[OF r] _ assms(2,3)] r by simp
  then obtain job where "job \<in> set (rn_events q')" "jb_ID job = i" by (auto simp: image_iff)
  moreover have "jobs_inv m q'" by (rule runner_inv[OF run_queue_reachable[OF conjunct1[OF r] assms(1)]])
  ultimately show "\<exists>job \<in> set (rn_events q'). jb_ID job = i \<and> jb_Status job \<in> {StatusSucceeded, StatusFailed}"
    unfolding jobs_inv_def by blast
next
  assume "rn_pending q = [] \<and> (\<forall>n. rn_oplock q \<noteq> Some (Other n) \<and> rn_indexlock q \<noteq> Some (Other n))"
  then show "\<exists>q'. jstep q Worker q' \<and> (rn_events q' = rn_events q \<or> (\<exists>job. rn_worker q = Operating job))"
    by (intro worker_enabled[OF runner_inv[OF assms(1)] assms(2)]) (use assms(3) in auto)
qed

section \<open>Concrete runs\<close>

lemma dequeue_Cons: "\<not> rn_stopped q \<Longrightarrow> rn_queue q = j # rest \<Longrightarrow> dequeue q = Some (j, q\<lparr>rn_queue := rest\<rparr>)"
  by (simp add: dequeue_def)

lemma enqueue_fits: "\<not> rn_stopped q \<Longrightarrow> length (rn_queue q) < rn_max q \<Longrightarrow> kind = JobPrime \<or> rn_active q kind = None \<Longrightarrow>
  enqueue kind i q = (Inr i, q\<lparr>rn_queue := rn_queue q @ [new_job kind i],
    rn_active := (if kind = JobPrime then rn_active q else (rn_active q)(kind \<mapsto> i)), rn_pending := rn_pending q @ [new_job kind i]\<rparr>)"
  by (auto simp: enqueue_def Let_def)

lemmas run_eval = newOperationRunner_def current_def new_job_def save_status_def enqueue_rest_def clearActive_def start_job_def end_job_def
  finish_def Let_def indexLockedKinds_def

text \<open>A queue with one priming job, and a run in which the worker does it and takes a second one.\<close>

definition wit_queue :: operationRunner where
  "wit_queue = snd (enqueue JobPrime ''a'' (newOperationRunner 1))"

lemma wit_queue_eq: "wit_queue = (newOperationRunner 1)\<lparr>rn_queue := [new_job JobPrime ''a''], rn_pending := [new_job JobPrime ''a'']\<rparr>"
  by (simp add: wit_queue_def enqueue_def newOperationRunner_def Let_def)

lemma wit_reachable: "queue_reachable 1 wit_queue"
proof -
  have "enqueue JobPrime ''a'' (newOperationRunner 1) = (Inr ''a'', wit_queue)"
    by (simp add: wit_queue_def enqueue_def newOperationRunner_def Let_def)
  then show ?thesis by (rule queue_reachable.step[OF queue_reachable.start jstep.accept]) (simp add: newOperationRunner_def current_def)
qed

definition wit_schedule :: "actor list" where
  "wit_schedule = [Worker, Worker, Worker, Worker, Environment, Worker, Worker, Worker]"

lemma wit_jobs_run: "\<exists>q'. jrun wit_queue wit_schedule q'"
  unfolding wit_schedule_def wit_queue_eq
  apply (intro exI)
  apply (rule jrun.cons, rule jstep.take[where now = 0 and saved = True], simp add: run_eval, rule dequeue_Cons, simp add: run_eval, simp)
  apply (rule jrun.cons, rule jstep.acquire, simp, simp add: run_eval)
  apply (rule jrun.cons, rule jstep.index, simp add: run_eval, simp add: run_eval)
  apply (rule jrun.cons, rule jstep.done_[where now = 1 and saved = True and err = None], simp)
  apply (rule jrun.cons, rule jstep.accept[where i = "''b''"], rule enqueue_fits[where kind = JobPrime], simp add: run_eval, simp add: run_eval,
    simp, simp add: run_eval)
  apply (rule jrun.cons, rule jstep.take[where now = 2 and saved = True], simp add: run_eval, rule dequeue_Cons, simp add: run_eval,
    simp add: run_eval)
  apply (rule jrun.cons, rule jstep.acquire, simp, simp add: run_eval)
  apply (rule jrun.cons, rule jstep.index, simp add: run_eval, simp add: run_eval)
  apply (rule jrun.nil)
  done

theorem job_finishes_witness:
  "\<exists>q'. jrun wit_queue wit_schedule q' \<and> (\<exists>job \<in> set (rn_events q'). jb_ID job = ''a'' \<and> jb_Status job \<in> {StatusSucceeded, StatusFailed})"
proof -
  obtain q' where r: "jrun wit_queue wit_schedule q'" using wit_jobs_run by blast
  have "\<not> rn_stopped wit_queue" "is_held ''a'' wit_queue" "length (rn_queue wit_queue) = 1"
    by (simp_all add: wit_queue_eq run_eval)
  moreover have "Stopper \<notin> set wit_schedule" "7 \<le> count_list wit_schedule Worker" by (simp_all add: wit_schedule_def)
  ultimately show ?thesis using job_finishes[OF wit_reachable, of "''a''"] r by auto
qed

theorem jobs_invariant_witness:
  "fst (enqueue JobPrime ''b'' wit_queue) = Inl QueueFull \<and> fst (enqueue JobUpdate ''b'' wit_queue) = Inl QueueFull"
  using jobs_invariant[OF wit_reachable] by (simp add: wit_queue_eq run_eval)

text \<open>C37: The stored status of a job can lie for ever.  A caller stores \<open>queued\<close> after it has left its critical section; a
  worker that is quick enough has by then run the job, stored its final status and reported it, and the late store puts
  \<open>queued\<close> over \<open>succeeded\<close>.  Nothing holds the job any more, so no later step corrects the record a client polls.\<close>

theorem late_save_overwrites:
  "\<exists>q job. queue_reachable 1 q \<and> job \<in> set (rn_events q) \<and> jb_Status job = StatusSucceeded \<and>
     held q = [] \<and> rn_pending q = [] \<and> rn_store q (jb_ID job) = Some (new_job (jb_Kind job) (jb_ID job)) \<and>
     jb_Status (new_job (jb_Kind job) (jb_ID job)) = StatusQueued"
proof -
  have run: "\<exists>q. jrun wit_queue [Worker, Worker, Worker, Worker, Environment] q \<and>
      rn_events q = [end_job 1 None (start_job 0 (new_job JobPrime ''a''))] \<and> held q = [] \<and> rn_pending q = [] \<and>
      rn_store q ''a'' = Some (new_job JobPrime ''a'')"
    unfolding wit_queue_eq
    apply (intro exI conjI)
    apply (rule jrun.cons, rule jstep.take[where now = 0 and saved = True], simp add: run_eval, rule dequeue_Cons, simp add: run_eval, simp)
    apply (rule jrun.cons, rule jstep.acquire, simp, simp add: run_eval)
    apply (rule jrun.cons, rule jstep.index, simp add: run_eval, simp add: run_eval)
    apply (rule jrun.cons, rule jstep.done_[where now = 1 and saved = True and err = None], simp)
    apply (rule jrun.cons, rule jstep.accepted[where job = "new_job JobPrime ''a''" and saved = True], simp add: run_eval)
    apply (rule jrun.nil)
    apply (simp_all add: run_eval)
    done
  then obtain q where q: "jrun wit_queue [Worker, Worker, Worker, Worker, Environment] q"
      "rn_events q = [end_job 1 None (start_job 0 (new_job JobPrime ''a''))]" "held q = []" "rn_pending q = []"
      "rn_store q ''a'' = Some (new_job JobPrime ''a'')" by blast
  have "queue_reachable 1 q" using run_queue_reachable[OF q(1) wit_reachable] .
  then show ?thesis
    using q by (intro exI[of _ q] exI[of _ "end_job 1 None (start_job 0 (new_job JobPrime ''a''))"]) (simp add: new_job_def end_job_def start_job_def)
qed

end
