(* ===== verification/Fetch.thy ===== *)
theory Fetch
  imports Avail Pdiff
begin

text \<open>
  The fetcher of upstream indexes (\<open>src/internal/upstream/fetch.go\<close>), its cache (\<open>cache.go\<close>) and the copy of that cache
  which replicas share through Valkey (\<open>valkey.go\<close>, \<open>bucket.go\<close>, the keys of \<open>src/internal/valkeycache/keys.go\<close>), with
  the signature checks of \<open>src/internal/signing/verify.go\<close>.  The OpenPGP library, SHA256, the decoders and the parser of
  HTTP dates are fields of \<open>fetch_lib\<close>; what the network, the clock, Valkey's commands and the fetch lock do during one
  call is a \<open>fetch_call\<close>, chosen by an adversary.  A JSON text stored in Valkey stands for the value it encodes, a Valkey
  set for the list in which a scan returns it.  Time-outs and retries only decide which requests fail.
\<close>

section \<open>Definitions\<close>

subsection \<open>What a call meets\<close>

record response =
  ht_Status :: nat
  ht_Body :: string
  ht_ETag :: string
  ht_LastModified :: string
  ht_CacheControl :: string
  ht_Expires :: string
  ht_Date :: string
  ht_Age :: string

text \<open>\<open>fl_clearsign\<close> decodes a clearsigned message into its text and its signature; the two checks are those of a signature
  over a text by one of the given keys.\<close>

record fetch_lib =
  fl_clearsign :: "string \<Rightarrow> (string \<times> string) option"
  fl_check :: "string list \<Rightarrow> string \<Rightarrow> string \<Rightarrow> bool"
  fl_checkArmored :: "string list \<Rightarrow> string \<Rightarrow> string \<Rightarrow> bool"
  fl_sha256 :: "string \<Rightarrow> string"
  fl_decoders :: decoders
  fl_httpTime :: "string \<Rightarrow> int option"
  fl_Prefix :: string

datatype fetch_lock = LockError | LockBusy | LockHeld

text \<open>\<open>nw_get n\<close> answers a request by URL, entity tag and date: \<open>n\<close> tells the first request for the Release from its
  repetition and from the index files, \<open>None\<close> is a transport error.  \<open>nw_fails\<close> are the Valkey commands that fail.\<close>

record fetch_call =
  nw_get :: "nat \<Rightarrow> string \<Rightarrow> string \<Rightarrow> string \<Rightarrow> response option"
  nw_now :: int
  nw_lock :: fetch_lock
  nw_fails :: "string \<Rightarrow> string list \<Rightarrow> bool"

datatype fetch_error = Transport | TooLarge | BadStatus nat | BadSignature | BadRelease release_error | BadIndex deb822_error
  | IndexTooLarge | DigestMismatch

subsection \<open>Signatures and digests\<close>

definition VerifyClearsigned :: "fetch_lib \<Rightarrow> string \<Rightarrow> string list \<Rightarrow> string option" where
  "VerifyClearsigned L data keyring =
     (case fl_clearsign L data of
        None \<Rightarrow> None
      | Some (bytes, sig) \<Rightarrow> if fl_check L keyring bytes sig then Some bytes else None)"

definition VerifyDetached :: "fetch_lib \<Rightarrow> string \<Rightarrow> string \<Rightarrow> string list \<Rightarrow> bool" where
  "VerifyDetached L body armoredSig keyring = fl_checkArmored L keyring body armoredSig"

definition verifyDigest :: "fetch_lib \<Rightarrow> string \<Rightarrow> string \<Rightarrow> fetch_error option" where
  "verifyDigest L data expected = (if equal_fold (fl_sha256 L data) expected then None else Some DigestMismatch)"

subsection \<open>Addresses\<close>

definition base :: "UpstreamSource \<Rightarrow> string" where
  "base src = trim_right (\<lambda>c. c = CHR ''/'') (us_URL src)"

definition distsURL :: "UpstreamSource \<Rightarrow> string \<Rightarrow> string" where
  "distsURL src rel = base src @ ''/dists/'' @ us_Suite src @ ''/'' @ rel"

definition InReleaseURL :: "UpstreamSource \<Rightarrow> string" where
  "InReleaseURL src = distsURL src ''InRelease''"

definition cacheKey :: "UpstreamSource \<Rightarrow> string" where
  "cacheKey src = InReleaseURL src @ [NUL] @ ComponentKey src"

definition acquireByHash :: "Release \<Rightarrow> bool" where
  "acquireByHash rel = equal_fold (Release_Get rel ''Acquire-By-Hash'') ''yes''"

definition indexURL :: "UpstreamSource \<Rightarrow> string \<Rightarrow> string \<Rightarrow> bool \<Rightarrow> string" where
  "indexURL src relPath sha256 byHash =
     (if byHash \<and> sha256 \<noteq> []
      then distsURL src (rev (dropWhile (\<lambda>c. c \<noteq> CHR ''/'') (rev relPath)) @ ''by-hash/SHA256/'' @ sha256)
      else distsURL src relPath)"

definition upstreamRelPath :: "string \<Rightarrow> string option" where
  "upstreamRelPath p =
     (if CHR ''?'' \<in> set p \<or> CHR ''#'' \<in> set p then None
      else case CleanRelPath p of None \<Rightarrow> None | Some clean \<Rightarrow> if clean = [] then None else Some clean)"

text \<open>The address \<open>FetchDebStream\<close> and \<open>FetchSourceFileStream\<close> request; they return the body of a 200 answer.\<close>

definition deb_url :: "UpstreamSource \<Rightarrow> string \<Rightarrow> string option" where
  "deb_url src filename = map_option (\<lambda>rel. base src @ ''/'' @ rel) (upstreamRelPath filename)"

definition source_file_url :: "UpstreamSource \<Rightarrow> string \<Rightarrow> string \<Rightarrow> string option" where
  "source_file_url src directory filename =
     map_option (\<lambda>rel. base src @ ''/'' @ rel) (upstreamRelPath (trim_left (\<lambda>c. c = CHR ''/'') directory @ ''/'' @ filename))"

definition fetch_stream :: "fetch_call \<Rightarrow> string option \<Rightarrow> string option" where
  "fetch_stream nw url =
     (case url of
        None \<Rightarrow> None
      | Some u \<Rightarrow> (case nw_get nw 2 u [] [] of
          None \<Rightarrow> None
        | Some r \<Rightarrow> if ht_Status r = 200 then Some (ht_Body r) else None))"

definition FetchDebStream :: "fetch_call \<Rightarrow> UpstreamSource \<Rightarrow> string \<Rightarrow> string option" where
  "FetchDebStream nw src filename = fetch_stream nw (deb_url src filename)"

definition FetchSourceFileStream :: "fetch_call \<Rightarrow> UpstreamSource \<Rightarrow> string \<Rightarrow> string \<Rightarrow> string option" where
  "FetchSourceFileStream nw src directory filename = fetch_stream nw (source_file_url src directory filename)"

subsection \<open>What a Release lists\<close>

definition binary_base :: "string \<Rightarrow> string \<Rightarrow> string" where
  "binary_base component arch = component @ ''/binary-'' @ arch @ ''/''"

definition releaseServedArchs :: "Release \<Rightarrow> string list \<Rightarrow> string list \<Rightarrow> string list" where
  "releaseServedArchs rel components srcArchs =
     rev (foldl (\<lambda>archs (component, arch).
         if list_ex (\<lambda>path. has_prefix path (binary_base component arch @ ''Packages'')) (release_paths rel) then List.insert arch archs else archs)
       [] (List.product components (srcArchs @ [''all''])))"

definition pkgVariants :: "string list" where
  "pkgVariants = [''Packages.zst'', ''Packages.gz'', ''Packages.xz'', ''Packages.bz2'', ''Packages'']"

definition srcVariants :: "string list" where
  "srcVariants = [''Sources.zst'', ''Sources.gz'', ''Sources.xz'', ''Sources.bz2'', ''Sources'']"

definition source_base :: "string \<Rightarrow> string" where
  "source_base component = component @ ''/source/''"

definition releaseListsSources :: "Release \<Rightarrow> string list \<Rightarrow> bool" where
  "releaseListsSources rel components =
     list_ex (\<lambda>component. list_ex (\<lambda>v. rel_Files rel (source_base component @ v) \<noteq> None) srcVariants) components"

subsection \<open>The cache of one process\<close>

text \<open>A nil slice of sources is \<open>None\<close>: the code tells it from an empty one.  The zero time is the first of January of the
  year 1; times are nanoseconds since 1970.\<close>

record indexCacheEntry =
  ic_etag :: string
  ic_lastMod :: string
  ic_expires :: int
  ic_release :: "Release option"
  ic_archPkgs :: "(string \<times> RawPkg list) list"
  ic_archsComplete :: bool
  ic_srcsRelease :: "Release option"
  ic_srcs :: "RawSrc list option"

type_synonym IndexCache = "string \<rightharpoonup> indexCacheEntry"

definition zero_time :: int where "zero_time = - 62135596800 * 10 ^ 9"

definition ixc_store :: "string \<Rightarrow> indexCacheEntry \<Rightarrow> IndexCache \<Rightarrow> IndexCache" where
  "ixc_store key e c =
     (case c key of
        Some old \<Rightarrow> if ic_srcsRelease old \<noteq> None \<or> ic_srcs old \<noteq> None
          then c(key \<mapsto> e\<lparr>ic_srcsRelease := ic_srcsRelease old, ic_srcs := ic_srcs old\<rparr>) else c(key \<mapsto> e)
      | None \<Rightarrow> c(key \<mapsto> e))"

definition ixc_expire :: "string \<Rightarrow> IndexCache \<Rightarrow> IndexCache" where
  "ixc_expire key c = (case c key of Some e \<Rightarrow> c(key \<mapsto> e\<lparr>ic_expires := zero_time\<rparr>) | None \<Rightarrow> c)"

definition ExpireAll :: "IndexCache \<Rightarrow> IndexCache" where
  "ExpireAll c = (\<lambda>k. map_option (\<lambda>e. e\<lparr>ic_expires := zero_time\<rparr>) (c k))"

definition EvictUpstream :: "bool \<Rightarrow> string \<Rightarrow> string \<Rightarrow> IndexCache \<Rightarrow> IndexCache" where
  "EvictUpstream valkey inReleaseURL component c = (if valkey then c(inReleaseURL @ [NUL] @ component := None) else c)"

definition empty_entry :: indexCacheEntry where
  "empty_entry = \<lparr>ic_etag = [], ic_lastMod = [], ic_expires = zero_time, ic_release = None, ic_archPkgs = [], ic_archsComplete = False,
     ic_srcsRelease = None, ic_srcs = None\<rparr>"

definition updateSrcs :: "string \<Rightarrow> Release option \<Rightarrow> RawSrc list option \<Rightarrow> IndexCache \<Rightarrow> IndexCache" where
  "updateSrcs key rel srcs c =
     c(key \<mapsto> (case c key of Some e \<Rightarrow> e | None \<Rightarrow> empty_entry)\<lparr>ic_srcsRelease := rel, ic_srcs := srcs\<rparr>)"

text \<open>\<open>strconv.Atoi\<close> with its error ignored: 0 for what is no number, the nearest bound for one out of range.\<close>

definition atoi_value :: "string \<Rightarrow> int" where
  "atoi_value s =
     (let neg = has_prefix s ''-''; ds = (if neg \<or> has_prefix s ''+'' then drop 1 s else s)
      in if ds = [] \<or> \<not> list_all is_digit ds then 0
         else max (- (2 ^ 63)) (min (2 ^ 63 - 1) (if neg then - digits_val ds else digits_val ds)))"

fun cache_control :: "fetch_lib \<Rightarrow> int \<Rightarrow> response \<Rightarrow> string list \<Rightarrow> int option" where
  "cache_control L now resp [] = None"
| "cache_control L now resp (tok # toks) =
     (let tok = trim_space tok in
      if equal_fold tok ''no-cache'' \<or> equal_fold tok ''no-store'' then Some zero_time
      else (case cut_prefix tok ''max-age='' of
             None \<Rightarrow> cache_control L now resp toks
           | Some after \<Rightarrow> (case parse_int (trim_space after) of
               None \<Rightarrow> cache_control L now resp toks
             | Some n \<Rightarrow>
                 if n \<le> 0 then cache_control L now resp toks
                 else let start = (case (if ht_Date resp = [] then None else fl_httpTime L (ht_Date resp)) of
                            None \<Rightarrow> now
                          | Some t \<Rightarrow> t + wrap64 (wrap64 (- atoi_value (trim_space (ht_Age resp))) * 10 ^ 9))
                      in Some (start + wrap64 (n * 10 ^ 9)))))"

definition parseExpiry :: "fetch_lib \<Rightarrow> int \<Rightarrow> response \<Rightarrow> int" where
  "parseExpiry L now resp =
     (case (if ht_CacheControl resp = [] then None else cache_control L now resp (split_on CHR '','' (ht_CacheControl resp))) of
        Some t \<Rightarrow> t
      | None \<Rightarrow> (case (if ht_Expires resp = [] then None else fl_httpTime L (ht_Expires resp)) of
          Some t \<Rightarrow> if now < t then t else now + 300 * 10 ^ 9
        | None \<Rightarrow> now + 300 * 10 ^ 9))"

subsection \<open>The copy in Valkey\<close>

definition upstreamTag :: "UpstreamSource \<Rightarrow> string" where
  "upstreamTag src = ''{'' @ us_Name src @ '':'' @ us_Suite src @ '':'' @ ComponentKey src @ ''}''"

definition upstreamPkgTag :: "UpstreamSource \<Rightarrow> string \<Rightarrow> string" where
  "upstreamPkgTag src arch = ''{'' @ us_Name src @ '':'' @ us_Suite src @ '':'' @ ComponentKey src @ '':'' @ arch @ ''}''"

definition UpstreamMeta :: "fetch_lib \<Rightarrow> UpstreamSource \<Rightarrow> string" where
  "UpstreamMeta L src = fl_Prefix L @ ''up:'' @ upstreamTag src @ '':meta''"

definition UpstreamPkgEntry :: "fetch_lib \<Rightarrow> UpstreamSource \<Rightarrow> string \<Rightarrow> string \<Rightarrow> string \<Rightarrow> string" where
  "UpstreamPkgEntry L src arch pkg version = fl_Prefix L @ ''up-pkg:'' @ upstreamPkgTag src arch @ '':'' @ pkg @ '':'' @ version"

definition UpstreamPkgBucket :: "fetch_lib \<Rightarrow> UpstreamSource \<Rightarrow> string \<Rightarrow> string" where
  "UpstreamPkgBucket L src arch = fl_Prefix L @ ''up-pkgs:'' @ upstreamPkgTag src arch"

definition UpstreamSrcs :: "fetch_lib \<Rightarrow> UpstreamSource \<Rightarrow> string" where
  "UpstreamSrcs L src = fl_Prefix L @ ''up:'' @ upstreamTag src @ '':srcs''"

record valkeyPayload =
  vp_ETag :: string
  vp_LastMod :: string
  vp_Expires :: int
  vp_Release :: "Release option"

record valkey =
  vk_meta :: "string \<rightharpoonup> valkeyPayload"
  vk_sets :: "string \<Rightarrow> string list"
  vk_pkgs :: "string \<rightharpoonup> RawPkg"
  vk_srcs :: "string \<rightharpoonup> RawSrc list option"

definition upstreamPkgMember :: "string \<Rightarrow> string \<Rightarrow> string" where
  "upstreamPkgMember pkg version = pkg @ '':'' @ version"

definition splitUpstreamPkgMember :: "string \<Rightarrow> (string \<times> string) option" where
  "splitUpstreamPkgMember m = cut CHR '':'' m"

definition upstreamPkgBatchSize :: nat where "upstreamPkgBatchSize = 1000"

function batches :: "nat \<Rightarrow> 'a list \<Rightarrow> 'a list list" where
  "batches n xs = (if xs = [] \<or> n = 0 then [] else take n xs # batches n (drop n xs))"
  by pat_completeness auto
termination by (relation "measure (\<lambda>(n, xs). length xs)") auto

declare batches.simps [simp del]

text \<open>The entry keys of a batch of members; a member without a colon has none.\<close>

definition entry_keys :: "fetch_lib \<Rightarrow> UpstreamSource \<Rightarrow> string \<Rightarrow> string list \<Rightarrow> string list" where
  "entry_keys L src arch batch =
     List.map_filter (\<lambda>m. map_option (\<lambda>(pkg, version). UpstreamPkgEntry L src arch pkg version) (splitUpstreamPkgMember m)) batch"

fun read_batches :: "fetch_lib \<Rightarrow> fetch_call \<Rightarrow> UpstreamSource \<Rightarrow> string \<Rightarrow> valkey \<Rightarrow> string list list \<Rightarrow> RawPkg list option" where
  "read_batches L nw src arch vk [] = Some []"
| "read_batches L nw src arch vk (batch # rest) =
     (let entryKeys = entry_keys L src arch batch in
      if entryKeys \<noteq> [] \<and> nw_fails nw ''MGET'' entryKeys then None
      else map_option (\<lambda>pkgs. List.map_filter (vk_pkgs vk) entryKeys @ pkgs) (read_batches L nw src arch vk rest))"

text \<open>The outer \<open>None\<close> is an error, the inner one an arch that is not cached.\<close>

definition fetchOneArchPkgs :: "fetch_lib \<Rightarrow> fetch_call \<Rightarrow> UpstreamSource \<Rightarrow> string \<Rightarrow> valkey \<Rightarrow> RawPkg list option option" where
  "fetchOneArchPkgs L nw src arch vk =
     (let bucket = UpstreamPkgBucket L src arch; members = vk_sets vk bucket in
      if nw_fails nw ''SSCAN'' [bucket] then None
      else if members = [] then Some None
      else map_option Some (read_batches L nw src arch vk (batches upstreamPkgBatchSize members)))"

definition fetchArchPkgs :: "fetch_lib \<Rightarrow> fetch_call \<Rightarrow> UpstreamSource \<Rightarrow> string list \<Rightarrow> valkey \<Rightarrow> (string \<times> RawPkg list) list \<times> bool" where
  "fetchArchPkgs L nw src archs vk =
     foldl (\<lambda>(archPkgs, complete) arch.
        case fetchOneArchPkgs L nw src arch vk of
          None \<Rightarrow> (archPkgs, False)
        | Some None \<Rightarrow> (archPkgs, complete)
        | Some (Some pkgs) \<Rightarrow> (AList.update arch pkgs archPkgs, complete)) ([], True) archs"

definition getMetaRaw :: "fetch_lib \<Rightarrow> fetch_call \<Rightarrow> UpstreamSource \<Rightarrow> valkey \<Rightarrow> valkeyPayload option" where
  "getMetaRaw L nw src vk = (if nw_fails nw ''GET'' [UpstreamMeta L src] then None else vk_meta vk (UpstreamMeta L src))"

definition getMeta :: "fetch_lib \<Rightarrow> fetch_call \<Rightarrow> UpstreamSource \<Rightarrow> valkey \<Rightarrow> valkeyPayload option" where
  "getMeta L nw src vk =
     (case getMetaRaw L nw src vk of None \<Rightarrow> None | Some meta \<Rightarrow> if nw_now nw < vp_Expires meta then Some meta else None)"

definition fetchSrcs :: "fetch_lib \<Rightarrow> fetch_call \<Rightarrow> UpstreamSource \<Rightarrow> valkey \<Rightarrow> RawSrc list option option" where
  "fetchSrcs L nw src vk = (if nw_fails nw ''GET'' [UpstreamSrcs L src] then None else vk_srcs vk (UpstreamSrcs L src))"

definition meta_entry :: "valkeyPayload \<Rightarrow> (string \<times> RawPkg list) list \<times> bool \<Rightarrow> indexCacheEntry" where
  "meta_entry meta r =
     \<lparr>ic_etag = vp_ETag meta, ic_lastMod = vp_LastMod meta, ic_expires = vp_Expires meta, ic_release = vp_Release meta,
      ic_archPkgs = fst r, ic_archsComplete = snd r, ic_srcsRelease = None, ic_srcs = None\<rparr>"

definition adoptFromValkey :: "fetch_lib \<Rightarrow> fetch_call \<Rightarrow> UpstreamSource \<Rightarrow> string list \<Rightarrow> valkey \<Rightarrow> IndexCache
    \<Rightarrow> indexCacheEntry option \<times> IndexCache" where
  "adoptFromValkey L nw src archs vk c =
     (case getMeta L nw src vk of
        None \<Rightarrow> (None, c)
      | Some meta \<Rightarrow>
          let entry = meta_entry meta (fetchArchPkgs L nw src archs vk)
          in (if ic_archsComplete entry then Some entry else None, ixc_store (cacheKey src) entry c))"

definition adoptFromValkeyForComparison :: "fetch_lib \<Rightarrow> fetch_call \<Rightarrow> UpstreamSource \<Rightarrow> string list \<Rightarrow> valkey \<Rightarrow> indexCacheEntry option" where
  "adoptFromValkeyForComparison L nw src archs vk =
     map_option (\<lambda>meta. meta_entry meta (fetchArchPkgs L nw src archs vk)) (getMetaRaw L nw src vk)"

text \<open>What the stored Sources say under a Release: the list, or that the Release has none (a nil list), or nothing.\<close>

definition resolved_srcs :: "fetch_lib \<Rightarrow> fetch_call \<Rightarrow> UpstreamSource \<Rightarrow> valkey \<Rightarrow> valkeyPayload \<Rightarrow> RawSrc list option option" where
  "resolved_srcs L nw src vk meta =
     (case fetchSrcs L nw src vk of
        Some srcs \<Rightarrow> Some srcs
      | None \<Rightarrow> (case vp_Release meta of
          Some rel \<Rightarrow> if releaseListsSources rel (us_Component src) then None else Some None
        | None \<Rightarrow> None))"

definition adoptSrcsFromValkey :: "fetch_lib \<Rightarrow> fetch_call \<Rightarrow> UpstreamSource \<Rightarrow> valkey \<Rightarrow> IndexCache \<Rightarrow> RawSrc list option option \<times> IndexCache" where
  "adoptSrcsFromValkey L nw src vk c =
     (case getMeta L nw src vk of
        None \<Rightarrow> (None, c)
      | Some meta \<Rightarrow> (case resolved_srcs L nw src vk meta of
          None \<Rightarrow> (None, c)
        | Some srcs \<Rightarrow> (Some srcs, updateSrcs (cacheKey src) (vp_Release meta) srcs c)))"

definition adoptSrcsFromValkeyForComparison :: "fetch_lib \<Rightarrow> fetch_call \<Rightarrow> UpstreamSource \<Rightarrow> valkey \<Rightarrow> indexCacheEntry option" where
  "adoptSrcsFromValkeyForComparison L nw src vk =
     (case getMetaRaw L nw src vk of
        None \<Rightarrow> None
      | Some meta \<Rightarrow> map_option (\<lambda>srcs. empty_entry\<lparr>ic_srcsRelease := vp_Release meta, ic_srcs := srcs\<rparr>) (resolved_srcs L nw src vk meta))"

text \<open>Publishing.  A step that fails leaves what was written before it; \<open>False\<close> is the error.  The sets a Go map holds are
  visited in the order of the list.\<close>

fun missing_batches :: "fetch_lib \<Rightarrow> fetch_call \<Rightarrow> UpstreamSource \<Rightarrow> string \<Rightarrow> valkey \<Rightarrow> string list list \<Rightarrow> string list option" where
  "missing_batches L nw src arch vk [] = Some []"
| "missing_batches L nw src arch vk (batch # rest) =
     (let checked = filter (\<lambda>m. splitUpstreamPkgMember m \<noteq> None) batch; entryKeys = entry_keys L src arch checked in
      if entryKeys \<noteq> [] \<and> nw_fails nw ''MGET'' entryKeys then None
      else map_option (\<lambda>ms. map fst (filter (\<lambda>(_, k). vk_pkgs vk k = None) (zip checked entryKeys)) @ ms) (missing_batches L nw src arch vk rest))"

definition findMembersMissingEntries :: "fetch_lib \<Rightarrow> fetch_call \<Rightarrow> UpstreamSource \<Rightarrow> string \<Rightarrow> valkey \<Rightarrow> string list \<Rightarrow> string list option" where
  "findMembersMissingEntries L nw src arch vk members = missing_batches L nw src arch vk (batches upstreamPkgBatchSize members)"

definition put_entry :: "fetch_lib \<Rightarrow> UpstreamSource \<Rightarrow> string \<Rightarrow> (string \<rightharpoonup> RawPkg) \<Rightarrow> string \<Rightarrow> (string \<rightharpoonup> RawPkg) \<Rightarrow> (string \<rightharpoonup> RawPkg)" where
  "put_entry L src arch byMember m pkgs =
     (case splitUpstreamPkgMember m of
        None \<Rightarrow> pkgs
      | Some (pkg, version) \<Rightarrow> (case byMember m of None \<Rightarrow> pkgs | Some p \<Rightarrow> pkgs(UpstreamPkgEntry L src arch pkg version \<mapsto> p)))"

fun add_batches :: "fetch_lib \<Rightarrow> fetch_call \<Rightarrow> UpstreamSource \<Rightarrow> string \<Rightarrow> (string \<rightharpoonup> RawPkg) \<Rightarrow> string list list \<Rightarrow> valkey \<Rightarrow> bool \<times> valkey" where
  "add_batches L nw src arch byMember [] vk = (True, vk)"
| "add_batches L nw src arch byMember (batch # rest) vk =
     (let entryKeys = entry_keys L src arch batch; bucket = UpstreamPkgBucket L src arch in
      if entryKeys \<noteq> [] \<and> nw_fails nw ''MSET'' entryKeys then (False, vk)
      else let vk = vk\<lparr>vk_pkgs := fold (put_entry L src arch byMember) batch (vk_pkgs vk)\<rparr>
           in if nw_fails nw ''SADD'' (bucket # batch) then (False, vk)
              else add_batches L nw src arch byMember rest
                     (vk\<lparr>vk_sets := (vk_sets vk)(bucket := remdups (vk_sets vk bucket @ batch))\<rparr>))"

fun remove_batches :: "fetch_lib \<Rightarrow> fetch_call \<Rightarrow> UpstreamSource \<Rightarrow> string \<Rightarrow> string list list \<Rightarrow> valkey \<Rightarrow> bool \<times> valkey" where
  "remove_batches L nw src arch [] vk = (True, vk)"
| "remove_batches L nw src arch (batch # rest) vk =
     (let bucket = UpstreamPkgBucket L src arch; entryKeys = entry_keys L src arch batch in
      if nw_fails nw ''SREM'' (bucket # batch) then (False, vk)
      else let vk = vk\<lparr>vk_sets := (vk_sets vk)(bucket := filter (\<lambda>m. m \<notin> set batch) (vk_sets vk bucket))\<rparr>
           in if entryKeys \<noteq> [] \<and> nw_fails nw ''DEL'' entryKeys then (False, vk)
              else remove_batches L nw src arch rest (vk\<lparr>vk_pkgs := (\<lambda>k. if k \<in> set entryKeys then None else vk_pkgs vk k)\<rparr>))"

definition publishArchPkgs :: "fetch_lib \<Rightarrow> fetch_call \<Rightarrow> UpstreamSource \<Rightarrow> string \<Rightarrow> RawPkg list \<Rightarrow> valkey \<Rightarrow> bool \<times> valkey" where
  "publishArchPkgs L nw src arch pkgs vk =
     (let bucket = UpstreamPkgBucket L src arch; current = vk_sets vk bucket in
      if nw_fails nw ''SSCAN'' [bucket] then (False, vk)
      else let member = (\<lambda>p. upstreamPkgMember (rp_Package p) (rp_Version p));
               newSet = remdups (map member pkgs);
               byMember = map_of (rev (map (\<lambda>p. (member p, p)) pkgs));
               toAdd = filter (\<lambda>m. m \<notin> set current) newSet;
               unchanged = filter (\<lambda>m. m \<in> set current) newSet;
               toRemove = filter (\<lambda>m. m \<notin> set newSet) current
           in (case findMembersMissingEntries L nw src arch vk unchanged of
                 None \<Rightarrow> (False, vk)
               | Some missing \<Rightarrow>
                   let (ok, vk) = add_batches L nw src arch byMember (batches upstreamPkgBatchSize (toAdd @ missing)) vk
                   in if ok then remove_batches L nw src arch (batches upstreamPkgBatchSize toRemove) vk else (False, vk)))"

fun publish_archs :: "fetch_lib \<Rightarrow> fetch_call \<Rightarrow> UpstreamSource \<Rightarrow> (string \<times> RawPkg list) list \<Rightarrow> valkey \<Rightarrow> bool \<times> valkey" where
  "publish_archs L nw src [] vk = (True, vk)"
| "publish_archs L nw src ((arch, pkgs) # rest) vk =
     (let (ok, vk) = publishArchPkgs L nw src arch pkgs vk in if ok then publish_archs L nw src rest vk else (False, vk))"

definition publishToValkey :: "fetch_lib \<Rightarrow> fetch_call \<Rightarrow> UpstreamSource \<Rightarrow> indexCacheEntry \<Rightarrow> valkey \<Rightarrow> valkey" where
  "publishToValkey L nw src entry vk =
     (let (ok, vk) = publish_archs L nw src (ic_archPkgs entry) vk;
          payload = \<lparr>vp_ETag = ic_etag entry, vp_LastMod = ic_lastMod entry, vp_Expires = ic_expires entry, vp_Release = ic_release entry\<rparr>
      in if ok \<and> \<not> nw_fails nw ''SET'' [UpstreamMeta L src] then vk\<lparr>vk_meta := (vk_meta vk)(UpstreamMeta L src \<mapsto> payload)\<rparr> else vk)"

definition publishSrcsToValkey :: "fetch_lib \<Rightarrow> fetch_call \<Rightarrow> UpstreamSource \<Rightarrow> RawSrc list option \<Rightarrow> valkey \<Rightarrow> valkey" where
  "publishSrcsToValkey L nw src srcs vk =
     (if nw_fails nw ''SET'' [UpstreamSrcs L src] then vk else vk\<lparr>vk_srcs := (vk_srcs vk)(UpstreamSrcs L src \<mapsto> srcs)\<rparr>)"

subsection \<open>The Release\<close>

definition maxRawIndexBytes :: nat where "maxRawIndexBytes = 256 * 2 ^ 20"

definition getConditional :: "fetch_call \<Rightarrow> nat \<Rightarrow> string \<Rightarrow> string \<Rightarrow> string \<Rightarrow> fetch_error + response" where
  "getConditional nw n url etag lastMod =
     (case nw_get nw n url etag lastMod of
        None \<Rightarrow> Inl Transport
      | Some resp \<Rightarrow>
          if ht_Status resp \<noteq> 200 then Inr (resp\<lparr>ht_Body := []\<rparr>)
          else if maxRawIndexBytes < length (ht_Body resp) then Inl TooLarge else Inr resp)"

definition fetchDetachedRelease :: "fetch_lib \<Rightarrow> fetch_call \<Rightarrow> nat \<Rightarrow> UpstreamSource \<Rightarrow> fetch_error + string \<times> response" where
  "fetchDetachedRelease L nw n src =
     (case getConditional nw n (distsURL src ''Release'') [] [] of
        Inl e \<Rightarrow> Inl e
      | Inr resp \<Rightarrow>
          if ht_Status resp \<noteq> 200 then Inl (BadStatus (ht_Status resp))
          else (case getConditional nw n (distsURL src ''Release.gpg'') [] [] of
                 Inl e \<Rightarrow> Inl e
               | Inr sigResp \<Rightarrow>
                   if ht_Status sigResp \<noteq> 200 then Inl (BadStatus (ht_Status sigResp))
                   else if VerifyDetached L (ht_Body resp) (ht_Body sigResp) (us_VerifyKeys src) then Inr (ht_Body resp, resp)
                   else Inl BadSignature))"

definition verified_or_detached :: "fetch_lib \<Rightarrow> fetch_call \<Rightarrow> nat \<Rightarrow> UpstreamSource \<Rightarrow> response \<Rightarrow> fetch_error + string \<times> response" where
  "verified_or_detached L nw n src resp =
     (case VerifyClearsigned L (ht_Body resp) (us_VerifyKeys src) of
        None \<Rightarrow> fetchDetachedRelease L nw n src
      | Some body \<Rightarrow> Inr (body, resp))"

definition fetchVerifiedRelease :: "fetch_lib \<Rightarrow> fetch_call \<Rightarrow> UpstreamSource \<Rightarrow> indexCacheEntry option \<Rightarrow> fetch_error + string \<times> response" where
  "fetchVerifiedRelease L nw src cached =
     (let (etag, lastMod) = (case cached of None \<Rightarrow> ([], []) | Some e \<Rightarrow> (ic_etag e, ic_lastMod e)) in
      case getConditional nw 0 (distsURL src ''InRelease'') etag lastMod of
        Inl e \<Rightarrow> Inl e
      | Inr resp \<Rightarrow>
          if ht_Status resp = 304 then Inr ([], resp)
          else if ht_Status resp = 200 then verified_or_detached L nw 0 src resp
          else if ht_Status resp \<noteq> 404 then Inl (BadStatus (ht_Status resp))
          else fetchDetachedRelease L nw 0 src)"

definition fetchVerifiedReleaseFull :: "fetch_lib \<Rightarrow> fetch_call \<Rightarrow> UpstreamSource \<Rightarrow> fetch_error + string \<times> response" where
  "fetchVerifiedReleaseFull L nw src =
     (case getConditional nw 1 (distsURL src ''InRelease'') [] [] of
        Inl e \<Rightarrow> Inl e
      | Inr resp \<Rightarrow> if ht_Status resp = 200 then verified_or_detached L nw 1 src resp else fetchDetachedRelease L nw 1 src)"

subsection \<open>Index files\<close>

definition maxDecompressedIndexBytes :: nat where "maxDecompressedIndexBytes = 2 ^ 30"

definition parse_bounded :: "(string \<Rightarrow> deb822_error + 'a) \<Rightarrow> string \<Rightarrow> fetch_error + 'a" where
  "parse_bounded parse text =
     (if maxDecompressedIndexBytes < length text then Inl IndexTooLarge
      else case parse text of Inl e \<Rightarrow> Inl (BadIndex e) | Inr x \<Rightarrow> Inr x)"

text \<open>The loop over the variants of an index file: the first listed one that arrives intact is parsed, nothing is the empty
  list.\<close>

fun fetch_variants :: "fetch_lib \<Rightarrow> fetch_call \<Rightarrow> UpstreamSource \<Rightarrow> Release \<Rightarrow> string \<Rightarrow> (string \<Rightarrow> deb822_error + 'a list) \<Rightarrow> string list
    \<Rightarrow> fetch_error + 'a list" where
  "fetch_variants L nw src rel pathBase parse [] = Inr []"
| "fetch_variants L nw src rel pathBase parse (v # vs) =
     (let relPath = pathBase @ v; byHash = acquireByHash rel; others = fetch_variants L nw src rel pathBase parse vs in
      case rel_Files rel relPath of
        None \<Rightarrow> others
      | Some entry \<Rightarrow> (case getConditional nw 2 (indexURL src relPath (fe_SHA256 entry) byHash) [] [] of
          Inl e \<Rightarrow> Inl e
        | Inr first \<Rightarrow> (case (if ht_Status first = 404 \<and> byHash then getConditional nw 2 (distsURL src relPath) [] [] else Inr first) of
            Inl e \<Rightarrow> Inl e
          | Inr resp \<Rightarrow>
              if ht_Status resp \<noteq> 200 then others
              else if verifyDigest L (ht_Body resp) (fe_SHA256 entry) \<noteq> None then others
              else (case OpenCompressed (fl_decoders L) v (ht_Body resp) of
                      None \<Rightarrow> others
                    | Some text \<Rightarrow> parse_bounded parse text))))"

text \<open>The patches of a chain, applied one after the other; \<open>None\<close> sends the caller to a full download.\<close>

fun apply_chain :: "fetch_lib \<Rightarrow> fetch_call \<Rightarrow> UpstreamSource \<Rightarrow> Release \<Rightarrow> string \<Rightarrow> ('a list \<Rightarrow> string \<Rightarrow> ed_error + 'a list) \<Rightarrow> string list \<Rightarrow> 'a list
    \<Rightarrow> 'a list option" where
  "apply_chain L nw src rel diffBase app [] pkgs = Some pkgs"
| "apply_chain L nw src rel diffBase app (name # chain) pkgs =
     (let patchRelPath = diffBase @ name @ ''.gz'' in
      case getConditional nw 2 (distsURL src patchRelPath) [] [] of
        Inl _ \<Rightarrow> None
      | Inr presp \<Rightarrow>
          if ht_Status presp \<noteq> 200 then None
          else (case rel_Files rel patchRelPath of
                  None \<Rightarrow> None
                | Some entry \<Rightarrow>
                    if verifyDigest L (ht_Body presp) (fe_SHA256 entry) \<noteq> None then None
                    else (case dec_gzip (fl_decoders L) (ht_Body presp) of
                            None \<Rightarrow> None
                          | Some patch \<Rightarrow>
                              if maxDecompressedIndexBytes < length patch then None
                              else (case app pkgs patch of Inl _ \<Rightarrow> None | Inr pkgs \<Rightarrow> apply_chain L nw src rel diffBase app chain pkgs))))"

definition try_pdiff :: "fetch_lib \<Rightarrow> fetch_call \<Rightarrow> UpstreamSource \<Rightarrow> Release \<Rightarrow> string \<Rightarrow> ('a list \<Rightarrow> string \<Rightarrow> ed_error + 'a list) \<Rightarrow> ('a list \<Rightarrow> string)
    \<Rightarrow> string \<Rightarrow> 'a list \<Rightarrow> 'a list option" where
  "try_pdiff L nw src rel diffBase app serialize cachedSHA256 cachedPkgs =
     (let diffRelPath = diffBase @ ''Index'' in
      case rel_Files rel diffRelPath of
        None \<Rightarrow> None
      | Some relEntry \<Rightarrow> (case getConditional nw 2 (distsURL src diffRelPath) [] [] of
          Inl _ \<Rightarrow> None
        | Inr resp \<Rightarrow>
            if ht_Status resp \<noteq> 200 \<or> verifyDigest L (ht_Body resp) (fe_SHA256 relEntry) \<noteq> None then None
            else (case ParsePDiffIndex (ht_Body resp) of
                   Inl _ \<Rightarrow> None
                 | Inr idx \<Rightarrow> (case PatchChain idx cachedSHA256 of
                     None \<Rightarrow> None
                   | Some [] \<Rightarrow> Some cachedPkgs
                   | Some chain \<Rightarrow> (case apply_chain L nw src rel diffBase app chain cachedPkgs of
                       None \<Rightarrow> None
                     | Some pkgs \<Rightarrow> if verifyDigest L (serialize pkgs) (pd_CurrentSHA256 idx) \<noteq> None then None else Some pkgs)))))"

definition tryPDiff :: "fetch_lib \<Rightarrow> fetch_call \<Rightarrow> UpstreamSource \<Rightarrow> Release \<Rightarrow> string \<Rightarrow> string \<Rightarrow> RawPkg list \<Rightarrow> RawPkg list option" where
  "tryPDiff L nw src rel pathBase cachedSHA256 cachedPkgs =
     try_pdiff L nw src rel (pathBase @ ''Packages.diff/'') ApplyEdPatch SerializeRawPkgs cachedSHA256 cachedPkgs"

definition tryPDiffSrc :: "fetch_lib \<Rightarrow> fetch_call \<Rightarrow> UpstreamSource \<Rightarrow> Release \<Rightarrow> string \<Rightarrow> string \<Rightarrow> RawSrc list \<Rightarrow> RawSrc list option" where
  "tryPDiffSrc L nw src rel pathBase cachedSHA256 cachedSrcs =
     try_pdiff L nw src rel (pathBase @ ''Sources.diff/'') ApplyEdPatchSrc SerializeRawSrcs cachedSHA256 cachedSrcs"

text \<open>A variant of an index file that both Releases list with the same digest.\<close>

definition unchanged_file :: "Release \<Rightarrow> Release \<Rightarrow> string \<Rightarrow> bool" where
  "unchanged_file rel old relPath =
     (case (rel_Files rel relPath, rel_Files old relPath) of
        (Some newEntry, Some oldEntry) \<Rightarrow> fe_SHA256 newEntry = fe_SHA256 oldEntry
      | _ \<Rightarrow> False)"

definition old_sha256 :: "Release \<Rightarrow> string \<Rightarrow> string" where
  "old_sha256 old relPath = (case rel_Files old relPath of None \<Rightarrow> [] | Some e \<Rightarrow> fe_SHA256 e)"

definition fetchPackagesMaybeReuse :: "fetch_lib \<Rightarrow> fetch_call \<Rightarrow> UpstreamSource \<Rightarrow> Release \<Rightarrow> string \<Rightarrow> string \<Rightarrow> indexCacheEntry option \<Rightarrow> bool
    \<Rightarrow> fetch_error + RawPkg list" where
  "fetchPackagesMaybeReuse L nw src rel component arch cached allowCacheReuse =
     (let pathBase = binary_base component arch;
          full = fetch_variants L nw src rel pathBase ParsePackageRaws pkgVariants in
      case (if allowCacheReuse then cached else None) of
        None \<Rightarrow> full
      | Some e \<Rightarrow> (case ic_release e of
          None \<Rightarrow> full
        | Some old \<Rightarrow>
            let held = map_of (ic_archPkgs e) arch; cachedSHA256 = old_sha256 old (pathBase @ ''Packages'') in
            if held \<noteq> None \<and> list_ex (\<lambda>v. unchanged_file rel old (pathBase @ v)) pkgVariants then Inr (the held)
            else (case (if cachedSHA256 = [] then None
                       else tryPDiff L nw src rel pathBase cachedSHA256 (case held of None \<Rightarrow> [] | Some ps \<Rightarrow> ps)) of
                   Some updated \<Rightarrow> Inr updated
                 | None \<Rightarrow> full)))"

fun fetch_components :: "(string \<Rightarrow> fetch_error + 'a list) \<Rightarrow> string list \<Rightarrow> fetch_error + 'a list" where
  "fetch_components fetch [] = Inr []"
| "fetch_components fetch (component # rest) =
     (case fetch component of
        Inl e \<Rightarrow> Inl e
      | Inr xs \<Rightarrow> (case fetch_components fetch rest of Inl e \<Rightarrow> Inl e | Inr ys \<Rightarrow> Inr (xs @ ys)))"

definition fetchPackagesForArch :: "fetch_lib \<Rightarrow> fetch_call \<Rightarrow> UpstreamSource \<Rightarrow> Release \<Rightarrow> string \<Rightarrow> indexCacheEntry option \<Rightarrow> fetch_error + RawPkg list" where
  "fetchPackagesForArch L nw src rel arch cached =
     fetch_components (\<lambda>component. fetchPackagesMaybeReuse L nw src rel component arch cached (length (us_Component src) = 1)) (us_Component src)"

definition fetchSourcesFile :: "fetch_lib \<Rightarrow> fetch_call \<Rightarrow> UpstreamSource \<Rightarrow> Release \<Rightarrow> string \<Rightarrow> fetch_error + RawSrc list" where
  "fetchSourcesFile L nw src rel pathBase = fetch_variants L nw src rel pathBase ParseSourceRaws srcVariants"

definition fetchSourcesForComponents :: "fetch_lib \<Rightarrow> fetch_call \<Rightarrow> UpstreamSource \<Rightarrow> Release \<Rightarrow> fetch_error + RawSrc list" where
  "fetchSourcesForComponents L nw src rel = fetch_components (\<lambda>component. fetchSourcesFile L nw src rel (source_base component)) (us_Component src)"

subsection \<open>Fetching\<close>

text \<open>A fetcher has a cache or none, and a cache is backed by Valkey or not (\<open>fw_valkey\<close> without \<open>fw_cache\<close> is not
  consulted).  \<open>ReleaseOnly\<close> reads the Release that is at hand.\<close>

record fetch_world =
  fw_cache :: "IndexCache option"
  fw_valkey :: "valkey option"

definition fw_lookup :: "UpstreamSource \<Rightarrow> fetch_world \<Rightarrow> indexCacheEntry option" where
  "fw_lookup src w = (case fw_cache w of None \<Rightarrow> None | Some c \<Rightarrow> c (cacheKey src))"

definition fw_upd :: "(IndexCache \<Rightarrow> IndexCache) \<Rightarrow> fetch_world \<Rightarrow> fetch_world" where
  "fw_upd f w = w\<lparr>fw_cache := map_option f (fw_cache w)\<rparr>"

definition fw_backing :: "fetch_world \<Rightarrow> valkey option" where
  "fw_backing w = (if fw_cache w = None then None else fw_valkey w)"

definition fw_publish :: "(valkey \<Rightarrow> valkey) \<Rightarrow> fetch_world \<Rightarrow> fetch_world" where
  "fw_publish f w = (if fw_cache w = None then w else w\<lparr>fw_valkey := map_option f (fw_valkey w)\<rparr>)"

definition superset_archs :: "UpstreamSource \<Rightarrow> string list" where
  "superset_archs src = us_Archs src @ [''all'']"

definition cachedForComparison :: "fetch_lib \<Rightarrow> fetch_call \<Rightarrow> UpstreamSource \<Rightarrow> fetch_world \<Rightarrow> indexCacheEntry option" where
  "cachedForComparison L nw src w =
     (case fw_lookup src w of
        Some e \<Rightarrow> if ic_release e \<noteq> None then Some e
          else (case fw_backing w of None \<Rightarrow> None | Some vk \<Rightarrow> adoptFromValkeyForComparison L nw src (superset_archs src) vk)
      | None \<Rightarrow> (case fw_backing w of None \<Rightarrow> None | Some vk \<Rightarrow> adoptFromValkeyForComparison L nw src (superset_archs src) vk))"

definition srcsCachedForComparison :: "fetch_lib \<Rightarrow> fetch_call \<Rightarrow> UpstreamSource \<Rightarrow> fetch_world \<Rightarrow> indexCacheEntry option" where
  "srcsCachedForComparison L nw src w =
     (case fw_lookup src w of
        Some e \<Rightarrow> if ic_srcsRelease e \<noteq> None then Some e
          else (case fw_backing w of None \<Rightarrow> None | Some vk \<Rightarrow> adoptSrcsFromValkeyForComparison L nw src vk)
      | None \<Rightarrow> (case fw_backing w of None \<Rightarrow> None | Some vk \<Rightarrow> adoptSrcsFromValkeyForComparison L nw src vk))"

definition ReleaseOnly :: "fetch_lib \<Rightarrow> fetch_call \<Rightarrow> UpstreamSource \<Rightarrow> fetch_world \<Rightarrow> Release option" where
  "ReleaseOnly L nw src w =
     (case fw_lookup src w of
        Some e \<Rightarrow> (case ic_release e of
          Some rel \<Rightarrow> Some rel
        | None \<Rightarrow> (case fw_backing w of None \<Rightarrow> None | Some vk \<Rightarrow> (case getMetaRaw L nw src vk of None \<Rightarrow> None | Some meta \<Rightarrow> vp_Release meta)))
      | None \<Rightarrow> (case fw_backing w of None \<Rightarrow> None | Some vk \<Rightarrow> (case getMetaRaw L nw src vk of None \<Rightarrow> None | Some meta \<Rightarrow> vp_Release meta)))"

definition entry_index :: "indexCacheEntry \<Rightarrow> Index" where
  "entry_index e = \<lparr>ix_ByArch = ic_archPkgs e, ix_HasStaleMismatch = False\<rparr>"

text \<open>The loop over the architectures: the lists, whether a stale one stands in for a digest mismatch, and whether every
  architecture has an answer.\<close>

fun fetch_archs :: "fetch_lib \<Rightarrow> fetch_call \<Rightarrow> UpstreamSource \<Rightarrow> Release \<Rightarrow> indexCacheEntry option \<Rightarrow> string list \<Rightarrow> (string \<times> RawPkg list) list \<times> bool \<times> bool" where
  "fetch_archs L nw src rel cached [] = ([], False, True)"
| "fetch_archs L nw src rel cached (arch # archs) =
     (let (rest, mismatch, complete) = fetch_archs L nw src rel cached archs in
      case fetchPackagesForArch L nw src rel arch cached of
        Inr paras \<Rightarrow> ((arch, paras) # rest, mismatch, complete)
      | Inl err \<Rightarrow> (case (case cached of None \<Rightarrow> None | Some e \<Rightarrow> map_of (ic_archPkgs e) arch) of
          Some stale \<Rightarrow> ((arch, stale) # rest, err = DigestMismatch \<or> mismatch, complete)
        | None \<Rightarrow> (rest, mismatch, False)))"

text \<open>The part of \<open>FetchIndex\<close> after the Release has been verified: \<open>resp\<close> is \<open>None\<close> after a repeated request.\<close>

definition index_entry :: "fetch_lib \<Rightarrow> int \<Rightarrow> response option \<Rightarrow> Release \<Rightarrow> (string \<times> RawPkg list) list \<Rightarrow> bool \<Rightarrow> indexCacheEntry" where
  "index_entry L now resp rel archPkgs archsComplete =
     empty_entry\<lparr>ic_etag := (case resp of None \<Rightarrow> [] | Some r \<Rightarrow> ht_ETag r), ic_lastMod := (case resp of None \<Rightarrow> [] | Some r \<Rightarrow> ht_LastModified r),
       ic_expires := (case resp of None \<Rightarrow> now + 300 * 10 ^ 9 | Some r \<Rightarrow> parseExpiry L now r),
       ic_release := Some rel, ic_archPkgs := archPkgs, ic_archsComplete := archsComplete\<rparr>"

definition fetch_packages :: "fetch_lib \<Rightarrow> fetch_call \<Rightarrow> UpstreamSource \<Rightarrow> indexCacheEntry option \<Rightarrow> string \<Rightarrow> response option \<Rightarrow> fetch_world
    \<Rightarrow> (fetch_error + Index) \<times> fetch_world" where
  "fetch_packages L nw src cachedEntry releaseBody resp w =
     (case ParseRelease releaseBody of
        Inl e \<Rightarrow> (Inl (BadRelease e), w)
      | Inr rel \<Rightarrow>
          let archs = releaseServedArchs rel (us_Component src) (us_Archs src);
              (archPkgs, mismatch, complete) = fetch_archs L nw src rel cachedEntry archs;
              w = (if mismatch then fw_upd (ixc_expire (cacheKey src)) w else w);
              entry = index_entry L (nw_now nw) resp rel archPkgs complete;
              w = fw_publish (publishToValkey L nw src entry) (fw_upd (ixc_store (cacheKey src) entry) w)
          in (Inr \<lparr>ix_ByArch = archPkgs, ix_HasStaleMismatch = mismatch\<rparr>, w))"

definition fetch_real :: "fetch_lib \<Rightarrow> fetch_call \<Rightarrow> UpstreamSource \<Rightarrow> indexCacheEntry option \<Rightarrow> fetch_world \<Rightarrow> (fetch_error + Index) \<times> fetch_world" where
  "fetch_real L nw src cachedEntry w =
     (case fetchVerifiedRelease L nw src cachedEntry of
        Inl err \<Rightarrow> (case cachedEntry of Some e \<Rightarrow> (Inr (entry_index e), w) | None \<Rightarrow> (Inl err, w))
      | Inr (releaseBody, resp) \<Rightarrow>
          if ht_Status resp \<noteq> 304 then fetch_packages L nw src cachedEntry releaseBody (Some resp) w
          else let again = (case fetchVerifiedReleaseFull L nw src of
                              Inl err \<Rightarrow> (Inl err, w)
                            | Inr (body, _) \<Rightarrow> fetch_packages L nw src cachedEntry body None w)
               in (case cachedEntry of
                     Some e \<Rightarrow>
                       if ic_archsComplete e
                       then (Inr (entry_index e), fw_upd (ixc_store (cacheKey src) (e\<lparr>ic_expires := parseExpiry L (nw_now nw) resp\<rparr>)) w)
                       else again
                   | None \<Rightarrow> again))"

text \<open>What follows the check of the local entry: the fresh copy in Valkey, the entry to compare with, the fetch lock.\<close>

definition adopt_fresh :: "fetch_lib \<Rightarrow> fetch_call \<Rightarrow> UpstreamSource \<Rightarrow> fetch_world \<Rightarrow> indexCacheEntry option \<times> fetch_world" where
  "adopt_fresh L nw src w =
     (case (fw_cache w, fw_valkey w) of
        (Some c, Some vk) \<Rightarrow> (let (e, c') = adoptFromValkey L nw src (superset_archs src) vk c in (e, w\<lparr>fw_cache := Some c'\<rparr>))
      | _ \<Rightarrow> (None, w))"

definition fetch_stale :: "fetch_lib \<Rightarrow> fetch_call \<Rightarrow> UpstreamSource \<Rightarrow> fetch_world \<Rightarrow> (fetch_error + Index) \<times> fetch_world" where
  "fetch_stale L nw src w =
     (case adopt_fresh L nw src w of
        (Some e, w) \<Rightarrow> (Inr (entry_index e), w)
      | (None, w) \<Rightarrow>
          let cachedEntry = cachedForComparison L nw src w in
          if fw_backing w \<noteq> None \<and> nw_lock nw = LockBusy \<and> cachedEntry \<noteq> None then (Inr (entry_index (the cachedEntry)), w)
          else fetch_real L nw src cachedEntry w)"

definition FetchIndex :: "fetch_lib \<Rightarrow> fetch_call \<Rightarrow> UpstreamSource \<Rightarrow> fetch_world \<Rightarrow> (fetch_error + Index) \<times> fetch_world" where
  "FetchIndex L nw src w =
     (case fw_lookup src w of
        Some e \<Rightarrow> if nw_now nw < ic_expires e then (Inr (entry_index e), w) else fetch_stale L nw src w
      | None \<Rightarrow> fetch_stale L nw src w)"

definition AdoptFromValkeyOutright :: "fetch_lib \<Rightarrow> fetch_call \<Rightarrow> UpstreamSource \<Rightarrow> fetch_world \<Rightarrow> Index option \<times> fetch_world" where
  "AdoptFromValkeyOutright L nw src w =
     (case cachedForComparison L nw src w of
        None \<Rightarrow> (None, w)
      | Some e \<Rightarrow>
          if ic_release e = None \<or> \<not> ic_archsComplete e then (None, w)
          else (Some (entry_index e), fw_upd (ixc_store (cacheKey src) e) w))"

text \<open>Sources.  The result is a nil list (\<open>None\<close>) or a list.\<close>

definition store_srcs :: "fetch_lib \<Rightarrow> fetch_call \<Rightarrow> UpstreamSource \<Rightarrow> Release \<Rightarrow> RawSrc list \<Rightarrow> fetch_world \<Rightarrow> fetch_world" where
  "store_srcs L nw src rel srcs w =
     fw_publish (publishSrcsToValkey L nw src (Some srcs)) (fw_upd (updateSrcs (cacheKey src) (Some rel) (Some srcs)) w)"

text \<open>The shortcuts for a single component: the old list when its digest is unchanged (nothing is stored), or a patched one.\<close>

definition reuse_srcs :: "fetch_lib \<Rightarrow> fetch_call \<Rightarrow> UpstreamSource \<Rightarrow> Release \<Rightarrow> indexCacheEntry option \<Rightarrow> (RawSrc list \<times> bool) option" where
  "reuse_srcs L nw src rel cachedEntry =
     (case (us_Component src, cachedEntry) of
        ([component], Some e) \<Rightarrow> (case (ic_srcsRelease e, ic_srcs e) of
          (Some old, Some srcs) \<Rightarrow>
            let pathBase = source_base component; cachedSHA256 = old_sha256 old (pathBase @ ''Sources'') in
            if list_ex (\<lambda>v. unchanged_file rel old (pathBase @ v)) srcVariants then Some (srcs, False)
            else if cachedSHA256 = [] then None
            else map_option (\<lambda>updated. (updated, True)) (tryPDiffSrc L nw src rel pathBase cachedSHA256 srcs)
        | _ \<Rightarrow> None)
      | _ \<Rightarrow> None)"

definition fetch_srcs_with :: "fetch_lib \<Rightarrow> fetch_call \<Rightarrow> UpstreamSource \<Rightarrow> indexCacheEntry option \<Rightarrow> RawSrc list option \<Rightarrow> Release \<Rightarrow> fetch_world
    \<Rightarrow> (fetch_error + RawSrc list option) \<times> fetch_world" where
  "fetch_srcs_with L nw src cachedEntry fallback rel w =
     (case reuse_srcs L nw src rel cachedEntry of
        Some (srcs, False) \<Rightarrow> (Inr (Some srcs), w)
      | Some (srcs, True) \<Rightarrow> (Inr (Some srcs), store_srcs L nw src rel srcs w)
      | None \<Rightarrow> (case fetchSourcesForComponents L nw src rel of
          Inl err \<Rightarrow> (if fallback \<noteq> None then Inr fallback else Inl err, w)
        | Inr [] \<Rightarrow> (Inr None, w)
        | Inr srcs \<Rightarrow> (Inr (Some srcs), store_srcs L nw src rel srcs w)))"

definition fetch_srcs_real :: "fetch_lib \<Rightarrow> fetch_call \<Rightarrow> UpstreamSource \<Rightarrow> indexCacheEntry option \<Rightarrow> RawSrc list option \<Rightarrow> fetch_world
    \<Rightarrow> (fetch_error + RawSrc list option) \<times> fetch_world" where
  "fetch_srcs_real L nw src cachedEntry fallback w =
     (case fetchVerifiedRelease L nw src cachedEntry of
        Inl err \<Rightarrow> (if fallback \<noteq> None then Inr fallback else Inl err, w)
      | Inr (releaseBody, resp) \<Rightarrow>
          if ht_Status resp = 304 then
            (if fallback \<noteq> None then (Inr fallback, w)
             else (case (case cachedEntry of None \<Rightarrow> None | Some e \<Rightarrow> ic_release e) of
                     None \<Rightarrow> (Inr None, w)
                   | Some rel \<Rightarrow> fetch_srcs_with L nw src cachedEntry fallback rel w))
          else (case ParseRelease releaseBody of
                  Inl e \<Rightarrow> (Inl (BadRelease e), w)
                | Inr rel \<Rightarrow> fetch_srcs_with L nw src cachedEntry fallback rel w))"

definition adopt_fresh_srcs :: "fetch_lib \<Rightarrow> fetch_call \<Rightarrow> UpstreamSource \<Rightarrow> fetch_world \<Rightarrow> RawSrc list option option \<times> fetch_world" where
  "adopt_fresh_srcs L nw src w =
     (case (fw_cache w, fw_valkey w) of
        (Some c, Some vk) \<Rightarrow> (let (srcs, c') = adoptSrcsFromValkey L nw src vk c in (srcs, w\<lparr>fw_cache := Some c'\<rparr>))
      | _ \<Rightarrow> (None, w))"

definition FetchSources :: "fetch_lib \<Rightarrow> fetch_call \<Rightarrow> UpstreamSource \<Rightarrow> fetch_world \<Rightarrow> (fetch_error + RawSrc list option) \<times> fetch_world" where
  "FetchSources L nw src w =
     (case adopt_fresh_srcs L nw src w of
        (Some srcs, w) \<Rightarrow> (Inr srcs, w)
      | (None, w) \<Rightarrow>
          let cachedEntry = srcsCachedForComparison L nw src w; fallback = (case cachedEntry of None \<Rightarrow> None | Some e \<Rightarrow> ic_srcs e) in
          if fw_backing w \<noteq> None \<and> nw_lock nw = LockBusy \<and> fallback \<noteq> None then (Inr fallback, w)
          else fetch_srcs_real L nw src cachedEntry fallback w)"

definition AdoptSourcesFromValkeyOutright :: "fetch_lib \<Rightarrow> fetch_call \<Rightarrow> UpstreamSource \<Rightarrow> fetch_world \<Rightarrow> RawSrc list option option \<times> fetch_world" where
  "AdoptSourcesFromValkeyOutright L nw src w =
     (case srcsCachedForComparison L nw src w of
        None \<Rightarrow> (None, w)
      | Some e \<Rightarrow> (case ic_srcsRelease e of
          None \<Rightarrow> (None, w)
        | Some rel \<Rightarrow>
            if ic_srcs e = None \<and> releaseListsSources rel (us_Component src) then (None, w)
            else (Some (ic_srcs e), fw_upd (updateSrcs (cacheKey src) (Some rel) (ic_srcs e)) w)))"

section \<open>What a signature vouches for\<close>

text \<open>A Release some trusted key has signed; a file it lists with its digest; a list that is the content of such a file, or
  that serializes to the digest which a patch index so listed names as the current one.\<close>

definition signed :: "fetch_lib \<Rightarrow> UpstreamSource \<Rightarrow> string \<Rightarrow> bool" where
  "signed L src body \<longleftrightarrow> (\<exists>sig. fl_check L (us_VerifyKeys src) body sig \<or> fl_checkArmored L (us_VerifyKeys src) body sig)"

definition vouched :: "fetch_lib \<Rightarrow> UpstreamSource \<Rightarrow> Release \<Rightarrow> bool" where
  "vouched L src rel \<longleftrightarrow> (\<exists>body. signed L src body \<and> ParseRelease body = Inr rel)"

definition vouched_file :: "fetch_lib \<Rightarrow> UpstreamSource \<Rightarrow> string \<Rightarrow> string \<Rightarrow> bool" where
  "vouched_file L src path data \<longleftrightarrow>
     (\<exists>rel e. vouched L src rel \<and> rel_Files rel path = Some e \<and> equal_fold (fl_sha256 L data) (fe_SHA256 e))"

definition genuine_list :: "fetch_lib \<Rightarrow> UpstreamSource \<Rightarrow> string \<Rightarrow> string list \<Rightarrow> string \<Rightarrow> (string \<Rightarrow> deb822_error + 'a list) \<Rightarrow> ('a list \<Rightarrow> string) \<Rightarrow> 'a list \<Rightarrow> bool" where
  "genuine_list L src pathBase variants diffName parse serialize xs \<longleftrightarrow>
     (\<exists>v \<in> set variants. \<exists>data text. vouched_file L src (pathBase @ v) data \<and>
        OpenCompressed (fl_decoders L) v data = Some text \<and> parse text = Inr xs) \<or>
     (\<exists>data idx. vouched_file L src (pathBase @ diffName @ ''Index'') data \<and> ParsePDiffIndex data = Inr idx \<and>
        equal_fold (fl_sha256 L (serialize xs)) (pd_CurrentSHA256 idx))"

definition genuine_pkg :: "fetch_lib \<Rightarrow> UpstreamSource \<Rightarrow> string \<Rightarrow> RawPkg \<Rightarrow> bool" where
  "genuine_pkg L src arch p \<longleftrightarrow>
     (\<exists>component \<in> set (us_Component src). \<exists>xs. p \<in> set xs \<and>
        genuine_list L src (binary_base component arch) pkgVariants ''Packages.diff/'' ParsePackageRaws SerializeRawPkgs xs)"

definition genuine_src :: "fetch_lib \<Rightarrow> UpstreamSource \<Rightarrow> RawSrc \<Rightarrow> bool" where
  "genuine_src L src s \<longleftrightarrow>
     (\<exists>component \<in> set (us_Component src). \<exists>xs. s \<in> set xs \<and>
        genuine_list L src (source_base component) srcVariants ''Sources.diff/'' ParseSourceRaws SerializeRawSrcs xs)"

lemma getConditional_status:
  "getConditional nw n url etag lm = Inr r \<Longrightarrow> \<exists>q. nw_get nw n url etag lm = Some q \<and> ht_Status q = ht_Status r"
  by (auto simp: getConditional_def split: option.splits if_splits)

lemma fetchDetachedRelease_signed: "fetchDetachedRelease L nw n src = Inr (body, r) \<Longrightarrow> signed L src body \<and> ht_Status r = 200"
  by (auto simp: fetchDetachedRelease_def signed_def VerifyDetached_def split: sum.splits if_splits)

lemma verified_or_detached_signed:
  "verified_or_detached L nw n src resp = Inr (body, r) \<Longrightarrow> ht_Status resp = 200 \<Longrightarrow> signed L src body \<and> ht_Status r = 200"
  using fetchDetachedRelease_signed
  by (fastforce simp: verified_or_detached_def VerifyClearsigned_def signed_def split: option.splits if_splits)

lemma fetchVerifiedRelease_signed:
  "fetchVerifiedRelease L nw src cached = Inr (body, r) \<Longrightarrow> ht_Status r \<noteq> 304 \<Longrightarrow> signed L src body"
  using fetchDetachedRelease_signed verified_or_detached_signed
  by (fastforce simp: fetchVerifiedRelease_def Let_def split: option.splits sum.splits if_splits prod.splits)

lemma fetchVerifiedReleaseFull_signed: "fetchVerifiedReleaseFull L nw src = Inr (body, r) \<Longrightarrow> signed L src body"
  using fetchDetachedRelease_signed verified_or_detached_signed
  by (fastforce simp: fetchVerifiedReleaseFull_def split: sum.splits if_splits)

lemma vouched_fileI:
  "vouched L src rel \<Longrightarrow> rel_Files rel path = Some e \<Longrightarrow> verifyDigest L data (fe_SHA256 e) = None \<Longrightarrow> vouched_file L src path data"
  by (auto simp: vouched_file_def verifyDigest_def split: if_splits)

lemma parse_bounded_Inr: "parse_bounded parse text = Inr xs \<Longrightarrow> parse text = Inr xs"
  by (auto simp: parse_bounded_def split: if_splits sum.splits)

lemma fetch_variants_genuine:
  assumes "vouched L src rel"
  shows "fetch_variants L nw src rel pathBase parse vs = Inr xs \<Longrightarrow>
    xs = [] \<or> (\<exists>v \<in> set vs. \<exists>data text. vouched_file L src (pathBase @ v) data \<and> OpenCompressed (fl_decoders L) v data = Some text \<and> parse text = Inr xs)"
proof (induction vs)
  case (Cons v vs)
  show ?case
  proof (cases "fetch_variants L nw src rel pathBase parse vs = Inr xs")
    case True
    then show ?thesis using Cons.IH by auto
  next
    case False
    then obtain e data content where "rel_Files rel (pathBase @ v) = Some e" "verifyDigest L data (fe_SHA256 e) = None"
        "OpenCompressed (fl_decoders L) v data = Some content" "parse_bounded parse content = Inr xs"
      using Cons.prems by (fastforce simp: Let_def split: option.splits sum.splits if_splits)
    then show ?thesis using vouched_fileI[OF assms] parse_bounded_Inr by (metis list.set_intros(1))
  qed
qed simp

lemma try_pdiff_genuine:
  assumes "vouched L src rel" "try_pdiff L nw src rel diffBase app serialize sha cached = Some xs"
  shows "xs = cached \<or> (\<exists>data idx. vouched_file L src (diffBase @ ''Index'') data \<and> ParsePDiffIndex data = Inr idx \<and>
      equal_fold (fl_sha256 L (serialize xs)) (pd_CurrentSHA256 idx))"
proof -
  obtain e data idx where i: "rel_Files rel (diffBase @ ''Index'') = Some e" "verifyDigest L data (fe_SHA256 e) = None"
      "ParsePDiffIndex data = Inr idx" and x: "xs = cached \<or> verifyDigest L (serialize xs) (pd_CurrentSHA256 idx) = None"
    using assms(2) by (auto simp: try_pdiff_def Let_def split: option.splits sum.splits if_splits list.splits)
  show ?thesis
    using x vouched_fileI[OF assms(1) i(1,2)] i(3) by (auto simp: verifyDigest_def split: if_splits)
qed

lemma genuine_diff:
  "vouched_file L src ((pathBase @ diffName) @ ''Index'') data \<Longrightarrow> ParsePDiffIndex data = Inr idx \<Longrightarrow>
   equal_fold (fl_sha256 L (serialize xs)) (pd_CurrentSHA256 idx) \<Longrightarrow> genuine_list L src pathBase variants diffName parse serialize xs"
  unfolding genuine_list_def append_assoc by blast

lemma fetch_components_in:
  "fetch_components fetch cs = Inr xs \<Longrightarrow> x \<in> set xs \<Longrightarrow> \<exists>c \<in> set cs. \<exists>ys. fetch c = Inr ys \<and> x \<in> set ys"
  by (induction cs arbitrary: xs) (fastforce split: sum.splits)+

text \<open>What the cache of a process and the copy in Valkey must hold.\<close>

definition plain :: "string \<Rightarrow> bool" where
  "plain s \<longleftrightarrow> CHR '':'' \<notin> set s"

definition pkgs_ok :: "fetch_lib \<Rightarrow> UpstreamSource \<Rightarrow> (string \<times> RawPkg list) list \<Rightarrow> bool" where
  "pkgs_ok L src aps \<longleftrightarrow> (\<forall>(arch, ps) \<in> set aps. plain arch \<and> (\<forall>p \<in> set ps. genuine_pkg L src arch p))"

definition srcs_ok :: "fetch_lib \<Rightarrow> UpstreamSource \<Rightarrow> RawSrc list option \<Rightarrow> bool" where
  "srcs_ok L src ss \<longleftrightarrow> (\<forall>xs. ss = Some xs \<longrightarrow> (\<forall>x \<in> set xs. genuine_src L src x))"

definition rel_ok :: "fetch_lib \<Rightarrow> UpstreamSource \<Rightarrow> Release option \<Rightarrow> bool" where
  "rel_ok L src r \<longleftrightarrow> (\<forall>rel. r = Some rel \<longrightarrow> vouched L src rel)"

definition cached_ok :: "fetch_lib \<Rightarrow> UpstreamSource \<Rightarrow> indexCacheEntry \<Rightarrow> bool" where
  "cached_ok L src e \<longleftrightarrow> pkgs_ok L src (ic_archPkgs e) \<and> srcs_ok L src (ic_srcs e) \<and> rel_ok L src (ic_release e) \<and> rel_ok L src (ic_srcsRelease e)"

lemma cached_ok_simps [simp]:
  "cached_ok L src (e\<lparr>ic_expires := t\<rparr>) = cached_ok L src e"
  by (simp add: cached_ok_def)

lemma pkgs_ok_held: "pkgs_ok L src aps \<Longrightarrow> map_of aps arch = Some ps \<Longrightarrow> p \<in> set ps \<Longrightarrow> genuine_pkg L src arch p"
  by (fastforce simp: pkgs_ok_def dest: map_of_SomeD)

lemma fetchPackagesForArch_genuine:
  assumes "vouched L src rel" "\<forall>e. cached = Some e \<longrightarrow> cached_ok L src e"
    and "fetchPackagesForArch L nw src rel arch cached = Inr xs" "p \<in> set xs"
  shows "genuine_pkg L src arch p"
proof -
  obtain c ys where c: "c \<in> set (us_Component src)" "p \<in> set ys"
      and f: "fetchPackagesMaybeReuse L nw src rel c arch cached (length (us_Component src) = 1) = Inr ys"
    using fetch_components_in[OF assms(3)[unfolded fetchPackagesForArch_def] assms(4)] by blast
  let ?b = "binary_base c arch"
  have full: "genuine_pkg L src arch p" if "fetch_variants L nw src rel ?b ParsePackageRaws pkgVariants = Inr ys"
    using fetch_variants_genuine[OF assms(1) that] c unfolding genuine_pkg_def genuine_list_def by fastforce
  have held: "genuine_pkg L src arch p" if "cached = Some e" "map_of (ic_archPkgs e) arch = Some ys" for e
    using pkgs_ok_held assms(2) that c(2) by (auto simp: cached_ok_def)
  have diff: "genuine_pkg L src arch p"
    if e: "cached = Some e" and t: "tryPDiff L nw src rel ?b sha (case map_of (ic_archPkgs e) arch of None \<Rightarrow> [] | Some ps \<Rightarrow> ps) = Some ys" for e sha
    using try_pdiff_genuine[OF assms(1) t[unfolded tryPDiff_def]]
  proof
    assume "ys = (case map_of (ic_archPkgs e) arch of None \<Rightarrow> [] | Some ps \<Rightarrow> ps)"
    then show ?thesis using held[OF e] c(2) by (auto split: option.splits)
  next
    assume "\<exists>data idx. vouched_file L src ((?b @ ''Packages.diff/'') @ ''Index'') data \<and> ParsePDiffIndex data = Inr idx \<and>
      equal_fold (fl_sha256 L (SerializeRawPkgs ys)) (pd_CurrentSHA256 idx)"
    then show ?thesis using c genuine_diff unfolding genuine_pkg_def by blast
  qed
  from f show ?thesis
    unfolding fetchPackagesMaybeReuse_def Let_def
    by (auto split: option.splits if_splits intro: full held diff)
qed

lemma fetch_archs_genuine:
  assumes "vouched L src rel" "\<forall>e. cached = Some e \<longrightarrow> cached_ok L src e" "\<forall>arch \<in> set archs. plain arch"
  shows "pkgs_ok L src (fst (fetch_archs L nw src rel cached archs))"
  using assms(3)
proof (induction archs)
  case (Cons arch archs)
  have fresh: "\<forall>p \<in> set xs. genuine_pkg L src arch p" if "fetchPackagesForArch L nw src rel arch cached = Inr xs" for xs
    using fetchPackagesForArch_genuine[OF assms(1,2) that] by blast
  have stale: "\<forall>p \<in> set xs. genuine_pkg L src arch p" if "cached = Some e" "map_of (ic_archPkgs e) arch = Some xs" for e xs
    using pkgs_ok_held assms(2) that by (auto simp: cached_ok_def)
  have "pkgs_ok L src (fst (fetch_archs L nw src rel cached archs))" "plain arch" using Cons by simp_all
  then show ?case
    using fresh stale by (auto simp: pkgs_ok_def Let_def split: prod.splits sum.splits option.splits)
qed (simp add: pkgs_ok_def)

lemma releaseServedArchs_subset: "set (releaseServedArchs rel components archs) \<subseteq> set archs \<union> {''all''}"
proof -
  have "set (foldl (\<lambda>as (c, a). if P c a then List.insert a as else as) as xs) \<subseteq> set as \<union> snd ` set xs"
    for P and as :: "string list" and xs :: "(string \<times> string) list"
    by (induction xs arbitrary: as) (fastforce split: if_splits)+
  then show ?thesis unfolding releaseServedArchs_def by fastforce
qed

subsection \<open>The copy in Valkey\<close>

definition config_ok :: "UpstreamSource set \<Rightarrow> bool" where
  "config_ok S \<longleftrightarrow>
     (\<forall>s \<in> S. plain (us_Name s) \<and> plain (us_Suite s) \<and> plain (ComponentKey s) \<and> (\<forall>arch \<in> set (us_Archs s). plain arch)) \<and>
     (\<forall>s \<in> S. \<forall>t \<in> S. cacheKey s = cacheKey t \<or> (us_Name s = us_Name t \<and> us_Suite s = us_Suite t \<and> ComponentKey s = ComponentKey t) \<longrightarrow>
        us_VerifyKeys s = us_VerifyKeys t \<and> us_Component s = us_Component t)"

lemma plain_split: "plain a \<Longrightarrow> plain b \<Longrightarrow> a @ CHR '':'' # x = b @ CHR '':'' # y \<longleftrightarrow> a = b \<and> x = y"
proof (induction a arbitrary: b)
  case Nil
  then show ?case by (cases b) (auto simp: plain_def)
next
  case (Cons c a)
  then show ?case by (cases b) (auto simp: plain_def)
qed

lemma genuine_same:
  assumes "us_VerifyKeys s = us_VerifyKeys t" "us_Component s = us_Component t"
  shows "genuine_pkg L s = genuine_pkg L t" "genuine_src L s = genuine_src L t" "vouched L s = vouched L t"
  using assms by (auto simp: genuine_pkg_def genuine_src_def genuine_list_def vouched_file_def vouched_def signed_def fun_eq_iff)

lemma plain_sources:
  assumes "config_ok S" "s \<in> S"
  shows "plain (us_Name s)" "plain (us_Suite s)" "plain (ComponentKey s)" "arch \<in> set (superset_archs s) \<Longrightarrow> plain arch"
  using assms by (auto simp: config_ok_def superset_archs_def plain_def)

lemma upstreamTag_inj:
  assumes "config_ok S" "s \<in> S" "t \<in> S" "upstreamTag s = upstreamTag t"
  shows "us_VerifyKeys s = us_VerifyKeys t \<and> us_Component s = us_Component t"
proof -
  have "us_Name s = us_Name t \<and> us_Suite s = us_Suite t \<and> ComponentKey s = ComponentKey t"
    using assms(4) plain_sources[OF assms(1,2)] plain_sources[OF assms(1,3)] by (auto simp: upstreamTag_def plain_split)
  then show ?thesis using assms(1-3) unfolding config_ok_def by blast
qed

lemma pkg_entry_key_inj:
  assumes "config_ok S" "s \<in> S" "t \<in> S" "plain a" "plain b" "UpstreamPkgEntry L s a p v = UpstreamPkgEntry L t b p' v'"
  shows "a = b \<and> us_VerifyKeys s = us_VerifyKeys t \<and> us_Component s = us_Component t"
proof -
  have pb: "plain (a @ ''}'')" "plain (b @ ''}'')" using assms(4,5) by (auto simp: plain_def)
  have "us_Name s = us_Name t \<and> us_Suite s = us_Suite t \<and> ComponentKey s = ComponentKey t \<and> a @ ''}'' = b @ ''}''"
    using assms(6) plain_sources[OF assms(1,2)] plain_sources[OF assms(1,3)]
      plain_split[OF pb, of "p @ '':'' @ v" "p' @ '':'' @ v'"]
    by (auto simp: UpstreamPkgEntry_def upstreamPkgTag_def plain_split)
  then show ?thesis using assms(1-3) unfolding config_ok_def by blast
qed

definition entries_ok :: "fetch_lib \<Rightarrow> UpstreamSource set \<Rightarrow> (string \<rightharpoonup> RawPkg) \<Rightarrow> bool" where
  "entries_ok L S ps \<longleftrightarrow>
     (\<forall>src \<in> S. \<forall>arch pkg version p. plain arch \<and> ps (UpstreamPkgEntry L src arch pkg version) = Some p \<longrightarrow> genuine_pkg L src arch p)"

definition meta_ok :: "fetch_lib \<Rightarrow> UpstreamSource set \<Rightarrow> (string \<rightharpoonup> valkeyPayload) \<Rightarrow> bool" where
  "meta_ok L S ms \<longleftrightarrow> (\<forall>src \<in> S. \<forall>m. ms (UpstreamMeta L src) = Some m \<longrightarrow> rel_ok L src (vp_Release m))"

definition vsrcs_ok :: "fetch_lib \<Rightarrow> UpstreamSource set \<Rightarrow> (string \<rightharpoonup> RawSrc list option) \<Rightarrow> bool" where
  "vsrcs_ok L S ss \<longleftrightarrow> (\<forall>src \<in> S. \<forall>x. ss (UpstreamSrcs L src) = Some x \<longrightarrow> srcs_ok L src x)"

definition vk_ok :: "fetch_lib \<Rightarrow> UpstreamSource set \<Rightarrow> valkey \<Rightarrow> bool" where
  "vk_ok L S vk \<longleftrightarrow> entries_ok L S (vk_pkgs vk) \<and> meta_ok L S (vk_meta vk) \<and> vsrcs_ok L S (vk_srcs vk)"

lemma entry_keys_in: "k \<in> set (entry_keys L src arch batch) \<Longrightarrow> \<exists>pkg version. k = UpstreamPkgEntry L src arch pkg version"
  by (fastforce simp: entry_keys_def List.map_filter_def split: option.splits)

lemma read_batches_ok:
  assumes "entries_ok L S (vk_pkgs vk)" "src \<in> S" "plain arch"
  shows "read_batches L nw src arch vk bs = Some ps \<Longrightarrow> \<forall>p \<in> set ps. genuine_pkg L src arch p"
proof (induction bs arbitrary: ps)
  case (Cons b bs)
  have "genuine_pkg L src arch p" if "p \<in> set (List.map_filter (vk_pkgs vk) (entry_keys L src arch b))" for p
  proof -
    obtain k where "k \<in> set (entry_keys L src arch b)" "vk_pkgs vk k = Some p"
      using \<open>p \<in> _\<close> by (auto simp: List.map_filter_def)
    then show ?thesis using entry_keys_in assms unfolding entries_ok_def by blast
  qed
  then show ?case using Cons by (auto simp: Let_def split: if_splits)
qed simp

lemma foldl_keeps: "(\<And>r x. P r \<Longrightarrow> x \<in> set xs \<Longrightarrow> P (f r x)) \<Longrightarrow> P r \<Longrightarrow> P (foldl f r xs)"
  by (induction xs arbitrary: r) auto

lemma fetchArchPkgs_ok:
  assumes "vk_ok L S vk" "src \<in> S" "\<forall>arch \<in> set archs. plain arch"
  shows "pkgs_ok L src (fst (fetchArchPkgs L nw src archs vk))"
proof -
  have one: "\<forall>p \<in> set ps. genuine_pkg L src arch p" if "fetchOneArchPkgs L nw src arch vk = Some (Some ps)" "plain arch" for arch ps
    using read_batches_ok[OF _ assms(2) that(2)] assms(1) that(1)
    by (auto simp: fetchOneArchPkgs_def Let_def vk_ok_def split: if_splits)
  have upd: "pkgs_ok L src (AList.update arch ps aps)" if "pkgs_ok L src aps" "plain arch" "\<forall>p \<in> set ps. genuine_pkg L src arch p" for arch ps aps
    using that by (induction aps) (auto simp: pkgs_ok_def)
  let ?step = "\<lambda>(archPkgs, complete) arch. case fetchOneArchPkgs L nw src arch vk of None \<Rightarrow> (archPkgs, False)
      | Some None \<Rightarrow> (archPkgs, complete) | Some (Some pkgs) \<Rightarrow> (AList.update arch pkgs archPkgs, complete)"
  have step: "pkgs_ok L src (fst (?step r arch))" if "pkgs_ok L src (fst r)" "plain arch" for r arch
    using that upd[OF _ that(2)] one[OF _ that(2)] by (auto split: option.splits prod.splits)
  have "pkgs_ok L src (fst (foldl ?step ([], True) archs))"
  proof (rule foldl_keeps[where P = "\<lambda>r. pkgs_ok L src (fst r)"])
    show "pkgs_ok L src (fst (?step r arch))" if "pkgs_ok L src (fst r)" "arch \<in> set archs" for r arch
      using step that assms(3) by blast
  qed (simp add: pkgs_ok_def)
  then show ?thesis by (simp only: fetchArchPkgs_def)
qed

lemma put_entry_ok:
  assumes "config_ok S" "src \<in> S" "plain arch" "\<forall>m p. byMember m = Some p \<longrightarrow> genuine_pkg L src arch p" "entries_ok L S ps"
  shows "entries_ok L S (put_entry L src arch byMember m ps)"
proof -
  have "genuine_pkg L t a p"
    if t: "t \<in> S" and a: "plain a" and g: "put_entry L src arch byMember m ps (UpstreamPkgEntry L t a pkg ver) = Some p" for t a pkg ver p
  proof (cases "ps (UpstreamPkgEntry L t a pkg ver) = Some p")
    case True
    then show ?thesis using assms(5) t a unfolding entries_ok_def by blast
  next
    case False
    then obtain pkg' ver' where k: "UpstreamPkgEntry L t a pkg ver = UpstreamPkgEntry L src arch pkg' ver'" and b: "byMember m = Some p"
      using g by (auto simp: put_entry_def split: option.splits if_splits)
    have "a = arch" "genuine_pkg L t = genuine_pkg L src"
      using pkg_entry_key_inj[OF assms(1) t assms(2) a assms(3) k] genuine_same by blast+
    then show ?thesis using assms(4) b by simp
  qed
  then show ?thesis unfolding entries_ok_def by blast
qed

lemma add_batches_ok:
  assumes "config_ok S" "src \<in> S" "plain arch" "\<forall>m p. byMember m = Some p \<longrightarrow> genuine_pkg L src arch p"
  shows "vk_ok L S vk \<Longrightarrow> vk_ok L S (snd (add_batches L nw src arch byMember bs vk))"
proof (induction bs arbitrary: vk)
  case (Cons b bs)
  have "entries_ok L S (fold (put_entry L src arch byMember) b ps)" if "entries_ok L S ps" for ps
    using that by (induction b arbitrary: ps) (auto intro: put_entry_ok[OF assms])
  then have "vk_ok L S (vk\<lparr>vk_pkgs := fold (put_entry L src arch byMember) b (vk_pkgs vk), vk_sets := ss\<rparr>)" for ss
    using Cons.prems by (simp add: vk_ok_def)
  from this[of "vk_sets vk"] this show ?case using Cons by (simp add: Let_def)
qed simp

lemma remove_batches_ok: "vk_ok L S vk \<Longrightarrow> vk_ok L S (snd (remove_batches L nw src arch bs vk))"
proof (induction bs arbitrary: vk)
  case (Cons b bs)
  have "vk_ok L S (vk\<lparr>vk_sets := ss, vk_pkgs := (\<lambda>k. if k \<in> K then None else vk_pkgs vk k)\<rparr>)" for ss K
    using Cons.prems by (auto simp: vk_ok_def entries_ok_def)
  moreover have "vk_ok L S (vk\<lparr>vk_sets := ss\<rparr>)" for ss using Cons.prems by (simp add: vk_ok_def)
  ultimately show ?case using Cons by (simp add: Let_def cong: if_cong)
qed simp

lemma publishArchPkgs_ok:
  assumes "config_ok S" "src \<in> S" "plain arch" "\<forall>p \<in> set pkgs. genuine_pkg L src arch p" "vk_ok L S vk"
  shows "vk_ok L S (snd (publishArchPkgs L nw src arch pkgs vk))"
proof -
  let ?by = "map_of (rev (map (\<lambda>p. (upstreamPkgMember (rp_Package p) (rp_Version p), p)) pkgs))"
  have "\<forall>m p. ?by m = Some p \<longrightarrow> genuine_pkg L src arch p" using assms(4) by (auto dest!: map_of_SomeD)
  then have add: "vk_ok L S vk'" if "add_batches L nw src arch ?by bs vk = (ok, vk')" for bs ok vk'
    using add_batches_ok[OF assms(1-3) _ assms(5), of ?by nw bs] that by simp
  show ?thesis
    unfolding publishArchPkgs_def Let_def
    by (auto split: option.splits prod.splits intro: assms(5) add remove_batches_ok)
qed

lemma publish_archs_ok:
  assumes "config_ok S" "src \<in> S"
  shows "pkgs_ok L src aps \<Longrightarrow> vk_ok L S vk \<Longrightarrow> vk_ok L S (snd (publish_archs L nw src aps vk))"
proof (induction aps arbitrary: vk)
  case (Cons ap aps)
  obtain arch ps where ap: "ap = (arch, ps)" by (cases ap)
  have "vk_ok L S (snd (publishArchPkgs L nw src arch ps vk))"
    using publishArchPkgs_ok[OF assms] Cons.prems by (auto simp: pkgs_ok_def ap)
  then show ?case using Cons by (auto simp: pkgs_ok_def ap Let_def split: prod.splits)
qed simp

lemma publishToValkey_ok:
  assumes "config_ok S" "src \<in> S" "cached_ok L src e" "vk_ok L S vk"
  shows "vk_ok L S (publishToValkey L nw src e vk)"
proof -
  obtain ok vk' where p: "publish_archs L nw src (ic_archPkgs e) vk = (ok, vk')" by fastforce
  then have ok: "vk_ok L S vk'" using publish_archs_ok[OF assms(1,2) _ assms(4), of "ic_archPkgs e" nw] assms(3) by (simp add: cached_ok_def)
  have "rel_ok L t (ic_release e)" if "t \<in> S" "UpstreamMeta L t = UpstreamMeta L src" for t
  proof -
    have "upstreamTag t = upstreamTag src" using that(2) by (simp add: UpstreamMeta_def)
    then have "vouched L t = vouched L src" using upstreamTag_inj[OF assms(1) that(1) assms(2)] genuine_same(3) by blast
    then show ?thesis using assms(3) by (simp add: cached_ok_def rel_ok_def)
  qed
  then show ?thesis using ok by (auto simp: publishToValkey_def p vk_ok_def meta_ok_def)
qed

lemma publishSrcsToValkey_ok:
  assumes "config_ok S" "src \<in> S" "srcs_ok L src ss" "vk_ok L S vk"
  shows "vk_ok L S (publishSrcsToValkey L nw src ss vk)"
proof -
  have "srcs_ok L t ss" if "t \<in> S" "UpstreamSrcs L t = UpstreamSrcs L src" for t
  proof -
    have "upstreamTag t = upstreamTag src" using that(2) by (simp add: UpstreamSrcs_def)
    then have "genuine_src L t = genuine_src L src" using upstreamTag_inj[OF assms(1) that(1) assms(2)] genuine_same(2) by blast
    then show ?thesis using assms(3) by (simp add: srcs_ok_def)
  qed
  then show ?thesis using assms(4) by (auto simp: publishSrcsToValkey_def vk_ok_def vsrcs_ok_def)
qed

subsection \<open>Every call keeps what it holds genuine\<close>

definition local_ok :: "fetch_lib \<Rightarrow> UpstreamSource set \<Rightarrow> IndexCache \<Rightarrow> bool" where
  "local_ok L S c \<longleftrightarrow> (\<forall>src \<in> S. \<forall>e. c (cacheKey src) = Some e \<longrightarrow> cached_ok L src e)"

definition world_ok :: "fetch_lib \<Rightarrow> UpstreamSource set \<Rightarrow> fetch_world \<Rightarrow> bool" where
  "world_ok L S w \<longleftrightarrow> (\<forall>c. fw_cache w = Some c \<longrightarrow> local_ok L S c) \<and> (\<forall>vk. fw_valkey w = Some vk \<longrightarrow> vk_ok L S vk)"

lemma cached_ok_same:
  assumes "config_ok S" "s \<in> S" "t \<in> S" "cacheKey s = cacheKey t"
  shows "cached_ok L s = cached_ok L t"
proof -
  have "us_VerifyKeys s = us_VerifyKeys t" "us_Component s = us_Component t" using assms unfolding config_ok_def by blast+
  from genuine_same[OF this] show ?thesis by (simp add: cached_ok_def pkgs_ok_def srcs_ok_def rel_ok_def fun_eq_iff)
qed

lemma local_ok_update: "config_ok S \<Longrightarrow> src \<in> S \<Longrightarrow> local_ok L S c \<Longrightarrow> cached_ok L src e \<Longrightarrow> local_ok L S (c(cacheKey src \<mapsto> e))"
proof -
  assume a: "config_ok S" "src \<in> S" "local_ok L S c" "cached_ok L src e"
  have "cached_ok L t e'" if t: "t \<in> S" and e': "(c(cacheKey src \<mapsto> e)) (cacheKey t) = Some e'" for t e'
  proof (cases "cacheKey t = cacheKey src")
    case True
    then show ?thesis using cached_ok_same[OF a(1) t a(2) True] a(4) e' by simp
  next
    case False
    then show ?thesis using a(3) t e' by (simp add: local_ok_def)
  qed
  then show ?thesis by (simp add: local_ok_def)
qed

lemma ixc_store_ok: "config_ok S \<Longrightarrow> src \<in> S \<Longrightarrow> local_ok L S c \<Longrightarrow> cached_ok L src e \<Longrightarrow> local_ok L S (ixc_store (cacheKey src) e c)"
proof -
  assume a: "config_ok S" "src \<in> S" "local_ok L S c" "cached_ok L src e"
  have "cached_ok L src (e\<lparr>ic_srcsRelease := ic_srcsRelease old, ic_srcs := ic_srcs old\<rparr>)" if "c (cacheKey src) = Some old" for old
    using a that by (auto simp: local_ok_def cached_ok_def)
  then show ?thesis using a by (auto simp: ixc_store_def intro: local_ok_update split: option.splits)
qed

lemma ixc_expire_ok: "config_ok S \<Longrightarrow> src \<in> S \<Longrightarrow> local_ok L S c \<Longrightarrow> local_ok L S (ixc_expire (cacheKey src) c)"
  by (auto simp: ixc_expire_def split: option.splits intro!: local_ok_update) (simp add: local_ok_def)

lemma empty_entry_ok [simp]: "cached_ok L src empty_entry"
  by (simp add: cached_ok_def empty_entry_def pkgs_ok_def srcs_ok_def rel_ok_def)

lemma updateSrcs_ok:
  assumes "config_ok S" "src \<in> S" "local_ok L S c" "rel_ok L src rel" "srcs_ok L src ss"
  shows "local_ok L S (updateSrcs (cacheKey src) rel ss c)"
proof -
  have "cached_ok L src (case c (cacheKey src) of Some e \<Rightarrow> e | None \<Rightarrow> empty_entry)"
    using assms(2,3) by (auto simp: local_ok_def split: option.splits)
  then show ?thesis
    unfolding updateSrcs_def by (intro local_ok_update[OF assms(1-3)]) (use assms(4,5) in \<open>simp add: cached_ok_def\<close>)
qed

lemma world_ok_lookup: "world_ok L S w \<Longrightarrow> src \<in> S \<Longrightarrow> fw_lookup src w = Some e \<Longrightarrow> cached_ok L src e"
  by (auto simp: world_ok_def fw_lookup_def local_ok_def split: option.splits)

lemma world_ok_backing: "world_ok L S w \<Longrightarrow> fw_backing w = Some vk \<Longrightarrow> vk_ok L S vk"
  by (auto simp: world_ok_def fw_backing_def split: if_splits)

lemma fw_upd_ok: "world_ok L S w \<Longrightarrow> (\<And>c. local_ok L S c \<Longrightarrow> local_ok L S (f c)) \<Longrightarrow> world_ok L S (fw_upd f w)"
  by (auto simp: world_ok_def fw_upd_def)

lemma fw_publish_ok: "world_ok L S w \<Longrightarrow> (\<And>vk. vk_ok L S vk \<Longrightarrow> vk_ok L S (f vk)) \<Longrightarrow> world_ok L S (fw_publish f w)"
  by (auto simp: world_ok_def fw_publish_def)

lemma getMetaRaw_ok: "vk_ok L S vk \<Longrightarrow> src \<in> S \<Longrightarrow> getMetaRaw L nw src vk = Some m \<Longrightarrow> rel_ok L src (vp_Release m)"
  by (auto simp: vk_ok_def meta_ok_def getMetaRaw_def split: if_splits)

lemma meta_entry_ok:
  assumes "config_ok S" "src \<in> S" "vk_ok L S vk" "getMetaRaw L nw src vk = Some m"
  shows "cached_ok L src (meta_entry m (fetchArchPkgs L nw src (superset_archs src) vk))"
  using fetchArchPkgs_ok[OF assms(3,2)] plain_sources(4)[OF assms(1,2)] getMetaRaw_ok[OF assms(3,2,4)]
  by (simp add: cached_ok_def meta_entry_def srcs_ok_def rel_ok_def)

lemma resolved_srcs_ok: "vk_ok L S vk \<Longrightarrow> src \<in> S \<Longrightarrow> resolved_srcs L nw src vk m = Some ss \<Longrightarrow> srcs_ok L src ss"
  by (auto simp: vk_ok_def vsrcs_ok_def resolved_srcs_def fetchSrcs_def srcs_ok_def split: option.splits if_splits)

lemma cachedForComparison_ok:
  assumes "config_ok S" "src \<in> S" "world_ok L S w" "cachedForComparison L nw src w = Some e"
  shows "cached_ok L src e"
  using assms(4) world_ok_lookup[OF assms(3,2)] meta_entry_ok[OF assms(1,2) world_ok_backing[OF assms(3)]]
  by (auto simp: cachedForComparison_def adoptFromValkeyForComparison_def split: option.splits if_splits)

lemma srcsCachedForComparison_ok:
  assumes "config_ok S" "src \<in> S" "world_ok L S w" "srcsCachedForComparison L nw src w = Some e"
  shows "cached_ok L src e"
proof -
  have v: "cached_ok L src (empty_entry\<lparr>ic_srcsRelease := vp_Release m, ic_srcs := ss\<rparr>)"
    if "fw_backing w = Some vk" "getMetaRaw L nw src vk = Some m" "resolved_srcs L nw src vk m = Some ss" for vk m ss
    using that world_ok_backing[OF assms(3)] getMetaRaw_ok resolved_srcs_ok assms(2) empty_entry_ok[of L src]
    by (simp add: cached_ok_def)
  then show ?thesis using assms(4) world_ok_lookup[OF assms(3,2)]
    by (auto simp: srcsCachedForComparison_def adoptSrcsFromValkeyForComparison_def split: option.splits if_splits)
qed

lemma fetch_packages_ok:
  assumes "config_ok S" "src \<in> S" "world_ok L S w" "\<forall>e. cached = Some e \<longrightarrow> cached_ok L src e" "signed L src body"
    and "fetch_packages L nw src cached body resp w = (r, w')"
  shows "world_ok L S w' \<and> (\<forall>idx. r = Inr idx \<longrightarrow> pkgs_ok L src (ix_ByArch idx))"
proof (cases "ParseRelease body")
  case (Inl e)
  then show ?thesis using assms(3,6) by (auto simp: fetch_packages_def)
next
  case (Inr rel)
  have v: "vouched L src rel" using Inr assms(5) by (auto simp: vouched_def)
  let ?archs = "releaseServedArchs rel (us_Component src) (us_Archs src)"
  obtain aps mis comp where f: "fetch_archs L nw src rel cached ?archs = (aps, mis, comp)" by (metis prod_cases3)
  have "\<forall>arch \<in> set ?archs. plain arch"
    using releaseServedArchs_subset[of rel "us_Component src" "us_Archs src"] plain_sources(4)[OF assms(1,2)]
    by (auto simp: superset_archs_def)
  from fetch_archs_genuine[OF v assms(4) this, of nw] have aps: "pkgs_ok L src aps" by (simp add: f)
  let ?e = "index_entry L (nw_now nw) resp rel aps comp"
  have e: "cached_ok L src ?e"
    using aps v by (simp add: cached_ok_def index_entry_def empty_entry_def srcs_ok_def rel_ok_def)
  let ?w1 = "if mis then fw_upd (ixc_expire (cacheKey src)) w else w"
  have "world_ok L S ?w1" using fw_upd_ok[OF assms(3)] ixc_expire_ok[OF assms(1,2)] assms(3) by simp
  then have "world_ok L S (fw_publish (publishToValkey L nw src ?e) (fw_upd (ixc_store (cacheKey src) ?e) ?w1))"
    by (intro fw_publish_ok fw_upd_ok) (auto intro: ixc_store_ok[OF assms(1,2) _ e] publishToValkey_ok[OF assms(1,2) e])
  then show ?thesis using assms(6) aps by (auto simp: fetch_packages_def Inr f Let_def)
qed

lemma entry_index_ok: "cached_ok L src e \<Longrightarrow> pkgs_ok L src (ix_ByArch (entry_index e))"
  by (simp add: cached_ok_def entry_index_def)

lemma fetch_real_ok:
  assumes "config_ok S" "src \<in> S" "world_ok L S w" "\<forall>e. cached = Some e \<longrightarrow> cached_ok L src e"
    and "fetch_real L nw src cached w = (r, w')"
  shows "world_ok L S w' \<and> (\<forall>idx. r = Inr idx \<longrightarrow> pkgs_ok L src (ix_ByArch idx))"
proof -
  note pk = fetch_packages_ok[OF assms(1-4)]
  have again: "world_ok L S w' \<and> (\<forall>idx. r = Inr idx \<longrightarrow> pkgs_ok L src (ix_ByArch idx))"
    if g: "(case fetchVerifiedReleaseFull L nw src of Inl err \<Rightarrow> (Inl err, w)
       | Inr (body, _) \<Rightarrow> fetch_packages L nw src cached body None w) = (r, w')"
  proof (cases "fetchVerifiedReleaseFull L nw src")
    case (Inl err)
    then show ?thesis using g assms(3) by auto
  next
    case (Inr br)
    then obtain body q where b: "fetchVerifiedReleaseFull L nw src = Inr (body, q)" by (cases br) simp
    then show ?thesis using g pk[OF fetchVerifiedReleaseFull_signed[OF b], of nw None r w'] by simp
  qed
  have kept: "world_ok L S (fw_upd (ixc_store (cacheKey src) (e\<lparr>ic_expires := t\<rparr>)) w)" if "cached = Some e" for e t
    using fw_upd_ok[OF assms(3)] ixc_store_ok[OF assms(1,2)] assms(4) that by simp
  have real: "world_ok L S w' \<and> (\<forall>idx. r = Inr idx \<longrightarrow> pkgs_ok L src (ix_ByArch idx))"
    if f: "fetchVerifiedRelease L nw src cached = Inr (body, resp)" for body resp
  proof (cases "ht_Status resp = 304")
    case False
    then show ?thesis using pk[OF fetchVerifiedRelease_signed[OF f False]] assms(5) f by (simp add: fetch_real_def)
  next
    case True
    then show ?thesis
      using again kept entry_index_ok assms(4,5) f by (auto simp: fetch_real_def Let_def split: option.splits if_splits)
  qed
  have failed: "world_ok L S w' \<and> (\<forall>idx. r = Inr idx \<longrightarrow> pkgs_ok L src (ix_ByArch idx))"
    if "fetchVerifiedRelease L nw src cached = Inl e" for e
    using that assms(3-5) entry_index_ok by (auto simp: fetch_real_def split: option.splits)
  show ?thesis using real failed by (metis old.sum.exhaust surj_pair)
qed

lemma adopt_fresh_ok:
  assumes "config_ok S" "src \<in> S" "world_ok L S w" "adopt_fresh L nw src w = (r, w')"
  shows "world_ok L S w' \<and> (\<forall>e. r = Some e \<longrightarrow> cached_ok L src e)"
proof -
  have "cached_ok L src (meta_entry m (fetchArchPkgs L nw src (superset_archs src) vk))"
    if "fw_valkey w = Some vk" "getMeta L nw src vk = Some m" for vk m
    using meta_entry_ok[OF assms(1,2), of L vk nw m] that assms(3) by (auto simp: world_ok_def getMeta_def split: option.splits if_splits)
  then show ?thesis
    using assms(3,4) ixc_store_ok[OF assms(1,2)]
    by (auto simp: adopt_fresh_def adoptFromValkey_def Let_def world_ok_def split: option.splits prod.splits if_splits)
qed

lemma FetchIndex_ok:
  assumes "config_ok S" "src \<in> S" "world_ok L S w" "FetchIndex L nw src w = (r, w')"
  shows "world_ok L S w' \<and> (\<forall>idx. r = Inr idx \<longrightarrow> pkgs_ok L src (ix_ByArch idx))"
proof -
  have stale: "world_ok L S w' \<and> (\<forall>idx. r = Inr idx \<longrightarrow> pkgs_ok L src (ix_ByArch idx))" if s: "fetch_stale L nw src w = (r, w')"
  proof -
    obtain a w1 where a: "adopt_fresh L nw src w = (a, w1)" by fastforce
    note ok = adopt_fresh_ok[OF assms(1-3) a]
    then have cmp: "\<forall>e. cachedForComparison L nw src w1 = Some e \<longrightarrow> cached_ok L src e"
      using cachedForComparison_ok[OF assms(1,2)] by blast
    show ?thesis
      using s ok cmp entry_index_ok fetch_real_ok[OF assms(1,2) _ cmp]
      by (auto simp: fetch_stale_def a Let_def split: option.splits if_splits)
  qed
  show ?thesis
    using assms(3,4) stale world_ok_lookup[OF assms(3,2)] entry_index_ok by (auto simp: FetchIndex_def split: option.splits if_splits)
qed

lemma AdoptFromValkeyOutright_ok:
  assumes "config_ok S" "src \<in> S" "world_ok L S w" "AdoptFromValkeyOutright L nw src w = (r, w')"
  shows "world_ok L S w' \<and> (\<forall>idx. r = Some idx \<longrightarrow> pkgs_ok L src (ix_ByArch idx))"
  using assms(3,4) cachedForComparison_ok[OF assms(1-3)] entry_index_ok fw_upd_ok[OF assms(3)] ixc_store_ok[OF assms(1,2)]
  by (auto simp: AdoptFromValkeyOutright_def split: option.splits if_splits)

lemma fetchSourcesForComponents_genuine:
  assumes "vouched L src rel" "fetchSourcesForComponents L nw src rel = Inr xs"
  shows "\<forall>x \<in> set xs. genuine_src L src x"
proof
  fix x
  assume "x \<in> set xs"
  then obtain c ys where c: "c \<in> set (us_Component src)" "x \<in> set ys" and f: "fetchSourcesFile L nw src rel (source_base c) = Inr ys"
    using fetch_components_in[OF assms(2)[unfolded fetchSourcesForComponents_def]] by blast
  from fetch_variants_genuine[OF assms(1) f[unfolded fetchSourcesFile_def]] c show "genuine_src L src x"
    unfolding genuine_src_def genuine_list_def by fastforce
qed

lemma reuse_srcs_genuine:
  assumes "vouched L src rel" "\<forall>e. cached = Some e \<longrightarrow> cached_ok L src e" "reuse_srcs L nw src rel cached = Some (xs, b)"
  shows "\<forall>x \<in> set xs. genuine_src L src x"
proof -
  obtain c e old ss where u: "us_Component src = [c]" "cached = Some e" "ic_srcsRelease e = Some old" "ic_srcs e = Some ss"
    using assms(3) by (auto simp: reuse_srcs_def split: list.splits option.splits)
  have old: "\<forall>x \<in> set ss. genuine_src L src x" using assms(2) u by (simp add: cached_ok_def srcs_ok_def)
  have "\<forall>x \<in> set ys. genuine_src L src x" if t: "tryPDiffSrc L nw src rel (source_base c) sha ss = Some ys" for ys sha
    using try_pdiff_genuine[OF assms(1) t[unfolded tryPDiffSrc_def]]
  proof
    assume "\<exists>data idx. vouched_file L src ((source_base c @ ''Sources.diff/'') @ ''Index'') data \<and> ParsePDiffIndex data = Inr idx \<and>
      equal_fold (fl_sha256 L (SerializeRawSrcs ys)) (pd_CurrentSHA256 idx)"
    then show ?thesis using u(1) genuine_diff unfolding genuine_src_def by fastforce
  qed (use old in simp)
  then show ?thesis using assms(3) old u by (auto simp: reuse_srcs_def Let_def split: if_splits)
qed

lemma store_srcs_ok:
  assumes "config_ok S" "src \<in> S" "world_ok L S w" "vouched L src rel" "\<forall>x \<in> set xs. genuine_src L src x"
  shows "world_ok L S (store_srcs L nw src rel xs w)"
proof -
  have ok: "rel_ok L src (Some rel)" "srcs_ok L src (Some xs)" using assms(4,5) by (simp_all add: rel_ok_def srcs_ok_def)
  show ?thesis unfolding store_srcs_def
    by (intro fw_publish_ok fw_upd_ok assms(3)) (auto intro: updateSrcs_ok[OF assms(1,2) _ ok] publishSrcsToValkey_ok[OF assms(1,2) ok(2)])
qed

lemma fetch_srcs_with_ok:
  assumes "config_ok S" "src \<in> S" "world_ok L S w" "\<forall>e. cached = Some e \<longrightarrow> cached_ok L src e" "srcs_ok L src fallback" "vouched L src rel"
    and "fetch_srcs_with L nw src cached fallback rel w = (r, w')"
  shows "world_ok L S w' \<and> (\<forall>ss. r = Inr ss \<longrightarrow> srcs_ok L src ss)"
proof (cases "reuse_srcs L nw src rel cached")
  case None
  show ?thesis
  proof (cases "fetchSourcesForComponents L nw src rel")
    case (Inl e)
    then show ?thesis using None assms(3,5,7) by (auto simp: fetch_srcs_with_def split: if_splits)
  next
    case (Inr xs)
    note g = fetchSourcesForComponents_genuine[OF assms(6) Inr]
    then show ?thesis using None Inr assms(3,7) store_srcs_ok[OF assms(1-3,6) g]
      by (auto simp: fetch_srcs_with_def srcs_ok_def split: list.splits)
  qed
next
  case (Some xb)
  obtain xs b where xb: "reuse_srcs L nw src rel cached = Some (xs, b)" using Some by (cases xb) simp
  note g = reuse_srcs_genuine[OF assms(6,4) xb]
  then show ?thesis using xb assms(3,7) store_srcs_ok[OF assms(1-3,6) g]
    by (auto simp: fetch_srcs_with_def srcs_ok_def split: bool.splits)
qed

lemma fetch_srcs_real_ok:
  assumes "config_ok S" "src \<in> S" "world_ok L S w" "\<forall>e. cached = Some e \<longrightarrow> cached_ok L src e" "srcs_ok L src fallback"
    and "fetch_srcs_real L nw src cached fallback w = (r, w')"
  shows "world_ok L S w' \<and> (\<forall>ss. r = Inr ss \<longrightarrow> srcs_ok L src ss)"
proof (cases "fetchVerifiedRelease L nw src cached")
  case (Inl e)
  then show ?thesis using assms(3,5,6) by (auto simp: fetch_srcs_real_def split: if_splits)
next
  case (Inr br)
  obtain body resp where f: "fetchVerifiedRelease L nw src cached = Inr (body, resp)" using Inr by (cases br) simp
  note wok = fetch_srcs_with_ok[OF assms(1-5)]
  show ?thesis
  proof (cases "ht_Status resp = 304")
    case True
    define rel where "rel = (case cached of None \<Rightarrow> None | Some e \<Rightarrow> ic_release e)"
    have eq: "fetch_srcs_real L nw src cached fallback w =
        (if fallback \<noteq> None then (Inr fallback, w)
         else (case rel of None \<Rightarrow> (Inr None, w) | Some rel \<Rightarrow> fetch_srcs_with L nw src cached fallback rel w))"
      using True f by (simp add: fetch_srcs_real_def rel_def)
    have "vouched L src r'" if "rel = Some r'" for r'
      using that assms(4) by (auto simp: rel_def cached_ok_def rel_ok_def split: option.splits)
    then show ?thesis
      using wok[of _ nw r w'] assms(3,5,6) unfolding eq by (cases rel) (auto simp: srcs_ok_def split: if_splits)
  next
    case False
    then have "vouched L src rel" if "ParseRelease body = Inr rel" for rel
      using fetchVerifiedRelease_signed[OF f False] that by (auto simp: vouched_def)
    then show ?thesis using False f assms(3,6) wok by (auto simp: fetch_srcs_real_def split: sum.splits)
  qed
qed

lemma FetchSources_ok:
  assumes "config_ok S" "src \<in> S" "world_ok L S w" "FetchSources L nw src w = (r, w')"
  shows "world_ok L S w' \<and> (\<forall>ss. r = Inr ss \<longrightarrow> srcs_ok L src ss)"
proof -
  obtain a w1 where a: "adopt_fresh_srcs L nw src w = (a, w1)" by fastforce
  have meta: "rel_ok L src (vp_Release m)" if "fw_valkey w = Some vk" "getMeta L nw src vk = Some m" for vk m
    using that assms(3) getMetaRaw_ok[OF _ assms(2)] by (auto simp: getMeta_def world_ok_def split: option.splits if_splits)
  have srcs: "srcs_ok L src ss" if "fw_valkey w = Some vk" "resolved_srcs L nw src vk m = Some ss" for vk m ss
    using that assms(3) resolved_srcs_ok[OF _ assms(2)] by (auto simp: world_ok_def)
  have ok: "world_ok L S w1 \<and> (\<forall>ss. a = Some ss \<longrightarrow> srcs_ok L src ss)"
    using a assms(3) updateSrcs_ok[OF assms(1,2)] meta srcs
    by (auto simp: adopt_fresh_srcs_def adoptSrcsFromValkey_def Let_def world_ok_def split: option.splits prod.splits)
  have cmp: "\<forall>e. srcsCachedForComparison L nw src w1 = Some e \<longrightarrow> cached_ok L src e"
    using srcsCachedForComparison_ok[OF assms(1,2)] ok by blast
  define fb where "fb = (case srcsCachedForComparison L nw src w1 of None \<Rightarrow> None | Some e \<Rightarrow> ic_srcs e)"
  have fb: "srcs_ok L src fb" using cmp by (auto simp: fb_def cached_ok_def srcs_ok_def split: option.splits)
  have eq: "FetchSources L nw src w = (case a of Some srcs \<Rightarrow> (Inr srcs, w1)
      | None \<Rightarrow> if fw_backing w1 \<noteq> None \<and> nw_lock nw = LockBusy \<and> fb \<noteq> None then (Inr fb, w1)
          else fetch_srcs_real L nw src (srcsCachedForComparison L nw src w1) fb w1)"
    unfolding FetchSources_def a Let_def fb_def by (cases a) (simp_all only: prod.case option.case)
  show ?thesis
    using assms(4) ok fb fetch_srcs_real_ok[OF assms(1,2) _ cmp fb, of w1 nw r w'] unfolding eq by (auto split: option.splits if_splits)
qed

lemma AdoptSourcesFromValkeyOutright_ok:
  assumes "config_ok S" "src \<in> S" "world_ok L S w" "AdoptSourcesFromValkeyOutright L nw src w = (r, w')"
  shows "world_ok L S w' \<and> (\<forall>ss. r = Some ss \<longrightarrow> srcs_ok L src ss)"
proof (cases "srcsCachedForComparison L nw src w")
  case None
  then show ?thesis using assms(3,4) by (auto simp: AdoptSourcesFromValkeyOutright_def)
next
  case (Some e)
  from srcsCachedForComparison_ok[OF assms(1-3) Some] have e: "srcs_ok L src (ic_srcs e)" "rel_ok L src (ic_srcsRelease e)"
    by (simp_all add: cached_ok_def)
  have "world_ok L S (fw_upd (updateSrcs (cacheKey src) (ic_srcsRelease e) (ic_srcs e)) w)"
    by (intro fw_upd_ok assms(3)) (rule updateSrcs_ok[OF assms(1,2) _ e(2,1)])
  then show ?thesis using Some assms(3,4) e by (auto simp: AdoptSourcesFromValkeyOutright_def split: option.splits if_splits)
qed

section \<open>Any history of calls\<close>

text \<open>Several replicas, each with a cache of its own and one Valkey between them, make calls one after the other.\<close>

datatype fetch_op = OpFetchIndex | OpFetchSources | OpAdopt | OpAdoptSources | OpEvict | OpExpireAll

definition run_op :: "fetch_lib \<Rightarrow> fetch_call \<Rightarrow> fetch_op \<Rightarrow> UpstreamSource \<Rightarrow> fetch_world \<Rightarrow> fetch_world" where
  "run_op L nw op src w =
     (case op of
        OpFetchIndex \<Rightarrow> snd (FetchIndex L nw src w)
      | OpFetchSources \<Rightarrow> snd (FetchSources L nw src w)
      | OpAdopt \<Rightarrow> snd (AdoptFromValkeyOutright L nw src w)
      | OpAdoptSources \<Rightarrow> snd (AdoptSourcesFromValkeyOutright L nw src w)
      | OpEvict \<Rightarrow> fw_upd (EvictUpstream (fw_valkey w \<noteq> None) (InReleaseURL src) (ComponentKey src)) w
      | OpExpireAll \<Rightarrow> fw_upd ExpireAll w)"

type_synonym replicas = "(nat \<Rightarrow> IndexCache) \<times> valkey option"

definition replica_world :: "replicas \<Rightarrow> nat \<Rightarrow> fetch_world" where
  "replica_world st r = \<lparr>fw_cache = Some (fst st r), fw_valkey = snd st\<rparr>"

definition replica_step :: "fetch_lib \<Rightarrow> nat \<times> fetch_op \<times> UpstreamSource \<times> fetch_call \<Rightarrow> replicas \<Rightarrow> replicas" where
  "replica_step L call st =
     (case call of (r, op, src, nw) \<Rightarrow>
        let w = run_op L nw op src (replica_world st r)
        in ((fst st)(r := (case fw_cache w of None \<Rightarrow> Map.empty | Some c \<Rightarrow> c)), fw_valkey w))"

definition empty_valkey :: valkey where
  "empty_valkey = \<lparr>vk_meta = Map.empty, vk_sets = (\<lambda>_. []), vk_pkgs = Map.empty, vk_srcs = Map.empty\<rparr>"

definition replicas_start :: "bool \<Rightarrow> replicas" where
  "replicas_start valkey = ((\<lambda>_. Map.empty), if valkey then Some empty_valkey else None)"

lemma run_op_ok:
  assumes "config_ok S" "src \<in> S" "world_ok L S w"
  shows "world_ok L S (run_op L nw op src w)"
proof (cases op)
  case OpFetchIndex
  then show ?thesis using FetchIndex_ok[OF assms prod.collapse[symmetric]] by (simp add: run_op_def)
next
  case OpFetchSources
  then show ?thesis using FetchSources_ok[OF assms prod.collapse[symmetric]] by (simp add: run_op_def)
next
  case OpAdopt
  then show ?thesis using AdoptFromValkeyOutright_ok[OF assms prod.collapse[symmetric]] by (simp add: run_op_def)
next
  case OpAdoptSources
  then show ?thesis using AdoptSourcesFromValkeyOutright_ok[OF assms prod.collapse[symmetric]] by (simp add: run_op_def)
next
  case OpEvict
  show ?thesis unfolding OpEvict run_op_def fetch_op.case by (rule fw_upd_ok[OF assms(3)]) (auto simp: EvictUpstream_def local_ok_def)
next
  case OpExpireAll
  show ?thesis unfolding OpExpireAll run_op_def fetch_op.case by (rule fw_upd_ok[OF assms(3)]) (auto simp: ExpireAll_def local_ok_def)
qed

definition replicas_ok :: "fetch_lib \<Rightarrow> UpstreamSource set \<Rightarrow> replicas \<Rightarrow> bool" where
  "replicas_ok L S st \<longleftrightarrow> (\<forall>r. world_ok L S (replica_world st r))"

lemma replicas_start_ok: "replicas_ok L S (replicas_start b)"
  by (simp add: replicas_ok_def replicas_start_def replica_world_def world_ok_def local_ok_def empty_valkey_def vk_ok_def entries_ok_def meta_ok_def vsrcs_ok_def)

lemma replica_step_ok:
  assumes "config_ok S" "fst (snd (snd call)) \<in> S" "replicas_ok L S st"
  shows "replicas_ok L S (replica_step L call st)"
proof -
  obtain r op src nw where call: "call = (r, op, src, nw)" by (cases call)
  have "world_ok L S (run_op L nw op src (replica_world st r))"
    using assms by (intro run_op_ok) (auto simp: replicas_ok_def call)
  then show ?thesis
    using assms(3) by (auto simp: replicas_ok_def replica_step_def replica_world_def call Let_def world_ok_def local_ok_def split: option.splits)
qed

lemma history_ok:
  assumes "config_ok S" "\<forall>(_, _, src, _) \<in> set calls. src \<in> S"
  shows "replicas_ok L S (fold (replica_step L) calls (replicas_start b))"
proof -
  have "replicas_ok L S st \<Longrightarrow> \<forall>(_, _, src, _) \<in> set calls. src \<in> S \<Longrightarrow> replicas_ok L S (fold (replica_step L) calls st)" for st
  proof (induction calls arbitrary: st)
    case (Cons call calls)
    then have "replicas_ok L S (replica_step L call st)" by (intro replica_step_ok[OF assms(1)]) auto
    then show ?case using Cons by simp
  qed simp
  then show ?thesis using replicas_start_ok assms(2) by blast
qed

lemma fetched_pkgs_ok:
  assumes "config_ok S" "\<forall>(_, _, s, _) \<in> set calls. s \<in> S" "src \<in> S"
    and "w = replica_world (fold (replica_step L) calls (replicas_start valkey)) r"
    and "FetchIndex L nw src w = (Inr idx, w') \<or> AdoptFromValkeyOutright L nw src w = (Some idx, w')"
  shows "pkgs_ok L src (ix_ByArch idx)"
proof -
  have "world_ok L S w" using history_ok[OF assms(1,2)] by (simp add: replicas_ok_def assms(4))
  then show ?thesis using assms(5) FetchIndex_ok[OF assms(1,3)] AdoptFromValkeyOutright_ok[OF assms(1,3)] by blast
qed

text \<open>C3: Nothing unsigned gets in.  Whatever the mirrors answer, however Valkey's commands fail and in whatever order the
  replicas call the fetcher, every package of an index it returns, and every source package, comes from a list that a Release
  signed by one of that upstream's keys vouches for: the content of an index file listed there with the digest of the bytes
  that arrived, or a patched list with the digest that a patch index so listed names.  Sharing the caches is safe as long as
  upstreams that share an address or a name also share keys and components, and names have no colon.\<close>

theorem fetched_is_vouched:
  assumes "config_ok S" "\<forall>(_, _, s, _) \<in> set calls. s \<in> S" "src \<in> S"
    and "w = replica_world (fold (replica_step L) calls (replicas_start valkey)) r"
  shows "(\<forall>idx w' arch pkgs p. (FetchIndex L nw src w = (Inr idx, w') \<or> AdoptFromValkeyOutright L nw src w = (Some idx, w')) \<and>
      (arch, pkgs) \<in> set (ix_ByArch idx) \<and> p \<in> set pkgs \<longrightarrow> genuine_pkg L src arch p) \<and>
    (\<forall>srcs w' s. (FetchSources L nw src w = (Inr (Some srcs), w') \<or> AdoptSourcesFromValkeyOutright L nw src w = (Some (Some srcs), w')) \<and>
      s \<in> set srcs \<longrightarrow> genuine_src L src s)"
proof -
  have w: "world_ok L S w" using history_ok[OF assms(1,2)] by (simp add: replicas_ok_def assms(4))
  note fetched_pkgs_ok[OF assms]
  moreover have "srcs_ok L src (Some srcs)"
    if "FetchSources L nw src w = (Inr (Some srcs), w') \<or> AdoptSourcesFromValkeyOutright L nw src w = (Some (Some srcs), w')" for srcs w'
    using that FetchSources_ok[OF assms(1,3) w] AdoptSourcesFromValkeyOutright_ok[OF assms(1,3) w] by blast
  ultimately show ?thesis unfolding pkgs_ok_def srcs_ok_def by blast
qed

section \<open>What one replica publishes another adopts\<close>

definition entry_prefix :: "fetch_lib \<Rightarrow> UpstreamSource \<Rightarrow> string \<Rightarrow> string" where
  "entry_prefix L src arch = fl_Prefix L @ ''up-pkg:'' @ upstreamPkgTag src arch @ '':''"

abbreviation has_colon :: "string \<Rightarrow> bool" where
  "has_colon m \<equiv> CHR '':'' \<in> set m"

definition pkg_member :: "RawPkg \<Rightarrow> string" where
  "pkg_member p = upstreamPkgMember (rp_Package p) (rp_Version p)"

lemma split_member: "splitUpstreamPkgMember m = Some (a, b) \<Longrightarrow> UpstreamPkgEntry L src arch a b = entry_prefix L src arch @ m"
proof -
  assume "splitUpstreamPkgMember m = Some (a, b)"
  then have "m = a @ CHR '':'' # b" using cut_SomeD by (simp add: splitUpstreamPkgMember_def)
  then show ?thesis by (simp add: UpstreamPkgEntry_def entry_prefix_def)
qed

lemma split_member_None: "splitUpstreamPkgMember m = None \<longleftrightarrow> \<not> has_colon m"
  by (simp add: splitUpstreamPkgMember_def cut_None_iff)

lemma pkg_member_colon [simp]: "has_colon (pkg_member p)"
  by (simp add: pkg_member_def upstreamPkgMember_def)

lemma entry_keys_eq: "entry_keys L src arch ms = map (\<lambda>m. entry_prefix L src arch @ m) (filter has_colon ms)"
proof (induction ms)
  case (Cons m ms)
  show ?case
  proof (cases "splitUpstreamPkgMember m")
    case None
    then show ?thesis using Cons split_member_None[of m] by (simp add: entry_keys_def List.map_filter_simps)
  next
    case (Some ab)
    then obtain a b where ab: "splitUpstreamPkgMember m = Some (a, b)" by (cases ab) simp
    then have "has_colon m" using split_member_None[of m] by auto
    then show ?thesis using Cons ab split_member[OF ab, of L src arch] by (simp add: entry_keys_def List.map_filter_simps)
  qed
qed (simp add: entry_keys_def List.map_filter_simps)

lemma put_entry_eq:
  "put_entry L src arch byMember m ps =
     (if has_colon m then (case byMember m of None \<Rightarrow> ps | Some p \<Rightarrow> ps(entry_prefix L src arch @ m \<mapsto> p)) else ps)"
proof (cases "splitUpstreamPkgMember m")
  case (Some ab)
  then obtain a b where ab: "splitUpstreamPkgMember m = Some (a, b)" by (cases ab) simp
  then have "has_colon m" using split_member_None[of m] by auto
  then show ?thesis using ab split_member[OF ab, of L src arch] by (cases "byMember m") (simp_all add: put_entry_def)
next
  case None
  then show ?thesis using split_member_None[of m] by (simp add: put_entry_def)
qed

lemma concat_batches: "0 < n \<Longrightarrow> concat (batches n xs) = xs"
  by (induction n xs rule: batches.induct) (subst batches.simps, simp)

definition no_fails :: "fetch_call \<Rightarrow> bool" where
  "no_fails nw \<longleftrightarrow> (\<forall>cmd keys. \<not> nw_fails nw cmd keys)"

lemma no_failsD [simp]: "no_fails nw \<Longrightarrow> \<not> nw_fails nw cmd keys"
  by (simp add: no_fails_def)

lemma map_filter_append: "List.map_filter f (xs @ ys) = List.map_filter f xs @ List.map_filter f ys"
  by (simp add: List.map_filter_def)

lemma read_batches_all: "no_fails nw \<Longrightarrow>
  read_batches L nw src arch vk bs = Some (List.map_filter (vk_pkgs vk) (entry_keys L src arch (concat bs)))"
  by (induction bs) (simp_all add: Let_def entry_keys_eq List.map_filter_simps map_filter_append)

lemma missing_batches_all: "no_fails nw \<Longrightarrow> \<exists>ms. missing_batches L nw src arch vk bs = Some ms \<and>
  set ms = {m \<in> set (concat bs). has_colon m \<and> vk_pkgs vk (entry_prefix L src arch @ m) = None}"
proof (induction bs)
  case (Cons b bs)
  let ?c = "filter has_colon b" and ?K = "entry_prefix L src arch"
  have c: "filter (\<lambda>m. splitUpstreamPkgMember m \<noteq> None) b = ?c" by (simp add: split_member_None)
  have z: "set (map fst (filter (\<lambda>(_, k). vk_pkgs vk k = None) (zip ?c (entry_keys L src arch ?c)))) = {m \<in> set ?c. vk_pkgs vk (?K @ m) = None}"
    unfolding entry_keys_eq filter_filter by (force simp: zip_map2 zip_same_conv_map image_iff)
  obtain ms where "missing_batches L nw src arch vk bs = Some ms"
      "set ms = {m \<in> set (concat bs). has_colon m \<and> vk_pkgs vk (?K @ m) = None}" using Cons by blast
  then show ?case using z Cons.prems unfolding missing_batches.simps Let_def c by auto
qed simp

lemma fold_put_entry:
  "fold (put_entry L src arch byMember) ms ps k =
     (if \<exists>m \<in> set ms. has_colon m \<and> k = entry_prefix L src arch @ m \<and> byMember m \<noteq> None
      then byMember (drop (length (entry_prefix L src arch)) k) else ps k)"
  by (induction ms arbitrary: ps) (auto simp: put_entry_eq split: option.splits if_splits)

lemma add_batches_all:
  assumes "no_fails nw" "bucket = UpstreamPkgBucket L src arch"
  shows "distinct (vk_sets vk bucket) \<Longrightarrow> \<exists>ss. add_batches L nw src arch byMember bs vk =
    (True, vk\<lparr>vk_pkgs := fold (put_entry L src arch byMember) (concat bs) (vk_pkgs vk), vk_sets := (vk_sets vk)(bucket := ss)\<rparr>) \<and>
    distinct ss \<and> set ss = set (vk_sets vk bucket) \<union> set (concat bs)"
proof (induction bs arbitrary: vk)
  case Nil
  then show ?case by (intro exI[of _ "vk_sets vk bucket"]) simp
next
  case (Cons b bs)
  let ?vk = "vk\<lparr>vk_pkgs := fold (put_entry L src arch byMember) b (vk_pkgs vk), vk_sets := (vk_sets vk)(bucket := remdups (vk_sets vk bucket @ b))\<rparr>"
  have step: "add_batches L nw src arch byMember (b # bs) vk = add_batches L nw src arch byMember bs ?vk"
    using assms by (simp add: Let_def)
  have "distinct (vk_sets ?vk bucket)" by simp
  from Cons.IH[OF this] obtain ss where ss: "add_batches L nw src arch byMember bs ?vk =
      (True, ?vk\<lparr>vk_pkgs := fold (put_entry L src arch byMember) (concat bs) (vk_pkgs ?vk), vk_sets := (vk_sets ?vk)(bucket := ss)\<rparr>)"
      "distinct ss" "set ss = set (vk_sets ?vk bucket) \<union> set (concat bs)" by blast
  show ?case
  proof (intro exI[of _ ss] conjI)
    show "set ss = set (vk_sets vk bucket) \<union> set (concat (b # bs))" using ss(3) by auto
  qed (unfold step ss(1), use ss(2) in \<open>simp_all add: fun_upd_def cong: if_cong\<close>)
qed

lemma remove_batches_all:
  assumes "no_fails nw" "bucket = UpstreamPkgBucket L src arch"
  shows "remove_batches L nw src arch bs vk =
    (True, vk\<lparr>vk_sets := (vk_sets vk)(bucket := filter (\<lambda>m. m \<notin> set (concat bs)) (vk_sets vk bucket)),
       vk_pkgs := (\<lambda>k. if k \<in> set (entry_keys L src arch (concat bs)) then None else vk_pkgs vk k)\<rparr>)"
proof (induction bs arbitrary: vk)
  case (Cons b bs)
  show ?case
    using assms by (simp add: Let_def Cons.IH entry_keys_eq fun_eq_iff cong: if_cong)
qed (simp add: entry_keys_eq)

text \<open>A list of packages that may be published: names have no colon, name and version determine the package, and so do they in
  what Valkey already holds for the architecture.\<close>

definition publishable :: "fetch_lib \<Rightarrow> UpstreamSource \<Rightarrow> valkey \<Rightarrow> string \<Rightarrow> RawPkg list \<Rightarrow> bool" where
  "publishable L src vk arch pkgs \<longleftrightarrow>
     plain arch \<and> distinct (vk_sets vk (UpstreamPkgBucket L src arch)) \<and> inj_on pkg_member (set pkgs) \<and>
     (\<forall>p \<in> set pkgs. pkg_member p \<in> set (vk_sets vk (UpstreamPkgBucket L src arch)) \<longrightarrow>
        vk_pkgs vk (entry_prefix L src arch @ pkg_member p) \<in> {None, Some p})"

definition published :: "fetch_lib \<Rightarrow> UpstreamSource \<Rightarrow> valkey \<Rightarrow> string \<Rightarrow> RawPkg list \<Rightarrow> bool" where
  "published L src vk arch pkgs \<longleftrightarrow>
     distinct (vk_sets vk (UpstreamPkgBucket L src arch)) \<and> set (vk_sets vk (UpstreamPkgBucket L src arch)) = pkg_member ` set pkgs \<and>
     (\<forall>p \<in> set pkgs. vk_pkgs vk (entry_prefix L src arch @ pkg_member p) = Some p)"

text \<open>What a publication of one architecture leaves alone.\<close>

definition only_arch :: "fetch_lib \<Rightarrow> UpstreamSource \<Rightarrow> string \<Rightarrow> valkey \<Rightarrow> valkey \<Rightarrow> bool" where
  "only_arch L src arch vk vk' \<longleftrightarrow>
     vk_meta vk' = vk_meta vk \<and> vk_srcs vk' = vk_srcs vk \<and>
     (\<forall>b. b \<noteq> UpstreamPkgBucket L src arch \<longrightarrow> vk_sets vk' b = vk_sets vk b) \<and>
     (\<forall>k. (\<forall>m. k \<noteq> entry_prefix L src arch @ m) \<longrightarrow> vk_pkgs vk' k = vk_pkgs vk k)"

lemma publishArchPkgs_published:
  assumes "no_fails nw" "publishable L src vk arch pkgs"
  shows "\<exists>vk'. publishArchPkgs L nw src arch pkgs vk = (True, vk') \<and> published L src vk' arch pkgs \<and> only_arch L src arch vk vk'"
proof -
  let ?B = "UpstreamPkgBucket L src arch" and ?K = "entry_prefix L src arch"
  let ?cur = "vk_sets vk ?B" and ?new = "remdups (map pkg_member pkgs)"
  let ?by = "map_of (rev (map (\<lambda>p. (pkg_member p, p)) pkgs))"
  let ?add = "filter (\<lambda>m. m \<notin> set ?cur) ?new" and ?same = "filter (\<lambda>m. m \<in> set ?cur) ?new" and ?rem = "filter (\<lambda>m. m \<notin> set ?new) ?cur"
  have inj: "inj_on pkg_member (set pkgs)" and dist: "distinct ?cur"
    and agree: "\<And>p. p \<in> set pkgs \<Longrightarrow> pkg_member p \<in> set ?cur \<Longrightarrow> vk_pkgs vk (?K @ pkg_member p) \<in> {None, Some p}"
    using assms(2) by (auto simp: publishable_def)
  have by_p: "?by (pkg_member p) = Some p" if p: "p \<in> set pkgs" for p
  proof -
    have "?by (pkg_member p) \<noteq> None" using p by (auto simp: map_of_eq_None_iff image_image)
    then obtain q where q: "?by (pkg_member p) = Some q" by blast
    then have "q \<in> set pkgs" "pkg_member q = pkg_member p" by (auto dest!: map_of_SomeD)
    then show ?thesis using q inj p by (auto dest: inj_onD)
  qed
  have n: "0 < upstreamPkgBatchSize" by (simp add: upstreamPkgBatchSize_def)
  obtain missing where mis: "findMembersMissingEntries L nw src arch vk ?same = Some missing"
      "set missing = {m \<in> set ?same. has_colon m \<and> vk_pkgs vk (?K @ m) = None}"
    using missing_batches_all[OF assms(1), of L src arch vk "batches upstreamPkgBatchSize ?same", unfolded concat_batches[OF n]]
    unfolding findMembersMissingEntries_def by blast
  let ?todo = "?add @ missing"
  let ?pk = "fold (put_entry L src arch ?by) ?todo (vk_pkgs vk)"
  obtain ss where add: "add_batches L nw src arch ?by (batches upstreamPkgBatchSize ?todo) vk =
      (True, vk\<lparr>vk_pkgs := ?pk, vk_sets := (vk_sets vk)(?B := ss)\<rparr>)" "distinct ss" "set ss = set ?cur \<union> set ?todo"
    using add_batches_all[OF assms(1) refl dist, of ?by "batches upstreamPkgBatchSize ?todo"] unfolding concat_batches[OF n] by blast
  let ?vk = "vk\<lparr>vk_pkgs := (\<lambda>k. if k \<in> set (entry_keys L src arch ?rem) then None else ?pk k),
      vk_sets := (vk_sets vk)(?B := filter (\<lambda>m. m \<notin> set ?rem) ss)\<rparr>"
  have run: "publishArchPkgs L nw src arch pkgs vk = (True, ?vk)"
    using assms(1) mis(1) add(1) remove_batches_all[OF assms(1) refl, of L src arch "batches upstreamPkgBatchSize ?rem"]
    unfolding publishArchPkgs_def Let_def pkg_member_def[symmetric] concat_batches[OF n] by (simp cong: if_cong)
  have "set (filter (\<lambda>m. m \<notin> set ?rem) ss) = pkg_member ` set pkgs" using add(3) mis(2) by auto
  moreover have "vk_pkgs ?vk (?K @ pkg_member p) = Some p" if p: "p \<in> set pkgs" for p
  proof -
    have "?K @ pkg_member p \<notin> set (entry_keys L src arch ?rem)" using p by (auto simp: entry_keys_eq)
    moreover have "?pk (?K @ pkg_member p) = Some p"
    proof (cases "pkg_member p \<in> set ?todo")
      case True
      then show ?thesis using by_p[OF p] by (auto simp: fold_put_entry)
    next
      case False
      then have cur: "pkg_member p \<in> set ?cur" using p by auto
      then have "vk_pkgs vk (?K @ pkg_member p) \<noteq> None" using False p mis(2) by auto
      then show ?thesis using False agree[OF p cur] by (auto simp: fold_put_entry)
    qed
    ultimately show ?thesis by simp
  qed
  ultimately have "published L src ?vk arch pkgs" using add(2) by (simp add: published_def)
  moreover have "only_arch L src arch vk ?vk" by (auto simp: only_arch_def fold_put_entry entry_keys_eq)
  ultimately show ?thesis using run by blast
qed

lemma bucket_inj [simp]: "UpstreamPkgBucket L src a = UpstreamPkgBucket L src b \<longleftrightarrow> a = b"
  by (simp add: UpstreamPkgBucket_def upstreamPkgTag_def)

lemma prefix_apart: "plain a \<Longrightarrow> plain b \<Longrightarrow> a \<noteq> b \<Longrightarrow> entry_prefix L src a @ m \<noteq> entry_prefix L src b @ m'"
proof
  assume a: "plain a" "plain b" "a \<noteq> b" "entry_prefix L src a @ m = entry_prefix L src b @ m'"
  have "plain (a @ ''}'')" "plain (b @ ''}'')" using a(1,2) by (auto simp: plain_def)
  from plain_split[OF this, of m m'] show False using a(3,4) by (simp add: entry_prefix_def upstreamPkgTag_def)
qed

lemma only_arch_other:
  assumes "only_arch L src a vk vk'" "plain a" "plain b" "a \<noteq> b"
  shows "vk_sets vk' (UpstreamPkgBucket L src b) = vk_sets vk (UpstreamPkgBucket L src b)"
    "vk_pkgs vk' (entry_prefix L src b @ m) = vk_pkgs vk (entry_prefix L src b @ m)"
  using assms prefix_apart[OF assms(3,2)] by (auto simp: only_arch_def)

lemma publish_archs_published:
  assumes "no_fails nw"
  shows "distinct (map fst aps) \<Longrightarrow> \<forall>(a, ps) \<in> set aps. publishable L src vk a ps \<Longrightarrow>
    \<exists>vk'. publish_archs L nw src aps vk = (True, vk') \<and> vk_meta vk' = vk_meta vk \<and> (\<forall>(a, ps) \<in> set aps. published L src vk' a ps) \<and>
      (\<forall>b. plain b \<and> b \<notin> fst ` set aps \<longrightarrow> vk_sets vk' (UpstreamPkgBucket L src b) = vk_sets vk (UpstreamPkgBucket L src b) \<and>
        (\<forall>m. vk_pkgs vk' (entry_prefix L src b @ m) = vk_pkgs vk (entry_prefix L src b @ m)))"
proof (induction aps arbitrary: vk)
  case (Cons ap aps)
  obtain a ps where ap: "ap = (a, ps)" by (cases ap)
  have a: "publishable L src vk a ps" "plain a" "a \<notin> fst ` set aps" using Cons.prems by (auto simp: ap publishable_def)
  obtain vk1 where v1: "publishArchPkgs L nw src a ps vk = (True, vk1)" "published L src vk1 a ps" "only_arch L src a vk vk1"
    using publishArchPkgs_published[OF assms a(1)] by blast
  have "publishable L src vk1 b qs" if b: "(b, qs) \<in> set aps" for b qs
  proof -
    have "publishable L src vk b qs" "a \<noteq> b" using Cons.prems(2) b a(3) by (auto simp: ap image_iff)
    then show ?thesis using only_arch_other[OF v1(3) a(2), of b] by (simp add: publishable_def)
  qed
  then obtain vk' where v2: "publish_archs L nw src aps vk1 = (True, vk')" "vk_meta vk' = vk_meta vk1" "\<forall>(b, qs) \<in> set aps. published L src vk' b qs"
      and f: "\<And>b. plain b \<Longrightarrow> b \<notin> fst ` set aps \<Longrightarrow> vk_sets vk' (UpstreamPkgBucket L src b) = vk_sets vk1 (UpstreamPkgBucket L src b)"
        "\<And>b m. plain b \<Longrightarrow> b \<notin> fst ` set aps \<Longrightarrow> vk_pkgs vk' (entry_prefix L src b @ m) = vk_pkgs vk1 (entry_prefix L src b @ m)"
    using Cons.IH[of vk1] Cons.prems(1) by (fastforce simp: ap)
  have "published L src vk' a ps" using v1(2) f[OF a(2,3)] by (simp add: published_def)
  moreover have "vk_sets vk' (UpstreamPkgBucket L src b) = vk_sets vk (UpstreamPkgBucket L src b) \<and>
      vk_pkgs vk' (entry_prefix L src b @ m) = vk_pkgs vk (entry_prefix L src b @ m)" if "plain b" "b \<notin> fst ` set (ap # aps)" for b m
  proof -
    have "a \<noteq> b" "b \<notin> fst ` set aps" using that(2) by (auto simp: ap)
    then show ?thesis using f[OF that(1)] only_arch_other[OF v1(3) a(2) that(1)] by simp
  qed
  moreover have "vk_meta vk1 = vk_meta vk" using v1(3) by (simp add: only_arch_def)
  ultimately show ?case using v1(1) v2 by (intro exI[of _ vk']) (simp add: ap)
qed simp

lemma fetchOneArchPkgs_published:
  assumes "no_fails nw" "published L src vk a ps"
  shows "\<exists>qs. fetchOneArchPkgs L nw src a vk = Some (if ps = [] then None else Some qs) \<and> set qs = set ps \<and> distinct qs"
proof -
  let ?K = "entry_prefix L src a" and ?ms = "vk_sets vk (UpstreamPkgBucket L src a)"
  have ms: "set ?ms = pkg_member ` set ps" "distinct ?ms" and held: "\<And>p. p \<in> set ps \<Longrightarrow> vk_pkgs vk (?K @ pkg_member p) = Some p"
    using assms(2) by (auto simp: published_def)
  let ?h = "\<lambda>m. the (vk_pkgs vk (?K @ m))"
  have col: "filter has_colon ?ms = ?ms" using ms(1) by (auto simp: filter_id_conv)
  have "List.map_filter (vk_pkgs vk) (map (\<lambda>m. ?K @ m) xs) = map ?h xs" if "set xs \<subseteq> pkg_member ` set ps" for xs
    using that by (induction xs) (auto simp: List.map_filter_simps held)
  then have read: "List.map_filter (vk_pkgs vk) (entry_keys L src a ?ms) = map ?h ?ms" using ms(1) by (simp add: entry_keys_eq col)
  have "set (map ?h ?ms) = set ps" using held by (auto simp: ms(1) image_image)
  moreover have "distinct (map ?h ?ms)"
    using ms held by (auto simp: distinct_map inj_on_def)
  moreover have "?ms = [] \<longleftrightarrow> ps = []" using ms(1) by (metis image_is_empty set_empty)
  ultimately show ?thesis
    using assms(1) concat_batches[of upstreamPkgBatchSize ?ms]
    by (intro exI[of _ "map ?h ?ms"])
      (simp add: fetchOneArchPkgs_def Let_def read_batches_all read upstreamPkgBatchSize_def)
qed

lemma fetchArchPkgs_all:
  assumes "\<And>a. a \<in> set archs \<Longrightarrow> fetchOneArchPkgs L nw src a vk \<noteq> None"
  shows "snd (fetchArchPkgs L nw src archs vk)"
    "map_of (fst (fetchArchPkgs L nw src archs vk)) a = (if a \<in> set archs then the (fetchOneArchPkgs L nw src a vk) else None)"
proof -
  let ?step = "\<lambda>(archPkgs, complete) arch. case fetchOneArchPkgs L nw src arch vk of None \<Rightarrow> (archPkgs, False)
      | Some None \<Rightarrow> (archPkgs, complete) | Some (Some pkgs) \<Rightarrow> (AList.update arch pkgs archPkgs, complete)"
  have "snd r \<Longrightarrow> (\<And>b. b \<in> set archs \<Longrightarrow> fetchOneArchPkgs L nw src b vk \<noteq> None) \<Longrightarrow> snd (foldl ?step r archs) \<and>
      map_of (fst (foldl ?step r archs)) a =
        (if a \<in> set archs \<and> fetchOneArchPkgs L nw src a vk \<noteq> Some None then the (fetchOneArchPkgs L nw src a vk) else map_of (fst r) a)" for r
  proof (induction archs arbitrary: r)
    case (Cons b archs)
    have "fetchOneArchPkgs L nw src b vk \<noteq> None" using Cons.prems(2)[of b] by simp
    then obtain res where res: "fetchOneArchPkgs L nw src b vk = Some res" by blast
    then have st: "snd (?step r b)" "map_of (fst (?step r b)) a = (if a = b \<and> res \<noteq> None then res else map_of (fst r) a)"
      using Cons.prems(1) by (auto simp: update_conv' split: option.splits prod.splits)
    show ?case using Cons.IH[OF st(1)] Cons.prems(2) st(2) res by (auto split: if_splits)
  qed simp
  from this[of "([], True)"] assms show "snd (fetchArchPkgs L nw src archs vk)"
    "map_of (fst (fetchArchPkgs L nw src archs vk)) a = (if a \<in> set archs then the (fetchOneArchPkgs L nw src a vk) else None)"
    by (auto simp: fetchArchPkgs_def)
qed


section \<open>Where the cache outlives what it describes\<close>

definition keeps_srcs :: "UpstreamSource \<Rightarrow> indexCacheEntry \<Rightarrow> fetch_world \<Rightarrow> bool" where
  "keeps_srcs src e w \<longleftrightarrow> fw_valkey w = None \<and>
     (\<exists>e'. fw_lookup src w = Some e' \<and> ic_srcsRelease e' = ic_srcsRelease e \<and> ic_srcs e' = ic_srcs e)"

lemma store_keeps_srcs: "ic_srcs e \<noteq> None \<Longrightarrow> keeps_srcs src e w \<Longrightarrow> keeps_srcs src e (fw_upd (ixc_store (cacheKey src) n) w)"
  by (auto simp: keeps_srcs_def fw_upd_def fw_lookup_def ixc_store_def split: option.splits)

lemma expire_keeps_srcs: "keeps_srcs src e w \<Longrightarrow> keeps_srcs src e (fw_upd (ixc_expire (cacheKey src)) w)"
  by (auto simp: keeps_srcs_def fw_upd_def fw_lookup_def ixc_expire_def split: option.splits)

lemma publish_keeps_srcs: "keeps_srcs src e w \<Longrightarrow> keeps_srcs src e (fw_publish f w)"
  by (cases "fw_cache w") (auto simp: keeps_srcs_def fw_publish_def fw_lookup_def)

lemma fetch_packages_keeps_srcs:
  assumes "ic_srcs e \<noteq> None" "keeps_srcs src e w"
  shows "keeps_srcs src e (snd (fetch_packages L nw src cached body resp w))"
proof (cases "ParseRelease body")
  case (Inr rel)
  obtain aps mis comp where f: "fetch_archs L nw src rel cached (releaseServedArchs rel (us_Component src) (us_Archs src)) = (aps, mis, comp)"
    by (metis prod_cases3)
  have "keeps_srcs src e (if mis then fw_upd (ixc_expire (cacheKey src)) w else w)" using assms(2) expire_keeps_srcs by simp
  then show ?thesis
    unfolding fetch_packages_def Inr sum.case f Let_def prod.case snd_conv
    by (intro publish_keeps_srcs store_keeps_srcs[OF assms(1)])
qed (use assms in \<open>simp add: fetch_packages_def\<close>)

lemma fetch_real_keeps_srcs:
  assumes "ic_srcs e \<noteq> None" "keeps_srcs src e w"
  shows "keeps_srcs src e (snd (fetch_real L nw src cached w))"
  using fetch_packages_keeps_srcs[OF assms] store_keeps_srcs[OF assms] assms(2)
  by (auto simp: fetch_real_def Let_def split: sum.splits option.splits prod.splits)

lemma FetchIndex_keeps_srcs:
  assumes "ic_srcs e \<noteq> None" "keeps_srcs src e w"
  shows "keeps_srcs src e (snd (FetchIndex L nw src w))"
proof -
  have "adopt_fresh L nw src w = (None, w)" "fw_backing w = None"
    using assms(2) by (auto simp: adopt_fresh_def keeps_srcs_def fw_backing_def split: option.splits)
  then show ?thesis
    using fetch_real_keeps_srcs[OF assms] assms(2) by (auto simp: FetchIndex_def fetch_stale_def Let_def split: option.splits)
qed

text \<open>C39: Source lists freeze.  Storing an index keeps the source list of the entry and replaces its validators, and the index
  is always fetched before the sources; so the conditional request for the sources asks whether the Release that was just
  fetched has changed.  As long as it has not, the answer 304 makes the fetcher return the source list of the old Release,
  whatever the new Release lists, and the next round starts from the same entry.\<close>

theorem sources_never_refresh:
  assumes "fw_valkey w = None" "fw_lookup src w = Some e" "ic_srcsRelease e \<noteq> None" "ic_srcs e = Some old"
    and "\<forall>e'. fw_lookup src (snd (FetchIndex L nw src w)) = Some e' \<longrightarrow>
      (\<exists>resp. nw_get nw' 0 (InReleaseURL src) (ic_etag e') (ic_lastMod e') = Some resp \<and> ht_Status resp = 304)"
  shows "FetchSources L nw' src (snd (FetchIndex L nw src w)) = (Inr (Some old), snd (FetchIndex L nw src w))"
proof -
  let ?w = "snd (FetchIndex L nw src w)"
  have "keeps_srcs src e w" using assms(1,2) by (simp add: keeps_srcs_def)
  then have "keeps_srcs src e ?w" using FetchIndex_keeps_srcs[of e] assms(4) by simp
  then obtain e' where k: "fw_valkey ?w = None" "fw_lookup src ?w = Some e'" "ic_srcsRelease e' = ic_srcsRelease e" "ic_srcs e' = Some old"
    using assms(4) by (auto simp: keeps_srcs_def)
  have a: "adopt_fresh_srcs L nw' src ?w = (None, ?w)" "fw_backing ?w = None"
    using k(1) by (auto simp: adopt_fresh_srcs_def fw_backing_def split: option.splits)
  have c: "srcsCachedForComparison L nw' src ?w = Some e'" using k(2,3) assms(3) by (simp add: srcsCachedForComparison_def)
  obtain resp where "nw_get nw' 0 (distsURL src ''InRelease'') (ic_etag e') (ic_lastMod e') = Some resp" "ht_Status resp = 304"
    using assms(5) k(2) by (auto simp: InReleaseURL_def)
  then obtain r where "fetchVerifiedRelease L nw' src (Some e') = Inr ([], r)" "ht_Status r = 304"
    by (simp add: fetchVerifiedRelease_def getConditional_def)
  then show ?thesis
    by (simp add: FetchSources_def a c Let_def k(4) fetch_srcs_real_def)
qed

lemma bad_variants_empty:
  assumes "\<forall>v \<in> set vs. \<forall>e. rel_Files rel (pathBase @ v) = Some e \<longrightarrow>
    (\<forall>url \<in> {indexURL src (pathBase @ v) (fe_SHA256 e) (acquireByHash rel), distsURL src (pathBase @ v)}.
      \<exists>r. getConditional nw 2 url [] [] = Inr r \<and> (ht_Status r \<noteq> 200 \<or> verifyDigest L (ht_Body r) (fe_SHA256 e) \<noteq> None))"
  shows "fetch_variants L nw src rel pathBase parse vs = Inr []"
  using assms by (induction vs) (auto simp: Let_def split: option.splits)

lemma has_prefix_append_same: "has_prefix (a @ v) (a @ p) = has_prefix v p"
  by (simp add: has_prefix_def)

lemma served_arch:
  assumes "ParseRelease body = Inr rel" "c \<in> set components" "arch \<in> set archs" "v \<in> set pkgVariants"
    and "rel_Files rel (binary_base c arch @ v) \<noteq> None"
  shows "arch \<in> set (releaseServedArchs rel components archs)"
proof -
  let ?P = "\<lambda>c a. list_ex (\<lambda>path. has_prefix path (binary_base c a @ ''Packages'')) (release_paths rel)"
  have "binary_base c arch @ v \<in> set (release_paths rel)" using release_paths_dom[OF assms(1)] assms(5) by auto
  moreover have "has_prefix v ''Packages''" using assms(4) by (auto simp: pkgVariants_def has_prefix_def)
  then have "has_prefix (binary_base c arch @ v) (binary_base c arch @ ''Packages'')" by (simp only: has_prefix_append_same)
  ultimately have p: "?P c arch" by (auto simp: list_ex_iff)
  have mono: "set as \<subseteq> set (foldl (\<lambda>as (c, a). if ?P c a then List.insert a as else as) as xs)" for as xs
    by (induction xs arbitrary: as) (fastforce split: if_splits)+
  have "(c, arch) \<in> set xs \<Longrightarrow> arch \<in> set (foldl (\<lambda>as (c, a). if ?P c a then List.insert a as else as) as xs)" for as xs
  proof (induction xs arbitrary: as)
    case (Cons x xs)
    show ?case
    proof (cases "x = (c, arch)")
      case True
      then show ?thesis using mono[of "List.insert arch as" xs] p by auto
    qed (use Cons in auto)
  qed simp
  then show ?thesis using assms(2,3) by (auto simp: releaseServedArchs_def)
qed

lemma fetch_archs_one:
  assumes "fetchPackagesForArch L nw src rel arch cached = Inr xs"
  shows "arch \<in> set archs \<Longrightarrow> map_of (fst (fetch_archs L nw src rel cached archs)) arch = Some xs"
proof (induction archs)
  case (Cons a archs)
  show ?case
  proof (cases "a = arch")
    case True
    then show ?thesis by (simp add: Let_def assms split: prod.splits)
  next
    case False
    then show ?thesis using Cons by (auto simp: Let_def split: prod.splits sum.splits option.splits)
  qed
qed simp

text \<open>The lookup of an entry that was just stored.\<close>

lemma fetch_packages_entry:
  assumes "ParseRelease body = Inr rel" "fw_cache w = Some c"
  shows "\<exists>e idx w'. fetch_packages L nw src cached body resp w = (Inr idx, w') \<and> fw_lookup src w' = Some e \<and> fw_cache w' \<noteq> None \<and>
    (fw_valkey w = None \<longrightarrow> fw_valkey w' = None) \<and> ic_release e = Some rel \<and> ic_archPkgs e = ix_ByArch idx \<and>
    ic_etag e = (case resp of None \<Rightarrow> [] | Some r \<Rightarrow> ht_ETag r) \<and>
    ix_ByArch idx = fst (fetch_archs L nw src rel cached (releaseServedArchs rel (us_Component src) (us_Archs src)))"
proof -
  obtain aps mis comp where f: "fetch_archs L nw src rel cached (releaseServedArchs rel (us_Component src) (us_Archs src)) = (aps, mis, comp)"
    by (metis prod_cases3)
  let ?e = "index_entry L (nw_now nw) resp rel aps comp"
  let ?w1 = "if mis then fw_upd (ixc_expire (cacheKey src)) w else w"
  let ?w2 = "fw_publish (publishToValkey L nw src ?e) (fw_upd (ixc_store (cacheKey src) ?e) ?w1)"
  obtain c1 where c1: "fw_cache ?w1 = Some c1" "fw_valkey ?w1 = fw_valkey w" using assms(2) by (cases mis) (simp_all add: fw_upd_def)
  have "\<exists>e. fw_lookup src ?w2 = Some e \<and> ic_release e = Some rel \<and> ic_archPkgs e = aps \<and>
      ic_etag e = (case resp of None \<Rightarrow> [] | Some r \<Rightarrow> ht_ETag r)"
    using c1(1) by (auto simp: fw_lookup_def fw_upd_def fw_publish_def ixc_store_def index_entry_def split: option.splits)
  moreover have "fetch_packages L nw src cached body resp w = (Inr \<lparr>ix_ByArch = aps, ix_HasStaleMismatch = mis\<rparr>, ?w2)"
    by (simp add: fetch_packages_def assms(1) f Let_def)
  moreover have "fw_cache ?w2 \<noteq> None" "fw_valkey w = None \<longrightarrow> fw_valkey ?w2 = None"
    using c1 by (simp_all add: fw_upd_def fw_publish_def)
  ultimately show ?thesis by (auto simp: f)
qed

text \<open>A call that finds nothing fresh and reaches the mirror.\<close>

lemma FetchIndex_reaches:
  assumes "fw_valkey w = None" "\<forall>e. fw_lookup src w = Some e \<longrightarrow> ic_expires e \<le> nw_now nw"
    and "fetchVerifiedRelease L nw src (cachedForComparison L nw src w) = Inr (body, resp)" "ht_Status resp \<noteq> 304"
  shows "FetchIndex L nw src w = fetch_packages L nw src (cachedForComparison L nw src w) body (Some resp) w"
proof -
  have "adopt_fresh L nw src w = (None, w)" "fw_backing w = None"
    using assms(1) by (auto simp: adopt_fresh_def fw_backing_def split: option.splits)
  then have "fetch_stale L nw src w = fetch_packages L nw src (cachedForComparison L nw src w) body (Some resp) w"
    using assms(3,4) by (simp add: fetch_stale_def Let_def fetch_real_def)
  then show ?thesis using assms(2) by (auto simp: FetchIndex_def split: option.splits)
qed


section \<open>Instances\<close>

text \<open>A mirror with one Release, one Packages and one Sources file; the library accepts one signature by one key and knows the
  digest of \<open>wit_index\<close>.\<close>

definition wit_index :: string where
  "wit_index = ''Package: a'' @ [NL] @ ''Version: 1'' @ [NL] @ ''Filename: a.deb'' @ [NL] @ ''SHA256: BB'' @ [NL]"

definition wit_pkgs :: "RawPkg list" where
  "wit_pkgs = [zero_RawPkg\<lparr>rp_Package := ''a'', rp_Version := ''1'', rp_Filename := ''a.deb'', rp_SHA256 := ''BB'', rp_Raw := wit_index\<rparr>]"

lemma wit_index_parse: "ParsePackageRaws wit_index = Inr wit_pkgs"
  by (simp add: ParsePackageRaws_def wit_index_def wit_pkgs_def scan_eval pkg_line_def pkg_field_def pkg_set_raw_def)

definition wit_release :: string where
  "wit_release = ''SHA256:'' @ [NL] @ '' aa 9 m/binary-x/Packages'' @ [NL] @ '' cc 9 m/source/Sources'' @ [NL]"

definition wit_para :: Paragraph where
  "wit_para = Set NewParagraph ''SHA256'' ([NL] @ ''aa 9 m/binary-x/Packages'' @ [NL] @ ''cc 9 m/source/Sources'')"

definition wit_rel :: Release where
  "wit_rel = \<lparr>rel_Para = wit_para, rel_Files =
     [''m/binary-x/Packages'' \<mapsto> \<lparr>fe_Path = ''m/binary-x/Packages'', fe_Size = 9, fe_SHA256 = ''aa'', fe_SHA512 = []\<rparr>,
      ''m/source/Sources'' \<mapsto> \<lparr>fe_Path = ''m/source/Sources'', fe_Size = 9, fe_SHA256 = ''cc'', fe_SHA512 = []\<rparr>]\<rparr>"

definition wit_lib :: fetch_lib where
  "wit_lib = \<lparr>fl_clearsign = (\<lambda>d. Some (d, ''sig'')), fl_check = (\<lambda>keys _ sig. keys = [''key''] \<and> sig = ''sig''),
     fl_checkArmored = (\<lambda>_ _ _. False), fl_sha256 = (\<lambda>d. if d = wit_index then ''aa'' else ''bb''),
     fl_decoders = \<lparr>dec_zstd = Some, dec_gzip = Some, dec_xz = Some, dec_bzip2 = id\<rparr>, fl_httpTime = (\<lambda>_. None), fl_Prefix = []\<rparr>"

definition wit_source :: UpstreamSource where
  "wit_source = \<lparr>us_Name = ''u'', us_URL = ''h'', us_Suite = ''s'', us_Component = [''m''], us_Archs = [''x''], us_AutoUpdate = False,
     us_FetchSources = True, us_VerifyKeys = [''key''], us_Username = [], us_Password = [], us_Network = []\<rparr>"

definition wit_answer :: "nat \<Rightarrow> string \<Rightarrow> string \<Rightarrow> response" where
  "wit_answer status body etag = \<lparr>ht_Status = status, ht_Body = body, ht_ETag = etag, ht_LastModified = [], ht_CacheControl = [], ht_Expires = [],
     ht_Date = [], ht_Age = []\<rparr>"

text \<open>The mirror answers a conditional request for its Release with 304; \<open>index\<close> is what it has for the Packages file.\<close>

definition wit_mirror :: "int \<Rightarrow> string \<Rightarrow> fetch_call" where
  "wit_mirror now index =
     \<lparr>nw_get = (\<lambda>n url etag _. Some (
        if n = 0 then (if etag = ''v1'' then wit_answer 304 [] [] else wit_answer 200 wit_release ''v1'')
        else if url = distsURL wit_source ''m/binary-x/Packages'' then wit_answer 200 index [] else wit_answer 404 [] [])),
      nw_now = now, nw_lock = LockHeld, nw_fails = (\<lambda>_ _. False)\<rparr>"

lemma wit_ParseRelease: "ParseRelease wit_release = Inr wit_rel"
proof -
  have sc: "str_fields ''aa 9 m/binary-x/Packages'' = [''aa'', ''9'', ''m/binary-x/Packages'']"
      "str_fields ''cc 9 m/source/Sources'' = [''cc'', ''9'', ''m/source/Sources'']" by code_simp+
  have lk: "to_lower ''SHA256'' = ''sha256''" "to_lower ''SHA512'' = ''sha512''" by code_simp+
  have pp: "ParseParagraphs wit_release = Inr [wit_para]"
    by (simp add: wit_release_def wit_para_def ParseParagraphs_def scan_lines_def raw_lines_def Let_def drop_cr_def max_index_token_def
        init_parse_state_def parse_line_def parse_flush_def cut_def trim_space_def trim_def trim_left_def
        trim_right_def is_space_def Set_def NewParagraph_def Get_def)
  have rows: "hash_rows ([NL] @ ''aa 9 m/binary-x/Packages'' @ [NL] @ ''cc 9 m/source/Sources'') =
      [(''aa'', 9, ''m/binary-x/Packages''), (''cc'', 9, ''m/source/Sources'')]" "hash_rows [] = []"
    by (simp_all add: hash_rows_def hash_row_def List.map_filter_simps sc trim_space_def trim_def trim_left_def
        trim_right_def is_space_def parse_int_def has_prefix_def is_digit_def digits_val_def byte_val_def)
  have g: "Get wit_para ''SHA256'' = [NL] @ ''aa 9 m/binary-x/Packages'' @ [NL] @ ''cc 9 m/source/Sources''" "Get wit_para ''SHA512'' = []"
    by (simp_all add: wit_para_def Get_def Set_def NewParagraph_def lk Let_def)
  show ?thesis
    unfolding ParseRelease_def pp sum.case list.case Let_def parseHashSection_rows g rows
    by (simp add: add_row_def zero_FileEntry_def wit_rel_def Let_def)
qed

definition wit_fetcher :: "IndexCache \<Rightarrow> fetch_world" where
  "wit_fetcher c = \<lparr>fw_cache = Some c, fw_valkey = None\<rparr>"

lemma wit_fits: "length wit_release \<le> maxRawIndexBytes" "length wit_index \<le> maxRawIndexBytes" "length wit_index \<le> maxDecompressedIndexBytes"
  by (simp_all add: wit_release_def wit_index_def maxRawIndexBytes_def maxDecompressedIndexBytes_def)

lemma wit_verified:
  assumes "\<forall>e. cached = Some e \<longrightarrow> ic_etag e \<noteq> ''v1''"
  shows "fetchVerifiedRelease wit_lib (wit_mirror now index) wit_source cached = Inr (wit_release, wit_answer 200 wit_release ''v1'')"
proof -
  have "getConditional (wit_mirror now index) 0 url etag lm = Inr (wit_answer 200 wit_release ''v1'')" if "etag \<noteq> ''v1''" for url etag lm
    using that wit_fits(1) by (simp add: getConditional_def wit_mirror_def wit_answer_def)
  then show ?thesis
    using assms by (cases cached)
      (simp_all add: fetchVerifiedRelease_def verified_or_detached_def VerifyClearsigned_def wit_lib_def wit_source_def wit_answer_def)
qed

lemma wit_files:
  "rel_Files wit_rel (binary_base ''m'' ''x'' @ ''Packages'') = Some \<lparr>fe_Path = ''m/binary-x/Packages'', fe_Size = 9, fe_SHA256 = ''aa'', fe_SHA512 = []\<rparr>"
  "v \<in> set pkgVariants \<Longrightarrow> v \<noteq> ''Packages'' \<Longrightarrow> rel_Files wit_rel (binary_base ''m'' ''x'' @ v) = None"
  "rel_Files wit_rel (binary_base ''m'' ''x'' @ ''Packages.diff/Index'') = None"
  by (auto simp: wit_rel_def binary_base_def pkgVariants_def)

lemma wit_get:
  assumes "length index \<le> maxRawIndexBytes"
  shows "getConditional (wit_mirror now index) 2 (distsURL wit_source (binary_base ''m'' ''x'' @ ''Packages'')) [] [] = Inr (wit_answer 200 index [])"
    "getConditional (wit_mirror now index) 2 (indexURL wit_source (binary_base ''m'' ''x'' @ ''Packages'') sha (acquireByHash wit_rel)) [] [] =
       Inr (wit_answer 200 index [])"
proof -
  have path: "binary_base ''m'' ''x'' @ ''Packages'' = ''m/binary-x/Packages''" by (simp add: binary_base_def)
  have "\<not> acquireByHash wit_rel"
    by (simp add: acquireByHash_def Release_Get_def wit_rel_def wit_para_def Get_def Set_def NewParagraph_def equal_fold_def string_eval Let_def)
  moreover show get: "getConditional (wit_mirror now index) 2 (distsURL wit_source (binary_base ''m'' ''x'' @ ''Packages'')) [] [] = Inr (wit_answer 200 index [])"
    using assms unfolding path by (simp add: getConditional_def wit_mirror_def wit_answer_def)
  ultimately show "getConditional (wit_mirror now index) 2 (indexURL wit_source (binary_base ''m'' ''x'' @ ''Packages'') sha (acquireByHash wit_rel)) [] [] =
       Inr (wit_answer 200 index [])"
    by (simp add: indexURL_def)
qed

lemma wit_packages: "fetchPackagesForArch wit_lib (wit_mirror now wit_index) wit_source wit_rel ''x'' None = Inr wit_pkgs"
proof -
  have "fetch_variants wit_lib (wit_mirror now wit_index) wit_source wit_rel (binary_base ''m'' ''x'') ParsePackageRaws [''Packages''] = Inr wit_pkgs"
    using wit_fits(3)
    by (simp add: Let_def wit_files(1) wit_get[OF wit_fits(2)] wit_answer_def verifyDigest_def wit_lib_def equal_fold_def OpenCompressed_def
        has_suffix_def parse_bounded_def wit_index_parse del: append.simps)
  then have "fetch_variants wit_lib (wit_mirror now wit_index) wit_source wit_rel (binary_base ''m'' ''x'') ParsePackageRaws pkgVariants = Inr wit_pkgs"
    using wit_files(2) by (simp add: pkgVariants_def del: append.simps)
  then show ?thesis
    by (simp add: fetchPackagesForArch_def fetchPackagesMaybeReuse_def Let_def wit_source_def)
qed

lemma wit_plain: "config_ok {wit_source}"
  by (auto simp: config_ok_def plain_def wit_source_def ComponentKey_def)

lemma wit_served: "''x'' \<in> set (releaseServedArchs wit_rel (us_Component wit_source) (us_Archs wit_source))"
  by (rule served_arch[OF wit_ParseRelease, of "''m''" _ _ _ "''Packages''"]) (simp_all add: wit_source_def pkgVariants_def wit_files(1) del: append.simps)

lemma wit_stale: "(\<forall>e. c (cacheKey wit_source) = Some e \<longrightarrow> ic_release e = None \<and> ic_expires e \<le> now \<and> ic_etag e \<noteq> ''v1'') \<Longrightarrow>
   cachedForComparison wit_lib (wit_mirror now index) wit_source (wit_fetcher c) = None \<and>
   FetchIndex wit_lib (wit_mirror now index) wit_source (wit_fetcher c) =
     fetch_packages wit_lib (wit_mirror now index) wit_source None wit_release (Some (wit_answer 200 wit_release ''v1'')) (wit_fetcher c)"
proof -
  assume a: "\<forall>e. c (cacheKey wit_source) = Some e \<longrightarrow> ic_release e = None \<and> ic_expires e \<le> now \<and> ic_etag e \<noteq> ''v1''"
  have cmp: "cachedForComparison wit_lib (wit_mirror now index) wit_source (wit_fetcher c) = None"
    using a by (auto simp: cachedForComparison_def fw_lookup_def fw_backing_def wit_fetcher_def split: option.splits)
  have "\<forall>e. fw_lookup wit_source (wit_fetcher c) = Some e \<longrightarrow> ic_expires e \<le> nw_now (wit_mirror now index)"
    using a by (auto simp: fw_lookup_def wit_fetcher_def wit_mirror_def)
  from FetchIndex_reaches[OF _ this, of wit_lib wit_release "wit_answer 200 wit_release ''v1''"] wit_verified[of None now index] cmp
  show ?thesis by (simp add: wit_fetcher_def wit_answer_def)
qed

theorem fetched_is_vouched_witness: "list_all (genuine_pkg wit_lib wit_source ''x'') wit_pkgs \<and> wit_pkgs \<noteq> []"
proof -
  let ?w = "replica_world (fold (replica_step wit_lib) [] (replicas_start False)) 0" and ?nw = "wit_mirror 0 wit_index"
  have w: "?w = wit_fetcher Map.empty" by (simp add: replica_world_def replicas_start_def wit_fetcher_def)
  obtain idx w' where f: "FetchIndex wit_lib ?nw wit_source ?w = (Inr idx, w')"
      "ix_ByArch idx = fst (fetch_archs wit_lib ?nw wit_source wit_rel None (releaseServedArchs wit_rel (us_Component wit_source) (us_Archs wit_source)))"
    using wit_stale[of Map.empty 0 wit_index] fetch_packages_entry[OF wit_ParseRelease, of "wit_fetcher Map.empty" Map.empty wit_lib ?nw wit_source None]
    unfolding w by (fastforce simp: wit_fetcher_def)
  have "map_of (ix_ByArch idx) ''x'' = Some wit_pkgs" unfolding f(2) by (rule fetch_archs_one[OF wit_packages wit_served])
  then have x: "(''x'', wit_pkgs) \<in> set (ix_ByArch idx)" by (rule map_of_SomeD)
  have "\<forall>(_, _, s, _) \<in> set []. s \<in> {wit_source}" "wit_source \<in> {wit_source}" by simp_all
  note v = fetched_is_vouched[OF wit_plain this refl, where L = wit_lib and valkey = False and r = 0 and nw = ?nw, THEN conjunct1, rule_format, of idx w' "''x''" wit_pkgs]
  show ?thesis using v f(1) x by (simp add: list_all_iff wit_pkgs_def)
qed

text \<open>The entry before the index fetch holds a source list of an older Release.\<close>

definition wit_cached :: indexCacheEntry where
  "wit_cached = empty_entry\<lparr>ic_srcsRelease := Some \<lparr>rel_Para = wit_para, rel_Files =
     [''m/source/Sources'' \<mapsto> \<lparr>fe_Path = ''m/source/Sources'', fe_Size = 9, fe_SHA256 = ''dd'', fe_SHA512 = []\<rparr>]\<rparr>, ic_srcs := Some []\<rparr>"

theorem sources_never_refresh_witness:
  "fst (FetchSources wit_lib (wit_mirror 1 wit_index) wit_source
     (snd (FetchIndex wit_lib (wit_mirror 0 wit_index) wit_source (wit_fetcher [cacheKey wit_source \<mapsto> wit_cached])))) = Inr (Some []) \<and>
   \<not> unchanged_file wit_rel (the (ic_srcsRelease wit_cached)) ''m/source/Sources''"
proof -
  let ?nw = "wit_mirror 0 wit_index" and ?w = "wit_fetcher [cacheKey wit_source \<mapsto> wit_cached]"
  have e: "ic_release wit_cached = None" "ic_expires wit_cached \<le> 0" "ic_etag wit_cached \<noteq> ''v1''"
    by (simp_all add: wit_cached_def empty_entry_def zero_time_def)
  obtain e' where e': "fw_lookup wit_source (snd (FetchIndex wit_lib ?nw wit_source ?w)) = Some e'" "ic_etag e' = ''v1''"
    using wit_stale[of "[cacheKey wit_source \<mapsto> wit_cached]" 0 wit_index] e
      fetch_packages_entry[OF wit_ParseRelease, of ?w _ wit_lib ?nw wit_source None "Some (wit_answer 200 wit_release ''v1'')"]
    by (fastforce simp: wit_fetcher_def wit_answer_def)
  have "FetchSources wit_lib (wit_mirror 1 wit_index) wit_source (snd (FetchIndex wit_lib ?nw wit_source ?w)) =
      (Inr (Some []), snd (FetchIndex wit_lib ?nw wit_source ?w))"
    by (rule sources_never_refresh[of _ _ wit_cached])
      (use e' in \<open>auto simp: wit_fetcher_def fw_lookup_def wit_cached_def wit_mirror_def wit_answer_def\<close>)
  then show ?thesis by (simp add: unchanged_file_def wit_rel_def wit_cached_def)
qed



end
