(* ===== verification/Live.thy ===== *)
theory Live
  imports Publish Config
begin

text \<open>
  The live view (\<open>src/internal/server/server.go\<close>, \<open>valkey.go\<close>): the generations of index files a replica serves under
  \<open>/live\<close>, how a generation is built or adopted from a peer, staged, promoted and retired, and how requests by hash are
  answered across generations.

  The functions are those of the source; a function that unlocks between two critical sections is split there.  The
  goroutines are threads of the state, one constructor per point at which a goroutine can be interrupted, and \<open>lstep\<close> is
  one critical section of one of them, a request, a message or the passing of time.  The merged view a build starts from,
  what peers answer, random delays, the iteration order of Go maps and the outcome of the distributed build lock are
  arbitrary in every step.  A Go map that is iterated is an association list; addresses of entries, which
  \<open>promoteStagedEntry\<close> compares, are numbers.  Times are nanoseconds and \<open>None\<close> is the zero time.  The memory and
  connection hints, logging and the contexts' deadlines (a call may fail at any time) are left out.
\<close>

section \<open>Definitions\<close>

subsection \<open>Generations\<close>

definition second :: int where
  "second = 10 ^ 9"

definition liveMaxAge :: int where
  "liveMaxAge = 5 * 60 * second"

definition liveSwitchoverDelay :: int where
  "liveSwitchoverDelay = 30 * second"

definition liveRetiredRetention :: int where
  "liveRetiredRetention = liveMaxAge + 5 * 60 * second"

record liveEntry =
  le_id :: nat
  le_av :: "Available option"
  le_files :: "(string \<times> string) list"
  le_hashes :: "(string \<times> string) list"
  le_built :: int
  le_expiry :: "int option"
  le_fingerprint :: string

text \<open>The maps of an entry have one value per key.\<close>

definition maps_ok :: "liveEntry \<Rightarrow> bool" where
  "maps_ok e \<longleftrightarrow> distinct (map fst (le_files e)) \<and> distinct (map fst (le_hashes e))"

record stagedLiveEntry =
  sl_entry :: liveEntry
  sl_promoteAt :: int
  sl_complete :: bool

record liveUpdatedMsg =
  lm_OS :: string
  lm_Codename :: string
  lm_Addrs :: "string list"
  lm_BuiltAt :: int
  lm_Expiry :: "int option"
  lm_Hashes :: "(string \<times> string) list"
  lm_Files :: "string list"
  lm_SourceID :: string
  lm_Unhashed :: "(string \<times> string) list"

text \<open>The configuration, and the backing \<open>EnableValkey\<close> installs: the addresses of this replica and its identifier.\<close>

record live_env =
  lv_layouts :: "Layout list"
  lv_refresh :: int
  lv_compression :: CompressionFormatConfig
  lv_publish :: publish_env
  lv_valkey :: "(string list \<times> string) option"

definition live_key :: "string \<Rightarrow> string \<Rightarrow> string" where
  "live_key osName codename = osName @ ''/'' @ codename"

definition validOSCodename :: "live_env \<Rightarrow> string \<Rightarrow> bool" where
  "validOSCodename env k \<longleftrightarrow> list_ex (\<lambda>l. live_key (ly_OS l) (ly_Codename l) = k) (lv_layouts env)"

definition stale :: "int \<Rightarrow> liveEntry \<Rightarrow> bool" where
  "stale now e = (case le_expiry e of None \<Rightarrow> False | Some x \<Rightarrow> x < now)"

definition liveExpiry :: "live_env \<Rightarrow> int \<Rightarrow> int \<Rightarrow> int option" where
  "liveExpiry env jitter builtAt = (if lv_refresh env \<le> 0 then None else Some (builtAt + lv_refresh env + jitter))"

definition lookupByHash :: "((string \<times> string) list \<Rightarrow> (string \<times> string) list) \<Rightarrow> liveEntry \<Rightarrow> string \<Rightarrow> (string \<times> string) option" where
  "lookupByHash visit e hash =
     (case List.find (\<lambda>(k, h). h = hash \<and> map_of (le_files e) k \<noteq> None) (visit (le_hashes e)) of
        None \<Rightarrow> None
      | Some (k, _) \<Rightarrow> map_option (\<lambda>d. (d, k)) (map_of (le_files e) k))"

text \<open>The hash a map has for a key, the empty string where it has none.\<close>

definition hash_of :: "(string \<times> string) list \<Rightarrow> string \<Rightarrow> string" where
  "hash_of hashes k = (case map_of hashes k of None \<Rightarrow> [] | Some h \<Rightarrow> h)"

definition by_hash_marker :: string where
  "by_hash_marker = ''/by-hash/SHA256/''"

text \<open>What follows the last marker.\<close>

fun after_last :: "string \<Rightarrow> string \<Rightarrow> string option" where
  "after_last sub [] = None"
| "after_last sub (c # s) =
     (case after_last sub s of
        Some r \<Rightarrow> Some r
      | None \<Rightarrow> if has_prefix (c # s) sub then Some (drop (length sub) (c # s)) else None)"

definition hashFromByHashKey :: "string \<Rightarrow> string" where
  "hashFromByHashKey key = (case after_last by_hash_marker key of None \<Rightarrow> [] | Some h \<Rightarrow> h)"

definition byHashKey :: "string \<Rightarrow> string \<Rightarrow> string" where
  "byHashKey key hash = path_join [path_dir key, ''by-hash'', ''SHA256'', hash]"

subsection \<open>The state\<close>

text \<open>What a goroutine does after it has installed an entry.\<close>

datatype owner = Builder string string bool | Retrier string string | Nobody

datatype thread =
    Sleeping string liveEntry int
  | Promoting string liveEntry owner
  | Rebuilding string string
  | Locking string string
  | Building string string
  | Cold string string
  | Extending string string liveEntry
  | Swapping string string liveEntry bool owner
  | Ending string string bool
  | Announcing string string liveEntry
  | Retrying string string nat
  | RetryEnding string string
  | Waiting liveUpdatedMsg nat int
  | Fetching liveUpdatedMsg nat int "string list" "string list" "(string \<times> string) list"
  | Staging string liveEntry int

record live_state =
  ls_now :: int
  ls_alloc :: nat
  ls_current :: "string \<rightharpoonup> liveEntry"
  ls_staged :: "string \<rightharpoonup> stagedLiveEntry"
  ls_retired :: "string \<Rightarrow> (liveEntry \<times> int) list"
  ls_building :: "string set"
  ls_retrying :: "string set"
  ls_adopting :: "string \<rightharpoonup> nat"
  ls_cancelled :: "nat set"
  ls_notices :: "string \<rightharpoonup> liveUpdatedMsg"
  ls_published :: "liveUpdatedMsg list"
  ls_threads :: "thread list"

definition live_start :: "int \<Rightarrow> live_state" where
  "live_start now = \<lparr>ls_now = now, ls_alloc = 0, ls_current = Map.empty, ls_staged = Map.empty, ls_retired = (\<lambda>_. []), ls_building = {},
     ls_retrying = {}, ls_adopting = Map.empty, ls_cancelled = {}, ls_notices = Map.empty, ls_published = [], ls_threads = []\<rparr>"

definition spawn :: "thread list \<Rightarrow> live_state \<Rightarrow> live_state" where
  "spawn ts s = s\<lparr>ls_threads := ls_threads s @ ts\<rparr>"

definition exits :: "thread \<Rightarrow> live_state \<Rightarrow> live_state" where
  "exits t s = s\<lparr>ls_threads := remove1 t (ls_threads s)\<rparr>"

text \<open>What remains to be done by a goroutine whose entry is installed or staged.\<close>

definition after :: "owner \<Rightarrow> thread list" where
  "after own = (case own of Builder os cn mismatch \<Rightarrow> [Ending os cn mismatch] | Retrier os cn \<Rightarrow> [RetryEnding os cn] | Nobody \<Rightarrow> [])"

subsection \<open>Staging, promotion, retirement\<close>

definition sweepExpiredLiveCache :: "live_env \<Rightarrow> live_state \<Rightarrow> live_state" where
  "sweepExpiredLiveCache env s =
     (let cutoff = ls_now s - liveRetiredRetention
      in s\<lparr>ls_current := (\<lambda>k. case ls_current s k of Some e \<Rightarrow> if \<not> validOSCodename env k \<and> le_built e < cutoff then None else Some e | None \<Rightarrow> None),
           ls_staged := (\<lambda>k. case ls_staged s k of Some st \<Rightarrow> if \<not> validOSCodename env k \<and> le_built (sl_entry st) < cutoff then None else Some st
             | None \<Rightarrow> None)\<rparr>)"

definition retireLiveEntryLocked :: "string \<Rightarrow> liveEntry \<Rightarrow> live_state \<Rightarrow> live_state" where
  "retireLiveEntryLocked key old s =
     (let cutoff = ls_now s - liveRetiredRetention
      in s\<lparr>ls_retired := (ls_retired s)(key := filter (\<lambda>(_, at). cutoff < at) (ls_retired s key) @ [(old, ls_now s)])\<rparr>)"

definition promoteLiveEntry :: "live_env \<Rightarrow> string \<Rightarrow> liveEntry \<Rightarrow> live_state \<Rightarrow> live_state" where
  "promoteLiveEntry env key e s =
     (let s = (case ls_current s key of Some old \<Rightarrow> retireLiveEntryLocked key old s | None \<Rightarrow> s);
          s = (case ls_staged s key of
                 Some st \<Rightarrow> if le_id (sl_entry st) = le_id e then s\<lparr>ls_staged := (ls_staged s)(key := None)\<rparr> else s
               | None \<Rightarrow> s);
          s = sweepExpiredLiveCache env s
      in s\<lparr>ls_current := (ls_current s)(key \<mapsto> e)\<rparr>)"

text \<open>The check of \<open>promoteStagedEntry\<close>; the promotion is a critical section of its own.\<close>

definition promoteStagedEntry :: "string \<Rightarrow> liveEntry \<Rightarrow> live_state \<Rightarrow> live_state" where
  "promoteStagedEntry key want s =
     (case ls_staged s key of
        Some st \<Rightarrow> if le_id (sl_entry st) \<noteq> le_id want \<or> \<not> sl_complete st then s else spawn [Promoting key want Nobody] s
      | None \<Rightarrow> s)"

definition stageLiveEntry :: "string \<Rightarrow> liveEntry \<Rightarrow> int \<Rightarrow> owner \<Rightarrow> live_state \<Rightarrow> live_state" where
  "stageLiveEntry key e promoteAt own s =
     (if ls_current s key = None \<or> \<not> ls_now s < promoteAt then spawn [Promoting key e own] s
      else spawn (Sleeping key e promoteAt # after own)
             (s\<lparr>ls_staged := (ls_staged s)(key \<mapsto> \<lparr>sl_entry = e, sl_promoteAt = promoteAt, sl_complete = True\<rparr>)\<rparr>))"

definition stagePartialLiveEntry :: "string \<Rightarrow> liveEntry \<Rightarrow> int \<Rightarrow> live_state \<Rightarrow> live_state" where
  "stagePartialLiveEntry key e promoteAt s =
     s\<lparr>ls_staged := (ls_staged s)(key \<mapsto> \<lparr>sl_entry = e, sl_promoteAt = promoteAt, sl_complete = False\<rparr>)\<rparr>"

definition swapLiveEntry :: "live_env \<Rightarrow> string \<Rightarrow> string \<Rightarrow> liveEntry \<Rightarrow> bool \<Rightarrow> owner \<Rightarrow> live_state \<Rightarrow> live_state" where
  "swapLiveEntry env osName codename e fresh own s =
     stageLiveEntry (live_key osName codename) e (ls_now s + liveSwitchoverDelay) own
       (if fresh \<and> lv_valkey env \<noteq> None then spawn [Announcing osName codename e] s else s)"

definition resolveByHash :: "((string \<times> string) list \<Rightarrow> (string \<times> string) list) \<Rightarrow> string \<Rightarrow> liveEntry \<Rightarrow> string \<Rightarrow> live_state \<Rightarrow>
    (string \<times> int) option" where
  "resolveByHash visit key cur hash s =
     (let look = (\<lambda>e. map_option (\<lambda>(d, _). (d, le_built e)) (lookupByHash visit e hash)); cutoff = ls_now s - liveRetiredRetention
      in case look cur of
           Some r \<Rightarrow> Some r
         | None \<Rightarrow>
             (case (case ls_staged s key of Some st \<Rightarrow> look (sl_entry st) | None \<Rightarrow> None) of
                Some r \<Rightarrow> Some r
              | None \<Rightarrow>
                  (case List.find (\<lambda>(e, at). \<not> at < cutoff \<and> look e \<noteq> None) (rev (ls_retired s key)) of
                     Some (e, _) \<Rightarrow> look e
                   | None \<Rightarrow> None)))"

subsection \<open>Files of a generation\<close>

definition memSink :: "(string \<times> string) list sink" where
  "memSink files p d = (None, AList.update p d files)"

definition live_stanzas :: "Available \<Rightarrow> string \<Rightarrow> string \<Rightarrow> string list" where
  "live_stanzas av component arch =
     (case av_Pkgs av component of
        None \<Rightarrow> []
      | Some archs \<Rightarrow>
          (case map_of archs arch of
             None \<Rightarrow> []
           | Some pkgs \<Rightarrow> map (\<lambda>name. pk_StanzaStr (the (pkgs name))) (sorted_list_of_set (dom pkgs))))"

definition live_sources :: "(string list \<Rightarrow> string list) \<Rightarrow> Available \<Rightarrow> (string \<times> string list) list" where
  "live_sources visit av =
     map (\<lambda>component. (component, case av_Srcs av component of None \<Rightarrow> []
         | Some srcs \<Rightarrow> map (\<lambda>name. sp_StanzaStr (the (srcs name))) (sorted_list_of_set (dom srcs))))
       (visit (sorted_list_of_set (dom (av_Srcs av))))"

definition live_input :: "live_env \<Rightarrow> (string list \<Rightarrow> string list) \<Rightarrow> int \<Rightarrow> Available \<Rightarrow> SuiteInput" where
  "live_input env visit now av =
     (let (components, arches) = ComponentsAndArches (lv_layouts env) (av_OS av) (av_Codename av)
      in \<lparr>in_OS = av_OS av, in_Codename = av_Codename av, in_Suite = av_Codename av, in_Origin = ''debproxy'', in_Label = ''debproxy-live'',
          in_Description = ''debproxy live view of '' @ av_OS av @ ''/'' @ av_Codename av, in_Architectures = arches,
          in_Components = components, in_Stanzas = live_stanzas av, in_SourceStanzas = live_sources visit av, in_Date = Some now,
          in_Compression = ResolveLive (lv_compression env), in_HashTypes = HashTypesFor (lv_layouts env) (av_OS av) (av_Codename av),
          in_SkipByHash = True\<rparr>)"

text \<open>The digests a Release in the sink lists, by the key of the file.  The map of its files is visited in any order.\<close>

definition release_hashes :: "(string list \<Rightarrow> string list) \<Rightarrow> (string \<times> string) list \<Rightarrow> (string \<times> string) list \<Rightarrow> (string \<times> string) list" where
  "release_hashes visit files hashes =
     foldl (\<lambda>hashes (key, data).
       if \<not> has_suffix key ''/Release'' then hashes
       else case ParseRelease data of
              Inl _ \<Rightarrow> hashes
            | Inr rel \<Rightarrow> foldl (\<lambda>hashes path. case rel_Files rel path of None \<Rightarrow> hashes
                | Some fe \<Rightarrow> AList.update (trim_suffix key ''Release'' @ fe_Path fe) (fe_SHA256 fe) hashes)
              hashes (visit (release_paths rel)))
     hashes files"

definition generateLiveFiles :: "live_env \<Rightarrow> (string list \<Rightarrow> string list) \<Rightarrow> int \<Rightarrow> Available \<Rightarrow>
    ((string \<times> string) list \<times> (string \<times> string) list) option" where
  "generateLiveFiles env visit now av =
     (case GenerateSuite (lv_publish env) memSink [] (live_input env visit now av) [] of
        (Some _, _) \<Rightarrow> None
      | (None, files) \<Rightarrow> Some (files, release_hashes visit files []))"

subsection \<open>Adoption from a peer\<close>

text \<open>\<open>get\<close> is the body of a 200 response of a peer.\<close>

definition verifyByHash :: "live_env \<Rightarrow> string \<Rightarrow> string \<Rightarrow> bool" where
  "verifyByHash env data hash = equal_fold (pe_sha256 (lv_publish env) data) hash"

definition fetchOrder :: "liveUpdatedMsg \<Rightarrow> string list" where
  "fetchOrder m = sort (filter (\<lambda>k. hash_of (lm_Hashes m) k \<noteq> []) (lm_Files m)) @ sort (filter (\<lambda>k. hash_of (lm_Hashes m) k = []) (lm_Files m))"

definition peer_url :: "string \<Rightarrow> string \<Rightarrow> string \<Rightarrow> string \<Rightarrow> string" where
  "peer_url addr osName key hash = ''http://'' @ addr @ ''/live/'' @ osName @ ''/'' @ byHashKey key hash"

text \<open>One file of the loop; the flag says that it came over the network.\<close>

definition fetch_one :: "live_env \<Rightarrow> (string \<Rightarrow> string option) \<Rightarrow> string \<Rightarrow> liveUpdatedMsg \<Rightarrow> string \<Rightarrow> (string \<times> bool) option" where
  "fetch_one env get addr m key =
     (case map_of (lm_Unhashed m) key of
        Some data \<Rightarrow> Some (data, False)
      | None \<Rightarrow>
          let hash = hash_of (lm_Hashes m) key
          in if hash = [] then None
             else case get (peer_url addr (lm_OS m) key hash) of
                    None \<Rightarrow> None
                  | Some data \<Rightarrow> if verifyByHash env data hash then Some (data, True) else None)"

fun fetchLiveFilesFrom :: "live_env \<Rightarrow> (string \<Rightarrow> string option) \<Rightarrow> string \<Rightarrow> liveUpdatedMsg \<Rightarrow> string list \<Rightarrow> (string \<times> string) list \<Rightarrow>
    (string \<times> string) list option" where
  "fetchLiveFilesFrom env get addr m [] files = Some files"
| "fetchLiveFilesFrom env get addr m (key # todo) files =
     (case fetch_one env get addr m key of
        None \<Rightarrow> None
      | Some (data, _) \<Rightarrow> fetchLiveFilesFrom env get addr m todo (AList.update key data files))"

fun fetchLiveFiles :: "live_env \<Rightarrow> (string \<Rightarrow> string option) \<Rightarrow> liveUpdatedMsg \<Rightarrow> string list \<Rightarrow> (string \<times> string) list option" where
  "fetchLiveFiles env get m [] = None"
| "fetchLiveFiles env get m (addr # addrs) =
     (case fetchLiveFilesFrom env get addr m (fetchOrder m) [] of
        Some files \<Rightarrow> Some files
      | None \<Rightarrow> fetchLiveFiles env get m addrs)"

definition adoptLiveFromPeer :: "live_env \<Rightarrow> (string \<Rightarrow> string option) \<Rightarrow> string \<Rightarrow> string \<Rightarrow> live_state \<Rightarrow>
    ((string \<times> string) list \<times> (string \<times> string) list \<times> int \<times> int option) option" where
  "adoptLiveFromPeer env get osName codename s =
     (case ls_notices s (live_key osName codename) of
        None \<Rightarrow> None
      | Some m \<Rightarrow>
          if (case lm_Expiry m of None \<Rightarrow> False | Some x \<Rightarrow> \<not> ls_now s < x) then None
          else if lm_Files m = [] \<or> lm_Addrs m = [] then None
          else map_option (\<lambda>files. (files, lm_Hashes m, lm_BuiltAt m, lm_Expiry m)) (fetchLiveFiles env get m (lm_Addrs m)))"

definition buildOrAdoptLiveFiles :: "live_env \<Rightarrow> (string \<Rightarrow> string option) \<Rightarrow> (string list \<Rightarrow> string list) \<Rightarrow> int \<Rightarrow> string \<Rightarrow> string \<Rightarrow>
    Available \<Rightarrow> live_state \<Rightarrow> ((string \<times> string) list \<times> (string \<times> string) list \<times> int \<times> int option \<times> bool) option" where
  "buildOrAdoptLiveFiles env get visit jitter osName codename av s =
     (case (if lv_valkey env \<noteq> None then adoptLiveFromPeer env get osName codename s else None) of
        Some (files, hashes, builtAt, expiry) \<Rightarrow> Some (files, hashes, builtAt, expiry, False)
      | None \<Rightarrow>
          map_option (\<lambda>(files, hashes). (files, hashes, ls_now s, liveExpiry env jitter (ls_now s), True))
            (generateLiveFiles env visit (ls_now s) av))"

text \<open>The view an entry keeps: the per-component maps are dropped once the files exist.\<close>

definition served_view :: "Available \<Rightarrow> Available" where
  "served_view av = av\<lparr>av_Pkgs := Map.empty, av_Srcs := Map.empty\<rparr>"

definition live_notice :: "string list \<Rightarrow> string \<Rightarrow> string \<Rightarrow> string \<Rightarrow> liveEntry \<Rightarrow> liveUpdatedMsg" where
  "live_notice addrs ident osName codename e =
     \<lparr>lm_OS = osName, lm_Codename = codename, lm_Addrs = addrs, lm_BuiltAt = le_built e, lm_Expiry = le_expiry e, lm_Hashes = le_hashes e,
      lm_Files = map fst (le_files e), lm_SourceID = ident,
      lm_Unhashed = filter (\<lambda>(k, _). hash_of (le_hashes e) k = []) (le_files e)\<rparr>"

definition publishLiveUpdate :: "live_env \<Rightarrow> string \<Rightarrow> string \<Rightarrow> liveEntry \<Rightarrow> bool \<Rightarrow> live_state \<Rightarrow> live_state" where
  "publishLiveUpdate env osName codename e sent s =
     (case lv_valkey env of
        None \<Rightarrow> s
      | Some (addrs, ident) \<Rightarrow>
          if addrs = [] \<or> \<not> sent then s
          else s\<lparr>ls_published := ls_published s @ [live_notice addrs ident osName codename e]\<rparr>)"

text \<open>The handler of a decoded message, up to the goroutine it starts.  The number names the context of the adoption.\<close>

definition handleLiveUpdatedMessage :: "live_env \<Rightarrow> liveUpdatedMsg \<Rightarrow> live_state \<Rightarrow> live_state" where
  "handleLiveUpdatedMessage env m s =
     (case lv_valkey env of
        None \<Rightarrow> s
      | Some (_, ident) \<Rightarrow>
          if lm_SourceID m \<noteq> [] \<and> lm_SourceID m = ident then s
          else let key = live_key (lm_OS m) (lm_Codename m);
                   promoteAt = ls_now s + liveSwitchoverDelay;
                   s = s\<lparr>ls_notices := (ls_notices s)(key \<mapsto> m)\<rparr>
               in if lm_Files m = [] \<or> lm_Addrs m = [] then s
                  else let ctx = ls_alloc s;
                           s = s\<lparr>ls_alloc := ctx + 1,
                                 ls_cancelled := (case ls_adopting s key of None \<Rightarrow> ls_cancelled s | Some c \<Rightarrow> insert c (ls_cancelled s)),
                                 ls_adopting := (ls_adopting s)(key \<mapsto> ctx)\<rparr>
                       in if ls_current s key = None
                          then s\<lparr>ls_adopting := (ls_adopting s)(key := None), ls_cancelled := insert ctx (ls_cancelled s)\<rparr>
                          else spawn [Waiting m ctx promoteAt] s)"

text \<open>A miss goes to the publisher of the last notice.\<close>

definition resolveByHashWithPeer :: "live_env \<Rightarrow> ((string \<times> string) list \<Rightarrow> (string \<times> string) list) \<Rightarrow> (string \<Rightarrow> string option) \<Rightarrow>
    string \<Rightarrow> string \<Rightarrow> liveEntry \<Rightarrow> string \<Rightarrow> live_state \<Rightarrow> (string \<times> int) option" where
  "resolveByHashWithPeer env visit get osName codename cur hash s =
     (case resolveByHash visit (live_key osName codename) cur hash s of
        Some r \<Rightarrow> Some r
      | None \<Rightarrow>
          (case (if lv_valkey env = None then None else ls_notices s (live_key osName codename)) of
             None \<Rightarrow> None
           | Some m \<Rightarrow>
               (case List.find (\<lambda>(_, h). h = hash) (visit (lm_Hashes m)) of
                  None \<Rightarrow> None
                | Some (key, _) \<Rightarrow>
                    (case List.find (\<lambda>addr. case get (peer_url addr osName key hash) of None \<Rightarrow> False | Some data \<Rightarrow> verifyByHash env data hash)
                            (lm_Addrs m) of
                       None \<Rightarrow> None
                     | Some addr \<Rightarrow> map_option (\<lambda>data. (data, lm_BuiltAt m)) (get (peer_url addr osName key hash))))))"

subsection \<open>Requests and background builds\<close>

text \<open>The first critical section of \<open>getLive\<close>: the entry it returns at once, the build it waits for, or the build it does
  itself.\<close>

datatype live_answer = Served liveEntry | WaitForBuild | BuildNow

definition getLive :: "string \<Rightarrow> string \<Rightarrow> live_state \<Rightarrow> live_answer \<times> live_state" where
  "getLive osName codename s =
     (let key = live_key osName codename
      in case ls_current s key of
           Some e \<Rightarrow>
             if \<not> stale (ls_now s) e then (Served e, s)
             else if key \<notin> ls_building s \<and> ls_adopting s key = None
               then (Served e, spawn [Rebuilding osName codename] (s\<lparr>ls_building := insert key (ls_building s)\<rparr>))
               else (Served e, s)
         | None \<Rightarrow>
             if key \<in> ls_building s then (WaitForBuild, s)
             else (BuildNow, spawn [Cold osName codename] (s\<lparr>ls_building := insert key (ls_building s)\<rparr>)))"

definition extendExpiry :: "live_env \<Rightarrow> int \<Rightarrow> nat \<Rightarrow> int \<Rightarrow> liveEntry \<Rightarrow> liveEntry" where
  "extendExpiry env jitter ident now e = e\<lparr>le_id := ident, le_built := now, le_expiry := liveExpiry env jitter now\<rparr>"

definition extend_current :: "live_env \<Rightarrow> int \<Rightarrow> string \<Rightarrow> liveEntry \<Rightarrow> live_state \<Rightarrow> live_state" where
  "extend_current env jitter key existing s =
     s\<lparr>ls_current := (ls_current s)(key \<mapsto> extendExpiry env jitter (ls_alloc s) (ls_now s) existing), ls_alloc := ls_alloc s + 1\<rparr>"

definition retryDelays :: "int list" where
  "retryDelays = [30 * second, 60 * second, 2 * 60 * second, 4 * 60 * second]"

definition startMismatchRetry :: "string \<Rightarrow> string \<Rightarrow> live_state \<Rightarrow> live_state" where
  "startMismatchRetry osName codename s =
     (if live_key osName codename \<in> ls_retrying s then s
      else spawn [Retrying osName codename 0] (s\<lparr>ls_retrying := insert (live_key osName codename) (ls_retrying s)\<rparr>))"

text \<open>A build: the entry to be swapped in, or what is left to do after a failure.\<close>

definition build_entry :: "live_env \<Rightarrow> (string \<Rightarrow> string option) \<Rightarrow> (string list \<Rightarrow> string list) \<Rightarrow> int \<Rightarrow> string \<Rightarrow> string \<Rightarrow> string \<Rightarrow>
    Available \<Rightarrow> owner \<Rightarrow> thread list \<Rightarrow> live_state \<Rightarrow> live_state" where
  "build_entry env get visit jitter fingerprint osName codename av own failed s =
     (case buildOrAdoptLiveFiles env get visit jitter osName codename av s of
        None \<Rightarrow> spawn failed s
      | Some (files, hashes, builtAt, expiry, fresh) \<Rightarrow>
          spawn [Swapping osName codename
                   \<lparr>le_id = ls_alloc s, le_av = Some (served_view av), le_files = files, le_hashes = hashes, le_built = builtAt,
                    le_expiry = expiry, le_fingerprint = fingerprint\<rparr> fresh own]
            (s\<lparr>ls_alloc := ls_alloc s + 1\<rparr>))"

text \<open>One file of an adoption: it is staged as soon as it arrives; after an error the next address starts afresh.\<close>

definition fetch_step :: "live_env \<Rightarrow> (string \<Rightarrow> string option) \<Rightarrow> liveUpdatedMsg \<Rightarrow> nat \<Rightarrow> int \<Rightarrow> string \<Rightarrow> string list \<Rightarrow> string \<Rightarrow> string list \<Rightarrow>
    (string \<times> string) list \<Rightarrow> live_state \<Rightarrow> live_state" where
  "fetch_step env get m ctx promoteAt addr addrs key todo sofar s =
     (case fetch_one env get addr m key of
        None \<Rightarrow> if addrs = [] then s else spawn [Fetching m ctx promoteAt addrs (fetchOrder m) []] s
      | Some (data, net) \<Rightarrow>
          let sofar = AList.update key data sofar
          in spawn [Fetching m ctx promoteAt (addr # addrs) todo sofar]
               (if net
                then stagePartialLiveEntry (live_key (lm_OS m) (lm_Codename m))
                       \<lparr>le_id = ls_alloc s, le_av = None, le_files = sofar, le_hashes = lm_Hashes m, le_built = lm_BuiltAt m, le_expiry = lm_Expiry m,
                        le_fingerprint = []\<rparr> promoteAt (s\<lparr>ls_alloc := ls_alloc s + 1\<rparr>)
                else s))"

text \<open>The end of an adoption: the entry to be staged takes the view of the entry it will replace.\<close>

definition adopted_entry :: "liveUpdatedMsg \<Rightarrow> (string \<times> string) list \<Rightarrow> nat \<Rightarrow> liveEntry \<Rightarrow> liveEntry" where
  "adopted_entry m files ident prev =
     \<lparr>le_id = ident, le_av = le_av prev, le_files = files, le_hashes = lm_Hashes m, le_built = lm_BuiltAt m, le_expiry = lm_Expiry m,
      le_fingerprint = le_fingerprint prev\<rparr>"

definition fetch_end :: "liveUpdatedMsg \<Rightarrow> nat \<Rightarrow> int \<Rightarrow> (string \<times> string) list \<Rightarrow> live_state \<Rightarrow> live_state" where
  "fetch_end m ctx promoteAt files s =
     (if ctx \<in> ls_cancelled s then s
      else case ls_current s (live_key (lm_OS m) (lm_Codename m)) of
             None \<Rightarrow> s
           | Some prev \<Rightarrow>
               spawn [Staging (live_key (lm_OS m) (lm_Codename m)) (adopted_entry m files (ls_alloc s) prev) promoteAt] (s\<lparr>ls_alloc := ls_alloc s + 1\<rparr>))"

subsection \<open>Steps\<close>

text \<open>A label says which input a build used, or that an extension of the expiry overwrote an entry other than the one it had
  read.\<close>

datatype label = Quiet | Built SuiteInput | Clobbered string

inductive lstep :: "live_env \<Rightarrow> live_state \<Rightarrow> label \<Rightarrow> live_state \<Rightarrow> bool" for env where
  tick: "0 \<le> d \<Longrightarrow> lstep env s Quiet (s\<lparr>ls_now := ls_now s + d\<rparr>)"
| request: "validOSCodename env (live_key os cn) \<Longrightarrow> lstep env s Quiet (snd (getLive os cn s))"
| receive: "maps_ok e \<Longrightarrow> lstep env s Quiet (handleLiveUpdatedMessage env (live_notice addrs ident os cn e) s)"
| wake: "t = Sleeping key e at \<Longrightarrow> t \<in> set (ls_threads s) \<Longrightarrow> at \<le> ls_now s \<Longrightarrow> lstep env s Quiet (promoteStagedEntry key e (exits t s))"
| promote: "t = Promoting key e own \<Longrightarrow> t \<in> set (ls_threads s) \<Longrightarrow>
     lstep env s Quiet (spawn (after own) (promoteLiveEntry env key e (exits t s)))"
| unchanged: "t = Rebuilding os cn \<Longrightarrow> t \<in> set (ls_threads s) \<Longrightarrow> ls_current s (live_key os cn) = Some existing \<Longrightarrow>
     lstep env s Quiet (spawn [Extending os cn existing] (exits t s))"
| changed: "t = Rebuilding os cn \<Longrightarrow> t \<in> set (ls_threads s) \<Longrightarrow> lstep env s Quiet (spawn [Locking os cn] (exits t s))"
| busy: "t = Locking os cn \<Longrightarrow> t \<in> set (ls_threads s) \<Longrightarrow> lv_valkey env \<noteq> None \<Longrightarrow> lstep env s Quiet (spawn [Ending os cn False] (exits t s))"
| locked: "t = Locking os cn \<Longrightarrow> t \<in> set (ls_threads s) \<Longrightarrow> lstep env s Quiet (spawn [Building os cn] (exits t s))"
| failure: "t = Building os cn \<Longrightarrow> t \<in> set (ls_threads s) \<Longrightarrow> ls_current s (live_key os cn) = Some existing \<Longrightarrow>
     lstep env s Quiet (spawn [Extending os cn existing] (exits t s))"
| build: "t = Building os cn \<Longrightarrow> t \<in> set (ls_threads s) \<Longrightarrow> \<forall>xs. mset (visit xs) = mset xs \<Longrightarrow> mismatch = av_HasStaleMismatch av \<Longrightarrow>
     av_HasFetchFailure av \<longrightarrow> ls_current s (live_key os cn) = None \<Longrightarrow>
     lstep env s (Built (live_input env visit (ls_now s) av))
       (build_entry env get visit jitter fp os cn av (Builder os cn mismatch) [Ending os cn mismatch] (exits t s))"
| cold: "t = Cold os cn \<Longrightarrow> t \<in> set (ls_threads s) \<Longrightarrow> \<forall>xs. mset (visit xs) = mset xs \<Longrightarrow>
     lstep env s (Built (live_input env visit (ls_now s) av))
       (build_entry env get visit jitter fp os cn av (Builder os cn (av_HasStaleMismatch av)) [Ending os cn False] (exits t s))"
| extend: "t = Extending os cn existing \<Longrightarrow> t \<in> set (ls_threads s) \<Longrightarrow>
     lstep env s (if ls_current s (live_key os cn) = Some existing then Quiet else Clobbered (live_key os cn))
       (spawn [Ending os cn False] (extend_current env jitter (live_key os cn) existing (exits t s)))"
| swap: "t = Swapping os cn e fresh own \<Longrightarrow> t \<in> set (ls_threads s) \<Longrightarrow> lstep env s Quiet (swapLiveEntry env os cn e fresh own (exits t s))"
| announce: "t = Announcing os cn e \<Longrightarrow> t \<in> set (ls_threads s) \<Longrightarrow> lstep env s Quiet (publishLiveUpdate env os cn e sent (exits t s))"
| mismatch: "t = Ending os cn True \<Longrightarrow> t \<in> set (ls_threads s) \<Longrightarrow>
     lstep env s Quiet (spawn [Ending os cn False] (startMismatchRetry os cn (exits t s)))"
| finish: "t = Ending os cn False \<Longrightarrow> t \<in> set (ls_threads s) \<Longrightarrow>
     lstep env s Quiet ((exits t s)\<lparr>ls_building := ls_building s - {live_key os cn}\<rparr>)"
| retry: "t = Retrying os cn n \<Longrightarrow> t \<in> set (ls_threads s) \<Longrightarrow> n < length retryDelays \<Longrightarrow> \<not> av_HasStaleMismatch av \<Longrightarrow>
     \<forall>xs. mset (visit xs) = mset xs \<Longrightarrow>
     lstep env s (Built (live_input env visit (ls_now s) av))
       (build_entry env get visit jitter [] os cn av (Retrier os cn) [Retrying os cn (Suc n)] (exits t s))"
| retry_again: "t = Retrying os cn n \<Longrightarrow> t \<in> set (ls_threads s) \<Longrightarrow> n < length retryDelays \<Longrightarrow>
     lstep env s Quiet (spawn [Retrying os cn (Suc n)] (exits t s))"
| retry_over: "t = Retrying os cn n \<Longrightarrow> t \<in> set (ls_threads s) \<Longrightarrow> lstep env s Quiet (spawn [RetryEnding os cn] (exits t s))"
| retry_end: "t = RetryEnding os cn \<Longrightarrow> t \<in> set (ls_threads s) \<Longrightarrow>
     lstep env s Quiet ((exits t s)\<lparr>ls_retrying := ls_retrying s - {live_key os cn}\<rparr>)"
| cancelled: "t = Waiting m ctx at \<Longrightarrow> t \<in> set (ls_threads s) \<Longrightarrow> ctx \<in> ls_cancelled s \<Longrightarrow> lstep env s Quiet (exits t s)"
| adopt: "t = Waiting m ctx at \<Longrightarrow> t \<in> set (ls_threads s) \<Longrightarrow>
     lstep env s Quiet (spawn [Fetching m ctx at (lm_Addrs m) (fetchOrder m) []]
       ((exits t s)\<lparr>ls_adopting := (ls_adopting s)(live_key (lm_OS m) (lm_Codename m) := None)\<rparr>))"
| fetch: "t = Fetching m ctx at (addr # addrs) (key # todo) sofar \<Longrightarrow> t \<in> set (ls_threads s) \<Longrightarrow>
     lstep env s Quiet (fetch_step env get m ctx at addr addrs key todo sofar (exits t s))"
| fetched: "t = Fetching m ctx at (addr # addrs) [] files \<Longrightarrow> t \<in> set (ls_threads s) \<Longrightarrow> lstep env s Quiet (fetch_end m ctx at files (exits t s))"
| stage: "t = Staging key e at \<Longrightarrow> t \<in> set (ls_threads s) \<Longrightarrow> lstep env s Quiet (stageLiveEntry key e at Nobody (exits t s))"

inductive lrun :: "live_env \<Rightarrow> live_state \<Rightarrow> label list \<Rightarrow> live_state \<Rightarrow> bool" for env where
  nil: "lrun env s [] s"
| snoc: "lrun env s ls s1 \<Longrightarrow> lstep env s1 l s2 \<Longrightarrow> lrun env s (ls @ [l]) s2"

section \<open>Frames\<close>

text \<open>Only promotion, extension and retirement touch what is served; only \<open>tick\<close> moves the clock.\<close>

lemma spawn_simps [simp]:
  "ls_now (spawn ts s) = ls_now s" "ls_current (spawn ts s) = ls_current s" "ls_staged (spawn ts s) = ls_staged s"
  "ls_retired (spawn ts s) = ls_retired s" "ls_notices (spawn ts s) = ls_notices s" "ls_building (spawn ts s) = ls_building s"
  "ls_retrying (spawn ts s) = ls_retrying s" "ls_alloc (spawn ts s) = ls_alloc s" "ls_threads (spawn ts s) = ls_threads s @ ts"
  "ls_adopting (spawn ts s) = ls_adopting s" "ls_cancelled (spawn ts s) = ls_cancelled s"
  by (simp_all add: spawn_def)

lemma exits_simps [simp]:
  "ls_now (exits t s) = ls_now s" "ls_current (exits t s) = ls_current s" "ls_staged (exits t s) = ls_staged s"
  "ls_retired (exits t s) = ls_retired s" "ls_notices (exits t s) = ls_notices s" "ls_building (exits t s) = ls_building s"
  "ls_retrying (exits t s) = ls_retrying s" "ls_alloc (exits t s) = ls_alloc s" "ls_threads (exits t s) = remove1 t (ls_threads s)"
  "ls_adopting (exits t s) = ls_adopting s" "ls_cancelled (exits t s) = ls_cancelled s"
  by (simp_all add: exits_def)

definition same_served :: "live_state \<Rightarrow> live_state \<Rightarrow> bool" where
  "same_served s s' \<longleftrightarrow> ls_now s' = ls_now s \<and> ls_current s' = ls_current s \<and> ls_retired s' = ls_retired s"

lemma getLive_frame: "same_served s (snd (getLive os cn s))"
  by (simp add: same_served_def getLive_def Let_def split: option.split)

lemma handleLiveUpdatedMessage_frame: "same_served s (handleLiveUpdatedMessage env m s)"
  by (simp add: same_served_def handleLiveUpdatedMessage_def Let_def split: option.split prod.split)

lemma promoteStagedEntry_frame: "same_served s (promoteStagedEntry key e s)"
  by (simp add: same_served_def promoteStagedEntry_def split: option.split)

lemma stageLiveEntry_frame: "same_served s (stageLiveEntry key e at own s)"
  by (simp add: same_served_def stageLiveEntry_def)

lemma swapLiveEntry_frame: "same_served s (swapLiveEntry env os cn e fresh own s)"
  by (simp add: swapLiveEntry_def same_served_def stageLiveEntry_def)

lemma publishLiveUpdate_frame: "same_served s (publishLiveUpdate env os cn e sent s)"
  by (simp add: same_served_def publishLiveUpdate_def split: option.split prod.split)

lemma startMismatchRetry_frame: "same_served s (startMismatchRetry os cn s)"
  by (simp add: same_served_def startMismatchRetry_def)

lemma build_entry_frame: "same_served s (build_entry env get visit jitter fp os cn av own failed s)"
  by (simp add: same_served_def build_entry_def split: option.split prod.split)

lemma fetch_step_frame: "same_served s (fetch_step env get m ctx at addr addrs key todo sofar s)"
  by (simp add: same_served_def fetch_step_def stagePartialLiveEntry_def Let_def split: option.split prod.split)

lemma fetch_end_frame: "same_served s (fetch_end m ctx at files s)"
  by (simp add: same_served_def fetch_end_def split: option.split)

lemma promoteLiveEntry_simps:
  "ls_now (promoteLiveEntry env key e s) = ls_now s"
  "ls_retired (promoteLiveEntry env key e s) = (case ls_current s key of None \<Rightarrow> ls_retired s
     | Some old \<Rightarrow> (ls_retired s)(key := filter (\<lambda>(_, at). ls_now s - liveRetiredRetention < at) (ls_retired s key) @ [(old, ls_now s)]))"
  "ls_current (promoteLiveEntry env key e s) k =
     (if k = key then Some e else case ls_current s k of None \<Rightarrow> None
      | Some x \<Rightarrow> if \<not> validOSCodename env k \<and> le_built x < ls_now s - liveRetiredRetention then None else Some x)"
  by (auto simp: promoteLiveEntry_def Let_def retireLiveEntryLocked_def sweepExpiredLiveCache_def split: option.split)

text \<open>Every step is a promotion, an extension, the passing of time, or leaves what is served as it was.\<close>

lemma lstep_served:
  assumes "lstep env s l s'"
  obtains (same) "same_served s s'"
  | (time) d where "0 \<le> d" "s' = s\<lparr>ls_now := ls_now s + d\<rparr>"
  | (promoted) key e ts s1 where "same_served s s1" "s' = spawn ts (promoteLiveEntry env key e s1)"
  | (extended) key e jitter where "ls_now s' = ls_now s" "ls_retired s' = ls_retired s" "l = (if ls_current s key = Some e then Quiet else Clobbered key)"
      "ls_current s' = (ls_current s)(key \<mapsto> extendExpiry env jitter (ls_alloc s) (ls_now s) e)"
  using assms
proof cases
  case (request os cn)
  show ?thesis by (rule same) (simp add: request getLive_frame)
next
  case (receive e addrs ident os cn)
  show ?thesis by (rule same) (simp add: receive handleLiveUpdatedMessage_frame)
next
  case (wake t key e at)
  show ?thesis by (rule same) (use promoteStagedEntry_frame[of "exits t s" key e] in \<open>simp add: wake same_served_def\<close>)
next
  case (promote t key e own)
  show ?thesis by (rule promoted[of "exits t s"]) (simp_all add: promote same_served_def)
next
  case (build t os cn visit mismatch av get jitter fp)
  show ?thesis
    by (rule same) (use build_entry_frame[of "exits t s" env get visit jitter fp os cn av] in \<open>simp add: build same_served_def\<close>)
next
  case (cold t os cn visit av get jitter fp)
  show ?thesis
    by (rule same) (use build_entry_frame[of "exits t s" env get visit jitter fp os cn av] in \<open>simp add: cold same_served_def\<close>)
next
  case (extend t os cn existing jitter)
  show ?thesis by (rule extended[of "live_key os cn" existing jitter]) (simp_all add: extend extend_current_def)
next
  case (swap t os cn e fresh own)
  show ?thesis by (rule same) (use swapLiveEntry_frame[of "exits t s" env os cn e fresh own] in \<open>simp add: swap same_served_def\<close>)
next
  case (announce t os cn e sent)
  show ?thesis by (rule same) (use publishLiveUpdate_frame[of "exits t s" env os cn e sent] in \<open>simp add: announce same_served_def\<close>)
next
  case (mismatch t os cn)
  show ?thesis by (rule same) (use startMismatchRetry_frame[of "exits t s" os cn] in \<open>simp add: mismatch same_served_def\<close>)
next
  case (retry t os cn n av visit get jitter)
  show ?thesis
    by (rule same) (use build_entry_frame[of "exits t s" env get visit jitter "[]" os cn av] in \<open>simp add: retry same_served_def\<close>)
next
  case (fetch t m ctx at addr addrs key todo sofar get)
  show ?thesis
    by (rule same) (use fetch_step_frame[of "exits t s" env get m ctx at addr addrs key todo sofar] in \<open>simp add: fetch same_served_def\<close>)
next
  case (fetched t m ctx at addr addrs files)
  show ?thesis by (rule same) (use fetch_end_frame[of "exits t s" m ctx at files] in \<open>simp add: fetched same_served_def\<close>)
next
  case (stage t key e at)
  show ?thesis by (rule same) (use stageLiveEntry_frame[of "exits t s" key e at Nobody] in \<open>simp add: stage same_served_def\<close>)
qed (use time in \<open>auto simp: same_served_def intro!: same\<close>)

lemma lstep_time: "lstep env s l s' \<Longrightarrow> ls_now s \<le> ls_now s'"
  by (erule lstep_served) (auto simp: same_served_def promoteLiveEntry_simps)

lemma lrun_time: "lrun env s ls s' \<Longrightarrow> ls_now s \<le> ls_now s'"
  by (induction rule: lrun.induct) (auto dest: lstep_time)


section \<open>A generation stays fetchable by hash\<close>

text \<open>A generation is current, or was retired at \<open>t\<close> or later.\<close>

definition retired_with :: "string \<Rightarrow> liveEntry \<Rightarrow> int \<Rightarrow> live_state \<Rightarrow> bool" where
  "retired_with key e t s \<longleftrightarrow> (\<exists>r at. (r, at) \<in> set (ls_retired s key) \<and> le_files r = le_files e \<and> le_hashes r = le_hashes e \<and> t \<le> at)"

definition keeps :: "string \<Rightarrow> liveEntry \<Rightarrow> int \<Rightarrow> live_state \<Rightarrow> bool" where
  "keeps key e t s \<longleftrightarrow> (\<exists>c. ls_current s key = Some c \<and> le_files c = le_files e \<and> le_hashes c = le_hashes e) \<or> retired_with key e t s"

lemma retired_step:
  assumes "lstep env s l s'" "retired_with key e t s" "ls_now s' < t + liveRetiredRetention"
  shows "retired_with key e t s'"
  using assms(1)
proof (cases rule: lstep_served)
  case (promoted k x ts s1)
  have eq: "ls_now s1 = ls_now s" "ls_current s1 = ls_current s" "ls_retired s1 = ls_retired s" using promoted(1) by (simp_all add: same_served_def)
  have "ls_now s' = ls_now s" by (simp add: promoted(2) promoteLiveEntry_simps eq)
  then show ?thesis
    using assms(2,3) unfolding retired_with_def promoted(2) spawn_simps promoteLiveEntry_simps eq
    by (cases "ls_current s k"; cases "k = key") (simp, simp, fastforce, simp)
qed (use assms(2) in \<open>simp_all add: same_served_def retired_with_def\<close>)

lemma keeps_step:
  assumes "lstep env s l s'" "keeps key e t s" "t \<le> ls_now s" "ls_now s' < t + liveRetiredRetention" "l \<noteq> Clobbered key"
    and "validOSCodename env key"
  shows "keeps key e t s'"
proof (cases "retired_with key e t s")
  case True
  then show ?thesis using retired_step[OF assms(1) _ assms(4)] by (simp add: keeps_def)
next
  case False
  then obtain c where c: "ls_current s key = Some c" "le_files c = le_files e" "le_hashes c = le_hashes e" using assms(2) by (auto simp: keeps_def)
  from assms(1) show ?thesis
  proof (cases rule: lstep_served)
    case (promoted k x ts s1)
    have eq: "ls_now s1 = ls_now s" "ls_current s1 = ls_current s" "ls_retired s1 = ls_retired s" using promoted(1) by (simp_all add: same_served_def)
    show ?thesis
    proof (cases "k = key")
      case True
      have "(c, ls_now s) \<in> set (ls_retired s' key)" by (simp add: promoted(2) promoteLiveEntry_simps eq True c(1))
      then show ?thesis using c assms(3) by (auto simp: keeps_def retired_with_def)
    next
      case False
      have "ls_current s' key = Some c" using False assms(6) by (simp add: promoted(2) promoteLiveEntry_simps eq c(1))
      then show ?thesis using c by (simp add: keeps_def)
    qed
  next
    case (extended k x jitter)
    show ?thesis
    proof (cases "k = key")
      case True
      then have "x = c" using extended(3) assms(5) c(1) by (auto split: if_splits)
      then show ?thesis using True c by (simp add: keeps_def extended(4) extendExpiry_def)
    qed (use c in \<open>simp add: keeps_def extended(4)\<close>)
  qed (use c in \<open>simp_all add: same_served_def keeps_def\<close>)
qed

lemma retired_run:
  assumes "lrun env s ls s'" "retired_with key e t s" "ls_now s' < t + liveRetiredRetention"
  shows "retired_with key e t s'"
  using assms
proof (induction rule: lrun.induct)
  case (snoc s ls s1 l s2)
  then show ?case using lstep_time[OF snoc.hyps(2)] retired_step[OF snoc.hyps(2)] by simp
qed simp

lemma keeps_run:
  assumes "lrun env s ls s'" "keeps key e t s" "t \<le> ls_now s" "ls_now s' < t + liveRetiredRetention" "Clobbered key \<notin> set ls"
    and "validOSCodename env key"
  shows "keeps key e t s'"
  using assms
proof (induction rule: lrun.induct)
  case (snoc s ls s1 l s2)
  have "ls_now s1 < t + liveRetiredRetention" using snoc.prems(3) lstep_time[OF snoc.hyps(2)] by simp
  then have "keeps key e t s1" using snoc by simp
  then show ?case
    by (rule keeps_step[OF snoc.hyps(2)]) (use snoc.prems lrun_time[OF snoc.hyps(1)] in auto)
qed simp

lemma find_total: "x \<in> set xs \<Longrightarrow> P x \<Longrightarrow> \<exists>y. List.find P xs = Some y"
  by (cases "List.find P xs") (auto simp: find_None_iff)

lemma lookupByHash_Some: "lookupByHash visit e hash = Some (d, k) \<Longrightarrow> (k, hash) \<in> set (visit (le_hashes e)) \<and> map_of (le_files e) k = Some d"
  by (auto simp: lookupByHash_def split: option.splits dest: find_SomeD)

lemma lookupByHash_finds:
  assumes "(k, hash) \<in> set (le_hashes e)" "map_of (le_files e) k \<noteq> None" "\<forall>xs. set (visit xs) = set xs"
  shows "lookupByHash visit e hash \<noteq> None"
proof -
  obtain y where y: "List.find (\<lambda>(k, h). h = hash \<and> map_of (le_files e) k \<noteq> None) (visit (le_hashes e)) = Some y"
    using find_total[of "(k, hash)" "visit (le_hashes e)" "\<lambda>(k, h). h = hash \<and> map_of (le_files e) k \<noteq> None"] assms by auto
  then show ?thesis using find_SomeD[OF y] by (auto simp: lookupByHash_def)
qed

lemma lookupByHash_cong: "le_files e = le_files e' \<Longrightarrow> le_hashes e = le_hashes e' \<Longrightarrow> lookupByHash visit e hash = lookupByHash visit e' hash"
  by (simp only: lookupByHash_def)

lemma resolveByHash_current: "lookupByHash visit cur hash \<noteq> None \<Longrightarrow> resolveByHash visit key cur hash s \<noteq> None"
  by (auto simp: resolveByHash_def Let_def split: option.splits)

lemma resolveByHash_retired:
  assumes "(r, at) \<in> set (ls_retired s key)" "lookupByHash visit r hash \<noteq> None" "ls_now s - liveRetiredRetention \<le> at"
  shows "resolveByHash visit key cur hash s \<noteq> None"
proof -
  let ?look = "\<lambda>e. map_option (\<lambda>(d, _). (d, le_built e)) (lookupByHash visit e hash)"
  let ?P = "\<lambda>(e, at). \<not> at < ls_now s - liveRetiredRetention \<and> ?look e \<noteq> None"
  obtain e x where f: "List.find ?P (rev (ls_retired s key)) = Some (e, x)"
    using find_total[of "(r, at)" "rev (ls_retired s key)" ?P] assms by auto
  have "?look e \<noteq> None" using find_SomeD[OF f] by simp
  then show ?thesis unfolding resolveByHash_def Let_def f by (auto split: option.split)
qed

lemma resolveByHash_entry:
  assumes "resolveByHash visit key cur hash s = Some (d, b)"
  shows "\<exists>e k. lookupByHash visit e hash = Some (d, k) \<and> (e = cur \<or> (\<exists>st. ls_staged s key = Some st \<and> e = sl_entry st) \<or>
    (\<exists>at. (e, at) \<in> set (ls_retired s key)))"
proof -
  let ?look = "\<lambda>e. map_option (\<lambda>(d, _). (d, le_built e)) (lookupByHash visit e hash)"
  have look: "\<exists>k. lookupByHash visit e hash = Some (d, k)" if "?look e = Some (d, b)" for e using that by auto
  consider "?look cur = Some (d, b)" | st where "ls_staged s key = Some st" "?look (sl_entry st) = Some (d, b)"
    | e at where "List.find (\<lambda>(e, at). \<not> at < ls_now s - liveRetiredRetention \<and> ?look e \<noteq> None) (rev (ls_retired s key)) = Some (e, at)" "?look e = Some (d, b)"
    using assms unfolding resolveByHash_def Let_def by (auto split: option.splits)
  then show ?thesis
  proof cases
    case (3 e at)
    then have "(e, at) \<in> set (ls_retired s key)" using find_SomeD by fastforce
    then show ?thesis using look[OF 3(2)] by blast
  qed (use look in blast)+
qed


section \<open>The bytes of a generation have the digests it lists\<close>

interpretation mem: file_sink memSink map_of "\<lambda>_. True"
  by unfold_locales (auto simp: memSink_def update_conv')

lemma mem_distinct: "write_all memSink ws b = (r, b') \<Longrightarrow> distinct (map fst b) \<Longrightarrow> distinct (map fst b')"
  by (induction ws arbitrary: b) (auto simp: memSink_def distinct_update)

lemma last_row_absent: "P \<notin> (\<lambda>(_, _, p). p) ` set rows \<Longrightarrow> last_row rows P = None"
  by (force simp: last_row_def map_of_eq_None_iff image_iff)

lemma release_lists_only:
  assumes "release_fits env inp files" "list_all file_ok files"
    and "\<And>f. f \<in> set files \<Longrightarrow> hf_sha256 f \<noteq> [] \<Longrightarrow> is_word (hf_sha256 f)" "\<And>f. f \<in> set files \<Longrightarrow> hf_sha512 f \<noteq> [] \<Longrightarrow> is_word (hf_sha512 f)"
    and "ParseRelease (buildRelease env inp files) = Inr rel" "rel_Files rel P = Some fe"
  shows "P \<in> hf_rel ` set files"
proof (rule ccontr)
  assume n: "P \<notin> hf_rel ` set files"
  let ?p = "map_values (reread (\<lambda>v. v)) (release_para env inp files)"
  have low: "Get ?p ''SHA256'' = Get ?p ''sha256''" "Get ?p ''SHA512'' = Get ?p ''sha512''" by (simp_all add: Get_def)
  note r256 = release_rows[OF assms(2), of hf_sha256 "''sha256''" env inp, OF assms(3)]
  note r512 = release_rows[OF assms(2), of hf_sha512 "''sha512''" env inp, OF assms(4)]
  have none: "last_row (if b then map (\<lambda>f. (get f, hf_size f, hf_rel f)) (filter (\<lambda>f. get f \<noteq> []) (sort_key hf_rel files)) else []) P = None" for b and get :: "hashedFile \<Rightarrow> string"
    by (rule last_row_absent) (use n in auto)
  have "rel_Files rel P = None"
    using assms(5) unfolding ParseRelease_def buildRelease_def StanzaString_parses[OF release_canonical[OF assms(1)]]
    by (auto simp: Let_def parseHashSection_rows low r256 r512 rows512 rows256 none)
  then show False using assms(6) by simp
qed

text \<open>Where the pairs of \<open>release_hashes\<close> come from.\<close>

definition hash_source :: "(string \<times> string) list \<Rightarrow> string \<times> string \<Rightarrow> bool" where
  "hash_source files x \<longleftrightarrow> (\<exists>key data rel path fe. (key, data) \<in> set files \<and> has_suffix key ''/Release'' \<and> ParseRelease data = Inr rel \<and>
     rel_Files rel path = Some fe \<and> x = (trim_suffix key ''Release'' @ fe_Path fe, fe_SHA256 fe))"

lemma release_hashes_from:
  assumes "x \<in> set (release_hashes visit files [])"
  shows "hash_source files x"
proof -
  have inner: "set (foldl (\<lambda>hs path. case rel_Files rel path of None \<Rightarrow> hs
      | Some fe \<Rightarrow> AList.update (trim_suffix key ''Release'' @ fe_Path fe) (fe_SHA256 fe) hs) hs paths) \<subseteq> set hs \<union> Collect (hash_source files)"
    if "(key, data) \<in> set files" "has_suffix key ''/Release''" "ParseRelease data = Inr rel" for key data rel hs paths
  proof (induction paths arbitrary: hs)
    case (Cons path paths)
    show ?case
    proof (cases "rel_Files rel path")
      case (Some fe)
      have "hash_source files (trim_suffix key ''Release'' @ fe_Path fe, fe_SHA256 fe)" using that Some unfolding hash_source_def by blast
      then show ?thesis using Cons[of "AList.update (trim_suffix key ''Release'' @ fe_Path fe) (fe_SHA256 fe) hs"]
          set_update_sub[of "trim_suffix key ''Release'' @ fe_Path fe" "fe_SHA256 fe" hs] Some by auto
    qed (use Cons in simp)
  qed simp
  have "set (release_hashes visit fs hs) \<subseteq> set hs \<union> Collect (hash_source files)" if "set fs \<subseteq> set files" for fs hs
    using that
  proof (induction fs arbitrary: hs)
    case (Cons f fs)
    obtain key data where f: "f = (key, data)" by fastforce
    have m: "(key, data) \<in> set files" using Cons.prems f by simp
    show ?case
    proof (cases "has_suffix key ''/Release'' \<and> (\<exists>rel. ParseRelease data = Inr rel)")
      case True
      then obtain rel where r: "has_suffix key ''/Release''" "ParseRelease data = Inr rel" by blast
      show ?thesis using inner[OF m r] Cons.IH[OF subset_trans[OF _ Cons.prems]] r by (simp add: release_hashes_def f) blast
    next
      case False
      then show ?thesis using Cons by (auto simp: release_hashes_def f split: sum.splits)
    qed
  qed (simp add: release_hashes_def)
  from this[OF order_refl, of "[]"] assms show ?thesis by auto
qed

text \<open>Digests are hexadecimal.\<close>

definition digests_ok :: "publish_env \<Rightarrow> bool" where
  "digests_ok env \<longleftrightarrow> (\<forall>d. hex_digest (pe_sha256 env d) \<and> hex_digest (pe_sha512 env d))"

text \<open>A path of the Release, as segments; a file of the sink at it is an encoded index with the digest the Release lists.\<close>

lemma listed_file:
  assumes "suite_fits env [] inp" "digests_ok env" "GenerateSuite env memSink [] inp [] = (None, files)"
    and "ParseRelease (buildRelease env inp (index_files env inp (binary_jobs inp @ sources_jobs inp))) = Inr rel" "rel_Files rel P = Some fe"
    and "map_of files (join ''/'' (suite_segs [] inp) @ ''/'' @ fe_Path fe) = Some d"
  shows "fe_SHA256 fe = pe_sha256 env d"
proof -
  let ?jobs = "binary_jobs inp @ sources_jobs inp" and ?files = "index_files env inp (binary_jobs inp @ sources_jobs inp)"
  let ?release = "buildRelease env inp ?files" and ?H = "hashTypesForHashing (in_HashTypes inp)"
  let ?ws = "suite_writes env [] inp ?release"
  have hex: "\<And>d. hex_digest (pe_sha256 env d)" "\<And>d. hex_digest (pe_sha512 env d)" using assms(2) by (auto simp: digests_ok_def)
  note fits = assms(1)[unfolded suite_fits_def]
  have ok: "suite_ok [] inp" and h256: "''sha256'' \<in> set (activeHashTypes (in_HashTypes inp))"
    and rf: "release_fits env inp ?files" and small: "list_all (\<lambda>f. hf_size f < 2 ^ 63) ?files" using fits by blast+
  note W = GenerateSuite_writes[OF assms(3)]
  note dist = index_files_distinct[OF ok W(2)]
  have word: "hex_digest h \<Longrightarrow> is_word h" for h using hex_name by (simp add: name_ok_def)
  have w256: "is_word (hf_sha256 f)" and w512: "hf_sha512 f \<noteq> [] \<Longrightarrow> is_word (hf_sha512 f)" and sz: "0 \<le> hf_size f" if "f \<in> set ?files" for f
    using index_file_hashed[OF that] sha256_always word hex by (auto simp: hashBytes_def split: if_splits)
  have fok: "list_all file_ok ?files" using dist(2) sz small by (auto simp: list_all_iff file_ok_def)
  obtain rel' where rel': "ParseRelease ?release = Inr rel'"
      "\<forall>f\<in>set ?files. hf_sha256 f \<noteq> [] \<longrightarrow> (\<exists>fe. rel_Files rel' (hf_rel f) = Some fe \<and> fe_Path fe = hf_rel f \<and> fe_Size fe = hf_size f \<and> fe_SHA256 fe = hf_sha256 f)"
    using release_lists[OF rf fok dist(1) _ _ h256] w256 w512 by blast
  then have eq: "rel' = rel" using assms(4) by simp
  have "P \<in> hf_rel ` set ?files" using release_lists_only[OF rf fok _ _ assms(4,5)] w256 w512 by blast
  then obtain f where f: "f \<in> set ?files" "hf_rel f = P" by blast
  have "hf_sha256 f \<noteq> []" using w256[OF f(1)] by (simp add: is_word_def)
  then have fe: "fe_Path fe = P" "fe_SHA256 fe = hf_sha256 f" using rel'(2) f assms(5) eq by fastforce+
  have "P \<in> set (map hf_rel ?files)" using f by force
  then obtain r s where rs: "P = r @ s" "r \<in> fst ` set ?jobs" "s \<in> insert [] (set (map fst (variants env (in_Compression inp))))"
    unfolding index_files_rels[OF W(2)] by (auto split: if_splits)
  obtain stz where job: "(r, stz) \<in> set ?jobs" using rs(2) by force
  obtain c dir n where sh: "r = join ''/'' [c, dir, n]" "name_ok c" "name_ok dir" "n \<in> {''Packages'', ''Sources''}"
    using job_shape[OF ok job] by blast
  let ?segs = "[c, dir, n @ s]"
  have "s \<in> {[], ''.xz'', ''.gz'', ''.zst''}" using rs(3) variants_suffixes(2)[of env "in_Compression inp"] by auto
  then have names: "list_all name_ok ?segs" using sh name_suffix by simp
  have P: "P = join ''/'' ?segs" using rs(1) sh(1) by simp
  have at: "join ''/'' (suite_segs [] inp) @ ''/'' @ P = join ''/'' (suite_segs [] inp @ ?segs)"
    unfolding P by (rule join_sep_append[symmetric]) (simp_all add: suite_segs_def)
  have "map_of (rev ?ws) (join ''/'' (suite_segs [] inp @ ?segs)) = Some d"
    using mem.write_all_content[OF W(1), of "join ''/'' (suite_segs [] inp @ ?segs)"] assms(6) unfolding fe at
    by (auto simp: list_all_iff split: option.splits)
  then have wr: "(join ''/'' (suite_segs [] inp @ ?segs), d) \<in> set ?ws" by (metis map_of_SomeD set_rev)
  from write_shape[OF ok hex(1) wr] obtain segs' where s': "list_all name_ok segs'" "segs' \<noteq> []"
      "join ''/'' (suite_segs [] inp @ ?segs) = join ''/'' (suite_segs [] inp @ segs')"
      "length segs' = 1 \<or> (\<exists>path. index_at env inp segs' path d) \<or> length segs' = 5" by blast
  have "segs' = ?segs" using below_suite(2)[OF ok names _ s'(1-3)] by simp
  then obtain path where ia: "index_at env inp ?segs path d" using s'(4) by auto
  have path: "path = P" using index_at_segs(3)[OF ia hex(1)[of d]] P by simp
  obtain c' dir' n' stanzas suf enc where i: "path = join ''/'' [c', dir', n'] @ suf" "(join ''/'' [c', dir', n'], stanzas) \<in> set ?jobs"
      "(suf, enc) \<in> set (variants env (in_Compression inp))" "enc (stanza_text stanzas) = Some d"
    using ia unfolding index_at_def by blast
  have "index_job env inp (join ''/'' [c', dir', n']) stanzas \<noteq> None" using bspec[OF W(2) i(2)] by simp
  from index_write_in[OF i(2) this i(3)] obtain d' where d': "enc (stanza_text stanzas) = Some d'"
      "(hashBytes env ?H d')\<lparr>hf_rel := join ''/'' [c', dir', n'] @ suf\<rparr> \<in> set ?files" by metis
  let ?g = "(hashBytes env ?H d)\<lparr>hf_rel := P\<rparr>"
  have g: "?g \<in> set ?files" using d' i(1,4) path by simp
  have "f = ?g" using dist(1) f g by (simp add: distinct_map inj_on_def)
  then show ?thesis using fe(2) sha256_always by simp
qed

lemma release_key:
  assumes "suite_fits env [] inp" "digests_ok env" "GenerateSuite env memSink [] inp [] = (None, files)"
    and "(key, data) \<in> set files" "has_suffix key ''/Release''"
  shows "key = join ''/'' (suite_segs [] inp) @ ''/Release'' \<and> data = buildRelease env inp (index_files env inp (binary_jobs inp @ sources_jobs inp))"
proof -
  let ?release = "buildRelease env inp (index_files env inp (binary_jobs inp @ sources_jobs inp))"
  let ?ws = "suite_writes env [] inp ?release"
  have ok: "suite_ok [] inp" using assms(1) by (simp add: suite_fits_def)
  have hex: "\<And>d. hex_digest (pe_sha256 env d)" using assms(2) by (simp add: digests_ok_def)
  note W = GenerateSuite_writes[OF assms(3)]
  have "map_of files key = Some data" using assms(4) mem_distinct[OF W(1)] by simp
  then have "map_of (rev ?ws) key = Some data"
    using mem.write_all_content[OF W(1), of key] by (auto simp: list_all_iff split: option.splits)
  then have "(key, data) \<in> set ?ws" by (metis map_of_SomeD set_rev)
  from write_shape[OF ok hex this] obtain segs where s: "list_all name_ok segs" "segs \<noteq> []" "key = join ''/'' (suite_segs [] inp @ segs)"
      "length segs = 1 \<and> (segs = [''Release''] \<longrightarrow> data = ?release) \<or> length segs = 3 \<and> (\<exists>path. index_at env inp segs path data) \<or>
       length segs = 5 \<and> last segs = pe_sha256 env data" by blast
  let ?pre = "join ''/'' (suite_segs [] inp @ butlast segs)"
  have "key = ?pre @ ''/'' @ last segs"
  proof -
    have "suite_segs [] inp @ segs = (suite_segs [] inp @ butlast segs) @ [last segs]" using s(2) by simp
    then show ?thesis unfolding s(3) by (metis append_Nil append_is_Nil_conv join_sep_append join.simps(2) list.distinct(1) suite_segs_def)
  qed
  moreover have "CHR ''/'' \<notin> set (last segs)" using s(1,2) by (auto simp: list_all_iff name_ok_def plain_seg_def)
  ultimately have l: "last segs = ''Release''"
  proof -
    assume k: "key = ?pre @ ''/'' @ last segs" and nos: "CHR ''/'' \<notin> set (last segs)"
    obtain x where "key = x @ ''/'' @ ''Release''" using assms(5) by (auto simp: has_suffix_iff)
    then have "cut_last CHR ''/'' key = Some (x, ''Release'')" using cut_last_append[of "CHR ''/''" "''Release''" x] by simp
    moreover have "cut_last CHR ''/'' key = Some (?pre, last segs)" using k cut_last_append[OF nos, of ?pre] by simp
    ultimately show ?thesis by simp
  qed
  have "length segs = 1"
  proof -
    have "\<not> index_at env inp segs path data" for path
      using l by (auto simp: index_at_def)
    moreover have "last segs \<noteq> pe_sha256 env data"
    proof
      assume "last segs = pe_sha256 env data"
      then have "hex_digest ''Release''" using hex[of data] l by simp
      then show False by (simp add: hex_digest_def is_digit_def less_eq_char_def)
    qed
    ultimately show ?thesis using s(4) by blast
  qed
  then have "segs = [''Release'']" using l by (cases segs) auto
  moreover have "suite_segs [] inp \<noteq> []" by (simp add: suite_segs_def)
  ultimately show ?thesis using s(3,4) join_sep_append[of "suite_segs [] inp" "[''Release'']" "''/''"] by simp
qed

definition digests_match :: "live_env \<Rightarrow> liveEntry \<Rightarrow> bool" where
  "digests_match env e \<longleftrightarrow> (\<forall>k h d. (k, h) \<in> set (le_hashes e) \<and> map_of (le_files e) k = Some d \<and> h \<noteq> [] \<longrightarrow> verifyByHash env d h)"

lemma generated_ok:
  assumes "generateLiveFiles env visit now av = Some (files, hashes)" "suite_fits (lv_publish env) [] (live_input env visit now av)"
    and "digests_ok (lv_publish env)" "le_files e = files" "le_hashes e = hashes"
  shows "digests_match env e"
  unfolding digests_match_def
proof (intro allI impI)
  fix k h d
  assume a: "(k, h) \<in> set (le_hashes e) \<and> map_of (le_files e) k = Some d \<and> h \<noteq> []"
  let ?inp = "live_input env visit now av"
  have g: "GenerateSuite (lv_publish env) memSink [] ?inp [] = (None, files)" "hashes = release_hashes visit files []"
    using assms(1) by (auto simp: generateLiveFiles_def split: prod.splits option.splits)
  have "hash_source files (k, h)" using a release_hashes_from unfolding assms(5) g(2) by blast
  then obtain key data rel path fe where s: "(key, data) \<in> set files" "has_suffix key ''/Release''" "ParseRelease data = Inr rel"
      "rel_Files rel path = Some fe" "k = trim_suffix key ''Release'' @ fe_Path fe" "h = fe_SHA256 fe"
    by (auto simp: hash_source_def)
  note key = release_key[OF assms(2,3) g(1) s(1,2)]
  have "trim_suffix ((join ''/'' (suite_segs [] ?inp) @ ''/'') @ ''Release'') ''Release'' = join ''/'' (suite_segs [] ?inp) @ ''/''"
    by (rule trim_suffix_append)
  then have "k = join ''/'' (suite_segs [] ?inp) @ ''/'' @ fe_Path fe" unfolding s(5) using key by simp
  then have "fe_SHA256 fe = pe_sha256 (lv_publish env) d"
    using listed_file[OF assms(2,3) g(1) _ s(4)] s(3) key a assms(4) by simp
  then show "verifyByHash env d h" by (simp add: verifyByHash_def s(6) equal_fold_def)
qed

text \<open>A notice of \<open>publishLiveUpdate\<close> carries inline only files it lists no digest of, so what a peer sends for the others
  has been compared with the digest.\<close>

definition notice_ok :: "liveUpdatedMsg \<Rightarrow> bool" where
  "notice_ok m \<longleftrightarrow> distinct (map fst (lm_Hashes m)) \<and> (\<forall>k. map_of (lm_Unhashed m) k \<noteq> None \<longrightarrow> hash_of (lm_Hashes m) k = [])"

definition fetched_ok :: "live_env \<Rightarrow> liveUpdatedMsg \<Rightarrow> (string \<times> string) list \<Rightarrow> bool" where
  "fetched_ok env m files \<longleftrightarrow>
     (\<forall>k d. map_of files k = Some d \<longrightarrow> hash_of (lm_Hashes m) k = [] \<or> verifyByHash env d (hash_of (lm_Hashes m) k))"

lemma live_notice_ok: "maps_ok e \<Longrightarrow> notice_ok (live_notice addrs ident os cn e)"
  by (auto simp: notice_ok_def live_notice_def maps_ok_def dest: map_of_SomeD)

lemma fetched_digests_match: "notice_ok m \<Longrightarrow> fetched_ok env m (le_files e) \<Longrightarrow> le_hashes e = lm_Hashes m \<Longrightarrow> digests_match env e"
  unfolding digests_match_def notice_ok_def fetched_ok_def hash_of_def by (metis map_of_is_SomeI option.simps(5))

lemma fetched_Nil: "fetched_ok env m []"
  by (simp add: fetched_ok_def)

lemma fetch_one_ok: "notice_ok m \<Longrightarrow> fetch_one env get addr m key = Some (data, net) \<Longrightarrow> fetched_ok env m files \<Longrightarrow>
    fetched_ok env m (AList.update key data files)"
  by (auto simp: fetch_one_def fetched_ok_def notice_ok_def update_conv' Let_def split: option.splits if_splits)

lemma fetchLiveFilesFrom_ok:
  "notice_ok m \<Longrightarrow> fetchLiveFilesFrom env get addr m todo files = Some files' \<Longrightarrow> fetched_ok env m files \<Longrightarrow> fetched_ok env m files'"
  by (induction todo arbitrary: files) (auto split: option.splits dest: fetch_one_ok)

lemma fetchLiveFiles_ok: "notice_ok m \<Longrightarrow> fetchLiveFiles env get m addrs = Some files \<Longrightarrow> fetched_ok env m files"
  by (induction addrs) (auto split: option.splits dest: fetchLiveFilesFrom_ok[OF _ _ fetched_Nil])

text \<open>Everything in the state is verified.\<close>

definition thread_ok :: "live_env \<Rightarrow> thread \<Rightarrow> bool" where
  "thread_ok env t = (case t of
       Sleeping _ e _ \<Rightarrow> digests_match env e | Promoting _ e _ \<Rightarrow> digests_match env e | Extending _ _ e \<Rightarrow> digests_match env e
     | Swapping _ _ e _ _ \<Rightarrow> digests_match env e | Announcing _ _ e \<Rightarrow> digests_match env e | Staging _ e _ \<Rightarrow> digests_match env e
     | Waiting m _ _ \<Rightarrow> notice_ok m | Fetching m _ _ _ _ sofar \<Rightarrow> notice_ok m \<and> fetched_ok env m sofar
     | _ \<Rightarrow> True)"

definition live_ok :: "live_env \<Rightarrow> live_state \<Rightarrow> bool" where
  "live_ok env s \<longleftrightarrow>
     (\<forall>k e. ls_current s k = Some e \<longrightarrow> digests_match env e) \<and> (\<forall>k st. ls_staged s k = Some st \<longrightarrow> digests_match env (sl_entry st)) \<and>
     (\<forall>k. \<forall>x \<in> set (ls_retired s k). digests_match env (fst x)) \<and> (\<forall>k m. ls_notices s k = Some m \<longrightarrow> notice_ok m) \<and>
     (\<forall>t \<in> set (ls_threads s). thread_ok env t)"

lemma live_ok_start: "live_ok env (live_start now)"
  by (simp add: live_ok_def live_start_def)

lemma live_ok_spawn [simp]: "live_ok env (spawn ts s) \<longleftrightarrow> live_ok env s \<and> (\<forall>t \<in> set ts. thread_ok env t)"
  by (auto simp: live_ok_def)

lemma live_ok_exits: "live_ok env s \<Longrightarrow> live_ok env (exits t s)"
  by (auto simp: live_ok_def dest: notin_set_remove1)

lemma live_ok_thread: "live_ok env s \<Longrightarrow> t \<in> set (ls_threads s) \<Longrightarrow> thread_ok env t"
  by (simp add: live_ok_def)

lemma live_ok_other [simp]:
  "live_ok env (s\<lparr>ls_now := n\<rparr>) = live_ok env s" "live_ok env (s\<lparr>ls_alloc := a\<rparr>) = live_ok env s"
  "live_ok env (s\<lparr>ls_building := b\<rparr>) = live_ok env s" "live_ok env (s\<lparr>ls_retrying := b\<rparr>) = live_ok env s"
  "live_ok env (s\<lparr>ls_adopting := ad\<rparr>) = live_ok env s" "live_ok env (s\<lparr>ls_cancelled := cs\<rparr>) = live_ok env s"
  "live_ok env (s\<lparr>ls_published := p\<rparr>) = live_ok env s"
  by (simp_all add: live_ok_def)

lemma live_ok_staged: "live_ok env s \<Longrightarrow> digests_match env (sl_entry st) \<Longrightarrow> live_ok env (s\<lparr>ls_staged := (ls_staged s)(key \<mapsto> st)\<rparr>)"
  by (auto simp: live_ok_def)

lemma live_ok_partial: "live_ok env s \<Longrightarrow> digests_match env e \<Longrightarrow> live_ok env (stagePartialLiveEntry key e at s)"
  by (simp add: stagePartialLiveEntry_def live_ok_staged)

lemma live_ok_notice: "live_ok env s \<Longrightarrow> notice_ok m \<Longrightarrow> live_ok env (s\<lparr>ls_notices := (ls_notices s)(key \<mapsto> m)\<rparr>)"
  by (auto simp: live_ok_def)

lemma live_ok_current: "live_ok env s \<Longrightarrow> digests_match env e \<Longrightarrow> live_ok env (s\<lparr>ls_current := (ls_current s)(key \<mapsto> e)\<rparr>)"
  by (auto simp: live_ok_def)

lemma live_ok_promote: "live_ok env s \<Longrightarrow> digests_match env e \<Longrightarrow> live_ok env (promoteLiveEntry env key e s)"
  by (auto simp: live_ok_def promoteLiveEntry_def Let_def retireLiveEntryLocked_def sweepExpiredLiveCache_def split: option.splits if_splits) (metis fst_conv)+

lemma thread_ok_after: "t \<in> set (after own) \<Longrightarrow> thread_ok env t"
  by (auto simp: after_def thread_ok_def split: owner.splits)

lemma live_ok_stage: "live_ok env s \<Longrightarrow> digests_match env e \<Longrightarrow> live_ok env (stageLiveEntry key e at own s)"
  using thread_ok_after by (auto simp: stageLiveEntry_def thread_ok_def intro!: live_ok_staged)

lemma live_ok_message: "live_ok env s \<Longrightarrow> notice_ok m \<Longrightarrow> live_ok env (handleLiveUpdatedMessage env m s)"
  by (auto simp: handleLiveUpdatedMessage_def Let_def thread_ok_def live_ok_notice split: option.split)

lemma buildOrAdopt_ok:
  assumes "live_ok env s" "buildOrAdoptLiveFiles env get visit jitter os cn av s = Some (files, hashes, bt, expiry, fresh)"
    and "suite_fits (lv_publish env) [] (live_input env visit (ls_now s) av)" "digests_ok (lv_publish env)" "le_files e = files" "le_hashes e = hashes"
  shows "digests_match env e"
proof (cases fresh)
  case True
  then have "generateLiveFiles env visit (ls_now s) av = Some (files, hashes)"
    using assms(2) by (auto simp: buildOrAdoptLiveFiles_def split: option.splits prod.splits)
  from generated_ok[OF this assms(3-6)] show ?thesis .
next
  case False
  then obtain bt' expiry' where "adoptLiveFromPeer env get os cn s = Some (files, hashes, bt', expiry')"
    using assms(2) by (auto simp: buildOrAdoptLiveFiles_def split: option.splits prod.splits if_splits)
  then obtain m where m: "ls_notices s (live_key os cn) = Some m" "hashes = lm_Hashes m" "fetchLiveFiles env get m (lm_Addrs m) = Some files"
    by (auto simp: adoptLiveFromPeer_def split: option.splits if_splits)
  have "notice_ok m" using assms(1) m(1) by (simp add: live_ok_def)
  then show ?thesis using fetched_digests_match fetchLiveFiles_ok m assms(5,6) by simp
qed

lemma live_ok_build:
  assumes "live_ok env s" "suite_fits (lv_publish env) [] (live_input env visit (ls_now s) av)" "digests_ok (lv_publish env)"
    and "\<forall>t \<in> set failed. thread_ok env t"
  shows "live_ok env (build_entry env get visit jitter fp os cn av own failed s)"
  using assms buildOrAdopt_ok[OF assms(1) _ assms(2,3)]
  by (auto simp: build_entry_def thread_ok_def split: option.split)

lemma live_ok_step:
  assumes "lstep env s l s'" "live_ok env s" "digests_ok (lv_publish env)" "\<forall>inp. l = Built inp \<longrightarrow> suite_fits (lv_publish env) [] inp"
  shows "live_ok env s'"
  using assms(1)
proof cases
  case (request os cn)
  then show ?thesis using assms(2) by (auto simp: getLive_def Let_def thread_ok_def split: option.split)
next
  case (receive e addrs ident os cn)
  then show ?thesis using assms(2) live_ok_message live_notice_ok by simp
next
  case (wake t key e at)
  then show ?thesis using live_ok_exits[OF assms(2), of t] live_ok_thread[OF assms(2), of t]
    by (auto simp: promoteStagedEntry_def thread_ok_def split: option.split)
next
  case (promote t key e own)
  then show ?thesis using live_ok_exits[OF assms(2), of t] live_ok_thread[OF assms(2), of t] thread_ok_after
    by (auto simp: thread_ok_def intro!: live_ok_promote)
next
  case (unchanged t os cn existing)
  then show ?thesis using live_ok_exits[OF assms(2), of t] assms(2) by (simp add: thread_ok_def live_ok_def)
next
  case (failure t os cn existing)
  then show ?thesis using live_ok_exits[OF assms(2), of t] assms(2) by (simp add: thread_ok_def live_ok_def)
next
  case (build t os cn visit mismatch av get jitter fp)
  then show ?thesis using live_ok_build[OF live_ok_exits[OF assms(2), of t]] assms(3,4) by (simp add: thread_ok_def)
next
  case (cold t os cn visit av get jitter fp)
  then show ?thesis using live_ok_build[OF live_ok_exits[OF assms(2), of t]] assms(3,4) by (simp add: thread_ok_def)
next
  case (extend t os cn existing jitter)
  have "digests_match env (extendExpiry env jitter (ls_alloc s) (ls_now s) existing)"
    using live_ok_thread[OF assms(2) extend(4)] extend by (simp add: thread_ok_def digests_match_def extendExpiry_def)
  then show ?thesis using live_ok_current[OF live_ok_exits[OF assms(2), of t]] extend
    by (simp add: extend_current_def thread_ok_def)
next
  case (swap t os cn e fresh own)
  then show ?thesis using live_ok_exits[OF assms(2), of t] live_ok_thread[OF assms(2), of t]
    by (auto simp: swapLiveEntry_def thread_ok_def intro!: live_ok_stage)
next
  case (announce t os cn e sent)
  then show ?thesis using live_ok_exits[OF assms(2), of t] by (auto simp: publishLiveUpdate_def split: option.split)
next
  case (mismatch t os cn)
  then show ?thesis using live_ok_exits[OF assms(2), of t] by (simp add: startMismatchRetry_def thread_ok_def)
next
  case (retry t os cn n av visit get jitter)
  then show ?thesis using live_ok_build[OF live_ok_exits[OF assms(2), of t]] assms(3,4) by (simp add: thread_ok_def)
next
  case (adopt t m ctx at)
  then show ?thesis using live_ok_exits[OF assms(2), of t] live_ok_thread[OF assms(2), of t] by (simp add: thread_ok_def fetched_Nil)
next
  case (fetch t m ctx at addr addrs key todo sofar get)
  have m: "notice_ok m" "fetched_ok env m sofar" using live_ok_thread[OF assms(2) fetch(4)] fetch by (simp_all add: thread_ok_def)
  show ?thesis
  proof (cases "fetch_one env get addr m key")
    case None
    then show ?thesis using fetch m(1) live_ok_exits[OF assms(2), of t] by (cases addrs) (simp_all add: fetch_step_def thread_ok_def fetched_Nil)
  next
    case (Some r)
    then obtain data net where r: "fetch_one env get addr m key = Some (data, net)" by (cases r) auto
    note f = fetch_one_ok[OF m(1) r m(2)]
    have "digests_match env \<lparr>le_id = i, le_av = None, le_files = AList.update key data sofar, le_hashes = lm_Hashes m, le_built = lm_BuiltAt m,
        le_expiry = lm_Expiry m, le_fingerprint = []\<rparr>" for i
      by (rule fetched_digests_match[OF m(1)]) (simp_all add: f)
    then show ?thesis using fetch m(1) f live_ok_exits[OF assms(2), of t]
      by (simp add: fetch_step_def r Let_def thread_ok_def live_ok_partial)
  qed
next
  case (fetched t m ctx at addr addrs files)
  have m: "notice_ok m" "fetched_ok env m files" using live_ok_thread[OF assms(2) fetched(4)] fetched by (simp_all add: thread_ok_def)
  have "digests_match env (adopted_entry m files i prev)" for i prev
    by (rule fetched_digests_match[OF m(1)]) (simp_all add: adopted_entry_def m(2))
  then show ?thesis using fetched live_ok_exits[OF assms(2), of t] by (simp add: fetch_end_def thread_ok_def split: option.split)
next
  case (stage t key e at)
  then show ?thesis using live_ok_exits[OF assms(2), of t] live_ok_thread[OF assms(2), of t] by (auto simp: thread_ok_def intro!: live_ok_stage)
qed (use assms(2) in \<open>auto simp: thread_ok_def intro: live_ok_exits\<close>)

text \<open>The builds of a run whose Release is within the limits of its reader.\<close>

definition builds_fit :: "live_env \<Rightarrow> label list \<Rightarrow> bool" where
  "builds_fit env ls \<longleftrightarrow> digests_ok (lv_publish env) \<and> (\<forall>inp. Built inp \<in> set ls \<longrightarrow> suite_fits (lv_publish env) [] inp)"

lemma live_ok_run: "lrun env s ls s' \<Longrightarrow> live_ok env s \<Longrightarrow> builds_fit env ls \<Longrightarrow> live_ok env s'"
  by (induction rule: lrun.induct) (auto simp: builds_fit_def intro: live_ok_step)

lemma lrun_append: "lrun env s1 ls2 s2 \<Longrightarrow> lrun env s ls1 s1 \<Longrightarrow> lrun env s (ls1 @ ls2) s2"
proof (induction rule: lrun.induct)
  case (snoc s0 ls s1 l s2)
  then show ?case using lrun.snoc[OF snoc.IH[OF snoc.prems] snoc.hyps(2)] by simp
qed simp

lemma resolveByHash_verified:
  assumes "live_ok env s" "digests_match env cur" "resolveByHash visit key cur hash s = Some (d, b)" "hash \<noteq> []" "\<forall>xs. set (visit xs) = set xs"
  shows "verifyByHash env d hash"
proof -
  obtain e k where e: "lookupByHash visit e hash = Some (d, k)" "digests_match env e"
    using resolveByHash_entry[OF assms(3)] assms(1,2) unfolding live_ok_def by (metis fst_conv)
  show ?thesis using lookupByHash_Some[OF e(1)] e(2) assms(4,5) by (auto simp: digests_match_def)
qed

text \<open>C5: A generation that this replica has served stays fetchable by hash.  Take any run of the replica in which the entry
  \<open>e\<close> was served at some moment, with a file and a digest for it; less than \<open>liveRetiredRetention\<close> (ten minutes, against the
  five for which a client may keep the Release) later a request that was handed the then current entry asks for
  that digest.  Whatever was built, adopted, staged or promoted in between, in whatever interleaving, the request is
  answered, and with bytes of that digest; unless a rebuild extended the expiry of an entry that had been replaced meanwhile
  (the last property of this theory shows that this can happen).\<close>

theorem by_hash_survives:
  assumes "lrun env (live_start t0) ls0 s0" "lrun env s0 ls1 s1" "lrun env s1 ls2 s2"
    and "ls_current s0 key = Some e" "(k, hash) \<in> set (le_hashes e)" "map_of (le_files e) k \<noteq> None" "hash \<noteq> []"
    and "ls_current s1 key = Some cur" "ls_now s2 < ls_now s0 + liveRetiredRetention"
    and "Clobbered key \<notin> set ls1" "builds_fit env (ls0 @ ls1 @ ls2)" "validOSCodename env key" "\<forall>xs. set (visit xs) = set xs"
  shows "\<exists>d at. resolveByHash visit key cur hash s2 = Some (d, at) \<and> verifyByHash env d hash"
proof -
  have "keeps key e (ls_now s0) s0" using assms(4) by (simp add: keeps_def)
  then have k: "keeps key e (ls_now s0) s1"
    by (rule keeps_run[OF assms(2)]) (use assms(9,10,12) lrun_time[OF assms(3)] in auto)
  have found: "lookupByHash visit x hash \<noteq> None" if "le_files x = le_files e" "le_hashes x = le_hashes e" for x
    using lookupByHash_finds[of k hash x visit] assms(5,6,13) that by simp
  have "resolveByHash visit key cur hash s2 \<noteq> None"
  proof (cases "retired_with key e (ls_now s0) s1")
    case True
    from retired_run[OF assms(3) this assms(9)] obtain r at where
      r: "(r, at) \<in> set (ls_retired s2 key)" "le_files r = le_files e" "le_hashes r = le_hashes e" "ls_now s0 \<le> at" by (auto simp: retired_with_def)
    then show ?thesis using resolveByHash_retired[OF r(1) found[OF r(2,3)]] assms(9) by simp
  next
    case False
    then have "le_files cur = le_files e" "le_hashes cur = le_hashes e" using k assms(8) by (auto simp: keeps_def)
    then show ?thesis using resolveByHash_current found by blast
  qed
  then obtain d at where d: "resolveByHash visit key cur hash s2 = Some (d, at)" by auto
  have "live_ok env s1" "live_ok env s2"
    using live_ok_run[OF lrun_append[OF assms(2,1)] live_ok_start] live_ok_run[OF lrun_append[OF assms(3) lrun_append[OF assms(2,1)]] live_ok_start] assms(11)
    by (auto simp: builds_fit_def)
  then have "verifyByHash env d hash"
    using resolveByHash_verified[OF _ _ d assms(7,13)] assms(8) by (simp add: live_ok_def)
  then show ?thesis using d by blast
qed



section \<open>One build per layout, and only complete generations\<close>

text \<open>The layouts for which a thread holds the build marker, and the retry marker.\<close>

definition owner_keys :: "owner \<Rightarrow> string list \<times> string list" where
  "owner_keys own = (case own of Builder os cn _ \<Rightarrow> ([live_key os cn], []) | Retrier os cn \<Rightarrow> ([], [live_key os cn]) | Nobody \<Rightarrow> ([], []))"

fun builder_keys :: "thread \<Rightarrow> string list" where
  "builder_keys (Rebuilding os cn) = [live_key os cn]"
| "builder_keys (Locking os cn) = [live_key os cn]"
| "builder_keys (Building os cn) = [live_key os cn]"
| "builder_keys (Cold os cn) = [live_key os cn]"
| "builder_keys (Extending os cn _) = [live_key os cn]"
| "builder_keys (Ending os cn _) = [live_key os cn]"
| "builder_keys (Swapping _ _ _ _ own) = fst (owner_keys own)"
| "builder_keys (Promoting _ _ own) = fst (owner_keys own)"
| "builder_keys _ = []"

fun retrier_keys :: "thread \<Rightarrow> string list" where
  "retrier_keys (Retrying os cn _) = [live_key os cn]"
| "retrier_keys (RetryEnding os cn) = [live_key os cn]"
| "retrier_keys (Swapping _ _ _ _ own) = snd (owner_keys own)"
| "retrier_keys (Promoting _ _ own) = snd (owner_keys own)"
| "retrier_keys _ = []"

definition held_by :: "(thread \<Rightarrow> string list) \<Rightarrow> live_state \<Rightarrow> string multiset" where
  "held_by f s = (\<Sum>t \<in># mset (ls_threads s). mset (f t))"

definition markers_ok :: "live_state \<Rightarrow> bool" where
  "markers_ok s \<longleftrightarrow> finite (ls_building s) \<and> finite (ls_retrying s) \<and> held_by builder_keys s = mset_set (ls_building s) \<and>
     held_by retrier_keys s = mset_set (ls_retrying s)"

lemma held_by_spawn [simp]: "held_by f (spawn ts s) = held_by f s + (\<Sum>t \<in># mset ts. mset (f t))"
  by (simp add: held_by_def)

lemma held_by_exits: "t \<in> set (ls_threads s) \<Longrightarrow> held_by f (exits t s) + mset (f t) = held_by f s"
  by (simp add: held_by_def flip: sum_mset.insert) (metis add.commute insert_DiffM image_mset_add_mset mset_remove1 set_mset_mset sum_mset.add_mset)

lemma held_by_same: "ls_threads s' = ls_threads s \<Longrightarrow> held_by f s' = held_by f s"
  by (simp add: held_by_def)

text \<open>A thread that goes on as threads with the same markers.\<close>

definition hands_over :: "thread \<Rightarrow> thread list \<Rightarrow> bool" where
  "hands_over t ts \<longleftrightarrow> (\<Sum>t \<in># mset ts. mset (builder_keys t)) = mset (builder_keys t) \<and> (\<Sum>t \<in># mset ts. mset (retrier_keys t)) = mset (retrier_keys t)"

lemma markers_handover:
  assumes "markers_ok s" "t \<in> set (ls_threads s)" "ls_building s' = ls_building s" "ls_retrying s' = ls_retrying s"
    and "\<exists>ts. ls_threads s' = remove1 t (ls_threads s) @ ts \<and> hands_over t ts"
  shows "markers_ok s'"
proof -
  obtain ts where ts: "ls_threads s' = remove1 t (ls_threads s) @ ts" "hands_over t ts" using assms(5) by blast
  have "held_by f s' = held_by f (exits t s) + (\<Sum>t \<in># mset ts. mset (f t))" for f using ts(1) by (simp add: held_by_def)
  then show ?thesis using assms(1,3,4) ts(2) held_by_exits[OF assms(2), of builder_keys] held_by_exits[OF assms(2), of retrier_keys]
    by (simp add: markers_ok_def hands_over_def)
qed

lemma after_keys: "(\<Sum>t \<in># mset (after own). mset (builder_keys t)) = mset (fst (owner_keys own))"
  "(\<Sum>t \<in># mset (after own). mset (retrier_keys t)) = mset (snd (owner_keys own))"
  by (simp_all add: after_def owner_keys_def split: owner.split)

lemma markers_start: "markers_ok (live_start now)"
  by (simp add: markers_ok_def live_start_def held_by_def)

lemma markers_request: "markers_ok s \<Longrightarrow> markers_ok (snd (getLive os cn s))"
  by (auto simp: getLive_def Let_def markers_ok_def held_by_def split: option.split)

lemma markers_spawn: "markers_ok s \<Longrightarrow> t \<in> set (ls_threads s) \<Longrightarrow> hands_over t ts \<Longrightarrow> markers_ok (spawn ts (exits t s))"
  by (rule markers_handover) auto

lemma marker_removed: "finite A \<Longrightarrow> add_mset k M = mset_set A \<Longrightarrow> M = mset_set (A - {k})"
  by (metis add_mset_remove_trivial finite_set_mset_mset_set mset_set.remove union_single_eq_member add_mset_add_single)

lemma markers_build:
  assumes "markers_ok s" "t \<in> set (ls_threads s)" "hands_over t failed" "owner_keys own = (builder_keys t, retrier_keys t)"
  shows "markers_ok (build_entry env get visit jitter fp os cn av own failed (exits t s))"
  by (rule markers_handover[OF assms(1,2)]) (use assms(3,4) in \<open>auto simp: build_entry_def hands_over_def split: option.split\<close>)

lemma stage_markers:
  assumes "owner_keys own = (builder_keys t, retrier_keys t)"
  shows "\<exists>ts. ls_threads (stageLiveEntry key e at own s) = ls_threads s @ ts \<and> hands_over t ts"
    "ls_building (stageLiveEntry key e at own s) = ls_building s" "ls_retrying (stageLiveEntry key e at own s) = ls_retrying s"
  using assms after_keys[of own] by (auto simp: stageLiveEntry_def hands_over_def)

lemma markers_step:
  assumes "lstep env s l s'" "markers_ok s"
  shows "markers_ok s'"
  using assms(1)
proof cases
  case (tick d)
  then show ?thesis using assms(2) by (simp add: markers_ok_def held_by_def)
next
  case (request os cn)
  then show ?thesis using markers_request[OF assms(2)] by simp
next
  case (receive e addrs ident os cn)
  then show ?thesis using assms(2)
    by (auto simp: handleLiveUpdatedMessage_def Let_def markers_ok_def held_by_def split: option.split)
next
  case (promote t key e own)
  show ?thesis
    by (rule markers_handover[OF assms(2) promote(4)])
      (auto simp: promote promoteLiveEntry_def Let_def retireLiveEntryLocked_def sweepExpiredLiveCache_def after_keys hands_over_def split: option.split)
next
  case (build t os cn visit mismatch av get jitter fp)
  show ?thesis unfolding build(2) by (rule markers_build[OF assms(2) build(4)]) (simp_all add: build(3) hands_over_def owner_keys_def)
next
  case (cold t os cn visit av get jitter fp)
  show ?thesis unfolding cold(2) by (rule markers_build[OF assms(2) cold(4)]) (simp_all add: cold(3) hands_over_def owner_keys_def)
next
  case (retry t os cn n av visit get jitter)
  show ?thesis unfolding retry(2) by (rule markers_build[OF assms(2) retry(4)]) (simp_all add: retry(3) hands_over_def owner_keys_def)
next
  case (swap t os cn e fresh own)
  let ?s = "if fresh \<and> lv_valkey env \<noteq> None then spawn [Announcing os cn e] (exits t s) else exits t s"
  have own: "owner_keys own = (builder_keys t, retrier_keys t)" by (simp add: swap)
  obtain ts where ts: "ls_threads s' = ls_threads ?s @ ts" "hands_over t ts"
    using stage_markers(1)[OF own, of "live_key os cn" e _ ?s] unfolding swap(2) swapLiveEntry_def by blast
  show ?thesis
    by (rule markers_handover[OF assms(2) swap(4)])
      (use ts stage_markers(2,3)[OF own] in \<open>auto simp: swap(2) swapLiveEntry_def hands_over_def\<close>)
next
  case (stage t key e at)
  have own: "owner_keys Nobody = (builder_keys t, retrier_keys t)" by (simp add: stage owner_keys_def)
  show ?thesis
    by (rule markers_handover[OF assms(2) stage(4)]) (use stage_markers[OF own, of key e at "exits t s"] in \<open>auto simp: stage(2)\<close>)
next
  case (mismatch t os cn)
  show ?thesis
  proof (cases "live_key os cn \<in> ls_retrying s")
    case True
    then show ?thesis
      by (intro markers_handover[OF assms(2) mismatch(4)]) (auto simp: mismatch startMismatchRetry_def hands_over_def)
  next
    case False
    have "held_by f s' = held_by f (exits t s) + mset (f (Retrying os cn 0)) + mset (f (Ending os cn False))" for f
      using False by (simp add: mismatch startMismatchRetry_def held_by_def)
    then show ?thesis using False assms(2) held_by_exits[OF mismatch(4), of builder_keys] held_by_exits[OF mismatch(4), of retrier_keys]
      by (simp add: markers_ok_def mismatch startMismatchRetry_def)
  qed
next
  case (finish t os cn)
  have h: "held_by f s' + mset (f t) = held_by f s" for f using held_by_exits[OF finish(4), of f] by (simp add: finish held_by_def)
  then have b: "add_mset (live_key os cn) (held_by builder_keys s') = mset_set (ls_building s)" "held_by retrier_keys s' = mset_set (ls_retrying s)"
    using h[of builder_keys] h[of retrier_keys] assms(2) by (simp_all add: markers_ok_def finish)
  then show ?thesis using marker_removed[OF _ b(1)] assms(2) by (simp add: markers_ok_def finish)
next
  case (retry_end t os cn)
  have h: "held_by f s' + mset (f t) = held_by f s" for f using held_by_exits[OF retry_end(4), of f] by (simp add: retry_end held_by_def)
  then have b: "add_mset (live_key os cn) (held_by retrier_keys s') = mset_set (ls_retrying s)" "held_by builder_keys s' = mset_set (ls_building s)"
    using h[of builder_keys] h[of retrier_keys] assms(2) by (simp_all add: markers_ok_def retry_end)
  then show ?thesis using marker_removed[OF _ b(1)] assms(2) by (simp add: markers_ok_def retry_end)
next
  case (wake t key e at)
  show ?thesis
    by (rule markers_handover[OF assms(2) wake(4)]) (auto simp: wake promoteStagedEntry_def owner_keys_def hands_over_def split: option.split)
next
  case (announce t os cn e sent)
  show ?thesis
    by (rule markers_handover[OF assms(2) announce(4)]) (auto simp: announce publishLiveUpdate_def hands_over_def split: option.split)
next
  case (fetch t m ctx at addr addrs key todo sofar get)
  show ?thesis
    by (rule markers_handover[OF assms(2) fetch(4)])
      (auto simp: fetch fetch_step_def Let_def stagePartialLiveEntry_def hands_over_def split: option.split)
next
  case (fetched t m ctx at addr addrs files)
  show ?thesis
    by (rule markers_handover[OF assms(2) fetched(4)]) (auto simp: fetched fetch_end_def hands_over_def split: option.split)
next
  case (extend t os cn existing jitter)
  show ?thesis by (rule markers_handover[OF assms(2) extend(4)]) (simp_all add: extend extend_current_def hands_over_def)
next
  case (adopt t m ctx at)
  show ?thesis by (rule markers_handover[OF assms(2) adopt(4)]) (simp_all add: adopt hands_over_def)
next
  case (cancelled t m ctx at)
  show ?thesis by (rule markers_handover[OF assms(2) cancelled(4)]) (simp_all add: cancelled hands_over_def)
qed (auto intro!: markers_spawn[OF assms(2)] simp: hands_over_def)

text \<open>A generation with a view is complete: the partial generations of an adoption have none.\<close>

definition thread_whole :: "thread \<Rightarrow> bool" where
  "thread_whole t = (case t of Sleeping _ e _ \<Rightarrow> le_av e \<noteq> None | Promoting _ e _ \<Rightarrow> le_av e \<noteq> None | Extending _ _ e \<Rightarrow> le_av e \<noteq> None
     | Swapping _ _ e _ _ \<Rightarrow> le_av e \<noteq> None | Staging _ e _ \<Rightarrow> le_av e \<noteq> None | _ \<Rightarrow> True)"

definition whole :: "live_state \<Rightarrow> bool" where
  "whole s \<longleftrightarrow> (\<forall>k e. ls_current s k = Some e \<longrightarrow> le_av e \<noteq> None) \<and> (\<forall>t \<in> set (ls_threads s). thread_whole t)"

lemma whole_spawn [simp]: "whole (spawn ts s) \<longleftrightarrow> whole s \<and> (\<forall>t \<in> set ts. thread_whole t)"
  by (auto simp: whole_def)

lemma whole_exits: "whole s \<Longrightarrow> whole (exits t s)"
  by (auto simp: whole_def dest: notin_set_remove1)

lemma whole_cong: "ls_current s' = ls_current s \<Longrightarrow> ls_threads s' = ls_threads s \<Longrightarrow> whole s' = whole s"
  by (simp add: whole_def)

lemma whole_other [simp]:
  "whole (s\<lparr>ls_now := n\<rparr>) = whole s" "whole (s\<lparr>ls_alloc := a\<rparr>) = whole s" "whole (s\<lparr>ls_building := b\<rparr>) = whole s"
  "whole (s\<lparr>ls_retrying := b\<rparr>) = whole s" "whole (s\<lparr>ls_adopting := ad\<rparr>) = whole s" "whole (s\<lparr>ls_cancelled := cs\<rparr>) = whole s"
  "whole (s\<lparr>ls_published := p\<rparr>) = whole s" "whole (s\<lparr>ls_staged := st\<rparr>) = whole s" "whole (s\<lparr>ls_notices := ns\<rparr>) = whole s"
  by (simp_all add: whole_def)

lemma after_whole: "t \<in> set (after own) \<Longrightarrow> thread_whole t"
  by (auto simp: after_def thread_whole_def split: owner.splits)

lemma whole_promote: "whole s \<Longrightarrow> le_av e \<noteq> None \<Longrightarrow> whole (promoteLiveEntry env key e s)"
  by (auto simp: whole_def promoteLiveEntry_def Let_def retireLiveEntryLocked_def sweepExpiredLiveCache_def split: option.splits if_splits)

lemma whole_stage: "whole s \<Longrightarrow> le_av e \<noteq> None \<Longrightarrow> whole (stageLiveEntry key e at own s)"
  using after_whole by (auto simp: stageLiveEntry_def thread_whole_def)

lemma whole_build: "whole s \<Longrightarrow> \<forall>t \<in> set failed. thread_whole t \<Longrightarrow> whole (build_entry env get visit jitter fp os cn av own failed s)"
  by (auto simp: build_entry_def thread_whole_def split: option.split)

lemma whole_step:
  assumes "lstep env s l s'" "whole s"
  shows "whole s'"
proof -
  have th: "thread_whole t" if "t \<in> set (ls_threads s)" for t using assms(2) that by (simp add: whole_def)
  have cur: "le_av e \<noteq> None" if "ls_current s k = Some e" for k e using assms(2) that by (auto simp: whole_def)
  note ex = whole_exits[OF assms(2)]
  from assms(1) show ?thesis
  proof cases
    case (request os cn)
    then show ?thesis using assms(2) by (auto simp: getLive_def Let_def thread_whole_def split: option.split)
  next
    case (receive e addrs ident os cn)
    then show ?thesis using assms(2) by (auto simp: handleLiveUpdatedMessage_def Let_def thread_whole_def split: option.split)
  next
    case (wake t key e at)
    then show ?thesis using ex[of t] th[of t] by (auto simp: promoteStagedEntry_def thread_whole_def split: option.split)
  next
    case (promote t key e own)
    then show ?thesis using ex[of t] th[of t] after_whole by (auto simp: thread_whole_def intro!: whole_promote)
  next
    case (build t os cn visit mismatch av get jitter fp)
    then show ?thesis using ex[of t] by (simp add: whole_build thread_whole_def)
  next
    case (cold t os cn visit av get jitter fp)
    then show ?thesis using ex[of t] by (simp add: whole_build thread_whole_def)
  next
    case (retry t os cn n av visit get jitter)
    then show ?thesis using ex[of t] by (simp add: whole_build thread_whole_def)
  next
    case (extend t os cn existing jitter)
    then show ?thesis using ex[of t] th[of t] by (auto simp: extend_current_def extendExpiry_def whole_def thread_whole_def)
  next
    case (swap t os cn e fresh own)
    then show ?thesis using ex[of t] th[of t] by (auto simp: swapLiveEntry_def thread_whole_def intro!: whole_stage)
  next
    case (announce t os cn e sent)
    then show ?thesis using ex[of t] by (auto simp: publishLiveUpdate_def split: option.split)
  next
    case (mismatch t os cn)
    then show ?thesis using ex[of t] by (simp add: startMismatchRetry_def thread_whole_def)
  next
    case (fetch t m ctx at addr addrs key todo sofar get)
    then show ?thesis using ex[of t] by (auto simp: fetch_step_def Let_def stagePartialLiveEntry_def thread_whole_def split: option.split)
  next
    case (fetched t m ctx at addr addrs files)
    then show ?thesis using ex[of t] cur by (auto simp: fetch_end_def adopted_entry_def thread_whole_def split: option.split)
  next
    case (stage t key e at)
    then show ?thesis using ex[of t] th[of t] by (auto simp: thread_whole_def intro!: whole_stage)
  qed (use assms(2) ex cur in \<open>auto simp: thread_whole_def\<close>)
qed

lemma keys_at_most_one: "length (builder_keys t) \<le> 1" "length (retrier_keys t) \<le> 1"
  by (cases t; auto simp: owner_keys_def split: owner.split)+

lemma held_by_count:
  assumes "\<And>t. length (f t) \<le> 1"
  shows "count (held_by f s) key = length (filter (\<lambda>t. key \<in> set (f t)) (ls_threads s))"
proof -
  have one: "count (mset (f t)) key = (if key \<in> set (f t) then 1 else 0)" for t
    using assms[of t] by (cases "f t") auto
  have "count (\<Sum>t \<in># mset ts. mset (f t)) key = length (filter (\<lambda>t. key \<in> set (f t)) ts)" for ts
    by (induction ts) (simp_all add: one)
  then show ?thesis by (simp add: held_by_def)
qed



section \<open>A run\<close>

text \<open>A replica without upstream architectures adopts a generation of a peer, serves it, lets it expire, decides in a rebuild
  that it is unchanged and, before it has extended it, adopts the next generation.\<close>

definition lw_replica :: live_env where
  "lw_replica = \<lparr>lv_layouts = [\<lparr>ly_OS = ''o'', ly_Codename = ''c'', ly_Component = ''m'', ly_Archs = [], ly_HashTypes = [''sha256''], ly_Upstreams = []\<rparr>],
     lv_refresh = 1, lv_compression = \<lparr>fc_GZip = None, fc_ZStd = None, fc_XZ = None\<rparr>, lv_publish = wit_pub, lv_valkey = Some ([''h''], ''me'')\<rparr>"

definition lw_files :: "nat \<Rightarrow> (string \<times> string) list" where
  "lw_files n = [(''k'', replicate n CHR ''x'')]"

definition lw_notice :: "nat \<Rightarrow> string \<Rightarrow> liveUpdatedMsg" where
  "lw_notice n h = \<lparr>lm_OS = ''o'', lm_Codename = ''c'', lm_Addrs = [''p''], lm_BuiltAt = 0, lm_Expiry = Some 1, lm_Hashes = [(''k'', h)], lm_Files = [''k''],
     lm_SourceID = ''peer'', lm_Unhashed = []\<rparr>"

definition lw_view :: Available where
  "lw_view = \<lparr>av_OS = ''o'', av_Codename = ''c'', av_Components = [], av_Arches = [], av_HasStaleMismatch = False, av_HasFetchFailure = False,
     av_Pkgs = Map.empty, av_ByPoolPath = Map.empty, av_Srcs = Map.empty, av_AllSrcs = []\<rparr>"

definition lw_entry :: "nat \<Rightarrow> nat \<Rightarrow> string \<Rightarrow> liveEntry" where
  "lw_entry i n h = \<lparr>le_id = i, le_av = Some (served_view lw_view), le_files = lw_files n, le_hashes = [(''k'', h)], le_built = 0, le_expiry = Some 1,
     le_fingerprint = []\<rparr>"

definition lw_state :: "int \<Rightarrow> nat \<Rightarrow> liveEntry option \<Rightarrow> stagedLiveEntry option \<Rightarrow> (liveEntry \<times> int) list \<Rightarrow> string set \<Rightarrow> nat option \<Rightarrow>
    liveUpdatedMsg \<Rightarrow> thread list \<Rightarrow> live_state" where
  "lw_state now alloc cur staged retired building adopting m threads =
     \<lparr>ls_now = now, ls_alloc = alloc, ls_current = Map.empty(''o/c'' := cur), ls_staged = Map.empty(''o/c'' := staged), ls_retired = (\<lambda>_. [])(''o/c'' := retired),
      ls_building = building, ls_retrying = {}, ls_adopting = Map.empty(''o/c'' := adopting), ls_cancelled = {0}, ls_notices = [''o/c'' \<mapsto> m], ls_published = [],
      ls_threads = threads\<rparr>"

lemma lw_key: "live_key ''o'' ''c'' = ''o/c''"
  by (simp add: live_key_def)

lemma lw_digest: "pe_sha256 (lv_publish lw_replica) d = (if length d < 20 then ''a'' else ''b'')"
  by (simp add: lw_replica_def wit_pub_def)

lemma lw_valid: "validOSCodename lw_replica ''o/c''"
  by (simp add: validOSCodename_def lw_replica_def live_key_def)

lemma lw_valkey: "lv_valkey lw_replica = Some ([''h''], ''me'')"
  by (simp add: lw_replica_def)

lemmas lw_state_simps = lw_state_def spawn_def exits_def lw_key

lemma lw_notice_from: "\<exists>e. maps_ok e \<and> lw_notice n h = live_notice [''p''] ''peer'' ''o'' ''c'' e" if "h \<noteq> []"
  using that by (intro exI[of _ "lw_entry 0 n h"]) (simp add: maps_ok_def lw_entry_def lw_files_def lw_notice_def live_notice_def hash_of_def)

lemma lw_receive: "h \<noteq> [] \<Longrightarrow> lstep lw_replica s Quiet (handleLiveUpdatedMessage lw_replica (lw_notice n h) s)"
  using lw_notice_from lstep.receive by metis

lemma lw_fetch_one:
  "equal_fold (if n < 20 then ''a'' else ''b'') h \<Longrightarrow> h \<noteq> [] \<Longrightarrow>
   fetch_one lw_replica (\<lambda>_. Some (replicate n CHR ''x'')) ''p'' (lw_notice n h) ''k'' = Some (replicate n CHR ''x'', True)"
  by (simp add: fetch_one_def lw_notice_def hash_of_def Let_def verifyByHash_def lw_digest)

lemma lw_order: "h \<noteq> [] \<Longrightarrow> fetchOrder (lw_notice n h) = [''k'']"
  by (simp add: fetchOrder_def lw_notice_def hash_of_def)

lemma lw_suite: "suite_fits wit_pub [] (live_input lw_replica (\<lambda>x. x) 0 lw_view)"
proof -
  let ?inp = "live_input lw_replica (\<lambda>x. x) 0 lw_view"
  define inp where "inp = \<lparr>in_OS = ''o'', in_Codename = ''c'', in_Suite = ''c'', in_Origin = ''debproxy'', in_Label = ''debproxy-live'',
     in_Description = ''debproxy live view of o/c'', in_Architectures = [], in_Components = [''m''], in_Stanzas = (\<lambda>_ _. []), in_SourceStanzas = [],
     in_Date = Some 0, in_Compression = DefaultLiveCompression, in_HashTypes = [''sha256''], in_SkipByHash = True\<rparr>"
  have inp: "?inp = inp"
    by (simp add: live_input_def inp_def lw_replica_def lw_view_def ComponentsAndArches_def HashTypesFor_def live_sources_def live_stanzas_def fun_eq_iff
        ResolveLive_def resolveLevelPtr_def xzEnabled_def DefaultLiveCompression_def Let_def)
  have jobs: "index_files wit_pub inp (binary_jobs inp @ sources_jobs inp) = []"
    by (simp add: inp_def index_files_def binary_jobs_def sources_jobs_def combos_def)
  have "list_all (\<lambda>(k, v). CR \<notin> set v \<and> length k + length v < 500) (paragraphFields (release_para wit_pub inp []))"
    unfolding inp_def by code_simp
  then have "release_fits wit_pub inp []" by (auto simp: release_fits_def list_all_iff max_index_token_def)
  moreover have "suite_ok [] inp" unfolding inp_def by code_simp
  ultimately show ?thesis unfolding inp suite_fits_def jobs by (simp add: inp_def activeHashTypes_def)
qed

abbreviation lw_A :: liveEntry where "lw_A \<equiv> lw_entry 1 1 ''a''"
abbreviation lw_B :: liveEntry where "lw_B \<equiv> lw_entry 4 20 ''b''"
abbreviation lw_mA :: liveUpdatedMsg where "lw_mA \<equiv> lw_notice 1 ''a''"
abbreviation lw_mB :: liveUpdatedMsg where "lw_mB \<equiv> lw_notice 20 ''b''"
abbreviation lw_at :: int where "lw_at \<equiv> 2 + liveSwitchoverDelay"

text \<open>A run without builds and without lost entries.\<close>

definition quiet_run :: "live_state \<Rightarrow> live_state \<Rightarrow> bool" where
  "quiet_run s s' \<longleftrightarrow> (\<exists>ls. lrun lw_replica s ls s' \<and> set ls \<subseteq> {Quiet})"

lemma quiet_nil: "quiet_run s s"
  using lrun.nil by (force simp: quiet_run_def)

lemma quiet_step: "quiet_run s s1 \<Longrightarrow> lstep lw_replica s1 Quiet s2 \<Longrightarrow> quiet_run s s2"
  using lrun.snoc by (fastforce simp: quiet_run_def)

lemma lw_promote:
  assumes "\<And>old. cur = Some old \<Longrightarrow> retired' = filter (\<lambda>(_, at). now - liveRetiredRetention < at) retired @ [(old, now)]" "cur = None \<Longrightarrow> retired' = retired"
    and "staged' = (case staged of Some st \<Rightarrow> if le_id (sl_entry st) = le_id e then None else Some st | None \<Rightarrow> None)"
    and "\<And>st. st = Promoting ''o/c'' e own \<Longrightarrow> remove1 st threads @ after own = threads'" "Promoting ''o/c'' e own \<in> set threads"
  shows "lstep lw_replica (lw_state now alloc cur staged retired building adopting m threads) Quiet
    (lw_state now alloc (Some e) staged' retired' building adopting m threads')"
proof -
  let ?s = "lw_state now alloc cur staged retired building adopting m threads"
  have eq: "spawn (after own) (promoteLiveEntry lw_replica ''o/c'' e (exits (Promoting ''o/c'' e own) ?s)) =
      lw_state now alloc (Some e) staged' retired' building adopting m threads'"
    using assms(1-4) lw_valid
    by (auto simp: promoteLiveEntry_def sweepExpiredLiveCache_def retireLiveEntryLocked_def lw_state_def spawn_def exits_def Let_def fun_eq_iff
        split: option.split)
  show ?thesis unfolding eq[symmetric] by (rule lstep.promote[OF refl]) (simp add: lw_state_def assms(5))
qed

text \<open>The first generation is adopted by the cold start and served.\<close>

lemma lw_served:
  "\<exists>ls. lrun lw_replica (live_start 0) ls (lw_state 0 2 (Some lw_A) None [] {''o/c''} None lw_mA [Ending ''o'' ''c'' False]) \<and> builds_fit lw_replica ls"
proof -
  let ?b = "Builder ''o'' ''c'' False" and ?get = "\<lambda>_. Some (replicate 1 CHR ''x'')"
  let ?s1 = "lw_state 0 1 None None [] {} None lw_mA []" and ?s2 = "lw_state 0 1 None None [] {''o/c''} None lw_mA [Cold ''o'' ''c'']"
  let ?s3 = "lw_state 0 2 None None [] {''o/c''} None lw_mA [Swapping ''o'' ''c'' lw_A False ?b]"
  let ?s4 = "lw_state 0 2 None None [] {''o/c''} None lw_mA [Promoting ''o/c'' lw_A ?b]"
  let ?s5 = "lw_state 0 2 (Some lw_A) None [] {''o/c''} None lw_mA [Ending ''o'' ''c'' False]"
  have "handleLiveUpdatedMessage lw_replica lw_mA (live_start 0) = ?s1"
    by (simp add: handleLiveUpdatedMessage_def lw_valkey live_start_def lw_state_def lw_notice_def live_key_def Let_def fun_eq_iff)
  then have 1: "lstep lw_replica (live_start 0) Quiet ?s1" using lw_receive[of "''a''" "live_start 0" 1] by simp
  have "snd (getLive ''o'' ''c'' ?s1) = ?s2" by (simp add: getLive_def lw_state_simps Let_def)
  then have 2: "lstep lw_replica ?s1 Quiet ?s2" using lstep.request[of lw_replica "''o''" "''c''" ?s1] lw_valid by (simp add: lw_key)
  have "fetchLiveFiles lw_replica ?get lw_mA [''p''] = Some (lw_files 1)"
    using lw_fetch_one[of 1 "''a''"] by (simp add: lw_order lw_files_def equal_fold_def)
  then have "adoptLiveFromPeer lw_replica ?get ''o'' ''c'' (exits (Cold ''o'' ''c'') ?s2) = Some (lw_files 1, [(''k'', ''a'')], 0, Some 1)"
    by (simp add: adoptLiveFromPeer_def lw_state_simps lw_notice_def)
  then have "build_entry lw_replica ?get (\<lambda>x. x) 0 [] ''o'' ''c'' lw_view ?b [Ending ''o'' ''c'' False] (exits (Cold ''o'' ''c'') ?s2) = ?s3"
    by (simp add: build_entry_def buildOrAdoptLiveFiles_def lw_valkey lw_state_simps lw_entry_def)
  then have 3: "lstep lw_replica ?s2 (Built (live_input lw_replica (\<lambda>x. x) 0 lw_view)) ?s3"
    using lstep.cold[OF refl, of "''o''" "''c''" ?s2 "\<lambda>x. x" lw_replica lw_view ?get 0 "[]"] by (simp add: lw_state_def lw_view_def)
  have "swapLiveEntry lw_replica ''o'' ''c'' lw_A False ?b (exits (Swapping ''o'' ''c'' lw_A False ?b) ?s3) = ?s4"
    by (simp add: swapLiveEntry_def stageLiveEntry_def lw_state_simps)
  then have 4: "lstep lw_replica ?s3 Quiet ?s4"
    using lstep.swap[OF refl, of "''o''" "''c''" lw_A False ?b ?s3 lw_replica] by (simp add: lw_state_def)
  have 5: "lstep lw_replica ?s4 Quiet ?s5" by (rule lw_promote) (simp_all add: after_def)
  let ?ls = "[Quiet, Quiet, Built (live_input lw_replica (\<lambda>x. x) 0 lw_view), Quiet, Quiet]"
  have "lrun lw_replica (live_start 0) ?ls ?s5"
    using lrun.snoc[OF lrun.snoc[OF lrun.snoc[OF lrun.snoc[OF lrun.snoc[OF lrun.nil 1] 2] 3] 4] 5] by simp
  moreover have "builds_fit lw_replica ?ls"
    using lw_suite by (simp add: builds_fit_def digests_ok_def lw_replica_def wit_pub_def hex_digest_def)
  ultimately show ?thesis by blast
qed

text \<open>It expires, a rebuild reads it to extend it, and meanwhile the next generation arrives and is promoted.\<close>

lemma lw_overtaken:
  "quiet_run (lw_state 0 2 (Some lw_A) None [] {''o/c''} None lw_mA [Ending ''o'' ''c'' False])
     (lw_state lw_at 5 (Some lw_B) None [(lw_A, lw_at)] {''o/c''} None lw_mB [Extending ''o'' ''c'' lw_A])"
proof -
  let ?x = "Extending ''o'' ''c'' lw_A" and ?get = "\<lambda>_. Some (replicate 20 CHR ''x'')"
  let ?s5 = "lw_state 0 2 (Some lw_A) None [] {''o/c''} None lw_mA [Ending ''o'' ''c'' False]"
  let ?s6 = "lw_state 0 2 (Some lw_A) None [] {} None lw_mA []" and ?s7 = "lw_state 2 2 (Some lw_A) None [] {} None lw_mA []"
  let ?s8 = "lw_state 2 2 (Some lw_A) None [] {''o/c''} None lw_mA [Rebuilding ''o'' ''c'']"
  let ?s9 = "lw_state 2 2 (Some lw_A) None [] {''o/c''} None lw_mA [?x]"
  let ?s10 = "lw_state 2 3 (Some lw_A) None [] {''o/c''} (Some 2) lw_mB [?x, Waiting lw_mB 2 lw_at]"
  let ?s11 = "lw_state 2 3 (Some lw_A) None [] {''o/c''} None lw_mB [?x, Fetching lw_mB 2 lw_at [''p''] [''k''] []]"
  let ?p = "\<lparr>sl_entry = \<lparr>le_id = 3, le_av = None, le_files = lw_files 20, le_hashes = [(''k'', ''b'')], le_built = 0, le_expiry = Some 1,
      le_fingerprint = []\<rparr>, sl_promoteAt = lw_at, sl_complete = False\<rparr>"
  let ?s12 = "lw_state 2 4 (Some lw_A) (Some ?p) [] {''o/c''} None lw_mB [?x, Fetching lw_mB 2 lw_at [''p''] [] (lw_files 20)]"
  let ?s13 = "lw_state 2 5 (Some lw_A) (Some ?p) [] {''o/c''} None lw_mB [?x, Staging ''o/c'' lw_B lw_at]"
  let ?c = "\<lparr>sl_entry = lw_B, sl_promoteAt = lw_at, sl_complete = True\<rparr>"
  let ?s14 = "lw_state 2 5 (Some lw_A) (Some ?c) [] {''o/c''} None lw_mB [?x, Sleeping ''o/c'' lw_B lw_at]"
  let ?s15 = "lw_state lw_at 5 (Some lw_A) (Some ?c) [] {''o/c''} None lw_mB [?x, Sleeping ''o/c'' lw_B lw_at]"
  let ?s16 = "lw_state lw_at 5 (Some lw_A) (Some ?c) [] {''o/c''} None lw_mB [?x, Promoting ''o/c'' lw_B Nobody]"
  let ?s17 = "lw_state lw_at 5 (Some lw_B) None [(lw_A, lw_at)] {''o/c''} None lw_mB [?x]"
  have delay: "0 < liveSwitchoverDelay" by (simp add: liveSwitchoverDelay_def second_def)
  have 6: "lstep lw_replica ?s5 Quiet ?s6"
    using lstep.finish[OF refl, of "''o''" "''c''" ?s5 lw_replica] by (simp add: lw_state_simps)
  have 7: "lstep lw_replica ?s6 Quiet ?s7" using lstep.tick[of 2 lw_replica ?s6] by (simp add: lw_state_def)
  have "snd (getLive ''o'' ''c'' ?s7) = ?s8" by (simp add: getLive_def lw_state_simps Let_def stale_def lw_entry_def)
  then have 8: "lstep lw_replica ?s7 Quiet ?s8" using lstep.request[of lw_replica "''o''" "''c''" ?s7] lw_valid by (simp add: lw_key)
  have 9: "lstep lw_replica ?s8 Quiet ?s9"
    using lstep.unchanged[OF refl, of "''o''" "''c''" ?s8 lw_A lw_replica] by (simp add: lw_state_simps)
  have "handleLiveUpdatedMessage lw_replica lw_mB ?s9 = ?s10"
    by (simp add: handleLiveUpdatedMessage_def lw_valkey lw_state_simps Let_def) (simp add: lw_notice_def lw_key)
  then have 10: "lstep lw_replica ?s9 Quiet ?s10" using lw_receive[of "''b''" ?s9 20] by simp
  have 11: "lstep lw_replica ?s10 Quiet ?s11"
    using lstep.adopt[OF refl, of lw_mB 2 lw_at ?s10 lw_replica] by (simp add: lw_state_simps lw_order) (simp add: lw_notice_def lw_key)
  have "fetch_one lw_replica ?get ''p'' lw_mB ''k'' = Some (replicate 20 CHR ''x'', True)"
    by (rule lw_fetch_one) (simp_all add: equal_fold_def)
  then have "fetch_step lw_replica ?get lw_mB 2 lw_at ''p'' [] ''k'' [] [] (exits (Fetching lw_mB 2 lw_at [''p''] [''k''] []) ?s11) = ?s12"
    by (simp add: fetch_step_def stagePartialLiveEntry_def lw_state_simps lw_files_def Let_def) (simp add: lw_notice_def lw_key)
  then have 12: "lstep lw_replica ?s11 Quiet ?s12"
    using lstep.fetch[OF refl, of lw_mB 2 lw_at "''p''" "[]" "''k''" "[]" "[]" ?s11 lw_replica ?get] by (simp add: lw_state_def)
  have "fetch_end lw_mB 2 lw_at (lw_files 20) (exits (Fetching lw_mB 2 lw_at [''p''] [] (lw_files 20)) ?s12) = ?s13"
    by (simp add: fetch_end_def lw_state_simps adopted_entry_def lw_notice_def lw_entry_def)
  then have 13: "lstep lw_replica ?s12 Quiet ?s13"
    using lstep.fetched[OF refl, of lw_mB 2 lw_at "''p''" "[]" "lw_files 20" ?s12 lw_replica] by (simp add: lw_state_def)
  have "stageLiveEntry ''o/c'' lw_B lw_at Nobody (exits (Staging ''o/c'' lw_B lw_at) ?s13) = ?s14"
    using delay by (simp add: stageLiveEntry_def lw_state_simps after_def)
  then have 14: "lstep lw_replica ?s13 Quiet ?s14"
    using lstep.stage[OF refl, of "''o/c''" lw_B lw_at ?s13 lw_replica] by (simp add: lw_state_def)
  have 15: "lstep lw_replica ?s14 Quiet ?s15" using lstep.tick[of liveSwitchoverDelay lw_replica ?s14] delay by (simp add: lw_state_def)
  have "promoteStagedEntry ''o/c'' lw_B (exits (Sleeping ''o/c'' lw_B lw_at) ?s15) = ?s16"
    by (simp add: promoteStagedEntry_def lw_state_simps)
  then have 16: "lstep lw_replica ?s15 Quiet ?s16"
    using lstep.wake[OF refl, of "''o/c''" lw_B lw_at ?s15 lw_replica] by (simp add: lw_state_def)
  have 17: "lstep lw_replica ?s16 Quiet ?s17" by (rule lw_promote) (simp_all add: after_def)
  show ?thesis
    using quiet_step[OF quiet_step[OF quiet_step[OF quiet_step[OF quiet_step[OF quiet_step[OF quiet_step[OF quiet_step[OF quiet_step[OF quiet_step[OF
      quiet_step[OF quiet_step[OF quiet_nil 6] 7] 8] 9] 10] 11] 12] 13] 14] 15] 16] 17] .
qed

text \<open>The rebuild then writes back the extended copy of the first.\<close>

abbreviation lw_promoted :: live_state where
  "lw_promoted \<equiv> lw_state lw_at 5 (Some lw_B) None [(lw_A, lw_at)] {''o/c''} None lw_mB [Extending ''o'' ''c'' lw_A]"

abbreviation lw_dropped :: live_state where
  "lw_dropped \<equiv> spawn [Ending ''o'' ''c'' False] (extend_current lw_replica 0 ''o/c'' lw_A (exits (Extending ''o'' ''c'' lw_A) lw_promoted))"

lemma lw_run: "\<exists>ls. lrun lw_replica (live_start 0) ls lw_promoted \<and> builds_fit lw_replica ls"
proof -
  obtain ls1 ls2 where r: "lrun lw_replica (live_start 0) ls1 (lw_state 0 2 (Some lw_A) None [] {''o/c''} None lw_mA [Ending ''o'' ''c'' False])"
      "builds_fit lw_replica ls1" "lrun lw_replica (lw_state 0 2 (Some lw_A) None [] {''o/c''} None lw_mA [Ending ''o'' ''c'' False]) ls2 lw_promoted" "set ls2 \<subseteq> {Quiet}"
    using lw_served lw_overtaken unfolding quiet_run_def by blast
  have "builds_fit lw_replica (ls1 @ ls2)" using r(2,4) by (auto simp: builds_fit_def)
  then show ?thesis using lrun_append[OF r(3,1)] by blast
qed

lemma lw_drop: "lstep lw_replica lw_promoted (Clobbered ''o/c'') lw_dropped"
proof -
  have "lw_A \<noteq> lw_B" by (simp add: lw_entry_def)
  then show ?thesis
    using lstep.extend[OF refl, of "''o''" "''c''" lw_A lw_promoted lw_replica 0] by (simp add: lw_state_def lw_key split: if_splits)
qed

lemma lw_missing:
  "ls_current lw_dropped ''o/c'' = Some (extendExpiry lw_replica 0 5 lw_at lw_A)" "ls_now lw_dropped = ls_now lw_promoted"
  "resolveByHash (\<lambda>x. x) ''o/c'' (extendExpiry lw_replica 0 5 lw_at lw_A) ''b'' lw_dropped = None"
proof -
  have "lookupByHash (\<lambda>x. x) lw_A ''b'' = None" "lookupByHash (\<lambda>x. x) (extendExpiry lw_replica 0 5 lw_at lw_A) ''b'' = None"
    by (simp_all add: lookupByHash_def lw_entry_def lw_files_def extendExpiry_def)
  then show "resolveByHash (\<lambda>x. x) ''o/c'' (extendExpiry lw_replica 0 5 lw_at lw_A) ''b'' lw_dropped = None"
    by (simp add: resolveByHash_def lw_state_def extend_current_def Let_def)
qed (simp_all add: lw_state_def extend_current_def)

text \<open>C25: The exception in the survival of generations happens.  In a run of the replica a generation has been promoted; a rebuild that had
  read the entry before it then writes back an extended copy of that one.  The promoted generation is not retired:
  one step after it was served, at the same instant, a request for its files by hash finds nothing.\<close>

theorem extension_drops_generation:
  "\<exists>env ls s1 s2 e cur. lrun env (live_start 0) ls s1 \<and> builds_fit env ls \<and> ls_current s1 ''o/c'' = Some e \<and>
     resolveByHash (\<lambda>x. x) ''o/c'' e ''b'' s1 \<noteq> None \<and> lstep env s1 (Clobbered ''o/c'') s2 \<and> ls_now s2 = ls_now s1 \<and>
     ls_current s2 ''o/c'' = Some cur \<and> resolveByHash (\<lambda>x. x) ''o/c'' cur ''b'' s2 = None"
proof -
  have "lookupByHash (\<lambda>x. x) lw_B ''b'' \<noteq> None" by (simp add: lookupByHash_def lw_entry_def lw_files_def)
  then have "resolveByHash (\<lambda>x. x) ''o/c'' lw_B ''b'' lw_promoted \<noteq> None" by (rule resolveByHash_current)
  moreover have "ls_current lw_promoted ''o/c'' = Some lw_B" by (simp add: lw_state_def)
  ultimately show ?thesis using lw_run lw_drop lw_missing by blast
qed

text \<open>After the promotion of the second generation the files of the first are still there.\<close>

theorem by_hash_survives_witness:
  "\<exists>d at. resolveByHash (\<lambda>x. x) ''o/c'' lw_B ''a'' (lw_state lw_at 5 (Some lw_B) None [(lw_A, lw_at)] {''o/c''} None lw_mB [Extending ''o'' ''c'' lw_A]) = Some (d, at) \<and>
     verifyByHash lw_replica d ''a''"
proof -
  let ?s0 = "lw_state 0 2 (Some lw_A) None [] {''o/c''} None lw_mA [Ending ''o'' ''c'' False]"
  let ?s1 = "lw_state lw_at 5 (Some lw_B) None [(lw_A, lw_at)] {''o/c''} None lw_mB [Extending ''o'' ''c'' lw_A]"
  obtain ls1 ls2 where r: "lrun lw_replica (live_start 0) ls1 ?s0" "builds_fit lw_replica ls1" "lrun lw_replica ?s0 ls2 ?s1" "set ls2 \<subseteq> {Quiet}"
    using lw_served lw_overtaken unfolding quiet_run_def by blast
  show ?thesis
    by (rule by_hash_survives[OF r(1,3) lrun.nil, where e = lw_A and k = "''k''"])
      (use r(2,4) lw_valid in \<open>auto simp: lw_state_def builds_fit_def lw_entry_def lw_files_def liveSwitchoverDelay_def liveRetiredRetention_def
        liveMaxAge_def second_def\<close>)
qed


end
