(* ===== verification/Spec2Isabelle.thy ===== *)
theory Spec2Isabelle
  imports DebVersion Deb822 Stanzas AptMeta Pdiff Paths Avail FsStore FileCache MetaStore Ingest Syncer Cleanup Publish Config Snapshot Access Jobs Fetch Live
begin

text \<open>
  A model of debproxy, a caching proxy for Debian repositories written in Go (under \<open>src/\<close>), with the theorems that
  make its parts correct.

  \<^bold>\<open>The program.\<close>  debproxy fetches the index files of upstream mirrors, merges them into one view per operating
  system and codename, serves that view to apt clients, downloads and stores the packages clients ask for, publishes
  signed snapshots and collects what nothing refers to any more.  Several replicas may share a Valkey server.  An
  administration interface starts jobs.

  \<^bold>\<open>Parts, and where they are modelled.\<close>

  \<^item> Texts.  \<^verbatim>\<open>Prelude\<close>: what the code uses of Go's \<^verbatim>\<open>strings\<close>, \<^verbatim>\<open>strconv\<close>, \<^verbatim>\<open>bufio\<close> and \<^verbatim>\<open>sort\<close>, and the interface of
    three-way comparisons (locale \<^verbatim>\<open>three_way\<close>).  \<^verbatim>\<open>DebVersion\<close>: \<^verbatim>\<open>internal/debversion\<close>.  \<^verbatim>\<open>Deb822\<close>, \<^verbatim>\<open>Stanzas\<close>,
    \<^verbatim>\<open>AptMeta\<close>, \<^verbatim>\<open>Pdiff\<close>: \<^verbatim>\<open>internal/apt\<close>; the two streaming readers share the locales \<^verbatim>\<open>stanza_scanner\<close> and
    \<^verbatim>\<open>field_rewriter\<close>.
  \<^item> Storage.  \<^verbatim>\<open>Paths\<close>: \<^verbatim>\<open>path.Clean\<close>, the guard of \<^verbatim>\<open>internal/storage\<close> and the pool paths of \<^verbatim>\<open>internal/model\<close>.
    \<^verbatim>\<open>FsStore\<close>: \<^verbatim>\<open>storage/filesystem\<close>.  \<^verbatim>\<open>FileCache\<close>: \<^verbatim>\<open>storage/filecache\<close> over any backend that keeps the contract of
    locale \<^verbatim>\<open>coherent_backend\<close>.  \<^verbatim>\<open>MetaStore\<close>: \<^verbatim>\<open>metadata/deb822store\<close>.
  \<^item> Upstreams.  \<^verbatim>\<open>Fetch\<close>: the fetcher, its cache and its copy in Valkey (\<^verbatim>\<open>internal/upstream\<close>), with the verification
    calls of \<^verbatim>\<open>internal/signing\<close>.  \<^verbatim>\<open>Avail\<close>: the merge of \<^verbatim>\<open>internal/avail\<close> and the dependency closure.
  \<^item> Packages and publication.  \<^verbatim>\<open>Ingest\<close>: \<^verbatim>\<open>internal/ingest\<close>.  \<^verbatim>\<open>Syncer\<close>, \<^verbatim>\<open>Snapshot\<close>, \<^verbatim>\<open>Cleanup\<close>: \<^verbatim>\<open>internal/syncer\<close>.
    \<^verbatim>\<open>Publish\<close>: \<^verbatim>\<open>internal/publish\<close> over any sink with the contract of locale \<^verbatim>\<open>file_sink\<close> (the filesystem, and the
    memory of the live view).
  \<^item> Serving.  \<^verbatim>\<open>Live\<close>: the live generations of \<^verbatim>\<open>internal/server\<close> (\<^verbatim>\<open>server.go\<close>, \<^verbatim>\<open>valkey.go\<close>): builds, staging,
    promotion, retirement, adoption from peers and requests by hash, with the goroutines as a step relation.
  \<^item> Administration.  \<^verbatim>\<open>Config\<close>: \<^verbatim>\<open>internal/config\<close>.  \<^verbatim>\<open>Access\<close>: \<^verbatim>\<open>internal/auth\<close> and the guard and throttle of
    \<^verbatim>\<open>internal/api\<close>.  \<^verbatim>\<open>Jobs\<close>: the job queue of \<^verbatim>\<open>internal/api\<close>.

  The parts meet as in the code: \<^verbatim>\<open>Build\<close> (Avail) takes what \<^verbatim>\<open>FetchIndex\<close> (Fetch) returns per upstream and reads its
  stanzas with Stanzas and compares versions with DebVersion; \<^verbatim>\<open>Cache\<close> (Ingest) stores a package of the view through
  FsStore and records it in MetaStore; \<^verbatim>\<open>Snapshot\<close> reads MetaStore and publishes through Publish into FsStore; the
  collectors of Cleanup read all of these; a live generation (Live) is a merged view published by Publish into memory.
  The section below composes Fetch, Avail, Ingest and FsStore into one statement.

  \<^bold>\<open>What the lemmas show.\<close>  Texts: the version comparison implements the ordering of Debian Policy and is a total
  preorder; writers and readers of deb822 round trip; a Release gives the digests of its last rows; patch chains reach
  the current file and the stanza-level application of an ed script equals its line-level meaning.  Storage: no path
  leaves the root; pool files are written once; the file cache is transparent and bounded; no update of the index is
  lost by a concurrent flush.  Upstreams: every package returned comes from lists that a Release signed by a key of
  that upstream vouches for, through all caches and replicas; the merged view is the newest version per name with ties
  by configured order, for every schedule of the goroutines; the closure loop ends with exactly the reachable
  packages.  Packages: only verified bytes enter the pool; snapshots publish exactly the newest records in suites that
  verify and read back; the collectors delete nothing that is published.  Serving: in every interleaving the files of
  a generation that was served stay fetchable by hash for the retention time, with bytes of that digest; each layout
  is built by one goroutine at a time.  Administration: only well-formed configurations load; a handler runs only for
  callers with verified credentials and a matching rule, guesses are bounded; every accepted job ends.  Some theorems
  state what the code does where that differs from what it means to do (stale source lists, an index that cannot be
  verified, the update of architecture-independent packages, the status a late writer overwrites, source files the
  collector does not see, a generation lost to an extended predecessor).

  \<^bold>\<open>Conventions.\<close>  A Go string or byte slice is a \<^typ>\<open>string\<close>.  Errors are values.  The order of goroutines and of the
  iteration of Go maps is a parameter of each operation, over which the theorems quantify; the queue and the live
  generations, which have no such order, are step relations whose steps are critical sections.  A failing system call
  is a parameter \<^verbatim>\<open>sys\<close> that may refuse any call on any path.  A mirror is a function of the single call, so it may
  change its mind between calls; Valkey holds values instead of their JSON and any command may fail.  Digests,
  signatures, compressors, the YAML decoder, the JWT parser and the clock are parameters.  Machine integers are
  integers with the wrap-around or the range check written out where the code can reach it.  Loops are recursions,
  structural where the source walks its input and otherwise with a measure (the bytes or lines left, the bytes
  cached); the dependency closure, whose queue may grow, is a partial function of the option type, and it is proved to
  return.  Nothing uses fuel.

  \<^bold>\<open>Not modelled.\<close>  The HTTP handlers (\<^verbatim>\<open>internal/server\<close>: routing, pull-through, response headers), command lines,
  the S3 backend and the Valkey metadata store (calls of client libraries behind the interfaces modelled here), the
  HTTP transport, JWKS and discovery downloads, webhooks, metrics, log writer and watchdog, the reader of package
  archives (\<^verbatim>\<open>internal/deb\<close>) and the \<^verbatim>\<open>rebuild\<close> command that uses it.
\<close>

section \<open>From a signature to a file in the pool\<close>

text \<open>The indices a build uses come from the fetcher: each is what \<open>FetchIndex\<close> or \<open>AdoptFromValkeyOutright\<close> returned for its
  upstream in some state that some calls of some replicas have left.\<close>

definition from_fetcher :: "fetch_lib \<Rightarrow> UpstreamSource set \<Rightarrow> upstreams \<Rightarrow> bool" where
  "from_fetcher L S env \<longleftrightarrow>
     (\<forall>src \<in> S. \<forall>idx. job_index env src = Some idx \<longrightarrow>
        (\<exists>calls valkey r nw w w'. (\<forall>(_, _, s, _) \<in> set calls. s \<in> S) \<and>
           w = replica_world (fold (replica_step L) calls (replicas_start valkey)) r \<and>
           (FetchIndex L nw src w = (Inr idx, w') \<or> AdoptFromValkeyOutright L nw src w = (Some idx, w'))))"

lemma candidate_origin:
  assumes "p \<in> set (candidates os cn env jobs c a)"
  shows "\<exists>src idx arch sts raw. (c, src) \<in> set jobs \<and> job_index env src = Some idx \<and> arch \<in> {a, ''all''} \<and>
    (arch, sts) \<in> set (ix_ByArch idx) \<and> raw \<in> set sts \<and> buildPkg os cn c arch src raw = Some p"
proof -
  obtain arch job where j: "arch \<in> {a, ''all''}" "job \<in> set jobs" "fst job = c" "p \<in> set (job_pkgs os cn env arch job)"
    using assms by (fastforce simp: candidates_def Let_def)
  obtain src where job: "job = (c, src)" using j(3) by (cases job) simp
  obtain idx sts where i: "job_index env src = Some idx" "map_of (ix_ByArch idx) arch = Some sts" "p \<in> set (built os cn c arch src sts)"
    using j(4) by (simp add: job_pkgs_def job split: option.split_asm) (metis (no_types))
  then obtain raw where "raw \<in> set sts" "buildPkg os cn c arch src raw = Some p" by (auto simp: built_def List.map_filter_def)
  then show ?thesis using j(1,2) job i(1) map_of_SomeD[OF i(2)] by blast
qed

lemma listed_origin:
  assumes "schedule_ok sch" "jobs = jobs_of (layouts_of layouts osName codename)" "indices_ok env jobs"
    and "Build sch env layouts osName codename = (av, ev, fresh)" "map_of (component_arches av c) a = Some dest" "dest n = Some p"
    and "config_ok S" "snd ` set jobs \<subseteq> S" "from_fetcher L S env"
  shows "\<exists>arch raw. arch \<in> {a, ''all''} \<and> (c, pk_Upstream p) \<in> set jobs \<and> genuine_pkg L (pk_Upstream p) arch raw \<and>
    rp_Package raw = n \<and> rp_Version raw = pk_Version p \<and> rp_SHA256 raw = pk_SHA256 p"
proof -
  have "p \<in> set (filter (\<lambda>q. pk_Name q = n) (candidates osName codename env jobs c a))"
    by (rule newest_of_member[OF iffD1[OF Build_newest[OF assms(1-5)] assms(6)]])
  then have p: "p \<in> set (candidates osName codename env jobs c a)" "pk_Name p = n" by auto
  obtain src idx arch sts raw where org: "(c, src) \<in> set jobs" "job_index env src = Some idx" "arch \<in> {a, ''all''}"
      "(arch, sts) \<in> set (ix_ByArch idx)" "raw \<in> set sts" "buildPkg osName codename c arch src raw = Some p"
    using candidate_origin[OF p(1)] by blast
  have src: "src \<in> S" using org(1) assms(8) by force
  then obtain calls valkey r nw w w' where f: "\<forall>(_, _, s, _) \<in> set calls. s \<in> S"
      "w = replica_world (fold (replica_step L) calls (replicas_start valkey)) r"
      "FetchIndex L nw src w = (Inr idx, w') \<or> AdoptFromValkeyOutright L nw src w = (Some idx, w')"
    using assms(9) org(2) unfolding from_fetcher_def by blast
  have "genuine_pkg L src arch raw"
    using fetched_pkgs_ok[OF assms(7) f(1) src f(2,3)] org(4,5) unfolding pkgs_ok_def by blast
  moreover have "pk_Upstream p = src" "rp_Package raw = pk_Name p" "rp_Version raw = pk_Version p" "rp_SHA256 raw = pk_SHA256 p"
    using org(6) by (auto simp: buildPkg_def Let_def split: if_splits)
  ultimately show ?thesis using org(1,3) p(2) by blast
qed

text \<open>C1: From a signature to a file in the pool.  For every package the merged view lists, a Release that is signed by a key of
  the upstream it is credited to vouches for a stanza with this name, version and SHA256; and caching the package, whatever
  the mirror sends and whichever calls fail, changes no file but its own pool file, that one only where there was none, and
  only to bytes with this SHA256.  This holds for every schedule of the build, every history of the fetch caches of all
  replicas and every behaviour of the mirrors, of Valkey and of the filesystem.\<close>

theorem pool_is_vouched:
  assumes "schedule_ok sch" "jobs = jobs_of (layouts_of layouts osName codename)" "indices_ok env jobs"
    and "Build sch env layouts osName codename = (av, ev, fresh)" "map_of (component_arches av c) a = Some dest" "dest n = Some p"
    and "config_ok S" "snd ` set jobs \<subseteq> S" "from_fetcher L S env"
    and "absPool s (pk_PoolPath p) = Some path" "Cache (fl_sha256 L) sys now s fetch osName codename p notify w = (err, w')"
  shows "\<exists>arch raw. arch \<in> {a, ''all''} \<and> (c, pk_Upstream p) \<in> set jobs \<and> genuine_pkg L (pk_Upstream p) arch raw \<and>
    rp_Package raw = n \<and> rp_Version raw = pk_Version p \<and>
    adds_verified (fl_sha256 L) path (rp_SHA256 raw) (iw_files w) (iw_files w')"
proof -
  obtain cl where "CacheStreaming (fl_sha256 L) sys now s fetch osName codename p notify None w = (err, cl, w')"
    using assms(11) by (auto simp: Cache_def split: prod.splits)
  from CacheStreaming_verified[OF assms(10) this] listed_origin[OF assms(1-9)] show ?thesis by metis
qed

definition wit_fetched :: Index where
  "wit_fetched = \<lparr>ix_ByArch = [(''x'', Fetch.wit_pkgs)], ix_HasStaleMismatch = False\<rparr>"

definition wit_upstreams :: upstreams where
  "wit_upstreams = \<lparr>up_cache = True, up_layoutDataFresh = False, up_adopt = (\<lambda>_. None), up_fetch = (\<lambda>_. Some wit_fetched),
     up_adoptSources = (\<lambda>_. None), up_fetchSources = (\<lambda>_. None)\<rparr>"

definition wit_layout :: "Layout list" where
  "wit_layout = [\<lparr>ly_OS = ''o'', ly_Codename = ''c'', ly_Component = ''m'', ly_Archs = [''x''], ly_HashTypes = [], ly_Upstreams = [wit_source]\<rparr>]"

definition wit_listed :: Pkg where
  "wit_listed = the (buildPkg ''o'' ''c'' ''m'' ''x'' wit_source (hd Fetch.wit_pkgs))"

lemma wit_fetched_ok: "\<exists>w'. FetchIndex wit_lib (wit_mirror 0 wit_index) wit_source (wit_fetcher Map.empty) = (Inr wit_fetched, w')"
proof -
  have "releaseServedArchs wit_rel (us_Component wit_source) (us_Archs wit_source) = [''x'']" by code_simp
  then have "fetch_archs wit_lib (wit_mirror 0 wit_index) wit_source wit_rel None
      (releaseServedArchs wit_rel (us_Component wit_source) (us_Archs wit_source)) = ([(''x'', Fetch.wit_pkgs)], False, True)"
    by (simp add: wit_packages)
  then show ?thesis
    using wit_stale[of Map.empty 0 wit_index] by (simp add: fetch_packages_def wit_ParseRelease wit_fetched_def Let_def)
qed

lemma wit_from_fetcher: "from_fetcher wit_lib {wit_source} wit_upstreams"
proof -
  have "replica_world (fold (replica_step wit_lib) [] (replicas_start False)) 0 = wit_fetcher Map.empty"
    by (simp add: replica_world_def replicas_start_def wit_fetcher_def)
  moreover obtain w' where "FetchIndex wit_lib (wit_mirror 0 wit_index) wit_source (wit_fetcher Map.empty) = (Inr wit_fetched, w')"
    using wit_fetched_ok by blast
  ultimately have "\<exists>calls valkey r nw w w'. (\<forall>(_, _, s, _) \<in> set calls. s \<in> {wit_source}) \<and>
      w = replica_world (fold (replica_step wit_lib) calls (replicas_start valkey)) r \<and>
      (FetchIndex wit_lib nw wit_source w = (Inr wit_fetched, w') \<or> AdoptFromValkeyOutright wit_lib nw wit_source w = (Some wit_fetched, w'))"
    by (intro exI[of _ "[]"] exI[of _ False] exI[of _ 0] exI[of _ "wit_mirror 0 wit_index"] exI[of _ "wit_fetcher Map.empty"] exI[of _ w']) simp
  then show ?thesis by (simp add: from_fetcher_def job_index_def wit_upstreams_def)
qed

theorem pool_is_vouched_witness:
  "\<exists>w'. Cache (fl_sha256 wit_lib) (\<lambda>_ _. False) 9 (fs_New ''/srv'') (\<lambda>_ _. Some ([''de'', ''b''], Eof)) ''o'' ''c'' wit_listed True wit_world = (None, w') \<and>
     (\<exists>arch raw. arch \<in> {''x'', ''all''} \<and> genuine_pkg wit_lib wit_source arch raw \<and> rp_Package raw = ''a'' \<and>
        adds_verified (fl_sha256 wit_lib) ''/srv/pool/o/c/u/misc/a/a/a.deb'' (rp_SHA256 raw) [] (iw_files w'))"
proof -
  let ?jobs = "jobs_of (layouts_of wit_layout ''o'' ''c'')"
  let ?b = "Build wit_sch wit_upstreams wit_layout ''o'' ''c''"
  have jobs: "?jobs = [(''m'', wit_source)]" by (simp add: jobs_of_def layouts_of_def wit_layout_def)
  have ix: "indices_ok wit_upstreams ?jobs" by code_simp
  have "(case map_of (component_arches (fst ?b) ''m'') ''x'' of None \<Rightarrow> None | Some dest \<Rightarrow> dest ''a'') = Some wit_listed" by code_simp
  then obtain dest where d: "map_of (component_arches (fst ?b) ''m'') ''x'' = Some dest" "dest ''a'' = Some wit_listed"
    by (auto split: option.splits)
  have b: "?b = (fst ?b, fst (snd ?b), snd (snd ?b))" by simp
  have path: "absPool (fs_New ''/srv'') (pk_PoolPath wit_listed) = Some ''/srv/pool/o/c/u/misc/a/a/a.deb''" by code_simp
  have "fst (Cache (fl_sha256 wit_lib) (\<lambda>_ _. False) 9 (fs_New ''/srv'') (\<lambda>_ _. Some ([''de'', ''b''], Eof)) ''o'' ''c'' wit_listed True wit_world) = None"
    by code_simp
  then obtain w' where w: "Cache (fl_sha256 wit_lib) (\<lambda>_ _. False) 9 (fs_New ''/srv'') (\<lambda>_ _. Some ([''de'', ''b''], Eof)) ''o'' ''c'' wit_listed True wit_world = (None, w')"
    by (metis prod.collapse)
  have up: "pk_Upstream wit_listed = wit_source" by code_simp
  have "snd ` set ?jobs \<subseteq> {wit_source}" by (simp add: jobs)
  from pool_is_vouched[OF wit_schedules(1) refl ix b d wit_plain this wit_from_fetcher path w] w up
  show ?thesis by (auto simp: wit_world_def)
qed

end
